(* ===== verification/Free_Queue.thy ===== *)
theory Free_Queue
  imports Prelude
begin

text \<open>
  The free block queue of \<^verbatim>\<open>vllm/v1/core/kv_cache_utils.py\<close>: \<^verbatim>\<open>KVCacheBlock\<close> objects linked into
  a doubly linked list between two fake blocks by \<^verbatim>\<open>FreeKVCacheBlockQueue\<close>. The Python objects
  live in an explicit heap (a function from references to records), so that the pointer
  updates are modelled one by one; the theorems show that every operation implements the
  corresponding operation on a plain list of free blocks.
\<close>

section \<open>Blocks and the heap\<close>

datatype block_ref = Fake_head | Fake_tail | Block nat

fun block_id :: "block_ref \<Rightarrow> int" where
  "block_id (Block i) = int i"
| "block_id Fake_head = -1"
| "block_id Fake_tail = -1"

record kv_block =
  ref_cnt :: int
  block_hash :: "bytes option"
  block_hash_num_tokens :: "int option"
  prev_free_block :: "block_ref option"
  next_free_block :: "block_ref option"
  is_null :: bool

definition fresh_block :: kv_block where
  "fresh_block = \<lparr>ref_cnt = 0, block_hash = None, block_hash_num_tokens = None,
     prev_free_block = None, next_free_block = None, is_null = False\<rparr>"

definition set_block_hash :: "bytes \<Rightarrow> int option \<Rightarrow> kv_block \<Rightarrow> kv_block res" where
  "set_block_hash k num_tokens b =
     (if block_hash b = None \<and> block_hash_num_tokens b = None
      then Inr (b\<lparr>block_hash := Some k, block_hash_num_tokens := num_tokens\<rparr>)
      else Inl AssertionError)"

definition reset_hash :: "kv_block \<Rightarrow> kv_block" where
  "reset_hash b = b\<lparr>block_hash := None, block_hash_num_tokens := None\<rparr>"

type_synonym heap = "block_ref \<Rightarrow> kv_block"

record kv_store =
  heap :: heap
  num_free_blocks :: int

definition modify :: "block_ref \<Rightarrow> (kv_block \<Rightarrow> kv_block) \<Rightarrow> kv_store \<Rightarrow> kv_store" where
  "modify r f s = s\<lparr>heap := (heap s)(r := f (heap s r))\<rparr>"

abbreviation set_prev :: "block_ref \<Rightarrow> block_ref option \<Rightarrow> kv_store \<Rightarrow> kv_store" where
  "set_prev r v \<equiv> modify r (prev_free_block_update (\<lambda>_. v))"

abbreviation set_next :: "block_ref \<Rightarrow> block_ref option \<Rightarrow> kv_store \<Rightarrow> kv_store" where
  "set_next r v \<equiv> modify r (next_free_block_update (\<lambda>_. v))"

abbreviation nxt :: "kv_store \<Rightarrow> block_ref \<Rightarrow> block_ref option" where
  "nxt s r \<equiv> next_free_block (heap s r)"

abbreviation prv :: "kv_store \<Rightarrow> block_ref \<Rightarrow> block_ref option" where
  "prv s r \<equiv> prev_free_block (heap s r)"

section \<open>The operations of \<^verbatim>\<open>FreeKVCacheBlockQueue\<close>\<close>

definition link_consecutive :: "block_ref list \<Rightarrow> nat \<Rightarrow> kv_store \<Rightarrow> kv_store" where
  \<comment> \<open>one iteration of the loop in \<^verbatim>\<open>__init__\<close>\<close>
  "link_consecutive bs i s =
     (let s1 = (if 0 < i then set_prev (bs ! i) (Some (bs ! (i - 1))) s else s)
      in if i + 1 < length bs then set_next (bs ! i) (Some (bs ! (i + 1))) s1 else s1)"

definition fq_init :: "block_ref list \<Rightarrow> heap \<Rightarrow> kv_store" where
  "fq_init bs h =
     (let s0 = \<lparr>heap = h, num_free_blocks = int (length bs)\<rparr>;
          s1 = fold (link_consecutive bs) [0..<length bs] s0;
          s2 = modify Fake_tail (\<lambda>_. fresh_block) (modify Fake_head (\<lambda>_. fresh_block) s1)
      in if 0 < length bs
         then set_next (last bs) (Some Fake_tail)
                (set_prev Fake_tail (Some (last bs))
                  (set_prev (hd bs) (Some Fake_head)
                    (set_next Fake_head (Some (hd bs)) s2)))
         else set_prev Fake_tail (Some Fake_head) (set_next Fake_head (Some Fake_tail) s2))"

definition popleft :: "kv_store \<Rightarrow> (block_ref \<times> kv_store) res" where
  "popleft s =
     (case nxt s Fake_head of
        None \<Rightarrow> Inl (if num_free_blocks s = 0 then ValueError else AssertionError)
      | Some first \<Rightarrow>
          if first = Fake_tail
          then Inl (if num_free_blocks s = 0 then ValueError else AssertionError)
          else case nxt s first of
                 None \<Rightarrow> Inl RuntimeError
               | Some second \<Rightarrow>
                   let s1 = set_next Fake_head (Some second) s;
                       s2 = set_prev second (Some Fake_head) s1;
                       s3 = set_next first None (set_prev first None s2)
                   in Inr (first, s3\<lparr>num_free_blocks := num_free_blocks s3 - 1\<rparr>))"

fun popleft_n_loop ::
  "nat \<Rightarrow> block_ref option \<Rightarrow> kv_store \<Rightarrow> (block_ref list \<times> block_ref option \<times> kv_store) res"
where
  "popleft_n_loop 0 cur s = Inr ([], cur, s)"
| "popleft_n_loop (Suc k) None s = Inl AssertionError"
| "popleft_n_loop (Suc k) (Some c) s =
     rbind (popleft_n_loop k (nxt s c) (set_next c None (set_prev c None s)))
       (\<lambda>(ret, cur, s'). Inr (c # ret, cur, s'))"

definition popleft_n :: "int \<Rightarrow> kv_store \<Rightarrow> (block_ref list \<times> kv_store) res" where
  "popleft_n n s =
     (if n = 0 then Inr ([], s)
      else if num_free_blocks s < n then Inl AssertionError
      else let s0 = s\<lparr>num_free_blocks := num_free_blocks s - n\<rparr>
           in rbind (popleft_n_loop (nat n) (nxt s0 Fake_head) s0) (\<lambda>(ret, cur, s1).
                case cur of
                  None \<Rightarrow> Inr (ret, s1)
                | Some c \<Rightarrow>
                    Inr (ret, set_prev c (Some Fake_head) (set_next Fake_head (Some c) s1))))"

definition remove_block :: "block_ref \<Rightarrow> kv_store \<Rightarrow> kv_store res" where
  "remove_block b s =
     (case (prv s b, nxt s b) of
        (Some p, Some n) \<Rightarrow>
          let s1 = set_prev n (Some p) (set_next p (Some n) s);
              s2 = set_next b None (set_prev b None s1)
          in Inr (s2\<lparr>num_free_blocks := num_free_blocks s2 - 1\<rparr>)
      | _ \<Rightarrow> Inl RuntimeError)"

definition append_block :: "block_ref \<Rightarrow> kv_store \<Rightarrow> kv_store res" where
  "append_block b s =
     (case prv s Fake_tail of
        None \<Rightarrow> Inl RuntimeError
      | Some l \<Rightarrow>
          let s1 = set_prev b (Some l) (set_next l (Some b) s);
              s2 = set_prev Fake_tail (Some b) (set_next b (Some Fake_tail) s1)
          in Inr (s2\<lparr>num_free_blocks := num_free_blocks s2 + 1\<rparr>))"

fun chain_blocks :: "block_ref \<Rightarrow> block_ref list \<Rightarrow> kv_store \<Rightarrow> block_ref \<times> kv_store" where
  \<comment> \<open>the loop shared by \<^verbatim>\<open>prepend_n\<close> and \<^verbatim>\<open>append_n\<close>\<close>
  "chain_blocks l [] s = (l, s)"
| "chain_blocks l (b # bs) s = chain_blocks b bs (set_next l (Some b) (set_prev b (Some l) s))"

definition prepend_n :: "block_ref list \<Rightarrow> kv_store \<Rightarrow> kv_store res" where
  "prepend_n bs s =
     (if bs = [] then Inr s
      else case nxt s Fake_head of
             None \<Rightarrow> Inl AssertionError
           | Some first \<Rightarrow>
               (case chain_blocks Fake_head bs s of (l, s1) \<Rightarrow>
                  let s2 = set_prev first (Some l) (set_next l (Some first) s1)
                  in Inr (s2\<lparr>num_free_blocks := num_free_blocks s2 + int (length bs)\<rparr>)))"

definition append_n :: "block_ref list \<Rightarrow> kv_store \<Rightarrow> kv_store res" where
  "append_n bs s =
     (if bs = [] then Inr s
      else case prv s Fake_tail of
             None \<Rightarrow> Inl AssertionError
           | Some l0 \<Rightarrow>
               (case chain_blocks l0 bs s of (l, s1) \<Rightarrow>
                  let s2 = set_prev Fake_tail (Some l) (set_next l (Some Fake_tail) s1)
                  in Inr (s2\<lparr>num_free_blocks := num_free_blocks s2 + int (length bs)\<rparr>)))"

partial_function (option) collect_free ::
  "heap \<Rightarrow> block_ref \<Rightarrow> block_ref list \<Rightarrow> block_ref list option"
where
  "collect_free h c acc =
     (case next_free_block (h c) of
        None \<Rightarrow> Some acc
      | Some n \<Rightarrow> collect_free h n (acc @ [c]))"

definition get_all_free_blocks :: "kv_store \<Rightarrow> block_ref list option res" where
  \<comment> \<open>\<^term>\<open>None\<close> inside the result: the traversal does not end\<close>
  "get_all_free_blocks s =
     (case nxt s Fake_head of
        None \<Rightarrow> Inl RuntimeError
      | Some c \<Rightarrow> Inr (collect_free (heap s) c []))"

partial_function (option) iterate_free ::
  "heap \<Rightarrow> block_ref option \<Rightarrow> block_ref list \<Rightarrow> block_ref list option"
where
  "iterate_free h cur acc =
     (case cur of
        None \<Rightarrow> Some acc
      | Some c \<Rightarrow>
          if c = Fake_tail then Some acc
          else iterate_free h (next_free_block (h c)) (acc @ [c]))"

definition iter_blocks_after :: "block_ref option \<Rightarrow> kv_store \<Rightarrow> block_ref list option" where
  "iter_blocks_after cursor s =
     iterate_free (heap s)
       (case cursor of None \<Rightarrow> nxt s Fake_head | Some c \<Rightarrow> nxt s c) []"

section \<open>The list a heap represents\<close>

text \<open>
  \<open>is_fq s xs\<close>: the links of the heap are exactly those of the list \<open>xs\<close> between the two fake
  blocks, every other block is unlinked, and the counter agrees. \<open>relink\<close>, \<open>unlink\<close> and \<open>npath\<close>
  describe what the loops of the source do to the links; \<open>payload\<close> is a block without its links.
\<close>

fun succ_of :: "'a list \<Rightarrow> 'a \<Rightarrow> 'a option" where
  "succ_of (a # b # rs) x = (if x = a then Some b else succ_of (b # rs) x)"
| "succ_of _ x = None"

fun pred_of :: "'a list \<Rightarrow> 'a \<Rightarrow> 'a option" where
  "pred_of (a # b # rs) x = (if x = b then Some a else pred_of (b # rs) x)"
| "pred_of _ x = None"

definition ring :: "block_ref list \<Rightarrow> block_ref list" where
  "ring xs = Fake_head # xs @ [Fake_tail]"

definition is_fq :: "kv_store \<Rightarrow> block_ref list \<Rightarrow> bool" where
  "is_fq s xs \<longleftrightarrow>
     distinct (ring xs) \<and> nxt s = succ_of (ring xs) \<and> prv s = pred_of (ring xs) \<and>
     num_free_blocks s = int (length xs)"

definition relink ::
  "(block_ref \<Rightarrow> block_ref option) \<Rightarrow> (block_ref \<Rightarrow> block_ref option) \<Rightarrow> kv_store \<Rightarrow> kv_store"
where
  "relink P N s = s\<lparr>heap := (\<lambda>b. (heap s b)
     \<lparr>prev_free_block := (case P b of None \<Rightarrow> prv s b | Some p \<Rightarrow> Some p),
      next_free_block := (case N b of None \<Rightarrow> nxt s b | Some n \<Rightarrow> Some n)\<rparr>)\<rparr>"

definition overlay :: "block_ref list \<Rightarrow> kv_store \<Rightarrow> kv_store" where
  "overlay bs s = relink (pred_of bs) (succ_of bs) s"

fun npath :: "('a \<Rightarrow> 'a option) \<Rightarrow> 'a option \<Rightarrow> 'a list \<Rightarrow> 'a option \<Rightarrow> bool" where
  "npath f c [] l = (c = l)"
| "npath f c (a # as) l = (c = Some a \<and> npath f (f a) as l)"

definition unlink :: "block_ref set \<Rightarrow> kv_store \<Rightarrow> kv_store" where
  "unlink A s = s\<lparr>heap := (\<lambda>b. if b \<in> A
     then (heap s b)\<lparr>prev_free_block := None, next_free_block := None\<rparr> else heap s b)\<rparr>"

definition payload :: "kv_store \<Rightarrow> block_ref \<Rightarrow> kv_block" where
  "payload s b = (heap s b)\<lparr>prev_free_block := None, next_free_block := None\<rparr>"



section \<open>Links of a list\<close>

lemma heap_modify [simp]: "heap (modify r f s) = (heap s)(r := f (heap s r))"
  by (simp add: modify_def)

lemma num_free_modify [simp]: "num_free_blocks (modify r f s) = num_free_blocks s"
  by (simp add: modify_def)

lemma succ_of_None: "b \<notin> set (butlast ns) \<Longrightarrow> succ_of ns b = None"
  by (induction ns b rule: succ_of.induct) auto

lemma pred_of_None: "b \<notin> set (tl ns) \<Longrightarrow> pred_of ns b = None"
  by (induction ns b rule: pred_of.induct) auto

lemma succ_of_notin [simp]: "b \<notin> set ns \<Longrightarrow> succ_of ns b = None"
  by (induction ns b rule: succ_of.induct) auto

lemma pred_of_notin [simp]: "b \<notin> set ns \<Longrightarrow> pred_of ns b = None"
  by (induction ns b rule: pred_of.induct) auto

lemma succ_of_SomeD: "succ_of ns x = Some y \<Longrightarrow> x \<in> set ns"
  by (metis succ_of_notin option.distinct(1))

lemma pred_of_SomeD: "pred_of ns x = Some y \<Longrightarrow> x \<in> set ns"
  by (metis pred_of_notin option.distinct(1))

lemma succ_of_butlast: "succ_of ns x = None \<longleftrightarrow> x \<notin> set (butlast ns)"
  by (induction ns x rule: succ_of.induct) auto

lemma pred_of_hd: "a \<notin> set ns \<Longrightarrow> pred_of (a # ns) a = None"
  by (rule pred_of_None) auto

lemma succ_of_split:
  "distinct (ps @ a # b # ns) \<Longrightarrow> succ_of (ps @ a # b # ns) x =
     (if x = a then Some b else if x \<in> set ps then succ_of (ps @ [a]) x else succ_of (b # ns) x)"
  by (induction ps x rule: succ_of.induct) auto

lemma pred_of_split:
  "distinct (ps @ a # b # ns) \<Longrightarrow> pred_of (ps @ a # b # ns) x =
     (if x = b then Some a else if x \<in> set (ps @ [a]) then pred_of (ps @ [a]) x
      else pred_of (b # ns) x)"
  by (induction ps x rule: pred_of.induct) auto

lemma succ_of_snoc:
  "distinct (ns @ [t]) \<Longrightarrow> ns \<noteq> [] \<Longrightarrow>
     succ_of (ns @ [t]) x = (if x = last ns then Some t else succ_of ns x)"
  by (induction ns x rule: succ_of.induct) (auto split: if_splits)

lemma pred_of_snoc:
  "distinct (ns @ [t]) \<Longrightarrow> ns \<noteq> [] \<Longrightarrow>
     pred_of (ns @ [t]) x = (if x = t then Some (last ns) else pred_of ns x)"
  by (induction ns x rule: pred_of.induct) (auto split: if_splits)

lemma succ_of_skip: "x \<notin> set ps \<Longrightarrow> succ_of (ps @ ns) x = succ_of ns x"
  by (induction ps x rule: succ_of.induct) (auto, (cases ns; auto)+)

lemma pred_of_skip: "x \<notin> set (ps @ [n]) \<Longrightarrow> pred_of (ps @ n # ns) x = pred_of (n # ns) x"
  by (induction ps x rule: pred_of.induct) auto

lemma is_fqI:
  assumes "distinct (ring xs)" and "\<And>b. nxt s b = succ_of (ring xs) b"
    and "\<And>b. prv s b = pred_of (ring xs) b" and "num_free_blocks s = int (length xs)"
  shows "is_fq s xs"
  using assms by (auto simp: is_fq_def fun_eq_iff)

lemma is_fqD:
  assumes "is_fq s xs"
  shows "distinct (ring xs)" and "nxt s b = succ_of (ring xs) b"
    and "prv s b = pred_of (ring xs) b" and "num_free_blocks s = int (length xs)"
  using assms by (auto simp: is_fq_def fun_eq_iff)

section \<open>Operations on the represented list\<close>

lemma popleft_Cons:
  assumes "is_fq s (x # xs)"
  shows "\<exists>s'. popleft s = Inr (x, s') \<and> is_fq s' xs"
proof -
  obtain n ns where ns: "xs @ [Fake_tail] = n # ns" by (cases xs) auto
  note D = is_fqD [OF assms, unfolded ring_def append_Cons ns]
  have neq: "x \<noteq> Fake_tail" using ns D(1) by (cases xs) auto
  have x: "nxt s Fake_head = Some x" and n: "nxt s x = Some n" 
    using D(1) by (auto simp: D(2))
  let ?s1 = "set_next x None (set_prev x None (set_prev n (Some Fake_head) (set_next Fake_head (Some n) s)))"
  let ?s = "?s1\<lparr>num_free_blocks := num_free_blocks ?s1 - 1\<rparr>"
  have "popleft s = Inr (x, ?s)"
    using x n neq D(1) by (simp add: popleft_def Let_def)
  moreover have "is_fq ?s xs"
  proof (rule is_fqI)
    show "nxt ?s b = succ_of (ring xs) b" for b
      using D(1) by (auto simp: D(2) ring_def ns)
    show "prv ?s b = pred_of (ring xs) b" for b
      using D(1) by (auto simp: D(3) ring_def ns pred_of_hd)
  qed (use D ns in \<open>auto simp: ring_def\<close>)
  ultimately show ?thesis by blast
qed

lemma popleft_Nil:
  assumes "is_fq s []"
  shows "popleft s = Inl ValueError"
  using is_fqD [OF assms] by (simp add: popleft_def ring_def)

lemma remove_block_middle:
  assumes "is_fq s (us @ b # vs)"
  shows "\<exists>s'. remove_block b s = Inr s' \<and> is_fq s' (us @ vs)"
proof -
  obtain ps p where ps: "Fake_head # us = ps @ [p]" by (metis rev_exhaust list.distinct(1))
  obtain n ns where ns: "vs @ [Fake_tail] = n # ns" by (cases vs) auto
  have "ring (us @ b # vs) = (Fake_head # us) @ b # vs @ [Fake_tail]"
    "ring (us @ vs) = (Fake_head # us) @ vs @ [Fake_tail]" by (simp_all add: ring_def)
  then have r: "ring (us @ b # vs) = ps @ p # b # n # ns" "ring (us @ vs) = ps @ p # n # ns"
    unfolding ps ns by simp_all
  note D = is_fqD [OF assms, unfolded r]
  have pn: "prv s b = Some p" "nxt s b = Some n"
    using D(1) by (auto simp: D(2,3) succ_of_split pred_of_split)
  let ?s1 = "set_next b None (set_prev b None (set_prev n (Some p) (set_next p (Some n) s)))"
  let ?s = "?s1\<lparr>num_free_blocks := num_free_blocks ?s1 - 1\<rparr>"
  have "remove_block b s = Inr ?s"
    using pn by (simp add: remove_block_def Let_def)
  moreover have "is_fq ?s (us @ vs)"
  proof (rule is_fqI, unfold r)
    show "nxt ?s x = succ_of (ps @ p # n # ns) x" for x
      using D(1) by (auto simp: D(2) succ_of_split)
    show "prv ?s x = pred_of (ps @ p # n # ns) x" for x
      using D(1) by (auto simp: D(3) pred_of_split)
  qed (use D in auto)
  ultimately show ?thesis by blast
qed

lemma append_block_snoc:
  assumes "is_fq s xs" and "b \<notin> set (ring xs)"
  shows "\<exists>s'. append_block b s = Inr s' \<and> is_fq s' (xs @ [b])"
proof -
  obtain ps p where ps: "Fake_head # xs = ps @ [p]" by (metis rev_exhaust list.distinct(1))
  have "ring xs = (Fake_head # xs) @ [Fake_tail]"
    "ring (xs @ [b]) = (Fake_head # xs) @ [b, Fake_tail]" by (simp_all add: ring_def)
  then have r: "ring xs = ps @ p # [Fake_tail]" "ring (xs @ [b]) = ps @ p # b # [Fake_tail]"
    unfolding ps by simp_all
  note D = is_fqD [OF assms(1), unfolded r]
  have p: "prv s Fake_tail = Some p"
    using D(1) by (auto simp: D(3) pred_of_split)
  let ?s1 = "set_prev Fake_tail (Some b) (set_next b (Some Fake_tail) (set_prev b (Some p) (set_next p (Some b) s)))"
  let ?s = "?s1\<lparr>num_free_blocks := num_free_blocks ?s1 + 1\<rparr>"
  have "append_block b s = Inr ?s"
    using p by (simp add: append_block_def Let_def)
  moreover have "is_fq ?s (xs @ [b])"
  proof (rule is_fqI, unfold r)
    show "nxt ?s x = succ_of (ps @ p # b # [Fake_tail]) x" for x
      using D(1) assms(2) unfolding r by (auto simp: D(2) succ_of_split)
    show "prv ?s x = pred_of (ps @ p # b # [Fake_tail]) x" for x
      using D(1) assms(2) unfolding r by (auto simp: D(3) pred_of_split)
  qed (use D assms(2) r in auto)
  ultimately show ?thesis by blast
qed

lemma overlay_simps [simp]:
  "nxt (overlay bs s) x = (case succ_of bs x of None \<Rightarrow> nxt s x | Some n \<Rightarrow> Some n)"
  "prv (overlay bs s) x = (case pred_of bs x of None \<Rightarrow> prv s x | Some p \<Rightarrow> Some p)"
  "num_free_blocks (overlay bs s) = num_free_blocks s"
  by (simp_all add: overlay_def relink_def)

lemma chain_blocks_overlay:
  "distinct (l # bs) \<Longrightarrow> chain_blocks l bs s = (last (l # bs), overlay (l # bs) s)"
proof (induction bs arbitrary: l s)
  case Nil
  then show ?case by (simp add: overlay_def relink_def)
next
  case (Cons b bs)
  then have "chain_blocks l (b # bs) s =
      (last (b # bs), overlay (b # bs) (set_next l (Some b) (set_prev b (Some l) s)))"
    by simp
  moreover have "overlay (b # bs) (set_next l (Some b) (set_prev b (Some l) s)) = overlay (l # b # bs) s"
    using Cons.prems by (auto simp: overlay_def relink_def fun_eq_iff modify_def pred_of_hd split: option.splits)
  ultimately show ?case by simp
qed

lemma append_n_append:
  assumes "is_fq s xs" and "distinct bs" and "set bs \<inter> set (ring xs) = {}"
  shows "\<exists>s'. append_n bs s = Inr s' \<and> is_fq s' (xs @ bs)"
proof (cases "bs = []")
  case True
  with assms(1) show ?thesis by (simp add: append_n_def)
next
  case False
  obtain ps p where ps: "Fake_head # xs = ps @ [p]" by (metis rev_exhaust list.distinct(1))
  obtain c cs where cs: "bs = c # cs" using False by (cases bs) auto
  have "ring xs = (Fake_head # xs) @ [Fake_tail]"
    "ring (xs @ bs) = (Fake_head # xs) @ bs @ [Fake_tail]" by (simp_all add: ring_def)
  then have r: "ring xs = ps @ p # [Fake_tail]" "ring (xs @ bs) = ps @ p # c # cs @ [Fake_tail]"
    unfolding ps cs by simp_all
  note D = is_fqD [OF assms(1), unfolded r]
  have p: "prv s Fake_tail = Some p"
    using D(1) by (auto simp: D(3) pred_of_split)
  let ?s1 = "set_prev Fake_tail (Some (last bs)) (set_next (last bs) (Some Fake_tail) (overlay (p # bs) s))"
  let ?s = "?s1\<lparr>num_free_blocks := num_free_blocks ?s1 + int (length bs)\<rparr>"
  have "distinct (p # bs)" using assms r by auto
  then have "append_n bs s = Inr ?s"
    using p False by (simp add: append_n_def chain_blocks_overlay Let_def)
  moreover have "is_fq ?s (xs @ bs)"
  proof (rule is_fqI, unfold r)
    have d: "distinct (ps @ p # c # cs @ [Fake_tail])" "distinct (bs @ [Fake_tail])"
      using assms D(1) r cs by auto
    have l: "last bs \<noteq> p" "last bs \<notin> set ps" using d(1) cs last_in_set [OF False] by auto
    have e: "x \<in> set ps \<Longrightarrow> succ_of (c # cs) x = None" for x using d(1) by (intro succ_of_notin) auto
    show "nxt ?s x = succ_of (ps @ p # c # cs @ [Fake_tail]) x" for x
      using d(1) D(1) l e [of x] succ_of_snoc [OF d(2) False, of x] unfolding cs
      by (cases "x \<in> set ps") (auto simp: D(2) succ_of_split split: option.splits)
    have e': "x \<in> set (ps @ [p]) \<Longrightarrow> pred_of (c # cs) x = None" for x
      using d(1) by (intro pred_of_notin) auto
    show "prv ?s x = pred_of (ps @ p # c # cs @ [Fake_tail]) x" for x
      using d(1) D(1) e' [of x] pred_of_snoc [OF d(2) False, of x] unfolding cs
      by (cases "x \<in> set (ps @ [p])") (auto simp: D(3) pred_of_split split: option.splits)
    show "distinct (ps @ p # c # cs @ [Fake_tail])" by (rule d(1))
  qed (use D in \<open>auto\<close>)
  ultimately show ?thesis by blast
qed

lemma prepend_n_append:
  assumes "is_fq s xs" and "distinct bs" and "set bs \<inter> set (ring xs) = {}"
  shows "\<exists>s'. prepend_n bs s = Inr s' \<and> is_fq s' (bs @ xs)"
proof (cases "bs = []")
  case True
  with assms(1) show ?thesis by (simp add: prepend_n_def)
next
  case False
  obtain n ns where ns: "xs @ [Fake_tail] = n # ns" by (cases xs) auto
  have r: "ring xs = Fake_head # n # ns" "ring (bs @ xs) = Fake_head # bs @ n # ns"
    using ns by (simp_all add: ring_def)
  note D = is_fqD [OF assms(1), unfolded r]
  obtain ds l where l: "Fake_head # bs = ds @ [l]" by (metis rev_exhaust list.distinct(1))
  have n: "nxt s Fake_head = Some n" by (simp add: D(2))
  let ?s1 = "set_prev n (Some l) (set_next l (Some n) (overlay (Fake_head # bs) s))"
  let ?s = "?s1\<lparr>num_free_blocks := num_free_blocks ?s1 + int (length bs)\<rparr>"
  have rl: "ds @ l # n # ns = (Fake_head # bs) @ n # ns" using l by simp
  have d: "distinct (ds @ l # n # ns)" unfolding rl using assms(2,3) D(1) r(1) by auto
  have "prepend_n bs s = Inr ?s"
    using n False d l
    by (simp add: prepend_n_def chain_blocks_overlay Let_def)
  moreover have "is_fq ?s (bs @ xs)"
  proof (rule is_fqI)
    have r2: "ring (bs @ xs) = ds @ l # n # ns" using r rl by simp
    have h: "Fake_head \<in> set ds" using l False by (cases ds) auto
    have e: "x \<in> set bs \<Longrightarrow> pred_of (n # ns) x = None" for x
      using assms(3) r(1) by (intro pred_of_notin) auto
    show "nxt ?s x = succ_of (ring (bs @ xs)) x" for x
      using d D(1) h succ_of_butlast [of "ds @ [l]" x] unfolding r2 succ_of_split [OF d] 
      by (auto simp: l D(2) dest: succ_of_SomeD split: option.splits)
    show "prv ?s x = pred_of (ring (bs @ xs)) x" for x
      using d D(1) e [of x] unfolding r2 pred_of_split [OF d] r(1) l [symmetric]
      by (auto simp: D(3) pred_of_hd dest: pred_of_SomeD split: option.splits)
    show "distinct (ring (bs @ xs))" using d r2 by simp
  qed (use D in \<open>auto\<close>)
  ultimately show ?thesis by blast
qed

lemma npath_cong: "(\<And>a. a \<in> set as \<Longrightarrow> f a = g a) \<Longrightarrow> npath f c as l = npath g c as l"
  by (induction as arbitrary: c) auto

lemma npath_succ_of:
  "(\<And>x. x \<in> set (a # xs) \<Longrightarrow> f x = succ_of (a # xs @ y # zs) x) \<Longrightarrow> distinct (a # xs @ [y]) \<Longrightarrow>
     npath f (f a) xs (Some y)"
proof (induction xs arbitrary: a)
  case Nil
  then show ?case by simp
next
  case (Cons b xs)
  have "npath f (f b) xs (Some y)"
    using Cons.prems by (intro Cons.IH) (auto split: if_splits)
  then show ?case using Cons.prems(1) [of a] by simp
qed

lemma is_fq_npath:
  assumes "is_fq s (us @ b # xs @ ys)"
  shows "npath (nxt s) (nxt s b) xs (Some (hd (ys @ [Fake_tail])))"
proof -
  obtain n ns where ns: "ys @ [Fake_tail] = n # ns" by (cases ys) auto
  have r: "ring (us @ b # xs @ ys) = (Fake_head # us) @ b # xs @ n # ns"
    using ns by (simp add: ring_def)
  note D = is_fqD [OF assms, unfolded r]
  have "succ_of ((Fake_head # us) @ b # xs @ n # ns) x = succ_of (b # xs @ n # ns) x"
    if "x \<in> set (b # xs)" for x
    using D(1) that by (intro succ_of_skip) auto
  then have "npath (nxt s) (nxt s b) xs (Some n)"
    using D(1) by (intro npath_succ_of [of b xs "nxt s" n ns]) (auto simp: D(2))
  then show ?thesis by (simp add: ns)
qed

lemma is_fq_npath_head:
  assumes "is_fq s (xs @ ys)"
  shows "npath (nxt s) (nxt s Fake_head) xs (Some (hd (ys @ [Fake_tail])))"
proof -
  obtain n ns where ns: "ys @ [Fake_tail] = n # ns" by (cases ys) auto
  have r: "ring (xs @ ys) = Fake_head # xs @ n # ns"
    using ns by (simp add: ring_def)
  note D = is_fqD [OF assms, unfolded r]
  show ?thesis using D(1) by (auto simp: ns D(2) intro!: npath_succ_of)
qed

lemma unlink_simps [simp]:
  "nxt (unlink A s) x = (if x \<in> A then None else nxt s x)"
  "prv (unlink A s) x = (if x \<in> A then None else prv s x)"
  "num_free_blocks (unlink A s) = num_free_blocks s"
  by (simp_all add: unlink_def)

lemma popleft_n_loop_unlink:
  "distinct cs \<Longrightarrow> npath (nxt s) c cs l \<Longrightarrow>
     popleft_n_loop (length cs) c s = Inr (cs, l, unlink (set cs) s)"
proof (induction cs arbitrary: c s)
  case Nil
  then show ?case by (simp add: unlink_def)
next
  case (Cons a cs)
  let ?s = "set_next a None (set_prev a None s)"
  have "npath (nxt ?s) (nxt s a) cs l = npath (nxt s) (nxt s a) cs l"
    using Cons.prems(1) by (intro npath_cong) auto
  then have "popleft_n_loop (length cs) (nxt s a) ?s = Inr (cs, l, unlink (set cs) ?s)"
    using Cons by auto
  moreover have "unlink (set cs) ?s = unlink (set (a # cs)) s"
    using Cons.prems(1) by (auto simp: unlink_def modify_def fun_eq_iff)
  ultimately show ?case using Cons.prems(2) by simp
qed

lemma popleft_n_prefix:
  assumes "is_fq s (xs @ ys)"
  shows "\<exists>s'. popleft_n (int (length xs)) s = Inr (xs, s') \<and> is_fq s' ys"
proof (cases "xs = []")
  case True
  with assms show ?thesis by (simp add: popleft_n_def)
next
  case False
  obtain n ns where ns: "ys @ [Fake_tail] = n # ns" by (cases ys) auto
  have r: "ring (xs @ ys) = Fake_head # xs @ n # ns" "ring ys = Fake_head # n # ns"
    using ns by (simp_all add: ring_def)
  note D = is_fqD [OF assms, unfolded r]
  let ?t = "s\<lparr>num_free_blocks := num_free_blocks s - int (length xs)\<rparr>"
  let ?s = "set_prev n (Some Fake_head) (set_next Fake_head (Some n) (unlink (set xs) ?t))"
  have "npath (nxt ?t) (nxt ?t Fake_head) xs (Some n)"
    using is_fq_npath_head [OF assms] ns by simp
  then have "popleft_n_loop (length xs) (nxt ?t Fake_head) ?t = Inr (xs, Some n, unlink (set xs) ?t)"
    using D(1) by (intro popleft_n_loop_unlink) auto
  then have "popleft_n (int (length xs)) s = Inr (xs, ?s)"
    using False D(4) by (simp add: popleft_n_def Let_def)
  moreover have "is_fq ?s ys"
  proof (rule is_fqI, unfold r)
    have e: "x \<notin> set (Fake_head # xs) \<Longrightarrow> succ_of (Fake_head # xs @ n # ns) x = succ_of (n # ns) x"
      "x \<notin> set (Fake_head # xs @ [n]) \<Longrightarrow> pred_of (Fake_head # xs @ n # ns) x = pred_of (n # ns) x" for x
      using succ_of_skip [of x "Fake_head # xs" "n # ns"] pred_of_skip [of x "Fake_head # xs" n ns]
      by auto
    have e': "x \<in> set xs \<Longrightarrow> succ_of (n # ns) x = None" "x \<in> set xs \<Longrightarrow> pred_of (n # ns) x = None" for x
      using D(1) by (auto intro!: succ_of_notin pred_of_notin simp del: succ_of.simps pred_of.simps)
    show "nxt ?s x = succ_of (Fake_head # n # ns) x" for x
      using D(1) e(1) [of x] e' [of x] by (auto simp: D(2))
    show "prv ?s x = pred_of (Fake_head # n # ns) x" for x
      using D(1) e(2) [of x] e' [of x] by (auto simp: D(3) pred_of_hd)
  qed (use D in auto)
  ultimately show ?thesis by blast
qed

lemma is_fq_unique: "is_fq s xs \<Longrightarrow> is_fq s ys \<Longrightarrow> xs = ys"
proof -
  assume x: "is_fq s xs" and y: "is_fq s ys"
  then have "length xs = length ys" by (simp add: is_fq_def)
  moreover have "npath f c as l \<Longrightarrow> npath f c bs l' \<Longrightarrow> length as = length bs \<Longrightarrow> as = bs"
    for f :: "block_ref \<Rightarrow> block_ref option" and c as bs l l'
    by (induction as arbitrary: bs c) (auto simp: Suc_length_conv length_Suc_conv)
  ultimately show ?thesis
    using is_fq_npath_head [of s xs "[]"] is_fq_npath_head [of s ys "[]"] x y by auto
qed

lemma collect_free_npath:
  "npath (\<lambda>b. next_free_block (h b)) (Some c) as (Some l) \<Longrightarrow> next_free_block (h l) = None \<Longrightarrow>
     collect_free h c acc = Some (acc @ as)"
proof (induction as arbitrary: c acc)
  case Nil
  then show ?case by (simp add: collect_free.simps)
next
  case (Cons a as)
  then show ?case by (cases as) (auto simp: collect_free.simps [of h a])
qed

lemma iterate_free_npath:
  "npath (\<lambda>b. next_free_block (h b)) c as (Some Fake_tail) \<Longrightarrow> Fake_tail \<notin> set as \<Longrightarrow>
     iterate_free h c acc = Some (acc @ as)"
proof (induction as arbitrary: c acc)
  case Nil
  then show ?case by (simp add: iterate_free.simps)
next
  case (Cons a as)
  then show ?case by (auto simp: iterate_free.simps [of h "Some a"])
qed

lemma get_all_free_blocks_list:
  assumes "is_fq s xs"
  shows "get_all_free_blocks s = Inr (Some xs)"
proof -
  note D = is_fqD [OF assms, unfolded ring_def]
  have p: "npath (nxt s) (nxt s Fake_head) xs (Some Fake_tail)"
    using is_fq_npath_head [of s xs "[]"] assms by simp
  obtain c where c: "nxt s Fake_head = Some c" using p by (cases xs) auto
  have "nxt s Fake_tail = None" using D(1) by (simp add: D(2) succ_of_None)
  then have "collect_free (heap s) c [] = Some ([] @ xs)"
    using p c by (intro collect_free_npath) simp_all
  with c show ?thesis by (simp add: get_all_free_blocks_def)
qed

lemma iter_blocks_after_head:
  assumes "is_fq s xs"
  shows "iter_blocks_after None s = Some xs"
  using is_fq_npath_head [of s xs "[]"] is_fqD(1) [OF assms] assms
  by (simp add: iter_blocks_after_def iterate_free_npath ring_def)

lemma iter_blocks_after_block:
  assumes "is_fq s (us @ b # vs)"
  shows "iter_blocks_after (Some b) s = Some vs"
  using is_fq_npath [of s us b vs "[]"] is_fqD(1) [OF assms] assms
  by (simp add: iter_blocks_after_def iterate_free_npath ring_def)

lemma link_consecutive_take:
  assumes "distinct bs" and "k \<le> length bs"
  shows "fold (link_consecutive bs) [0..<k] s =
    relink (pred_of (take k bs)) (succ_of (take (Suc k) bs)) s"
  using assms(2)
proof (induction k)
  case 0
  then show ?case by (cases bs) (auto simp: relink_def)
next
  case (Suc k)
  have p: "pred_of (take (Suc k) bs) x = (if 0 < k \<and> x = bs ! k then Some (bs ! (k - 1)) else pred_of (take k bs) x)" for x
  proof (cases "k = 0")
    case False
    have "take (Suc k) bs = take k bs @ [bs ! k]" "last (take k bs) = bs ! (k - 1)" "take k bs \<noteq> []"
      using Suc.prems False by (auto simp: take_Suc_conv_app_nth gr0_conv_Suc)
    then show ?thesis using False pred_of_snoc [of "take k bs" "bs ! k" x] assms(1)
      by (metis distinct_take neq0_conv)
  qed (cases bs; simp)
  have n: "succ_of (take (Suc (Suc k)) bs) x = (if Suc k < length bs \<and> x = bs ! k then Some (bs ! (Suc k)) else succ_of (take (Suc k) bs) x)" for x
  proof (cases "Suc k < length bs")
    case True
    have "take (Suc (Suc k)) bs = take (Suc k) bs @ [bs ! (Suc k)]" "last (take (Suc k) bs) = bs ! k" "take (Suc k) bs \<noteq> []"
      using True by (auto simp: take_Suc_conv_app_nth)
    then show ?thesis using True succ_of_snoc [of "take (Suc k) bs" "bs ! (Suc k)" x] assms(1)
      by (metis distinct_take)
  qed simp
  have "fold (link_consecutive bs) [0..<Suc k] s =
      link_consecutive bs k (relink (pred_of (take k bs)) (succ_of (take (Suc k) bs)) s)"
    using Suc by simp
  also have "\<dots> = relink (pred_of (take (Suc k) bs)) (succ_of (take (Suc (Suc k)) bs)) s"
    unfolding link_consecutive_def Let_def modify_def relink_def p n
    by (rule kv_store.equality) (auto simp: fun_eq_iff)
  finally show ?case .
qed

lemma fq_init_is_fq:
  assumes "distinct bs" and "Fake_head \<notin> set bs" and "Fake_tail \<notin> set bs"
    and "\<And>b. b \<noteq> Fake_head \<Longrightarrow> b \<noteq> Fake_tail \<Longrightarrow> next_free_block (h b) = None \<and> prev_free_block (h b) = None"
  shows "is_fq (fq_init bs h) bs"
proof (cases bs)
  case Nil
  with assms show ?thesis
    by (auto simp: fq_init_def is_fq_def ring_def fun_eq_iff fresh_block_def; metis)
next
  case (Cons c cs)
  have f: "fold (link_consecutive bs) [0..<length bs] s = overlay bs s" for s
    using link_consecutive_take [OF assms(1) order_refl, of s] by (simp add: overlay_def)
  have d: "distinct (bs @ [Fake_tail])" "bs \<noteq> []" "last bs \<in> set bs" using assms Cons by auto
  have i: "fq_init bs h = set_next (last bs) (Some Fake_tail)
      (set_prev Fake_tail (Some (last bs)) (set_prev (hd bs) (Some Fake_head)
        (set_next Fake_head (Some (hd bs))
          (modify Fake_tail (\<lambda>_. fresh_block) (modify Fake_head (\<lambda>_. fresh_block)
            (overlay bs \<lparr>heap = h, num_free_blocks = int (length bs)\<rparr>))))))"
    using d(2) by (simp add: fq_init_def f Let_def)
  have r: "succ_of (ring bs) x = (if x = Fake_head then Some (hd bs) else succ_of (bs @ [Fake_tail]) x)"
    "pred_of (ring bs) x = (if x = hd bs then Some Fake_head else pred_of (bs @ [Fake_tail]) x)" for x
    using Cons by (simp_all add: ring_def)
  have p: "pred_of bs (hd bs) = None" using assms(1) Cons by (simp add: pred_of_hd)
  have n: "hd bs \<in> set bs" using Cons by simp
  show ?thesis
  proof (rule is_fqI)
    show "nxt (fq_init bs h) x = succ_of (ring bs) x" for x
      unfolding i r succ_of_snoc [OF d(1,2)] using assms(2,3) assms(4) [of x] d(3) n
      by (auto simp: fresh_block_def split: option.splits)
    show "prv (fq_init bs h) x = pred_of (ring bs) x" for x
      unfolding i r pred_of_snoc [OF d(1,2)] using assms(2,3) assms(4) [of x] d(3) n p
      by (auto simp: fresh_block_def split: option.splits)
    show "distinct (ring bs)" using assms(1-3) by (simp add: ring_def)
    show "num_free_blocks (fq_init bs h) = int (length bs)" by (simp add: i)
  qed
qed

text \<open>No operation of the queue changes anything but the links.\<close>

lemma payload_fields:
  assumes "payload s' b = payload s b"
  shows "ref_cnt (heap s' b) = ref_cnt (heap s b)"
    and "block_hash (heap s' b) = block_hash (heap s b)"
    and "block_hash_num_tokens (heap s' b) = block_hash_num_tokens (heap s b)"
    and "is_null (heap s' b) = is_null (heap s b)"
proof -
  have "ref_cnt (payload s' b) = ref_cnt (payload s b)"
    "block_hash (payload s' b) = block_hash (payload s b)"
    "block_hash_num_tokens (payload s' b) = block_hash_num_tokens (payload s b)"
    "is_null (payload s' b) = is_null (payload s b)"
    using assms by simp_all
  then show "ref_cnt (heap s' b) = ref_cnt (heap s b)"
    "block_hash (heap s' b) = block_hash (heap s b)"
    "block_hash_num_tokens (heap s' b) = block_hash_num_tokens (heap s b)"
    "is_null (heap s' b) = is_null (heap s b)"
    by (simp_all add: payload_def)
qed

lemma payload_set_links [simp]:
  "payload (set_prev r v s) = payload s" "payload (set_next r v s) = payload s"
  "payload (s\<lparr>num_free_blocks := n\<rparr>) = payload s"
  by (auto simp: payload_def fun_eq_iff)

lemma popleft_payload: "popleft s = Inr (b, s') \<Longrightarrow> payload s' = payload s"
  by (auto simp: popleft_def Let_def split: option.splits if_splits)

lemma popleft_n_loop_payload: "popleft_n_loop n c s = Inr (bs, c', s') \<Longrightarrow> payload s' = payload s"
  by (induction n c s arbitrary: bs c' s' rule: popleft_n_loop.induct) auto

lemma popleft_n_payload: "popleft_n n s = Inr (bs, s') \<Longrightarrow> payload s' = payload s"
  by (auto simp: popleft_n_def Let_def dest!: popleft_n_loop_payload split: option.splits if_splits)

lemma remove_block_payload: "remove_block b s = Inr s' \<Longrightarrow> payload s' = payload s"
  by (auto simp: remove_block_def Let_def split: option.splits)

lemma append_block_payload: "append_block b s = Inr s' \<Longrightarrow> payload s' = payload s"
  by (auto simp: append_block_def Let_def split: option.splits)

lemma chain_blocks_payload: "chain_blocks l bs s = (l', s') \<Longrightarrow> payload s' = payload s"
  by (induction l bs s arbitrary: l' s' rule: chain_blocks.induct) auto

lemma prepend_n_payload: "prepend_n bs s = Inr s' \<Longrightarrow> payload s' = payload s"
  by (auto simp: prepend_n_def Let_def dest!: chain_blocks_payload split: option.splits prod.splits if_splits)

lemma append_n_payload: "append_n bs s = Inr s' \<Longrightarrow> payload s' = payload s"
  by (auto simp: append_n_def Let_def dest!: chain_blocks_payload split: option.splits prod.splits if_splits)

lemmas queue_payload =
  popleft_payload popleft_n_payload remove_block_payload append_block_payload
  prepend_n_payload append_n_payload

section \<open>The interface of a free block queue\<close>

text \<open>
  What the block pool relies on: \<open>repr s xs\<close> says that the state \<open>s\<close> holds the free blocks \<open>xs\<close>
  in eviction order. Everything the pool needs follows from these laws, once for every queue that
  satisfies them.
\<close>

definition real_block :: "block_ref \<Rightarrow> bool" where
  "real_block b \<longleftrightarrow> b \<noteq> Fake_head \<and> b \<noteq> Fake_tail"

locale free_block_queue =
  fixes repr :: "'s \<Rightarrow> 'b list \<Rightarrow> bool"
    and real :: "'b \<Rightarrow> bool"
    and pop1 :: "'s \<Rightarrow> ('b \<times> 's) res"
    and popn :: "int \<Rightarrow> 's \<Rightarrow> ('b list \<times> 's) res"
    and rem :: "'b \<Rightarrow> 's \<Rightarrow> 's res"
    and app1 :: "'b \<Rightarrow> 's \<Rightarrow> 's res"
    and pren :: "'b list \<Rightarrow> 's \<Rightarrow> 's res"
    and appn :: "'b list \<Rightarrow> 's \<Rightarrow> 's res"
  assumes repr_unique: "repr s xs \<Longrightarrow> repr s ys \<Longrightarrow> xs = ys"
    and repr_distinct: "repr s xs \<Longrightarrow> distinct xs"
    and repr_real: "repr s xs \<Longrightarrow> b \<in> set xs \<Longrightarrow> real b"
    and pop1_first: "repr s (b # xs) \<Longrightarrow> \<exists>s'. pop1 s = Inr (b, s') \<and> repr s' xs"
    and pop1_empty: "repr s [] \<Longrightarrow> pop1 s = Inl ValueError"
    and popn_prefix: "repr s (xs @ ys) \<Longrightarrow> \<exists>s'. popn (int (length xs)) s = Inr (xs, s') \<and> repr s' ys"
    and popn_short: "repr s xs \<Longrightarrow> int (length xs) < n \<Longrightarrow> popn n s = Inl AssertionError"
    and rem_middle: "repr s (us @ b # vs) \<Longrightarrow> \<exists>s'. rem b s = Inr s' \<and> repr s' (us @ vs)"
    and rem_absent: "repr s xs \<Longrightarrow> real b \<Longrightarrow> b \<notin> set xs \<Longrightarrow> rem b s = Inl RuntimeError"
    and app1_end: "repr s xs \<Longrightarrow> real b \<Longrightarrow> b \<notin> set xs \<Longrightarrow> \<exists>s'. app1 b s = Inr s' \<and> repr s' (xs @ [b])"
    and pren_front: "repr s xs \<Longrightarrow> distinct bs \<Longrightarrow> list_all real bs \<Longrightarrow> set bs \<inter> set xs = {} \<Longrightarrow>
        \<exists>s'. pren bs s = Inr s' \<and> repr s' (bs @ xs)"
    and appn_back: "repr s xs \<Longrightarrow> distinct bs \<Longrightarrow> list_all real bs \<Longrightarrow> set bs \<inter> set xs = {} \<Longrightarrow>
        \<exists>s'. appn bs s = Inr s' \<and> repr s' (xs @ bs)"
begin

lemma popn_take:
  assumes "repr s xs" and "0 \<le> n" and "n \<le> int (length xs)"
  shows "\<exists>s'. popn n s = Inr (take (nat n) xs, s') \<and> repr s' (drop (nat n) xs)"
  using popn_prefix [of s "take (nat n) xs" "drop (nat n) xs"] assms by (simp add: min_absorb2)

lemma popn_total_iff:
  assumes "repr s xs" and "0 \<le> n"
  shows "(\<exists>bs s'. popn n s = Inr (bs, s')) \<longleftrightarrow> n \<le> int (length xs)"
  using popn_take [OF assms] popn_short [OF assms(1), of n] by (cases "n \<le> int (length xs)") auto

lemma rem_member:
  assumes "repr s xs" and "b \<in> set xs"
  shows "\<exists>s'. rem b s = Inr s' \<and> repr s' (remove1 b xs)"
proof -
  obtain us vs where "xs = us @ b # vs" "b \<notin> set us" using assms(2) by (meson split_list_first)
  then show ?thesis using assms(1) rem_middle by (auto simp: remove1_append)
qed

text \<open>Popping a block and then a batch is popping one batch.\<close>

lemma pop1_popn:
  assumes "repr s (b # xs @ ys)"
  shows "\<exists>s1 s2 s3. pop1 s = Inr (b, s1) \<and> popn (int (length xs)) s1 = Inr (xs, s2) \<and>
     popn (int (Suc (length xs))) s = Inr (b # xs, s3) \<and> repr s2 ys \<and> repr s3 ys"
proof -
  obtain s1 where s1: "pop1 s = Inr (b, s1)" "repr s1 (xs @ ys)" using pop1_first [OF assms] by auto
  obtain s2 where "popn (int (length xs)) s1 = Inr (xs, s2)" "repr s2 ys"
    using popn_prefix [OF s1(2)] by auto
  moreover obtain s3 where "popn (int (Suc (length xs))) s = Inr (b # xs, s3)" "repr s3 ys"
    using popn_prefix [of s "b # xs" ys] assms by auto
  ultimately show ?thesis using s1 by blast
qed

text \<open>Appended blocks come out after everything that was free before, in their order.\<close>

lemma append_is_fifo:
  assumes "repr s xs" and "distinct bs" and "list_all real bs" and "set bs \<inter> set xs = {}"
  shows "\<exists>s1 s2 s3. appn bs s = Inr s1 \<and> popn (int (length xs)) s1 = Inr (xs, s2) \<and>
     popn (int (length bs)) s2 = Inr (bs, s3) \<and> repr s3 []"
proof -
  obtain s1 where s1: "appn bs s = Inr s1" "repr s1 (xs @ bs)" using appn_back [OF assms] by auto
  obtain s2 where s2: "popn (int (length xs)) s1 = Inr (xs, s2)" "repr s2 (bs @ [])"
    using popn_prefix [OF s1(2)] by auto
  show ?thesis using s1 s2 popn_prefix [OF s2(2)] by auto
qed

text \<open>Prepended blocks come out first, in their order, and popping them undoes the operation.\<close>

lemma prepend_is_lifo:
  assumes "repr s xs" and "distinct bs" and "list_all real bs" and "set bs \<inter> set xs = {}"
  shows "\<exists>s1 s2. pren bs s = Inr s1 \<and> popn (int (length bs)) s1 = Inr (bs, s2) \<and> repr s2 xs"
proof -
  obtain s1 where s1: "pren bs s = Inr s1" "repr s1 (bs @ xs)" using pren_front [OF assms] by auto
  show ?thesis using s1 popn_prefix [OF s1(2)] by auto
qed

text \<open>Removing a block and appending it again moves it to the end of the eviction order.\<close>

lemma touch_then_free_moves_to_end:
  assumes "repr s xs" and "b \<in> set xs"
  shows "\<exists>s1 s2. rem b s = Inr s1 \<and> app1 b s1 = Inr s2 \<and> repr s2 (remove1 b xs @ [b])"
proof -
  obtain s1 where s1: "rem b s = Inr s1" "repr s1 (remove1 b xs)" using rem_member [OF assms] by auto
  have "b \<notin> set (remove1 b xs)" using repr_distinct [OF assms(1)] by simp
  then show ?thesis using s1 app1_end [OF s1(2)] repr_real [OF assms] by blast
qed

end

lemma ring_disjoint:
  "list_all real_block bs \<Longrightarrow> set bs \<inter> set xs = {} \<Longrightarrow> set bs \<inter> set (ring xs) = {}"
  by (auto simp: ring_def real_block_def list_all_iff)

lemma popleft_n_short:
  "is_fq s xs \<Longrightarrow> int (length xs) < n \<Longrightarrow> popleft_n n s = Inl AssertionError"
  by (auto simp: popleft_n_def dest: is_fqD(4))

lemma remove_block_absent:
  "is_fq s xs \<Longrightarrow> real_block b \<Longrightarrow> b \<notin> set xs \<Longrightarrow> remove_block b s = Inl RuntimeError"
  by (simp add: remove_block_def is_fqD(2,3) real_block_def ring_def)

interpretation fq: free_block_queue
  is_fq real_block popleft popleft_n remove_block append_block prepend_n append_n
proof unfold_locales
  show "is_fq s xs \<Longrightarrow> is_fq s ys \<Longrightarrow> xs = ys" for s xs ys by (rule is_fq_unique)
  show "is_fq s xs \<Longrightarrow> distinct xs" for s xs by (auto simp: is_fq_def ring_def)
  show "is_fq s xs \<Longrightarrow> b \<in> set xs \<Longrightarrow> real_block b" for s xs b
    by (auto simp: is_fq_def ring_def real_block_def)
  show "is_fq s xs \<Longrightarrow> real_block b \<Longrightarrow> b \<notin> set xs \<Longrightarrow>
      \<exists>s'. append_block b s = Inr s' \<and> is_fq s' (xs @ [b])" for s xs b
    by (rule append_block_snoc) (auto simp: ring_def real_block_def)
qed (blast intro: popleft_Cons popleft_Nil popleft_n_prefix popleft_n_short remove_block_middle
      remove_block_absent prepend_n_append append_n_append dest: ring_disjoint)+

section \<open>Sequences of operations\<close>

datatype fq_op =
    Pop_left
  | Pop_left_n nat
  | Remove block_ref
  | Append block_ref
  | Prepend_n "block_ref list"
  | Append_n "block_ref list"

fun list_step :: "fq_op \<Rightarrow> block_ref list \<Rightarrow> (block_ref list \<times> block_ref list) res" where
  \<comment> \<open>the specification: the returned blocks and the free blocks in eviction order\<close>
  "list_step Pop_left xs = (case xs of [] \<Rightarrow> Inl ValueError | x # ys \<Rightarrow> Inr ([x], ys))"
| "list_step (Pop_left_n n) xs =
     (if n \<le> length xs then Inr (take n xs, drop n xs) else Inl AssertionError)"
| "list_step (Remove b) xs = (if b \<in> set xs then Inr ([], remove1 b xs) else Inl RuntimeError)"
| "list_step (Append b) xs = Inr ([], xs @ [b])"
| "list_step (Prepend_n bs) xs = Inr ([], bs @ xs)"
| "list_step (Append_n bs) xs = Inr ([], xs @ bs)"

fun queue_step :: "fq_op \<Rightarrow> kv_store \<Rightarrow> (block_ref list \<times> kv_store) res" where
  "queue_step Pop_left s = rbind (popleft s) (\<lambda>(b, s'). Inr ([b], s'))"
| "queue_step (Pop_left_n n) s = popleft_n (int n) s"
| "queue_step (Remove b) s = rbind (remove_block b s) (\<lambda>s'. Inr ([], s'))"
| "queue_step (Append b) s = rbind (append_block b s) (\<lambda>s'. Inr ([], s'))"
| "queue_step (Prepend_n bs) s = rbind (prepend_n bs s) (\<lambda>s'. Inr ([], s'))"
| "queue_step (Append_n bs) s = rbind (append_n bs s) (\<lambda>s'. Inr ([], s'))"

fun op_ok :: "fq_op \<Rightarrow> block_ref list \<Rightarrow> bool" where
  \<comment> \<open>only blocks that are not queued are added, none of them twice\<close>
  "op_ok (Remove b) xs \<longleftrightarrow> real_block b"
| "op_ok (Append b) xs \<longleftrightarrow> real_block b \<and> b \<notin> set xs"
| "op_ok (Prepend_n bs) xs \<longleftrightarrow> list_all real_block bs \<and> distinct bs \<and> set bs \<inter> set xs = {}"
| "op_ok (Append_n bs) xs \<longleftrightarrow> list_all real_block bs \<and> distinct bs \<and> set bs \<inter> set xs = {}"
| "op_ok _ xs \<longleftrightarrow> True"

fun run :: "('op \<Rightarrow> 's \<Rightarrow> ('o \<times> 's) res) \<Rightarrow> 'op list \<Rightarrow> 's \<Rightarrow> ('o list \<times> 's) res" where
  "run step [] s = Inr ([], s)"
| "run step (c # cs) s =
     rbind (step c s) (\<lambda>(out, s'). rbind (run step cs s') (\<lambda>(outs, s''). Inr (out # outs, s'')))"

fun ops_ok :: "fq_op list \<Rightarrow> block_ref list \<Rightarrow> bool" where
  "ops_ok [] xs \<longleftrightarrow> True"
| "ops_ok (c # cs) xs \<longleftrightarrow>
     op_ok c xs \<and> (case list_step c xs of Inl _ \<Rightarrow> True | Inr (_, ys) \<Rightarrow> ops_ok cs ys)"

lemma queue_step_refines:
  assumes "is_fq s xs" and "op_ok c xs"
  shows "case list_step c xs of
      Inl e \<Rightarrow> queue_step c s = Inl e
    | Inr (out, ys) \<Rightarrow> \<exists>s'. queue_step c s = Inr (out, s') \<and> is_fq s' ys"
proof (cases c)
  case Pop_left
  then show ?thesis using assms(1) fq.pop1_first fq.pop1_empty by (cases xs) fastforce+
next
  case (Pop_left_n n)
  then show ?thesis using fq.popn_take [OF assms(1), of "int n"] fq.popn_short [OF assms(1), of "int n"] by auto
next
  case (Remove b)
  then show ?thesis using fq.rem_member [OF assms(1), of b] fq.rem_absent [OF assms(1), of b] assms(2) by auto
next
  case (Append b)
  then show ?thesis using fq.app1_end [OF assms(1), of b] assms(2) by auto
next
  case (Prepend_n bs)
  then show ?thesis using fq.pren_front [OF assms(1), of bs] assms(2) by auto
next
  case (Append_n bs)
  then show ?thesis using fq.appn_back [OF assms(1), of bs] assms(2) by auto
qed

lemma queue_step_payload: "queue_step c s = Inr (out, s') \<Longrightarrow> payload s' = payload s"
  by (cases c) (auto dest: queue_payload)

section \<open>Properties\<close>

text \<open>
  C8: the pointer implementation of \<^verbatim>\<open>FreeKVCacheBlockQueue\<close> refines a plain list: for every sequence of
  \<^verbatim>\<open>popleft\<close>, \<^verbatim>\<open>popleft_n\<close>, \<^verbatim>\<open>remove\<close>, \<^verbatim>\<open>append\<close>, \<^verbatim>\<open>prepend_n\<close> and \<^verbatim>\<open>append_n\<close> that only adds blocks not yet
  queued, the linked list returns the same blocks in the same order, or raises the same exception,
  as the list of free blocks does, and represents the resulting list at the end.
\<close>
theorem free_queue_refines_list:
  assumes "is_fq s xs" and "ops_ok cs xs"
  shows "case run list_step cs xs of
      Inl e \<Rightarrow> run queue_step cs s = Inl e
    | Inr (outs, ys) \<Rightarrow> \<exists>s'. run queue_step cs s = Inr (outs, s') \<and> is_fq s' ys"
  using assms
proof (induction cs arbitrary: s xs)
  case (Cons c cs)
  have ok: "op_ok c xs" using Cons.prems(2) by simp
  show ?case
  proof (cases "list_step c xs")
    case (Inl e)
    then show ?thesis using queue_step_refines [OF Cons.prems(1) ok] by simp
  next
    case (Inr r)
    obtain out ys where r: "r = (out, ys)" by force
    obtain s' where s': "queue_step c s = Inr (out, s')" "is_fq s' ys"
      using queue_step_refines [OF Cons.prems(1) ok] Inr r by auto
    have "ops_ok cs ys" using Cons.prems(2) Inr r by simp
    from Cons.IH [OF s'(2) this] show ?thesis
      using Inr r s'(1) by (cases "run list_step cs ys") auto
  qed
qed simp

theorem free_queue_refines_list_witness:
  "let cs = [Pop_left_n 2, Remove (Block 3), Append_n [Block 3], Prepend_n [Block 1], Pop_left, Pop_left_n 9];
       s = fq_init (map Block [0..<4]) (\<lambda>_. fresh_block)
   in is_fq s (map Block [0..<4]) \<and> ops_ok cs (map Block [0..<4]) \<and>
      run queue_step cs s = Inl AssertionError \<and>
      (\<exists>s'. run queue_step (take 5 cs) s =
         Inr ([[Block 0, Block 1], [], [], [], [Block 1]], s') \<and> is_fq s' [Block 2, Block 3])"
proof -
  let ?s = "fq_init (map Block [0..<4]) (\<lambda>_. fresh_block)"
  let ?cs = "[Pop_left_n 2, Remove (Block 3), Append_n [Block 3], Prepend_n [Block 1], Pop_left, Pop_left_n 9]"
  have l: "map Block [0..<4] = [Block 0, Block 1, Block 2, Block 3]" by (simp add: upt_rec)
  have f: "is_fq ?s (map Block [0..<4])"
    by (rule fq_init_is_fq) (auto simp: distinct_map inj_on_def fresh_block_def)
  have ok: "ops_ok ?cs (map Block [0..<4])" "ops_ok (take 5 ?cs) (map Block [0..<4])"
    unfolding l by (simp_all add: real_block_def)
  have r: "run list_step ?cs (map Block [0..<4]) = Inl AssertionError"
    "run list_step (take 5 ?cs) (map Block [0..<4]) =
       Inr ([[Block 0, Block 1], [], [], [], [Block 1]], [Block 2, Block 3])"
    unfolding l by simp_all
  show ?thesis
    unfolding Let_def using f ok(1) free_queue_refines_list [OF f ok(1)] free_queue_refines_list [OF f ok(2)]
    unfolding r by simp
qed

text \<open>
  Queue operations never touch a block's reference count, hash metadata or null flag; a block
  removed from the middle and appended again is found at the end of the eviction order.
\<close>
theorem free_queue_touch_moves_to_end:
  assumes "is_fq s xs" and "b \<in> set xs"
  shows "\<exists>s1 s2. remove_block b s = Inr s1 \<and> append_block b s1 = Inr s2 \<and>
    is_fq s2 (remove1 b xs @ [b]) \<and> payload s2 = payload s"
proof -
  obtain s1 s2 where s: "remove_block b s = Inr s1" "append_block b s1 = Inr s2" "is_fq s2 (remove1 b xs @ [b])"
    using fq.touch_then_free_moves_to_end [OF assms] by blast
  then show ?thesis using remove_block_payload [OF s(1)] append_block_payload [OF s(2)] by auto
qed

theorem free_queue_touch_moves_to_end_witness:
  "let s = fq_init (map Block [0..<3]) (\<lambda>_. fresh_block)
   in is_fq s [Block 0, Block 1, Block 2] \<and>
      (\<exists>s1 s2. remove_block (Block 1) s = Inr s1 \<and> append_block (Block 1) s1 = Inr s2 \<and>
         is_fq s2 [Block 0, Block 2, Block 1])"
proof -
  have l: "map Block [0..<3] = [Block 0, Block 1, Block 2]" by (simp add: upt_rec)
  have f: "is_fq (fq_init (map Block [0..<3]) (\<lambda>_. fresh_block)) [Block 0, Block 1, Block 2]"
    unfolding l by (rule fq_init_is_fq) (auto simp: fresh_block_def)
  show ?thesis unfolding Let_def using f free_queue_touch_moves_to_end [OF f, of "Block 1"] by auto
qed

text \<open>
  C25: a queue built from a list of distinct blocks gives back that list: the traversal of
  \<^verbatim>\<open>get_all_free_blocks\<close> ends, and \<^verbatim>\<open>iter_blocks_after\<close> without a start yields the same blocks in the
  same order.
\<close>
theorem fq_init_roundtrip:
  assumes "distinct bs" and "list_all real_block bs"
  shows "get_all_free_blocks (fq_init bs (\<lambda>_. fresh_block)) = Inr (Some bs) \<and>
    iter_blocks_after None (fq_init bs (\<lambda>_. fresh_block)) = Some bs \<and>
    num_free_blocks (fq_init bs (\<lambda>_. fresh_block)) = int (length bs)"
proof -
  have "is_fq (fq_init bs (\<lambda>_. fresh_block)) bs"
    by (rule fq_init_is_fq) (use assms in \<open>auto simp: list_all_iff real_block_def fresh_block_def\<close>)
  then show ?thesis using get_all_free_blocks_list iter_blocks_after_head is_fqD(4) by blast
qed

theorem fq_init_roundtrip_witness:
  "distinct [Block 2, Block 0, Block 1] \<and> list_all real_block [Block 2, Block 0, Block 1] \<and>
   get_all_free_blocks (fq_init [Block 2, Block 0, Block 1] (\<lambda>_. fresh_block)) =
     Inr (Some [Block 2, Block 0, Block 1])"
  using fq_init_roundtrip [of "[Block 2, Block 0, Block 1]"] by (simp add: real_block_def)

end
