(* ===== verification/Request.thy ===== *)
theory Request
  imports Prelude "HOL-Library.List_Lexorder" "HOL-Library.Char_ord" "HOL-Library.Product_Lexorder"
begin

text \<open>
  Requests (\<^verbatim>\<open>vllm/v1/request.py\<close>): the fields of \<^verbatim>\<open>Request\<close> the modelled code reads, its
  constructor, its status enumeration with the ordering of \<^verbatim>\<open>enum.IntEnum\<close>, the properties derived
  from the token lists, and the comparison used by priority scheduling. Floating point arrival
  times are rationals; \<open>obj_id\<close> is Python's \<^verbatim>\<open>id\<close> of the object. A prompt embedding tensor is
  its number of rows together with the digest of each slice, as the hashing code uses it.
\<close>

section \<open>Data\<close>

datatype request_status =
    WAITING
  | WAITING_FOR_STRUCTURED_OUTPUT_GRAMMAR
  | WAITING_FOR_REMOTE_KVS
  | WAITING_FOR_STREAMING_REQ
  | RUNNING
  | PREEMPTED
  | FINISHED_STOPPED
  | FINISHED_LENGTH_CAPPED
  | FINISHED_ABORTED
  | FINISHED_IGNORED
  | FINISHED_ERROR
  | FINISHED_REPETITION

fun status_value :: "request_status \<Rightarrow> nat" where
  "status_value WAITING = 1"
| "status_value WAITING_FOR_STRUCTURED_OUTPUT_GRAMMAR = 2"
| "status_value WAITING_FOR_REMOTE_KVS = 3"
| "status_value WAITING_FOR_STREAMING_REQ = 4"
| "status_value RUNNING = 5"
| "status_value PREEMPTED = 6"
| "status_value FINISHED_STOPPED = 7"
| "status_value FINISHED_LENGTH_CAPPED = 8"
| "status_value FINISHED_ABORTED = 9"
| "status_value FINISHED_IGNORED = 10"
| "status_value FINISHED_ERROR = 11"
| "status_value FINISHED_REPETITION = 12"

lemma status_value_inject: "status_value a = status_value b \<longleftrightarrow> a = b"
  by (cases a; cases b) simp_all

instantiation request_status :: linorder
begin

definition less_eq_request_status :: "request_status \<Rightarrow> request_status \<Rightarrow> bool" where
  "less_eq_request_status a b \<longleftrightarrow> status_value a \<le> status_value b"

definition less_request_status :: "request_status \<Rightarrow> request_status \<Rightarrow> bool" where
  "less_request_status a b \<longleftrightarrow> status_value a < status_value b"

instance
  by standard (auto simp: less_eq_request_status_def less_request_status_def
      status_value_inject [symmetric])

end

datatype finish_reason = FR_STOP | FR_LENGTH | FR_ABORT | FR_ERROR | FR_REPETITION

datatype stop_reason = Stop_token int | Stop_text string

record placeholder_range =
  offset :: int
  plen :: int
  is_embed :: "bool list option"

record mm_feature =
  mm_identifier :: string
  mm_position :: placeholder_range

record lora_request =
  lora_name :: string
  lora_int_id :: int

record prompt_embeds_tensor =
  num_rows :: nat
  slice_digest :: "int \<Rightarrow> int \<Rightarrow> bytes"

record repetition_params =
  max_pattern_size :: int
  min_pattern_size :: int
  min_count :: int

record sampling_params =
  sp_max_tokens :: "int option"
  eos_token_id :: "int option"
  stop_token_ids :: "int list option"
  min_tokens :: int
  repetition_detection :: "repetition_params option"
  sp_skip_reading_prefix_cache :: "bool option"
  has_structured_outputs :: bool

record pooling_params =
  pp_skip_reading_prefix_cache :: "bool option"

record request =
  request_id :: string
  obj_id :: nat
  priority :: int
  arrival_time :: rat
  sampling_params :: "sampling_params option"
  pooling_params :: "pooling_params option"
  lora_request :: "lora_request option"
  status :: request_status
  stop_reason :: "stop_reason option"
  max_tokens :: int
  prompt_token_ids :: "int list option"
  prompt_embeds :: "prompt_embeds_tensor option"
  num_prompt_tokens :: int
  output_token_ids :: "int list"
  all_token_ids :: "int list"
  num_output_placeholders :: int
  num_stale_output_tokens :: int
  drop_stale_output :: bool
  num_in_flight_tokens :: int
  last_sched_seq :: int
  spec_token_ids :: "int list"
  num_computed_tokens :: int
  cache_salt :: "string option"
  mm_features :: "mm_feature list"
  session_id :: "string option"
  prompt_is_token_ids :: "bool list option"
  is_prefill_chunk :: bool
  next_decode_eligible_step :: int
  shared_prefix_boundary :: int
  num_preemptions :: int
  block_hashes :: "bytes list"
  skip_reading_prefix_cache :: bool

section \<open>Operations\<close>

definition is_finished :: "request_status \<Rightarrow> bool" where
  "is_finished st \<longleftrightarrow> PREEMPTED < st"

fun get_finished_reason :: "request_status \<Rightarrow> finish_reason option" where
  "get_finished_reason FINISHED_STOPPED = Some FR_STOP"
| "get_finished_reason FINISHED_LENGTH_CAPPED = Some FR_LENGTH"
| "get_finished_reason FINISHED_ABORTED = Some FR_ABORT"
| "get_finished_reason FINISHED_IGNORED = Some FR_LENGTH"
| "get_finished_reason FINISHED_ERROR = Some FR_ERROR"
| "get_finished_reason WAITING_FOR_STREAMING_REQ = Some FR_STOP"
| "get_finished_reason FINISHED_REPETITION = Some FR_REPETITION"
| "get_finished_reason _ = None"

definition length_from_prompt ::
  "int list option \<Rightarrow> prompt_embeds_tensor option \<Rightarrow> int res"
where
  "length_from_prompt toks emb =
     (case toks of
        None \<Rightarrow> (case emb of None \<Rightarrow> Inl ValueError | Some e \<Rightarrow> Inr (int (num_rows e)))
      | Some ts \<Rightarrow>
          (case emb of
             None \<Rightarrow> Inr (int (length ts))
           | Some e \<Rightarrow> if num_rows e \<noteq> length ts then Inl ValueError else Inr (int (length ts))))"

definition get_skip_reading_prefix_cache ::
  "sampling_params option \<Rightarrow> pooling_params option \<Rightarrow> bool"
where
  "get_skip_reading_prefix_cache sp pp =
     (case sp of
        Some s \<Rightarrow>
          (case sp_skip_reading_prefix_cache s of
             Some b \<Rightarrow> b
           | None \<Rightarrow> (case pp of
                       Some p \<Rightarrow> (case pp_skip_reading_prefix_cache p of Some b \<Rightarrow> b | None \<Rightarrow> False)
                     | None \<Rightarrow> False))
      | None \<Rightarrow> (case pp of
                  Some p \<Rightarrow> (case pp_skip_reading_prefix_cache p of Some b \<Rightarrow> b | None \<Rightarrow> False)
                | None \<Rightarrow> False))"

definition update_block_hashes ::
  "(request \<Rightarrow> bytes list res) option \<Rightarrow> request \<Rightarrow> request res"
where
  "update_block_hashes hasher r =
     (case hasher of
        None \<Rightarrow> Inr r
      | Some f \<Rightarrow> rbind (f r) (\<lambda>hs. Inr (r\<lparr>block_hashes := block_hashes r @ hs\<rparr>)))"

definition append_output_token_ids ::
  "(request \<Rightarrow> bytes list res) option \<Rightarrow> int list \<Rightarrow> request \<Rightarrow> request res"
where
  "append_output_token_ids hasher ts r =
     update_block_hashes hasher
       (r\<lparr>output_token_ids := output_token_ids r @ ts, all_token_ids := all_token_ids r @ ts\<rparr>)"

definition initial_token_ids ::
  "int list option \<Rightarrow> bool list option \<Rightarrow> int \<Rightarrow> int list"
where
  "initial_token_ids toks is_tok n =
     (case toks of
        None \<Rightarrow> replicate (nat n) 0
      | Some ts \<Rightarrow>
          (case is_tok of
             None \<Rightarrow> ts
           | Some bs \<Rightarrow> map (\<lambda>(t, b). if b then t else 0) (zip ts bs)))"

definition initial_limits ::
  "sampling_params option \<Rightarrow> pooling_params option \<Rightarrow> (int \<times> request_status) res"
where
  \<comment> \<open>\<^verbatim>\<open>max_tokens\<close> and the first status\<close>
  "initial_limits sp pp =
     (case pp of
        Some _ \<Rightarrow> Inr (1, WAITING)
      | None \<Rightarrow>
          (case sp of
             None \<Rightarrow> Inl ValueError
           | Some s \<Rightarrow>
               (case sp_max_tokens s of
                  None \<Rightarrow> Inl AssertionError
                | Some m \<Rightarrow>
                    Inr (m, if has_structured_outputs s
                            then WAITING_FOR_STRUCTURED_OUTPUT_GRAMMAR else WAITING))))"

definition request_init ::
  "string \<Rightarrow> nat \<Rightarrow> int list option \<Rightarrow> sampling_params option \<Rightarrow> pooling_params option \<Rightarrow>
   rat option \<Rightarrow> rat \<Rightarrow> prompt_embeds_tensor option \<Rightarrow> bool list option \<Rightarrow> mm_feature list option \<Rightarrow>
   lora_request option \<Rightarrow> string option \<Rightarrow> int \<Rightarrow> (request \<Rightarrow> bytes list res) option \<Rightarrow>
   string option \<Rightarrow> request res"
where
  "request_init rid oid toks sp pp arrival now emb is_tok mms lora salt prio hasher sess =
     rbind (initial_limits sp pp) (\<lambda>(mx, st).
     rbind (length_from_prompt toks emb) (\<lambda>n.
     rbind (update_block_hashes hasher
       \<lparr>request_id = rid, obj_id = oid, priority = prio,
        arrival_time = (case arrival of Some t \<Rightarrow> t | None \<Rightarrow> now),
        sampling_params = sp, pooling_params = pp, lora_request = lora, status = st,
        stop_reason = None, max_tokens = mx, prompt_token_ids = toks, prompt_embeds = emb,
        num_prompt_tokens = n, output_token_ids = [],
        all_token_ids = initial_token_ids toks is_tok n,
        num_output_placeholders = 0, num_stale_output_tokens = 0, drop_stale_output = False,
        num_in_flight_tokens = 0, last_sched_seq = 0, spec_token_ids = [],
        num_computed_tokens = 0, cache_salt = salt,
        mm_features = (case mms of None \<Rightarrow> [] | Some fs \<Rightarrow> fs), session_id = sess,
        prompt_is_token_ids = is_tok, is_prefill_chunk = False, next_decode_eligible_step = 0,
        shared_prefix_boundary = 0, num_preemptions = 0, block_hashes = [],
        skip_reading_prefix_cache = False\<rparr>)
     (\<lambda>r. Inr (r\<lparr>skip_reading_prefix_cache := get_skip_reading_prefix_cache sp pp\<rparr>))))"

definition num_tokens :: "request \<Rightarrow> int" where
  "num_tokens r = int (length (all_token_ids r))"

definition num_tokens_with_spec :: "request \<Rightarrow> int" where
  "num_tokens_with_spec r = int (length (all_token_ids r)) + int (length (spec_token_ids r))"

definition num_output_tokens :: "request \<Rightarrow> int" where
  "num_output_tokens r = int (length (output_token_ids r))"

definition embeds_cumsum :: "placeholder_range \<Rightarrow> int list option" where
  "embeds_cumsum p =
     (case is_embed p of
        None \<Rightarrow> None
      | Some m \<Rightarrow> Some (map (\<lambda>i. int (length (filter id (take (Suc i) m)))) [0..<length m]))"

definition get_num_embeds :: "placeholder_range \<Rightarrow> int" where
  "get_num_embeds p =
     (case embeds_cumsum p of
        None \<Rightarrow> plen p
      | Some cs \<Rightarrow> if cs = [] then 0 else last cs)"

definition get_num_encoder_embeds :: "request \<Rightarrow> nat \<Rightarrow> int res" where
  "get_num_encoder_embeds r i =
     (if i < length (mm_features r) then Inr (get_num_embeds (mm_position (mm_features r ! i)))
      else Inl AssertionError)"

definition request_lt :: "request \<Rightarrow> request \<Rightarrow> bool" where
  "request_lt a b =
     (if priority a \<noteq> priority b then priority a < priority b
      else if arrival_time a \<noteq> arrival_time b then arrival_time a < arrival_time b
      else if request_id a \<noteq> request_id b then request_id a < request_id b
      else obj_id a < obj_id b)"

definition sched_key :: "request \<Rightarrow> int \<times> rat \<times> string \<times> nat" where
  "sched_key r = (priority r, arrival_time r, request_id r, obj_id r)"

section \<open>Facts\<close>

lemma request_lt_key: "request_lt a b \<longleftrightarrow> sched_key a < sched_key b"
  by (auto simp: request_lt_def sched_key_def less_prod_def)

lemma is_finished_iff:
  "is_finished st \<longleftrightarrow> st \<in> {FINISHED_STOPPED, FINISHED_LENGTH_CAPPED, FINISHED_ABORTED,
     FINISHED_IGNORED, FINISHED_ERROR, FINISHED_REPETITION}"
  by (cases st) (simp_all add: is_finished_def less_request_status_def)

lemma is_finished_reason: "is_finished st \<Longrightarrow> get_finished_reason st \<noteq> None"
  by (cases st) (simp_all add: is_finished_def less_request_status_def)

lemma get_num_embeds_mask:
  "is_embed p = Some m \<Longrightarrow> get_num_embeds p = int (length (filter id m))"
  by (auto simp: get_num_embeds_def embeds_cumsum_def last_map)

lemma get_num_embeds_bounds:
  assumes "0 \<le> plen p" and "\<And>m. is_embed p = Some m \<Longrightarrow> int (length m) = plen p"
  shows "0 \<le> get_num_embeds p" and "get_num_embeds p \<le> plen p"
proof -
  have "0 \<le> get_num_embeds p \<and> get_num_embeds p \<le> plen p"
  proof (cases "is_embed p")
    case None
    then show ?thesis using assms by (simp add: get_num_embeds_def embeds_cumsum_def)
  next
    case (Some m)
    then show ?thesis
      using assms(2) [OF Some] of_nat_mono [OF length_filter_le [of id m], where ?'a = int]
      by (simp only: get_num_embeds_mask) simp
  qed
  then show "0 \<le> get_num_embeds p" and "get_num_embeds p \<le> plen p" by simp_all
qed

lemma update_block_hashes_frame:
  "update_block_hashes hasher r = Inr r' \<Longrightarrow> \<exists>hs. r' = r\<lparr>block_hashes := block_hashes r @ hs\<rparr>"
  by (cases r) (auto simp: update_block_hashes_def split: option.splits; metis append_Nil2)

section \<open>A concrete request\<close>

text \<open>A plain text request, as the constructor builds it; used to instantiate theorems.\<close>

definition sample_params :: sampling_params where
  "sample_params = \<lparr>sp_max_tokens = Some 4, eos_token_id = Some 2, stop_token_ids = None,
     min_tokens = 0, repetition_detection = None, sp_skip_reading_prefix_cache = None,
     has_structured_outputs = False\<rparr>"

definition sample_request :: "string \<Rightarrow> int list \<Rightarrow> request" where
  "sample_request rid ts =
     \<lparr>request_id = rid, obj_id = length rid, priority = 0, arrival_time = 0,
      sampling_params = Some sample_params, pooling_params = None, lora_request = None,
      status = WAITING, stop_reason = None, max_tokens = 4, prompt_token_ids = Some ts,
      prompt_embeds = None, num_prompt_tokens = int (length ts), output_token_ids = [],
      all_token_ids = ts, num_output_placeholders = 0, num_stale_output_tokens = 0,
      drop_stale_output = False, num_in_flight_tokens = 0, last_sched_seq = 0,
      spec_token_ids = [], num_computed_tokens = 0, cache_salt = None, mm_features = [],
      session_id = None, prompt_is_token_ids = None, is_prefill_chunk = False,
      next_decode_eligible_step = 0, shared_prefix_boundary = 0, num_preemptions = 0,
      block_hashes = [], skip_reading_prefix_cache = False\<rparr>"

lemma sample_request_init:
  "request_init rid (length rid) (Some ts) (Some sample_params) None None 0 None None None None None 0
     None None = Inr (sample_request rid ts)"
  by (simp add: request_init_def initial_limits_def sample_params_def length_from_prompt_def
      update_block_hashes_def initial_token_ids_def get_skip_reading_prefix_cache_def
      sample_request_def)

end
