(* ===== verification/Sched_Utils.thy ===== *)
theory Sched_Utils
  imports Request
begin

text \<open>
  The helpers of the scheduler (\<^verbatim>\<open>vllm/v1/core/sched/utils.py\<close>): detection of a repeating tail of
  the output, removal of several items from a list, and the stop check run after every generated
  token. Indexing with a negative index is \<^const>\<open>py_get\<close>, which raises outside the list.
\<close>

section \<open>Definitions\<close>

fun all_equal_back :: "int list \<Rightarrow> int \<Rightarrow> int \<Rightarrow> int \<Rightarrow> int list \<Rightarrow> bool res" where
  \<comment> \<open>the inner loop over \<open>m\<close>\<close>
  "all_equal_back ts p n target [] = Inr True"
| "all_equal_back ts p n target (m # ms) =
     rbind (py_get ts (- (p * m + n))) (\<lambda>t.
       if t \<noteq> target then Inr False else all_equal_back ts p n target ms)"

fun has_repeating_pattern_loop :: "int list \<Rightarrow> int \<Rightarrow> int \<Rightarrow> int list \<Rightarrow> bool res" where
  "has_repeating_pattern_loop ts p c [] = Inr True"
| "has_repeating_pattern_loop ts p c (n # ns) =
     rbind (py_get ts (- n)) (\<lambda>target.
     rbind (all_equal_back ts p n target [1..c - 1]) (\<lambda>ok.
       if ok then has_repeating_pattern_loop ts p c ns else Inr False))"

definition has_repeating_pattern :: "int list \<Rightarrow> int \<Rightarrow> int \<Rightarrow> bool res" where
  "has_repeating_pattern ts p c = has_repeating_pattern_loop ts p c [1..p]"

fun check_repetition_loop :: "int list \<Rightarrow> int \<Rightarrow> int list \<Rightarrow> bool res" where
  "check_repetition_loop ts c [] = Inr False"
| "check_repetition_loop ts c (p # ps) =
     (if p * c > int (length ts) then Inr False
      else rbind (has_repeating_pattern ts p c) (\<lambda>rep.
        if rep then Inr True else check_repetition_loop ts c ps))"

definition check_sequence_repetition :: "int list \<Rightarrow> repetition_params \<Rightarrow> bool res" where
  "check_sequence_repetition ts params =
     (let mx = max_pattern_size params;
          mn = (if min_pattern_size params \<le> 0 then 1 else min_pattern_size params);
          c = min_count params
      in if mx \<le> 0 \<or> c < 2 \<or> mn > mx then Inr False
         else check_repetition_loop ts c [mn..mx])"

definition remove_all_items :: "'a list \<Rightarrow> 'a list \<Rightarrow> 'a list" where
  \<comment> \<open>\<^verbatim>\<open>remove_all\<close>; the Python set is the list of its elements in iteration order\<close>
  "remove_all_items lst items =
     (if items = [] then lst
      else if length items = 1 then remove1 (hd items) lst
      else filter (\<lambda>x. x \<notin> set items) lst)"

definition check_stop :: "request \<Rightarrow> int \<Rightarrow> (bool \<times> request) res" where
  "check_stop r max_model_len =
     rbind (ensure (pooling_params r = None) AssertionError) (\<lambda>_.
     (case sampling_params r of
        None \<Rightarrow> Inl AssertionError
      | Some sp \<Rightarrow>
        rbind (py_get (output_token_ids r) (- 1)) (\<lambda>last_token_id.
        if Some last_token_id = eos_token_id sp
        then Inr (True, r\<lparr>status := FINISHED_STOPPED\<rparr>)
        else if last_token_id \<in> set (case stop_token_ids sp of None \<Rightarrow> [] | Some l \<Rightarrow> l)
        then Inr (True, r\<lparr>status := FINISHED_STOPPED, stop_reason := Some (Stop_token last_token_id)\<rparr>)
        else if num_tokens r \<ge> max_model_len \<or> num_output_tokens r \<ge> max_tokens r
        then Inr (True, r\<lparr>status := FINISHED_LENGTH_CAPPED\<rparr>)
        else if num_output_tokens r < min_tokens sp then Inr (False, r)
        else (case repetition_detection sp of
                None \<Rightarrow> Inr (False, r)
              | Some rd \<Rightarrow>
                rbind (check_sequence_repetition (output_token_ids r) rd) (\<lambda>rep.
                if rep then Inr (True, r\<lparr>status := FINISHED_REPETITION,
                                         stop_reason := Some (Stop_text ''repetition_detected'')\<rparr>)
                else Inr (False, r))))))"

section \<open>Repetition\<close>

definition repeats :: "int list \<Rightarrow> int \<Rightarrow> int \<Rightarrow> bool" where
  \<comment> \<open>the list ends in \<open>c\<close> copies of one pattern of length \<open>p\<close>\<close>
  "repeats ts p c \<longleftrightarrow>
     (\<exists>pre pat. int (length pat) = p \<and> ts = pre @ concat (replicate (nat c) pat))"

lemma concat_replicate_nth:
  "length pat = p \<Longrightarrow> i < c * p \<Longrightarrow> concat (replicate c pat) ! i = pat ! (i mod p)"
proof (induction c arbitrary: i)
  case 0
  then show ?case by simp
next
  case (Suc c)
  show ?case
  proof (cases "i < p")
    case True
    then show ?thesis using Suc.prems by (simp add: nth_append)
  next
    case False
    then have "i - p < c * p" using Suc.prems by simp
    moreover have "(i - p) mod p = i mod p" using False by (simp add: le_mod_geq)
    ultimately show ?thesis using Suc False by (simp add: nth_append)
  qed
qed

lemma length_concat_replicate: "length (concat (replicate c pat)) = c * length pat"
  by (induction c) auto

lemma py_get_back:
  "1 \<le> i \<Longrightarrow> i \<le> int (length ts) \<Longrightarrow> py_get ts (- i) = Inr (ts ! (length ts - nat i))"
  by (simp add: py_get_def nat_le_iff)

lemma all_equal_back_in_range:
  assumes "\<forall>m \<in> set ms. 1 \<le> p * m + n \<and> p * m + n \<le> int (length ts)"
  shows "all_equal_back ts p n target ms =
    Inr (\<forall>m \<in> set ms. ts ! (length ts - nat (p * m + n)) = target)"
  using assms
proof (induction ms)
  case (Cons m ms)
  then have "py_get ts (- (p * m + n)) = Inr (ts ! (length ts - nat (p * m + n)))"
    by (intro py_get_back) auto
  with Cons show ?case by simp
qed simp

lemma has_repeating_pattern_loop_in_range:
  assumes "\<forall>n \<in> set ns. 1 \<le> n \<and> n \<le> p" and "1 \<le> p" and "2 \<le> c" and "p * c \<le> int (length ts)"
  shows "has_repeating_pattern_loop ts p c ns =
    Inr (\<forall>n \<in> set ns. \<forall>m \<in> {1..c - 1}.
           ts ! (length ts - nat (p * m + n)) = ts ! (length ts - nat n))"
  using assms(1)
proof (induction ns)
  case (Cons n ns)
  have n: "1 \<le> n" "n \<le> p" using Cons.prems by auto
  have b: "1 \<le> p * m + n \<and> p * m + n \<le> int (length ts)" if "m \<in> {1..c - 1}" for m
  proof -
    have "p * m \<le> p * (c - 1)" using that assms(2) by (intro mult_left_mono) auto
    moreover have "0 \<le> p * m" using that assms(2) by simp
    ultimately show ?thesis using n assms(4) by (simp add: algebra_simps)
  qed
  have "p * 1 \<le> p * c" using assms(2,3) by (intro mult_left_mono) auto
  then have "p \<le> p * c" by (simp only: mult_1_right)
  then have "py_get ts (- n) = Inr (ts ! (length ts - nat n))"
    using n assms(4) by (intro py_get_back) linarith+
  moreover have "all_equal_back ts p n (ts ! (length ts - nat n)) [1..c - 1] =
     Inr (\<forall>m \<in> {1..c - 1}. ts ! (length ts - nat (p * m + n)) = ts ! (length ts - nat n))"
    using b by (subst all_equal_back_in_range) auto
  ultimately show ?case using Cons by (auto simp del: atLeastAtMost_iff)
qed simp

lemma periodic_suffix:
  fixes p c :: nat
  assumes p: "0 < p" and c: "0 < c" and len: "length ts = k + c * p"
    and eq: "\<And>n m. n \<in> {1..p} \<Longrightarrow> m < c \<Longrightarrow> ts ! (length ts - (p * m + n)) = ts ! (length ts - n)"
  shows "ts = take k ts @ concat (replicate c (drop (length ts - p) ts))"
proof (rule nth_equalityI)
  obtain c' where c': "c = Suc c'" using c gr0_conv_Suc by auto
  have pl: "p \<le> c * p" by (simp add: c')
  show "length ts = length (take k ts @ concat (replicate c (drop (length ts - p) ts)))"
    using len by (simp add: length_concat_replicate c')
  fix i assume i: "i < length ts"
  show "ts ! i = (take k ts @ concat (replicate c (drop (length ts - p) ts))) ! i"
  proof (cases "i < k")
    case True
    then show ?thesis using len by (simp add: nth_append)
  next
    case False
    define j where "j = i - k"
    have j: "j < c * p" and ij: "i = k + j" using False i len j_def by auto
    define q r where "q = j div p" and "r = j mod p"
    have jqr: "j = q * p + r" and r: "r < p" and q: "q < c"
      using p j by (auto simp: q_def r_def less_mult_imp_div_less)
    define m n where "m = c - 1 - q" and "n = p - r"
    have mc: "m < c" and n: "n \<in> {1..p}" using q c r by (auto simp: m_def n_def)
    have "c = Suc (m + q)" using q by (simp add: m_def)
    then have cp: "c * p = p + p * m + q * p" by (simp add: algebra_simps)
    have e1: "length ts - (p * m + n) = i" using cp jqr r by (simp add: len ij n_def)
    have e2: "length ts - n = length ts - p + r" using r len by (simp add: n_def c')
    have "ts ! i = ts ! (length ts - p + r)" using eq [OF n mc] by (simp add: e1 e2)
    moreover have "concat (replicate c (drop (length ts - p) ts)) ! j = drop (length ts - p) ts ! r"
      unfolding r_def using j len by (intro concat_replicate_nth) (auto simp: c')
    moreover have "drop (length ts - p) ts ! r = ts ! (length ts - p + r)"
      using r len pl by (intro nth_drop) simp
    ultimately show ?thesis using False len by (simp add: nth_append ij)
  qed
qed

lemma suffix_periodic:
  fixes p c :: nat
  assumes "ts = pre @ concat (replicate c pat)" and "length pat = p" and "n \<in> {1..p}" and "m < c"
  shows "ts ! (length ts - (p * m + n)) = pat ! (p - n)"
proof -
  obtain d where d: "c = m + Suc d" using assms(4) less_iff_Suc_add by auto
  have cp: "c * p = p * m + p + d * p" by (simp add: d algebra_simps)
  have "length ts - (p * m + n) = length pre + (d * p + (p - n))"
    using assms(1,2,3) cp by (simp add: length_concat_replicate)
  then have "ts ! (length ts - (p * m + n)) = concat (replicate c pat) ! (d * p + (p - n))"
    using assms(1) by (simp add: nth_append)
  also have "\<dots> = pat ! ((d * p + (p - n)) mod p)"
    using assms(2,3) cp by (intro concat_replicate_nth) auto
  also have "(d * p + (p - n)) mod p = p - n"
    unfolding mod_mult_self3 using assms(3) by (intro mod_less) auto
  finally show ?thesis .
qed

lemma has_repeating_pattern_iff:
  assumes "1 \<le> p" and "2 \<le> c" and "p * c \<le> int (length ts)"
  shows "has_repeating_pattern ts p c = Inr (repeats ts p c)"
proof -
  obtain P C where PC: "p = int P" "c = int C"
    using assms nonneg_int_cases by (metis order_trans zero_le_one zero_le_numeral)
  have pc: "0 < P" "0 < C" "1 < C" "P * C \<le> length ts" using assms by (simp_all add: PC flip: of_nat_mult)
  define k where "k = length ts - C * P"
  have len: "length ts = k + C * P" using pc(4) by (simp add: k_def mult.commute)
  let ?Q = "\<forall>n \<in> {1..P}. \<forall>m < C. ts ! (length ts - (P * m + n)) = ts ! (length ts - n)"
  have "(\<forall>n \<in> set [1..p]. \<forall>m \<in> {1..c - 1}.
           ts ! (length ts - nat (p * m + n)) = ts ! (length ts - nat n)) \<longleftrightarrow> ?Q" (is "?L = _")
  proof
    assume L: ?L
    show ?Q
    proof (intro ballI allI impI)
      fix n m assume n: "n \<in> {1..P}" and m: "m < C"
      show "ts ! (length ts - (P * m + n)) = ts ! (length ts - n)"
      proof (cases "m = 0")
        case False
        have "nat (p * int m + int n) = P * m + n" by (simp add: PC nat_int_add flip: of_nat_mult)
        then show ?thesis using L [rule_format, of "int n" "int m"] n m False by (simp add: PC)
      qed simp
    qed
  next
    assume Q: ?Q
    show ?L
    proof (intro ballI)
      fix n m assume nm: "n \<in> set [1..p]" "m \<in> {1..c - 1}"
      define N M where "N = nat n" and "M = nat m"
      have NM: "n = int N" "m = int M" using nm by (simp_all add: N_def M_def)
      have "nat (p * m + n) = P * M + N" by (simp add: PC NM nat_int_add flip: of_nat_mult)
      then show "ts ! (length ts - nat (p * m + n)) = ts ! (length ts - nat n)"
        using Q nm by (simp add: PC NM)
    qed
  qed
  moreover have "?Q \<longleftrightarrow> repeats ts p c"
  proof
    assume ?Q
    then have "ts = take k ts @ concat (replicate C (drop (length ts - P) ts))"
      using periodic_suffix [OF pc(1,2) len] by blast
    moreover have "P \<le> length ts" using len pc(2) by (cases C) auto
    ultimately show "repeats ts p c" unfolding repeats_def PC nat_int
      by (intro exI [of _ "take k ts"] exI [of _ "drop (length ts - P) ts"]) simp
  next
    assume "repeats ts p c"
    then obtain pre pat where r: "length pat = P" "ts = pre @ concat (replicate C pat)"
      by (auto simp: repeats_def PC)
    show ?Q using suffix_periodic [OF r(2,1)] suffix_periodic [OF r(2,1), of _ 0] pc(2) by simp
  qed
  ultimately show ?thesis
    using has_repeating_pattern_loop_in_range [of "[1..p]", OF _ assms]
    by (simp add: has_repeating_pattern_def)
qed

lemma check_repetition_loop_upto:
  assumes "1 \<le> a" and "2 \<le> c"
  shows "check_repetition_loop ts c [a..b] =
    Inr (\<exists>p \<in> {a..b}. p * c \<le> int (length ts) \<and> repeats ts p c)"
  using assms(1)
proof (induction "nat (b - a + 1)" arbitrary: a)
  case 0
  then show ?case by simp
next
  case (Suc x)
  then have ab: "a \<le> b" by simp
  have insert_split: "{a..b} = insert a {a + 1..b}" using ab by auto
  have bex: "(\<exists>p \<in> {a..b}. Q p) \<longleftrightarrow> Q a \<or> (\<exists>p \<in> {a + 1..b}. Q p)" for Q
    by (subst insert_split) (simp only: Set.bex_simps)
  have IH: "check_repetition_loop ts c [a + 1..b] =
      Inr (\<exists>p \<in> {a + 1..b}. p * c \<le> int (length ts) \<and> repeats ts p c)"
    using Suc.prems Suc.hyps(2) ab by (intro Suc.hyps(1)) auto
  show ?case
  proof (cases "a * c \<le> int (length ts)")
    case True
    then show ?thesis
      using has_repeating_pattern_iff [OF Suc.prems assms(2) True] IH
      by (subst bex, subst upto_rec1 [OF ab]) (simp add: not_less [THEN iffD2, OF True])
  next
    case False
    have "\<not> p * c \<le> int (length ts)" if "a \<le> p" for p
      using mult_right_mono [OF that, of c] assms(2) False by linarith
    then have "\<not> (\<exists>p \<in> {a..b}. p * c \<le> int (length ts) \<and> repeats ts p c)" by auto
    moreover have "check_repetition_loop ts c [a..b] = Inr False"
      using False by (subst upto_rec1 [OF ab]) (simp only: check_repetition_loop.simps not_le if_True)
    ultimately show ?thesis by (simp only: simp_thms)
  qed
qed

lemma check_sequence_repetition_iff:
  "check_sequence_repetition ts params =
     Inr (2 \<le> min_count params \<and>
       (\<exists>p. max 1 (min_pattern_size params) \<le> p \<and> p \<le> max_pattern_size params \<and>
          p * min_count params \<le> int (length ts) \<and> repeats ts p (min_count params)))"
proof -
  let ?mn = "if min_pattern_size params \<le> 0 then 1 else min_pattern_size params"
  have mn: "?mn = max 1 (min_pattern_size params)" by simp
  show ?thesis
  proof (cases "max_pattern_size params \<le> 0 \<or> min_count params < 2 \<or> ?mn > max_pattern_size params")
    case True
    then show ?thesis unfolding check_sequence_repetition_def Let_def mn by auto
  next
    case False
    then show ?thesis unfolding check_sequence_repetition_def Let_def
      using check_repetition_loop_upto [of ?mn "min_count params" ts "max_pattern_size params"]
      unfolding mn by auto
  qed
qed

section \<open>Removing items\<close>

lemma remove_all_items_distinct:
  assumes "distinct lst \<or> length items \<noteq> 1"
  shows "remove_all_items lst items = filter (\<lambda>x. x \<notin> set items) lst"
proof (cases "length items = 1")
  case True
  then obtain x where "items = [x]" by (cases items) auto
  then show ?thesis using assms
    by (simp add: remove_all_items_def distinct_remove1_removeAll removeAll_filter_not_eq
        neq_commute)
qed (auto simp: remove_all_items_def)

section \<open>Stopping\<close>

lemma if_chain:
  "(if a then Inr x else if b then Inr y else if c then Inr z else if d then Inr w
    else Inr (if e then u else w)) =
   Inr (if a then x else if b then y else if c then z else if \<not> d \<and> e then u else w)"
  by simp

lemma if_chain_True:
  assumes "(if a then (True, x) else if b then (True, y) else if c then (True, z)
     else if e then (True, u) else (False, w)) = (True, v)"
  shows "v = x \<or> v = y \<or> v = z \<or> v = u"
  using assms by (auto split: if_splits)

lemma check_stop_unfold:
  assumes "pooling_params r = None" and "sampling_params r = Some sp"
    and "output_token_ids r \<noteq> []" and "t = last (output_token_ids r)"
  shows "check_stop r L =
    Inr (if Some t = eos_token_id sp then (True, r\<lparr>status := FINISHED_STOPPED\<rparr>)
         else if \<exists>l. stop_token_ids sp = Some l \<and> t \<in> set l
         then (True, r\<lparr>status := FINISHED_STOPPED, stop_reason := Some (Stop_token t)\<rparr>)
         else if num_tokens r \<ge> L \<or> num_output_tokens r \<ge> max_tokens r
         then (True, r\<lparr>status := FINISHED_LENGTH_CAPPED\<rparr>)
         else if \<not> num_output_tokens r < min_tokens sp \<and>
           (\<exists>rd. repetition_detection sp = Some rd \<and>
              check_sequence_repetition (output_token_ids r) rd = Inr True)
         then (True, r\<lparr>status := FINISHED_REPETITION,
                       stop_reason := Some (Stop_text ''repetition_detected'')\<rparr>)
         else (False, r))"
proof -
  have "1 \<le> int (length (output_token_ids r))" using assms(3) by (cases "output_token_ids r") auto
  then have g: "py_get (output_token_ids r) (- 1) = Inr t"
    using assms(3,4) by (simp add: py_get_back last_conv_nth)
  have c: "t \<in> set (case stop_token_ids sp of None \<Rightarrow> [] | Some l \<Rightarrow> l) \<longleftrightarrow>
      (\<exists>l. stop_token_ids sp = Some l \<and> t \<in> set l)"
    by (cases "stop_token_ids sp") auto
  obtain b where b: "b = (\<exists>rd. repetition_detection sp = Some rd \<and>
              check_sequence_repetition (output_token_ids r) rd = Inr True)" by blast
  have d: "(case repetition_detection sp of
                None \<Rightarrow> Inr (False, r)
              | Some rd \<Rightarrow>
                rbind (check_sequence_repetition (output_token_ids r) rd) (\<lambda>rep.
                if rep then Inr (True, r\<lparr>status := FINISHED_REPETITION,
                                         stop_reason := Some (Stop_text ''repetition_detected'')\<rparr>)
                else Inr (False, r))) =
      Inr (if b then (True, r\<lparr>status := FINISHED_REPETITION,
                             stop_reason := Some (Stop_text ''repetition_detected'')\<rparr>) else (False, r))"
  proof (cases "repetition_detection sp")
    case (Some rd)
    obtain v where v: "check_sequence_repetition (output_token_ids r) rd = Inr v"
      using check_sequence_repetition_iff by blast
    have "b = v" by (simp add: b Some v)
    then show ?thesis by (simp add: Some v)
  qed (simp add: b)
  show ?thesis
    unfolding check_stop_def assms(1,2) g ensure_def if_True simp_thms option.case rbind_Inr c d b [symmetric]
    by (rule if_chain)
qed

lemma check_stop_continue:
  assumes "pooling_params r = None" and "sampling_params r = Some sp" and "output_token_ids r \<noteq> []"
    and "check_stop r L = Inr (False, r')"
  shows "r' = r" and "num_tokens r < L" and "num_output_tokens r < max_tokens r"
  using assms(4) unfolding check_stop_unfold [OF assms(1,2,3) refl] by (auto split: if_splits)

lemma check_stop_finish:
  assumes "pooling_params r = None" and "sampling_params r = Some sp" and "output_token_ids r \<noteq> []"
    and "check_stop r L = Inr (True, r')"
  shows "\<exists>st rs. is_finished st \<and> r' = r\<lparr>status := st, stop_reason := rs\<rparr>"
proof -
  have u: "r\<lparr>status := st\<rparr> = r\<lparr>status := st, stop_reason := stop_reason r\<rparr>" for st
    by (cases r) simp
  have f: "is_finished FINISHED_STOPPED" "is_finished FINISHED_LENGTH_CAPPED"
    "is_finished FINISHED_REPETITION" by (simp_all add: is_finished_iff)
  show ?thesis
    using if_chain_True [OF assms(4) [unfolded check_stop_unfold [OF assms(1,2,3) refl] sum.inject]]
    by (elim disjE) (use u f in blast)+
qed

section \<open>Properties\<close>

text \<open>
  C19: \<^verbatim>\<open>check_sequence_repetition\<close> never raises, whatever its parameters, and returns true exactly when
  the tokens end in \<^verbatim>\<open>min_count\<close> (at least two) copies of some pattern whose length lies between the
  configured bounds, the lower one being at least one.
\<close>
theorem check_sequence_repetition_correct:
  "check_sequence_repetition ts params =
     Inr (2 \<le> min_count params \<and>
       (\<exists>p. max 1 (min_pattern_size params) \<le> p \<and> p \<le> max_pattern_size params \<and>
          repeats ts p (min_count params)))"
proof -
  have "p * c \<le> int (length ts)" if rep: "repeats ts p c" and c: "0 \<le> c" for p c
  proof -
    obtain pre pat where "int (length pat) = p" "ts = pre @ concat (replicate (nat c) pat)"
      using rep unfolding repeats_def by blast
    then show ?thesis using c by (simp add: length_concat_replicate mult.commute)
  qed
  then show ?thesis unfolding check_sequence_repetition_iff by auto
qed

text \<open>
  C22: the stop check ends generation in time: for a generation request with at least one output token
  it never raises; when it lets the request continue nothing has changed and both the model length
  and the token limit still leave room for another token; when it stops the request, only status and
  stop reason changed, and the status is a finished one with a reason to report.
\<close>
theorem check_stop_correct:
  assumes "pooling_params r = None" and "sampling_params r = Some sp" and "output_token_ids r \<noteq> []"
  shows "\<exists>stop r'. check_stop r max_model_len = Inr (stop, r') \<and>
    (\<not> stop \<longrightarrow> r' = r \<and> num_tokens r + 1 \<le> max_model_len \<and> num_output_tokens r + 1 \<le> max_tokens r) \<and>
    (stop \<longrightarrow> (\<exists>st rs. r' = r\<lparr>status := st, stop_reason := rs\<rparr> \<and> is_finished st \<and>
        get_finished_reason st \<noteq> None))"
proof -
  have "\<exists>x. check_stop r max_model_len = Inr x"
    by (rule exI, rule check_stop_unfold [OF assms refl])
  then obtain stop r' where s: "check_stop r max_model_len = Inr (stop, r')" by force
  show ?thesis
  proof (cases stop)
    case True
    obtain st rs where "is_finished st" "r' = r\<lparr>status := st, stop_reason := rs\<rparr>"
      using check_stop_finish [OF assms, of max_model_len r'] s True by auto
    then show ?thesis using s True is_finished_reason by (intro exI [of _ stop] exI [of _ r']) auto
  next
    case False
    note C = check_stop_continue [OF assms, of max_model_len r', unfolded s]
    have "r' = r" "num_tokens r < max_model_len" "num_output_tokens r < max_tokens r"
      using C False by simp_all
    then show ?thesis using s False by (intro exI [of _ stop] exI [of _ r']) simp
  qed
qed

theorem check_stop_correct_witness:
  "let r = (sample_request ''r'' [7])\<lparr>output_token_ids := [5], all_token_ids := [7, 5]\<rparr>
   in pooling_params r = None \<and> sampling_params r = Some sample_params \<and> output_token_ids r \<noteq> [] \<and>
      (\<exists>stop r'. check_stop r 3 = Inr (stop, r'))"
proof -
  let ?r = "(sample_request ''r'' [7])\<lparr>output_token_ids := [5], all_token_ids := [7, 5]\<rparr>"
  have h: "pooling_params ?r = None" "sampling_params ?r = Some sample_params" "output_token_ids ?r \<noteq> []"
    by (simp_all add: sample_request_def)
  show ?thesis unfolding Let_def using h check_stop_correct [OF h, of 3] by blast
qed

text \<open>
  C26: \<^verbatim>\<open>remove_all\<close> agrees with filtering the list by the set when the list has no repetitions or the
  set does not have exactly one element; with one element to remove only its first occurrence goes, so
  a repeated item survives although the documentation promises to remove all items in the set.
\<close>
theorem remove_all_filters_unless_repeated:
  "(distinct lst \<or> length items \<noteq> 1 \<longrightarrow>
      remove_all_items lst items = filter (\<lambda>x. x \<notin> set items) lst) \<and>
   remove_all_items [x, x] [x] = [x]"
proof
  show "distinct lst \<or> length items \<noteq> 1 \<longrightarrow>
      remove_all_items lst items = filter (\<lambda>x. x \<notin> set items) lst"
    using remove_all_items_distinct by blast
qed (simp add: remove_all_items_def)

theorem remove_all_filters_unless_repeated_witness:
  "distinct [1, 2, 3 :: nat] \<and> remove_all_items [1, 2, 3] [2 :: nat] = [1, 3]"
  using remove_all_filters_unless_repeated [of "[1, 2, 3 :: nat]" "[2]" 0] by auto

end
