(* ===== verification/Heapq.thy ===== *)
theory Heapq
  imports Prelude
begin

text \<open>
  The binary heap of Python's standard module \<^verbatim>\<open>heapq\<close>, on lists, as the priority request queue
  uses it: \<^verbatim>\<open>_siftdown\<close>, \<^verbatim>\<open>_siftup\<close>, \<^verbatim>\<open>heappush\<close>, \<^verbatim>\<open>heappop\<close> and \<^verbatim>\<open>heapify\<close> over a comparison
  \<open>lt\<close> (the \<^verbatim>\<open>__lt__\<close> of the elements). The locale \<open>key_order\<close> states that the comparison comes from
  a linear order on keys; inside it the heap order is shown to be kept and the popped element minimal.
\<close>

section \<open>Definitions\<close>

definition parent :: "nat \<Rightarrow> nat" where
  "parent i = (i - 1) div 2"

lemma parent_less: "0 < i \<Longrightarrow> parent i < i"
  by (simp add: parent_def)

lemma parent_child [simp]: "parent (2 * i + 1) = i" "parent (2 * i + 2) = i" "parent (Suc (2 * i)) = i"
  by (simp_all add: parent_def)

lemma parent_eq: "0 < i \<Longrightarrow> parent i = p \<longleftrightarrow> i = 2 * p + 1 \<or> i = 2 * p + 2"
  by (auto simp: parent_def)

fun siftdown_loop :: "('a \<Rightarrow> 'a \<Rightarrow> bool) \<Rightarrow> 'a \<Rightarrow> nat \<Rightarrow> nat \<Rightarrow> 'a list \<Rightarrow> 'a list" where
  "siftdown_loop lt newitem startpos pos h =
     (if pos > startpos then
        let parentpos = (pos - 1) div 2
        in if lt newitem (h ! parentpos)
           then siftdown_loop lt newitem startpos parentpos (h[pos := h ! parentpos])
           else h[pos := newitem]
      else h[pos := newitem])"

declare siftdown_loop.simps [simp del]

definition siftdown :: "('a \<Rightarrow> 'a \<Rightarrow> bool) \<Rightarrow> nat \<Rightarrow> nat \<Rightarrow> 'a list \<Rightarrow> 'a list" where
  "siftdown lt startpos pos h = siftdown_loop lt (h ! pos) startpos pos h"

function siftup_loop :: "('a \<Rightarrow> 'a \<Rightarrow> bool) \<Rightarrow> nat \<Rightarrow> 'a list \<Rightarrow> nat \<times> 'a list" where
  "siftup_loop lt pos h =
     (let childpos = 2 * pos + 1
      in if childpos < length h then
           let c = (if childpos + 1 < length h \<and> \<not> lt (h ! childpos) (h ! (childpos + 1))
                    then childpos + 1 else childpos)
           in siftup_loop lt c (h[pos := h ! c])
         else (pos, h))"
  by pat_completeness auto
termination
  by (relation "measure (\<lambda>(lt, pos, h). length h - pos)") (auto simp: Let_def split: if_splits)

declare siftup_loop.simps [simp del]

definition siftup :: "('a \<Rightarrow> 'a \<Rightarrow> bool) \<Rightarrow> nat \<Rightarrow> 'a list \<Rightarrow> 'a list" where
  "siftup lt pos h =
     (let newitem = h ! pos; (p, h') = siftup_loop lt pos h
      in siftdown lt pos p (h'[p := newitem]))"

definition heappush :: "('a \<Rightarrow> 'a \<Rightarrow> bool) \<Rightarrow> 'a list \<Rightarrow> 'a \<Rightarrow> 'a list" where
  "heappush lt h x = siftdown lt 0 (length h) (h @ [x])"

definition heappop :: "('a \<Rightarrow> 'a \<Rightarrow> bool) \<Rightarrow> 'a list \<Rightarrow> ('a \<times> 'a list) res" where
  "heappop lt h =
     (if h = [] then Inl IndexError
      else let lastelt = last h; h' = butlast h
           in if h' = [] then Inr (lastelt, [])
              else Inr (h' ! 0, siftup lt 0 (h'[0 := lastelt])))"

definition heapify :: "('a \<Rightarrow> 'a \<Rightarrow> bool) \<Rightarrow> 'a list \<Rightarrow> 'a list" where
  "heapify lt h = fold (siftup lt) (rev [0..<length h div 2]) h"

section \<open>The elements are kept\<close>

lemma mset_update_swap:
  "i < length h \<Longrightarrow> j < length h \<Longrightarrow> i \<noteq> j \<Longrightarrow>
   mset (h[i := h ! j, j := x]) = mset (h[i := x])"
  by (simp add: mset_update nth_list_update Multiset.diff_union_swap2 add.commute multi_self_add_other_not_self)

lemma length_siftdown_loop [simp]: "length (siftdown_loop lt x s p h) = length h"
  by (induction lt x s p h rule: siftdown_loop.induct) (subst siftdown_loop.simps, simp add: Let_def)

lemma mset_siftdown_loop:
  "p < length h \<Longrightarrow> mset (siftdown_loop lt x s p h) = mset (h[p := x])"
proof (induction lt x s p h rule: siftdown_loop.induct)
  case (1 lt x s p h)
  show ?case
  proof (cases "s < p \<and> lt x (h ! ((p - 1) div 2))")
    case True
    have lt: "(p - 1) div 2 < p" using True by auto
    have "mset (siftdown_loop lt x s p h) =
      mset (siftdown_loop lt x s ((p - 1) div 2) (h[p := h ! ((p - 1) div 2)]))"
      using True by (subst siftdown_loop.simps) (simp add: Let_def)
    also have "\<dots> = mset (h[p := h ! ((p - 1) div 2), (p - 1) div 2 := x])"
      using True lt "1.prems" by (intro "1.IH") auto
    also have "\<dots> = mset (h[p := x])" using lt "1.prems" by (intro mset_update_swap) auto
    finally show ?thesis .
  next
    case False
    then show ?thesis by (subst siftdown_loop.simps) (auto simp: Let_def)
  qed
qed

lemma length_siftup_loop [simp]: "length (snd (siftup_loop lt p h)) = length h"
  by (induction lt p h rule: siftup_loop.induct) (subst siftup_loop.simps, simp add: Let_def)

lemma mset_siftup_loop:
  "p < length h \<Longrightarrow> siftup_loop lt p h = (q, h') \<Longrightarrow>
   q < length h \<and> mset (h'[q := x]) = mset (h[p := x])"
proof (induction lt p h rule: siftup_loop.induct)
  case (1 lt p h)
  let ?c = "if 2 * p + 1 + 1 < length h \<and> \<not> lt (h ! (2 * p + 1)) (h ! (2 * p + 1 + 1))
            then 2 * p + 1 + 1 else 2 * p + 1"
  show ?case
  proof (cases "2 * p + 1 < length h")
    case True
    have c: "?c < length h" "?c \<noteq> p" using True by auto
    have step: "siftup_loop lt ?c (h[p := h ! ?c]) = (q, h')"
      using "1.prems"(2) True by (subst (asm) siftup_loop.simps) (simp only: Let_def if_True)
    have "q < length (h[p := h ! ?c]) \<and> mset (h'[q := x]) = mset (h[p := h ! ?c, ?c := x])"
      by (rule "1.IH" [OF refl True refl _ step]) (use c in simp)
    moreover have "mset (h[p := h ! ?c, ?c := x]) = mset (h[p := x])"
      using c "1.prems"(1) by (intro mset_update_swap) auto
    ultimately show ?thesis by simp
  next
    case False
    then show ?thesis using "1.prems" by (subst (asm) siftup_loop.simps) (auto simp: Let_def)
  qed
qed

lemma mset_siftdown: "p < length h \<Longrightarrow> mset (siftdown lt s p h) = mset h"
  by (simp add: siftdown_def mset_siftdown_loop)

lemma length_siftup [simp]: "length (siftup lt p h) = length h"
  by (cases "siftup_loop lt p h")
    (use length_siftup_loop [of lt p h] in \<open>simp add: siftup_def siftdown_def Let_def\<close>)

lemma mset_siftup: "p < length h \<Longrightarrow> mset (siftup lt p h) = mset h"
proof -
  assume p: "p < length h"
  obtain q h' where qh: "siftup_loop lt p h = (q, h')" by force
  have "q < length h'" using mset_siftup_loop [OF p qh] length_siftup_loop [of lt p h] qh by simp
  then show ?thesis using mset_siftup_loop [OF p qh, of "h ! p"]
    by (simp add: siftup_def Let_def qh mset_siftdown)
qed

section \<open>The heap order\<close>

lemma siftdown_loop_parent:
  "siftdown_loop lt x s p h =
     (if s < p \<and> lt x (h ! parent p) then siftdown_loop lt x s (parent p) (h[p := h ! parent p])
      else h[p := x])"
  by (subst siftdown_loop.simps) (simp add: Let_def parent_def)

fun below :: "nat \<Rightarrow> nat \<Rightarrow> bool" where
  \<comment> \<open>position \<open>p\<close> lies in the subtree of \<open>s\<close>\<close>
  "below s p = (if s < p then below s ((p - 1) div 2) else p = s)"

declare below.simps [simp del]

lemma below_refl: "below s s"
  by (simp add: below.simps)

lemma below_ge: "below s p \<Longrightarrow> s \<le> p"
  by (subst (asm) below.simps) (auto split: if_splits)

lemma below_parent: "below s p \<Longrightarrow> p \<noteq> s \<Longrightarrow> s < p \<and> s \<le> parent p \<and> below s (parent p)"
  by (subst (asm) below.simps) (auto simp: parent_def dest: below_ge split: if_splits)

lemma below_child: "below s p \<Longrightarrow> 0 < i \<Longrightarrow> parent i = p \<Longrightarrow> below s i"
  by (subst below.simps) (use below_ge [of s p] parent_less [of i] in \<open>auto simp: parent_def\<close>)

lemma below_0: "below 0 p"
proof (induction p rule: less_induct)
  case (less p)
  then show ?case by (subst below.simps) (cases "p = 0", auto)
qed

locale key_order =
  fixes lt :: "'a \<Rightarrow> 'a \<Rightarrow> bool" and key :: "'a \<Rightarrow> 'k::linorder"
  assumes lt_key: "lt a b \<longleftrightarrow> key a < key b"
begin

definition heap_from :: "nat \<Rightarrow> 'a list \<Rightarrow> bool" where
  "heap_from s h \<longleftrightarrow>
     (\<forall>i. 0 < i \<longrightarrow> i < length h \<longrightarrow> s \<le> parent i \<longrightarrow> key (h ! parent i) \<le> key (h ! i))"

lemma heap_fromD:
  "heap_from s h \<Longrightarrow> 0 < i \<Longrightarrow> i < length h \<Longrightarrow> s \<le> parent i \<Longrightarrow> key (h ! parent i) \<le> key (h ! i)"
  by (simp add: heap_from_def)

lemma siftdown_loop_heap:
  assumes "below s p" and "p < length h"
    and "\<And>i. 0 < i \<Longrightarrow> i < length h \<Longrightarrow> s \<le> parent i \<Longrightarrow> i \<noteq> p \<Longrightarrow>
           key (h[p := x] ! parent i) \<le> key (h[p := x] ! i)"
    and "\<And>i. 0 < i \<Longrightarrow> i < length h \<Longrightarrow> parent i = p \<Longrightarrow> s < p \<Longrightarrow> key (h ! parent p) \<le> key (h ! i)"
  shows "heap_from s (siftdown_loop lt x s p h)"
  using assms
proof (induction p arbitrary: h rule: less_induct)
  case (less p)
  show ?case
  proof (cases "s < p")
    case False
    then have "p = s" using below_ge [OF less.prems(1)] by simp
    then have "key (h[p := x] ! parent i) \<le> key (h[p := x] ! i)"
      if "0 < i" "i < length h" "s \<le> parent i" for i
      using less.prems(3) [OF that] parent_less [OF that(1)] that(3) by auto
    then show ?thesis using False by (subst siftdown_loop_parent) (simp add: heap_from_def)
  next
    case sp: True
    let ?q = "parent p"
    have q: "s \<le> ?q" "below s ?q" "?q < p" "?q < length h"
      using below_parent [OF less.prems(1)] sp parent_less [of p] less.prems(2) by auto
    show ?thesis
    proof (cases "lt x (h ! ?q)")
      case False
      then have "key (h ! ?q) \<le> key x" by (simp add: lt_key not_less)
      then have "key (h[p := x] ! parent i) \<le> key (h[p := x] ! i)"
        if "0 < i" "i < length h" "s \<le> parent i" for i
        using less.prems(2) less.prems(3) [OF that] q by (cases "i = p") auto
      then show ?thesis using False sp
        by (subst siftdown_loop_parent) (simp add: heap_from_def)
    next
      case True
      let ?h = "h[p := h ! ?q]"
      have step: "siftdown_loop lt x s p h = siftdown_loop lt x s ?q ?h"
        using True sp by (subst siftdown_loop_parent) simp
      have xq: "key x < key (h ! ?q)" using True by (simp add: lt_key)
      show ?thesis unfolding step
      proof (rule less.IH [OF q(3,2)])
        show "?q < length ?h" using q by simp
      next
        fix i assume i: "0 < i" "i < length ?h" "s \<le> parent i" "i \<noteq> ?q"
        show "key (?h[?q := x] ! parent i) \<le> key (?h[?q := x] ! i)"
        proof (cases "i = p")
          case True
          then show ?thesis using q xq less.prems(2) by simp
        next
          case ip: False
          have o: "key (h[p := x] ! parent i) \<le> key (h[p := x] ! i)"
            using less.prems(3) i ip by simp
          show ?thesis
          proof (cases "parent i = p")
            case True
            then show ?thesis using less.prems(4) [of i] i ip sp q less.prems(2) by simp
          next
            case pi: False
            then show ?thesis using o xq i ip q by (cases "parent i = ?q") auto
          qed
        qed
      next
        fix i assume i: "0 < i" "i < length ?h" "parent i = ?q" "s < ?q"
        have pq: "s \<le> parent ?q" "parent ?q < ?q"
          using below_parent [OF q(2)] i(4) parent_less [of ?q] by auto
        have a: "key (h ! parent ?q) \<le> key (h ! ?q)"
          using less.prems(3) [of ?q] q pq i(4) by simp
        show "key (?h ! parent ?q) \<le> key (?h ! i)"
        proof (cases "i = p")
          case True
          then show ?thesis using a pq q less.prems(2) by simp
        next
          case False
          have "key (h[p := x] ! parent i) \<le> key (h[p := x] ! i)"
            using less.prems(3) [of i] i False by simp
          then show ?thesis using a i False pq q by simp
        qed
      qed
    qed
  qed
qed

lemma siftup_loop_heap:
  assumes "below s p" and "p < length h"
    and "\<And>i. 0 < i \<Longrightarrow> i < length h \<Longrightarrow> s \<le> parent i \<Longrightarrow> i \<noteq> p \<Longrightarrow> parent i \<noteq> p \<Longrightarrow>
           key (h ! parent i) \<le> key (h ! i)"
    and "\<And>i. 0 < i \<Longrightarrow> i < length h \<Longrightarrow> parent i = p \<Longrightarrow> s < p \<Longrightarrow> key (h ! parent p) \<le> key (h ! i)"
    and "siftup_loop lt p h = (q, h')"
  shows "heap_from s (siftdown_loop lt x s q h')"
  using assms
proof (induction "length h - p" arbitrary: p h rule: less_induct)
  case less
  let ?c = "if 2 * p + 1 + 1 < length h \<and> \<not> lt (h ! (2 * p + 1)) (h ! (2 * p + 1 + 1))
            then 2 * p + 1 + 1 else 2 * p + 1"
  show ?case
  proof (cases "2 * p + 1 < length h")
    case False
    then have qh: "q = p" "h' = h" using less.prems(5) by (subst (asm) siftup_loop.simps, simp add: Let_def)+
    have nochild: "parent i \<noteq> p" if "0 < i" "i < length h" for i
      using that False parent_eq [OF that(1), of p] by auto
    show ?thesis unfolding qh
    proof (rule siftdown_loop_heap [OF less.prems(1,2)])
      fix i assume i: "0 < i" "i < length h" "s \<le> parent i" "i \<noteq> p"
      then show "key (h[p := x] ! parent i) \<le> key (h[p := x] ! i)"
        using less.prems(3) [OF i nochild [OF i(1,2)]] nochild [OF i(1,2)] by simp
    qed (use nochild in blast)
  next
    case True
    define c where "c = ?c"
    have pc: "parent c = p" "0 < c" "c < length h" "p < c"
      using True by (auto simp: c_def parent_def)
    have step: "siftup_loop lt c (h[p := h ! c]) = (q, h')"
      using less.prems(5) True unfolding c_def
      by (subst (asm) siftup_loop.simps) (simp only: Let_def if_True)
    have smallest: "key (h ! c) \<le> key (h ! i)" if "0 < i" "i < length h" "parent i = p" for i
      using that(2) parent_eq [OF that(1), of p] that(3)
      by (auto simp: c_def lt_key not_less split: if_splits)
    have sp: "s \<le> p" by (rule below_ge [OF less.prems(1)])
    show ?thesis
    proof (rule less.hyps [OF _ _ _ _ _ step])
      show "length (h[p := h ! c]) - c < length h - p" using pc by simp
      show "below s c" by (rule below_child [OF less.prems(1) pc(2,1)])
      show "c < length (h[p := h ! c])" using pc by simp
    next
      fix i assume i: "0 < i" "i < length (h[p := h ! c])" "s \<le> parent i" "i \<noteq> c" "parent i \<noteq> c"
      have pi: "parent i < i" by (rule parent_less [OF i(1)])
      consider "i = p" | "i \<noteq> p" "parent i = p" | "i \<noteq> p" "parent i \<noteq> p" by blast
      then show "key (h[p := h ! c] ! parent i) \<le> key (h[p := h ! c] ! i)"
      proof cases
        case 1
        then show ?thesis using less.prems(2) less.prems(4) [OF pc(2,3,1)] pi i(3) by simp
      next
        case 2
        then show ?thesis using smallest [of i] i less.prems(2) by simp
      next
        case 3
        then show ?thesis using less.prems(3) [of i] i by simp
      qed
    next
      fix i assume i: "0 < i" "i < length (h[p := h ! c])" "parent i = c" "s < c"
      have "i \<noteq> p" using parent_less [OF i(1)] i(3) pc(4) by simp
      then show "key (h[p := h ! c] ! parent c) \<le> key (h[p := h ! c] ! i)"
        using less.prems(3) [of i] i pc sp less.prems(2) by simp
    qed
  qed
qed

lemma siftup_heap:
  assumes "heap_from (Suc s) h" and "s < length h"
  shows "heap_from s (siftup lt s h)"
proof -
  obtain q h' where qh: "siftup_loop lt s h = (q, h')" by force
  have q: "q < length h'"
    using mset_siftup_loop [OF assms(2) qh] length_siftup_loop [of lt s h] qh by simp
  have "heap_from s (siftdown_loop lt (h ! s) s q h')"
  proof (rule siftup_loop_heap [OF below_refl assms(2) _ _ qh])
    fix i assume "0 < i" "i < length h" "s \<le> parent i" "i \<noteq> s" "parent i \<noteq> s"
    then show "key (h ! parent i) \<le> key (h ! i)" by (intro heap_fromD [OF assms(1)]) auto
  qed simp
  moreover have "siftdown_loop lt (h ! s) s q (h'[q := h ! s]) = siftdown_loop lt (h ! s) s q h'"
  proof (cases "s < q")
    case True
    then have "parent q \<noteq> q" using parent_less [of q] by simp
    then show ?thesis by (subst (1 2) siftdown_loop_parent) simp
  qed (subst (1 2) siftdown_loop_parent, simp)
  ultimately show ?thesis using q by (simp add: siftup_def siftdown_def qh Let_def)
qed

lemma heappush_heap:
  assumes "heap_from 0 h"
  shows "heap_from 0 (heappush lt h x)"
proof -
  have "heap_from 0 (siftdown_loop lt x 0 (length h) (h @ [x]))"
  proof (rule siftdown_loop_heap [OF below_0])
    fix i assume "0 < i" "i < length (h @ [x])" "i \<noteq> length h"
    then show "key ((h @ [x])[length h := x] ! parent i) \<le> key ((h @ [x])[length h := x] ! i)"
      using heap_fromD [OF assms, of i] parent_less [of i] by (simp add: nth_append)
  next
    fix i assume "0 < i" "i < length (h @ [x])" "parent i = length h"
    then show "key ((h @ [x]) ! parent (length h)) \<le> key ((h @ [x]) ! i)"
      using parent_less [of i] by simp
  qed simp
  then show ?thesis by (simp add: heappush_def siftdown_def)
qed

lemma heapify_heap: "heap_from 0 (heapify lt h)"
proof -
  have "heap_from 0 (fold (siftup lt) (rev [0..<n]) h)" if "heap_from n h" "n \<le> length h" for n h
    using that
  proof (induction n arbitrary: h)
    case (Suc n)
    then show ?case using siftup_heap [of n h] by simp
  qed simp
  moreover have "heap_from (length h div 2) h"
    by (auto simp: heap_from_def parent_def)
  ultimately show ?thesis by (simp add: heapify_def)
qed

end

lemma mset_heappush: "mset (heappush lt h x) = add_mset x (mset h)"
  by (simp add: heappush_def mset_siftdown)

lemma mset_heapify: "mset (heapify lt h) = mset h"
proof -
  have keep: "mset (fold (siftup lt) is h) = mset h" if "\<forall>i \<in> set is. i < length h" for "is"
    using that by (induction "is" arbitrary: h) (auto simp: mset_siftup)
  show ?thesis unfolding heapify_def by (rule keep) auto
qed

lemma mset_heappop:
  assumes "heappop lt h = Inr (x, h')"
  shows "mset h = add_mset x (mset h')"
proof -
  have h: "h \<noteq> []" "h = butlast h @ [last h]" using assms by (auto simp: heappop_def split: if_splits)
  show ?thesis
  proof (cases "butlast h")
    case Nil
    then show ?thesis using assms h by (cases h) (auto simp: heappop_def Let_def split: if_splits)
  next
    case (Cons y ys)
    then have "x = y" "h' = siftup lt 0 (last h # ys)" using assms h(1)
      by (auto simp: heappop_def Let_def)
    moreover have "mset h = add_mset y (add_mset (last h) (mset ys))"
      using arg_cong [OF h(2), of mset] Cons by simp
    ultimately show ?thesis by (simp add: mset_siftup)
  qed
qed

lemma length_heappop: "heappop lt h = Inr (x, h') \<Longrightarrow> length h = Suc (length h')"
  using arg_cong [OF mset_heappop, of lt h x h' size] by simp

lemma heappop_total: "h \<noteq> [] \<Longrightarrow> \<exists>x h'. heappop lt h = Inr (x, h')"
  by (simp add: heappop_def Let_def)

context key_order
begin

lemma heap_root_min: "heap_from 0 h \<Longrightarrow> i < length h \<Longrightarrow> key (h ! 0) \<le> key (h ! i)"
proof (induction i rule: less_induct)
  case (less i)
  show ?case
  proof (cases "i = 0")
    case False
    then have "parent i < i" by (simp add: parent_less)
    with less have "key (h ! 0) \<le> key (h ! parent i)" by simp
    also have "\<dots> \<le> key (h ! i)" using less.prems False by (intro heap_fromD) auto
    finally show ?thesis .
  qed simp
qed

lemma heappop_root: "heappop lt h = Inr (x, h') \<Longrightarrow> x = h ! 0"
  by (cases h rule: rev_cases) (auto simp: heappop_def Let_def nth_append split: if_splits)

lemma heappop_min:
  assumes "heap_from 0 h" and "heappop lt h = Inr (x, h')" and "y \<in> set h"
  shows "key x \<le> key y"
proof -
  obtain i where "i < length h" "y = h ! i" using assms(3) by (metis in_set_conv_nth)
  then show ?thesis using heap_root_min [OF assms(1)] heappop_root [OF assms(2)] by simp
qed

lemma heappop_heap:
  assumes "heap_from 0 h" and "heappop lt h = Inr (x, h')"
  shows "heap_from 0 h'"
proof (cases "butlast h")
  case Nil
  then show ?thesis using assms(2)
    by (auto simp: heappop_def Let_def heap_from_def split: if_splits)
next
  case (Cons y ys)
  then have h': "h' = siftup lt 0 ((butlast h)[0 := last h])" using assms(2)
    by (auto simp: heappop_def Let_def split: if_splits)
  have "heap_from (Suc 0) ((butlast h)[0 := last h])"
    unfolding heap_from_def
  proof (intro allI impI)
    fix i assume i: "0 < i" "i < length ((butlast h)[0 := last h])" "Suc 0 \<le> parent i"
    have "key (h ! parent i) \<le> key (h ! i)" using i by (intro heap_fromD [OF assms(1)]) auto
    moreover have "parent i < length h - 1" using i parent_less [of i] by simp
    ultimately show "key ((butlast h)[0 := last h] ! parent i) \<le> key ((butlast h)[0 := last h] ! i)"
      using i by (simp add: nth_butlast)
  qed
  then show ?thesis unfolding h' using Cons by (intro siftup_heap) simp_all
qed

end

end
