(* ===== verification/Request_Queue.thy ===== *)
theory Request_Queue
  imports Heapq Request
begin

text \<open>
  The waiting queues of the scheduler (\<^verbatim>\<open>vllm/v1/core/sched/request_queue.py\<close>): the
  first-come-first-served deque and the priority queue on \<^verbatim>\<open>heapq\<close>. Requests are compared by
  object identity (\<open>obj_id\<close>), as \<^verbatim>\<open>Request\<close> defines no \<^verbatim>\<open>__eq__\<close>. The locale \<open>scheduling_queue\<close> is
  the contract of the abstract class \<^verbatim>\<open>RequestQueue\<close>; both queues are interpretations of it.
\<close>

section \<open>First come, first served\<close>

type_synonym fcfs_queue = "request list"

definition same_request :: "request \<Rightarrow> request \<Rightarrow> bool" where
  "same_request a b \<longleftrightarrow> obj_id a = obj_id b"

definition fcfs_add_request :: "fcfs_queue \<Rightarrow> request \<Rightarrow> fcfs_queue" where
  "fcfs_add_request q r = q @ [r]"

definition fcfs_pop_request :: "fcfs_queue \<Rightarrow> (request \<times> fcfs_queue) res" where
  "fcfs_pop_request q = (case q of [] \<Rightarrow> Inl IndexError | r # q' \<Rightarrow> Inr (r, q'))"

definition fcfs_peek_request :: "fcfs_queue \<Rightarrow> request res" where
  "fcfs_peek_request q = (if q = [] then Inl IndexError else Inr (q ! 0))"

definition fcfs_prepend_request :: "fcfs_queue \<Rightarrow> request \<Rightarrow> fcfs_queue" where
  "fcfs_prepend_request q r = r # q"

definition fcfs_prepend_requests :: "fcfs_queue \<Rightarrow> request list \<Rightarrow> fcfs_queue" where
  \<comment> \<open>\<^verbatim>\<open>deque.extendleft\<close> over the iteration of the other queue\<close>
  "fcfs_prepend_requests q rs = fold (\<lambda>r q. r # q) rs q"

fun list_remove :: "request \<Rightarrow> request list \<Rightarrow> request list res" where
  "list_remove r [] = Inl ValueError"
| "list_remove r (x # xs) =
     (if same_request x r then Inr xs else rbind (list_remove r xs) (\<lambda>ys. Inr (x # ys)))"

definition fcfs_remove_request :: "fcfs_queue \<Rightarrow> request \<Rightarrow> fcfs_queue res" where
  "fcfs_remove_request q r = list_remove r q"

definition without :: "request list \<Rightarrow> request list \<Rightarrow> request list" where
  "without q rs = filter (\<lambda>x. \<not> list_ex (same_request x) rs) q"

definition fcfs_remove_requests :: "fcfs_queue \<Rightarrow> request list \<Rightarrow> fcfs_queue" where
  "fcfs_remove_requests q rs = without q rs"

definition fcfs_iter :: "fcfs_queue \<Rightarrow> request list" where
  "fcfs_iter q = q"

section \<open>Priority\<close>

type_synonym priority_queue = "request list"

definition prio_add_request :: "priority_queue \<Rightarrow> request \<Rightarrow> priority_queue" where
  "prio_add_request h r = heappush request_lt h r"

definition prio_pop_request :: "priority_queue \<Rightarrow> (request \<times> priority_queue) res" where
  "prio_pop_request h = (if h = [] then Inl IndexError else heappop request_lt h)"

definition prio_peek_request :: "priority_queue \<Rightarrow> request res" where
  "prio_peek_request h = (if h = [] then Inl IndexError else Inr (h ! 0))"

definition prio_prepend_request :: "priority_queue \<Rightarrow> request \<Rightarrow> priority_queue" where
  "prio_prepend_request h r = prio_add_request h r"

definition prio_prepend_requests :: "priority_queue \<Rightarrow> request list \<Rightarrow> priority_queue" where
  "prio_prepend_requests h rs = fold (\<lambda>r h. prio_add_request h r) rs h"

definition prio_remove_request :: "priority_queue \<Rightarrow> request \<Rightarrow> priority_queue res" where
  "prio_remove_request h r = rbind (list_remove r h) (\<lambda>h'. Inr (heapify request_lt h'))"

definition prio_remove_requests :: "priority_queue \<Rightarrow> request list \<Rightarrow> priority_queue" where
  "prio_remove_requests h rs = heapify request_lt (without h rs)"

function prio_iter :: "priority_queue \<Rightarrow> request list" where
  "prio_iter h = (case heappop request_lt h of Inl _ \<Rightarrow> [] | Inr (r, h') \<Rightarrow> r # prio_iter h')"
  by pat_completeness auto
termination
  by (relation "measure length") (auto dest: length_heappop)

declare prio_iter.simps [simp del]

datatype scheduling_policy = FCFS | PRIORITY

datatype request_queue = Fcfs_queue fcfs_queue | Priority_queue priority_queue

definition create_request_queue :: "scheduling_policy \<Rightarrow> request_queue" where
  "create_request_queue p = (case p of PRIORITY \<Rightarrow> Priority_queue [] | FCFS \<Rightarrow> Fcfs_queue [])"

definition prio_wf :: "priority_queue \<Rightarrow> bool" where
  "prio_wf h \<longleftrightarrow> (\<forall>i \<in> {0<..<length h}. \<not> request_lt (h ! i) (h ! parent i))"

section \<open>The contract of a request queue\<close>

fun pops :: "('q \<Rightarrow> (request \<times> 'q) res) \<Rightarrow> nat \<Rightarrow> 'q \<Rightarrow> (request list \<times> 'q) res" where
  \<comment> \<open>a client that pops \<open>n\<close> times\<close>
  "pops pop 0 q = Inr ([], q)"
| "pops pop (Suc n) q =
     rbind (pop q) (\<lambda>(r, q'). rbind (pops pop n q') (\<lambda>(rs, q''). Inr (r # rs, q'')))"

locale scheduling_queue =
  fixes wf :: "'q \<Rightarrow> bool"
    and iter :: "'q \<Rightarrow> request list"
    and empty :: 'q
    and add :: "'q \<Rightarrow> request \<Rightarrow> 'q"
    and pop :: "'q \<Rightarrow> (request \<times> 'q) res"
    and peek :: "'q \<Rightarrow> request res"
    and prepend :: "'q \<Rightarrow> request \<Rightarrow> 'q"
    and prepends :: "'q \<Rightarrow> request list \<Rightarrow> 'q"
    and remove :: "'q \<Rightarrow> request \<Rightarrow> 'q res"
    and removes :: "'q \<Rightarrow> request list \<Rightarrow> 'q"
  assumes empty_wf: "wf empty" and empty_iter: "iter empty = []"
    and pop_Nil: "wf q \<Longrightarrow> iter q = [] \<Longrightarrow> pop q = Inl IndexError"
    and pop_Cons: "wf q \<Longrightarrow> iter q = r # rs \<Longrightarrow> \<exists>q'. pop q = Inr (r, q') \<and> wf q' \<and> iter q' = rs"
    and peek_iter: "wf q \<Longrightarrow> peek q = (case iter q of [] \<Rightarrow> Inl IndexError | r # rs \<Rightarrow> Inr r)"
    and add_wf: "wf q \<Longrightarrow> wf (add q r)"
    and add_iter: "wf q \<Longrightarrow> mset (iter (add q r)) = add_mset r (mset (iter q))"
    and prepend_wf: "wf q \<Longrightarrow> wf (prepend q r)"
    and prepend_iter: "wf q \<Longrightarrow> mset (iter (prepend q r)) = add_mset r (mset (iter q))"
    and prepends_wf: "wf q \<Longrightarrow> wf (prepends q rs)"
    and prepends_iter: "wf q \<Longrightarrow> mset (iter (prepends q rs)) = mset rs + mset (iter q)"
    and remove_raises: "wf q \<Longrightarrow> \<forall>x \<in> set (iter q). \<not> same_request x r \<Longrightarrow> remove q r = Inl ValueError"
    and remove_wf: "wf q \<Longrightarrow> remove q r = Inr q' \<Longrightarrow> wf q'"
    and remove_iter: "wf q \<Longrightarrow> remove q r = Inr q' \<Longrightarrow>
           \<exists>x. same_request x r \<and> mset (iter q) = add_mset x (mset (iter q'))"
    and removes_wf: "wf q \<Longrightarrow> wf (removes q rs)"
    and removes_iter: "wf q \<Longrightarrow> mset (iter (removes q rs)) = mset (without (iter q) rs)"
begin

lemma peek_pop: "wf q \<Longrightarrow> pop q = Inr (r, q') \<Longrightarrow> peek q = Inr r"
  using pop_Nil [of q] pop_Cons [of q] peek_iter [of q] by (cases "iter q") auto

lemma pop_iter: "wf q \<Longrightarrow> pop q = Inr (r, q') \<Longrightarrow> wf q' \<and> iter q = r # iter q'"
  using pop_Nil [of q] pop_Cons [of q] by (cases "iter q") auto

lemma pops_take:
  "wf q \<Longrightarrow> n \<le> length (iter q) \<Longrightarrow>
   \<exists>q'. pops pop n q = Inr (take n (iter q), q') \<and> wf q' \<and> iter q' = drop n (iter q)"
proof (induction n arbitrary: q)
  case (Suc n)
  then obtain r rs where rs: "iter q = r # rs" by (cases "iter q") auto
  obtain q' where q': "pop q = Inr (r, q')" "wf q'" "iter q' = rs"
    using pop_Cons [OF Suc.prems(1) rs] by auto
  with Suc rs show ?case using Suc.IH [of q'] by auto
qed simp

lemma pops_all:
  assumes "wf q"
  shows "\<exists>q'. pops pop (length (iter q)) q = Inr (iter q, q') \<and> iter q' = []"
  using pops_take [OF assms order_refl] by auto

lemma add_reached:
  \<comment> \<open>an added request is returned within as many pops as there are requests queued\<close>
  assumes "wf q"
  shows "\<exists>rs q'. pops pop (Suc (length (iter q))) (add q r) = Inr (rs, q') \<and> r \<in> set rs"
proof -
  have m: "mset (iter (add q r)) = add_mset r (mset (iter q))" by (rule add_iter [OF assms])
  have "length (iter (add q r)) = Suc (length (iter q))" using arg_cong [OF m, of size] by simp
  moreover have "r \<in> set (iter (add q r))" using arg_cong [OF m, of set_mset] by auto
  ultimately show ?thesis using pops_all [OF add_wf [OF assms], of r] by auto
qed

lemma size_removes: "wf q \<Longrightarrow> length (iter (removes q rs)) \<le> length (iter q)"
  using arg_cong [OF removes_iter [of q rs], of size] length_filter_le
  by (metis size_mset without_def)

end

section \<open>Both queues keep the contract\<close>

lemma list_remove_raises: "\<forall>x \<in> set q. \<not> same_request x r \<Longrightarrow> list_remove r q = Inl ValueError"
  by (induction q) auto

lemma list_remove_mset:
  "list_remove r q = Inr q' \<Longrightarrow> \<exists>x. same_request x r \<and> mset q = add_mset x (mset q')"
proof (induction q arbitrary: q')
  case (Cons y q)
  then show ?case by (cases "same_request y r") (fastforce simp: add_mset_commute)+
qed simp

lemma fcfs_prepend_requests_rev: "fcfs_prepend_requests q rs = rev rs @ q"
  unfolding fcfs_prepend_requests_def by (induction rs arbitrary: q) auto

lemmas fcfs_defs = fcfs_iter_def fcfs_add_request_def fcfs_pop_request_def fcfs_peek_request_def
  fcfs_prepend_request_def fcfs_prepend_requests_rev fcfs_remove_request_def
  fcfs_remove_requests_def

interpretation fcfs: scheduling_queue "\<lambda>_. True" fcfs_iter "[]" fcfs_add_request
  fcfs_pop_request fcfs_peek_request fcfs_prepend_request fcfs_prepend_requests
  fcfs_remove_request fcfs_remove_requests
  by unfold_locales
    (simp_all add: fcfs_defs list_remove_raises list_remove_mset split: list.split)

interpretation hq: key_order request_lt sched_key
  by unfold_locales (rule request_lt_key)

lemma prio_wf_heap: "prio_wf h \<longleftrightarrow> hq.heap_from 0 h"
  by (auto simp: prio_wf_def hq.heap_from_def request_lt_key not_less)

lemma prio_iter_Nil [simp]: "prio_iter [] = []"
  by (subst prio_iter.simps) (simp add: heappop_def)

lemma prio_iter_pop: "heappop request_lt h = Inr (r, h') \<Longrightarrow> prio_iter h = r # prio_iter h'"
  by (subst prio_iter.simps) simp

lemma prio_iter_mset: "mset (prio_iter h) = mset h"
proof (induction "length h" arbitrary: h)
  case (Suc n)
  then obtain r h' where p: "heappop request_lt h = Inr (r, h')" using heappop_total [of h] by fastforce
  have m: "mset h = add_mset r (mset h')" by (rule mset_heappop [OF p])
  have "length h' = n" using Suc.hyps(2) length_heappop [OF p] by simp
  then show ?case using Suc.hyps(1) [of h'] by (simp add: prio_iter_pop [OF p] m)
qed simp

lemma prio_iter_sorted: "prio_wf h \<Longrightarrow> sorted (map sched_key (prio_iter h))"
proof (induction "length h" arbitrary: h)
  case (Suc n)
  then obtain r h' where p: "heappop request_lt h = Inr (r, h')" using heappop_total [of h] by fastforce
  have m: "mset h = add_mset r (mset h')" by (rule mset_heappop [OF p])
  have n: "n = length h'" using Suc.hyps(2) length_heappop [OF p] by simp
  have w: "hq.heap_from 0 h" using Suc.prems by (simp add: prio_wf_heap)
  have "sorted (map sched_key (prio_iter h'))"
    using Suc.hyps(1) [OF n] hq.heappop_heap [OF w p] by (simp add: prio_wf_heap)
  moreover have "\<forall>y \<in> set (prio_iter h'). sched_key r \<le> sched_key y"
    using hq.heappop_min [OF w p] m prio_iter_mset [of h']
    by (metis add_mset_remove_trivial_If insert_iff set_mset_add_mset_insert set_mset_mset)
  ultimately show ?case by (simp add: prio_iter_pop [OF p])
qed simp

lemma prio_add_wf: "prio_wf h \<Longrightarrow> prio_wf (prio_add_request h r)"
  by (simp add: prio_wf_heap prio_add_request_def hq.heappush_heap)

lemma prio_add_mset: "mset (prio_add_request h r) = add_mset r (mset h)"
  by (simp add: prio_add_request_def mset_heappush)

lemma prio_prepends:
  "(prio_wf h \<longrightarrow> prio_wf (prio_prepend_requests h rs)) \<and>
   mset (prio_prepend_requests h rs) = mset rs + mset h"
  unfolding prio_prepend_requests_def
  by (induction rs arbitrary: h) (simp_all add: prio_add_wf prio_add_mset)

lemma prio_pop_iff: "prio_pop_request h = Inr (r, h') \<longleftrightarrow> heappop request_lt h = Inr (r, h')"
  by (auto simp: prio_pop_request_def heappop_def)

lemma without_mset: "mset a = mset b \<Longrightarrow> mset (without a rs) = mset (without b rs)"
  by (simp add: without_def)

interpretation prio: scheduling_queue prio_wf prio_iter "[]" prio_add_request
  prio_pop_request prio_peek_request prio_prepend_request prio_prepend_requests
  prio_remove_request prio_remove_requests
proof (unfold_locales, goal_cases)
  case 1
  then show ?case by (simp add: prio_wf_def)
next
  case 2
  then show ?case by simp
next
  case (3 q)
  then have "q = []" using prio_iter_mset [of q] by simp
  then show ?case by (simp add: prio_pop_request_def)
next
  case (4 q r rs)
  then have "q \<noteq> []" by auto
  then obtain x q' where p: "heappop request_lt q = Inr (x, q')" using heappop_total by blast
  then show ?case using 4 hq.heappop_heap [of q x q']
    by (auto simp: prio_iter_pop prio_pop_iff prio_wf_heap)
next
  case (5 q)
  show ?case
  proof (cases "q = []")
    case False
    then obtain x q' where p: "heappop request_lt q = Inr (x, q')" using heappop_total by blast
    then show ?thesis using False hq.heappop_root [OF p]
      by (simp add: prio_iter_pop prio_peek_request_def)
  qed (simp add: prio_peek_request_def)
next
  case (12 q r)
  then have "\<forall>x \<in> set q. \<not> same_request x r" using prio_iter_mset [of q] by (metis set_mset_mset)
  then show ?case by (simp add: prio_remove_request_def list_remove_raises)
next
  case (13 q r q')
  then show ?case by (auto simp: prio_remove_request_def prio_wf_heap hq.heapify_heap)
next
  case (14 q r q')
  then show ?case
    by (auto simp: prio_remove_request_def prio_iter_mset mset_heapify dest: list_remove_mset)
next
  case (15 q rs)
  then show ?case by (simp add: prio_remove_requests_def prio_wf_heap hq.heapify_heap)
next
  case (16 q rs)
  show ?case unfolding prio_iter_mset prio_remove_requests_def mset_heapify
    by (rule without_mset) (simp add: prio_iter_mset)
qed (simp_all add: prio_add_wf prio_add_mset prio_iter_mset prio_prepend_request_def prio_prepends)

section \<open>Properties\<close>

text \<open>
  C18: on a heap ordered queue the priority queue pops a request that no queued request precedes in
  the order of \<^verbatim>\<open>Request.__lt__\<close> (priority, arrival time, request id, object identity), removes
  exactly this one, and leaves a heap ordered queue; on an empty queue it raises.
\<close>
theorem prio_pop_minimum:
  assumes "prio_wf h"
  shows "case prio_pop_request h of
      Inl e \<Rightarrow> h = [] \<and> e = IndexError
    | Inr (r, h') \<Rightarrow> (\<forall>r' \<in> set h. \<not> request_lt r' r) \<and> mset h = add_mset r (mset h') \<and> prio_wf h' \<and>
        prio_peek_request h = Inr r"
proof (cases "h = []")
  case False
  then obtain r h' where p: "heappop request_lt h = Inr (r, h')" using heappop_total by blast
  have w: "hq.heap_from 0 h" using assms by (simp add: prio_wf_heap)
  have "\<forall>r' \<in> set h. \<not> request_lt r' r" using hq.heappop_min [OF w p] by (simp add: request_lt_key not_less)
  then show ?thesis
    using False p mset_heappop [OF p] hq.heappop_heap [OF w p] hq.heappop_root [OF p]
    by (simp add: prio_pop_request_def prio_peek_request_def prio_wf_heap)
qed (simp add: prio_pop_request_def)

theorem prio_pop_minimum_witness:
  "let a = sample_request ''a'' [1]; b = (sample_request ''b'' [1])\<lparr>priority := - 1\<rparr>;
       h = prio_add_request (prio_add_request [] a) b
   in prio_wf h \<and> (\<exists>r h'. prio_pop_request h = Inr (r, h') \<and> \<not> request_lt b r)"
proof -
  let ?a = "sample_request ''a'' [1]" and ?b = "(sample_request ''b'' [1])\<lparr>priority := - 1\<rparr>"
  let ?h = "prio_add_request (prio_add_request [] ?a) ?b"
  have w: "prio_wf ?h" by (intro prio_add_wf prio.empty_wf)
  have "mset ?h = {#?a, ?b#}" by (simp add: prio_add_mset)
  then have b: "?b \<in> set ?h" "?h \<noteq> []" by (auto dest: arg_cong [of _ _ set_mset])
  then show ?thesis unfolding Let_def using w prio_pop_minimum [OF w]
    by (auto split: sum.splits)
qed

text \<open>
  Iterating over a priority queue yields its requests, each once, in scheduling order, without
  changing the queue, and popping until the queue is empty returns them in this very order.
\<close>
theorem prio_iter_is_pop_order:
  assumes "prio_wf h"
  shows "sorted (map sched_key (prio_iter h)) \<and> mset (prio_iter h) = mset h \<and>
    pops prio_pop_request (length h) h = Inr (prio_iter h, [])"
proof -
  obtain h' where h': "pops prio_pop_request (length (prio_iter h)) h = Inr (prio_iter h, h')" "prio_iter h' = []"
    using prio.pops_all [OF assms] by blast
  have "length (prio_iter h) = length h" using arg_cong [OF prio_iter_mset [of h], of size] by simp
  moreover have "h' = []" using h'(2) prio_iter_mset [of h'] by simp
  ultimately show ?thesis using h'(1) prio_iter_sorted [OF assms] prio_iter_mset [of h] by simp
qed

theorem prio_iter_is_pop_order_witness:
  "let h = prio_prepend_requests [] [sample_request ''b'' [1], sample_request ''a'' [2], sample_request ''cc'' []]
   in prio_wf h \<and> sorted (map sched_key (prio_iter h)) \<and> length h = 3"
proof -
  let ?rs = "[sample_request ''b'' [1], sample_request ''a'' [2], sample_request ''cc'' []]"
  have w: "prio_wf (prio_prepend_requests [] ?rs)" using prio_prepends prio.empty_wf by blast
  have "size (mset (prio_prepend_requests [] ?rs)) = 3" using prio_prepends [of "[]" ?rs] by simp
  then show ?thesis unfolding Let_def using w prio_iter_is_pop_order [OF w] by simp
qed

text \<open>
  C24: no request starves while the queue is only drained: under either policy a request that was
  added is returned after at most as many further pops as there were requests queued, even though the
  priority queue may order it anywhere.
\<close>
theorem added_request_is_popped:
  assumes "prio_wf h"
  shows "(\<exists>rs h'. pops prio_pop_request (Suc (length h)) (prio_add_request h r) = Inr (rs, h') \<and> r \<in> set rs) \<and>
    (\<exists>rs q'. pops fcfs_pop_request (Suc (length q)) (fcfs_add_request q r) = Inr (rs, q') \<and> last rs = r)"
proof
  have "length (prio_iter h) = length h" using arg_cong [OF prio_iter_mset [of h], of size] by simp
  then show "\<exists>rs h'. pops prio_pop_request (Suc (length h)) (prio_add_request h r) = Inr (rs, h') \<and> r \<in> set rs"
    using prio.add_reached [OF assms, of r] by simp
  have "length (fcfs_iter (fcfs_add_request q r)) = Suc (length q)" by (simp add: fcfs_defs)
  then have "\<exists>q'. pops fcfs_pop_request (Suc (length q)) (fcfs_add_request q r) = Inr (q @ [r], q')"
    using fcfs.pops_all [OF TrueI, of "fcfs_add_request q r"] by (auto simp: fcfs_defs)
  then show "\<exists>rs q'. pops fcfs_pop_request (Suc (length q)) (fcfs_add_request q r) = Inr (rs, q') \<and> last rs = r"
    by auto
qed

theorem added_request_is_popped_witness:
  "prio_wf [sample_request ''a'' [1]] \<and>
   (\<exists>rs h'. pops prio_pop_request 2 (prio_add_request [sample_request ''a'' [1]] (sample_request ''b'' [2])) =
      Inr (rs, h') \<and> sample_request ''b'' [2] \<in> set rs)"
proof -
  have w: "prio_wf [sample_request ''a'' [1]]" by (auto simp: prio_wf_def)
  show ?thesis using w added_request_is_popped [OF w, of "sample_request ''b'' [2]"] by (simp add: numeral_2_eq_2)
qed

end
