(* ===== verification/Block_Hash.thy ===== *)
theory Block_Hash
  imports Request
begin

text \<open>
  Block hashes for prefix caching (\<^verbatim>\<open>vllm/v1/core/kv_cache_utils.py\<close>): packing a hash with its KV
  cache group, the extra keys of a block, the chained hash of the full blocks of a request, and the
  view of these hashes at a coarser block size. The hash function and the seed \<^verbatim>\<open>NONE_HASH\<close> are
  parameters; what is needed of them is collected in \<open>good_hash\<close>: no collisions, and digests that
  are neither empty nor the seed.
\<close>

unbundle bit_operations_syntax

section \<open>Packing a hash with a group id\<close>

definition to_bytes4 :: "int \<Rightarrow> bytes res" where
  \<comment> \<open>\<^verbatim>\<open>g.to_bytes(4, "big", signed=False)\<close>\<close>
  "to_bytes4 g =
     (if 0 \<le> g \<and> g < 2 ^ 32
      then Inr [word_of_int (g div 2 ^ 24), word_of_int (g div 2 ^ 16), word_of_int (g div 2 ^ 8),
                word_of_int g]
      else Inl OverflowError)"

definition from_bytes_big :: "bytes \<Rightarrow> int" where
  "from_bytes_big bs = foldl (\<lambda>a b. a * 256 + uint b) 0 bs"

definition make_block_hash_with_group_id :: "bytes \<Rightarrow> int \<Rightarrow> bytes res" where
  "make_block_hash_with_group_id h g = rbind (to_bytes4 g) (\<lambda>b. Inr (h @ b))"

definition get_block_hash :: "bytes \<Rightarrow> bytes" where
  \<comment> \<open>\<^verbatim>\<open>key[:-4]\<close>\<close>
  "get_block_hash key = take (length key - 4) key"

definition get_group_id :: "bytes \<Rightarrow> int" where
  \<comment> \<open>\<^verbatim>\<open>key[-4:]\<close>\<close>
  "get_group_id key = from_bytes_big (drop (length key - 4) key)"

datatype ext_hash = HBytes bytes | HInt int

definition maybe_convert_block_hash :: "bool \<Rightarrow> bytes \<Rightarrow> ext_hash" where
  "maybe_convert_block_hash use_int h =
     (if \<not> use_int then HBytes h
      else HInt (from_bytes_big h AND (push_bit 64 1 - 1)))"

section \<open>Extra keys\<close>

datatype extra_key = KStr string | KMM string int | KBytes bytes

fun gen_mm_loop :: "mm_feature list \<Rightarrow> int \<Rightarrow> int \<Rightarrow> int \<Rightarrow> extra_key list \<times> int" where
  \<comment> \<open>the features from \<open>curr_mm_idx\<close> on, and \<open>curr_mm_idx\<close> itself\<close>
  "gen_mm_loop [] s e i = ([], i)"
| "gen_mm_loop (f # fs) s e i =
     (let off = offset (mm_position f); len = plen (mm_position f)
      in if e > off then
           if s \<ge> off + len then gen_mm_loop fs s e (i + 1)
           else if e \<ge> off + len
             then let (ks, j) = gen_mm_loop fs s e (i + 1)
                  in (KMM (mm_identifier f) (off - s) # ks, j)
             else ([KMM (mm_identifier f) (off - s)], i)
         else ([], i))"

definition gen_mm_extra_hash_keys ::
  "request \<Rightarrow> int \<Rightarrow> int \<Rightarrow> int \<Rightarrow> (extra_key list \<times> int) res"
where
  "gen_mm_extra_hash_keys r s e start_mm_idx =
     (let fs = mm_features r
      in if fs = [] then Inr ([], start_mm_idx)
         else let p = mm_position (last fs)
              in if offset p + plen p \<le> s then Inr ([], start_mm_idx)
                 else rbind (ensure (start_mm_idx < 0 \<longrightarrow> - start_mm_idx \<le> int (length fs)) AssertionError)
                   (\<lambda>_. let i = (if start_mm_idx < 0 then int (length fs) + start_mm_idx
                                  else start_mm_idx)
                        in Inr (gen_mm_loop (drop (nat i) fs) s e i)))"

definition gen_lora_extra_hash_keys :: "request \<Rightarrow> extra_key list" where
  "gen_lora_extra_hash_keys r =
     (case lora_request r of None \<Rightarrow> [] | Some l \<Rightarrow> [KStr (lora_name l)])"

definition gen_prompt_embeds_extra_hash_keys :: "request \<Rightarrow> int \<Rightarrow> int \<Rightarrow> extra_key list" where
  \<comment> \<open>the per block memo table only avoids recomputing the digest\<close>
  "gen_prompt_embeds_extra_hash_keys r s e =
     (case prompt_embeds r of None \<Rightarrow> [] | Some t \<Rightarrow> [KBytes (slice_digest t s e)])"

definition cache_salt_keys :: "request \<Rightarrow> int \<Rightarrow> extra_key list" where
  "cache_salt_keys r s =
     (case cache_salt r of
        None \<Rightarrow> []
      | Some salt \<Rightarrow> if s = 0 \<and> salt \<noteq> [] then [KStr salt] else [])"

definition generate_block_hash_extra_keys ::
  "request \<Rightarrow> int \<Rightarrow> int \<Rightarrow> int \<Rightarrow> (extra_key list option \<times> int) res"
where
  "generate_block_hash_extra_keys r s e start_mm_idx =
     rbind (gen_mm_extra_hash_keys r s e start_mm_idx) (\<lambda>(mm_keys, j).
       let ks = gen_lora_extra_hash_keys r @ mm_keys @ cache_salt_keys r s @
                gen_prompt_embeds_extra_hash_keys r s e
       in Inr (if ks = [] then None else Some ks, j))"

section \<open>The chained hash of full blocks\<close>

type_synonym hash_fn = "bytes \<times> int list \<times> extra_key list option \<Rightarrow> bytes"

definition hash_block_tokens ::
  "hash_fn \<Rightarrow> bytes \<Rightarrow> bytes option \<Rightarrow> int list \<Rightarrow> extra_key list option \<Rightarrow> bytes"
where
  "hash_block_tokens hash none_hash par ts ks =
     hash (case par of None \<Rightarrow> none_hash | Some h \<Rightarrow> if h = [] then none_hash else h, ts, ks)"

function hasher_loop ::
  "hash_fn \<Rightarrow> bytes \<Rightarrow> nat \<Rightarrow> request \<Rightarrow> nat \<Rightarrow> int \<Rightarrow> bytes option \<Rightarrow> bytes list res"
where
  "hasher_loop hash none_hash bs r s mm prev =
     (if s + bs > length (all_token_ids r) \<or> bs = 0 then Inr []
      else rbind (generate_block_hash_extra_keys r (int s) (int (s + bs)) mm) (\<lambda>(ks, mm').
        let h = hash_block_tokens hash none_hash prev
                  (py_slice (int s) (int (s + bs)) (all_token_ids r)) ks
        in rbind (hasher_loop hash none_hash bs r (s + bs) mm' (Some h)) (\<lambda>hs. Inr (h # hs))))"
  by pat_completeness auto
termination
  by (relation "measure (\<lambda>(_, _, _, r, s, _, _). Suc (length (all_token_ids r)) - s)") auto

declare hasher_loop.simps [simp del]

definition request_block_hasher :: "hash_fn \<Rightarrow> bytes \<Rightarrow> nat \<Rightarrow> request \<Rightarrow> bytes list res" where
  \<comment> \<open>for a positive block size; the loop of the code does not end for block size 0\<close>
  "request_block_hasher hash none_hash bs r =
     (let s = length (block_hashes r) * bs
      in if s + bs > length (all_token_ids r) then Inr []
         else hasher_loop hash none_hash bs r s (if s > 0 then - 1 else 0)
                (if block_hashes r = [] then None else Some (last (block_hashes r))))"

section \<open>Views at a coarser block size\<close>

record block_hash_view =
  view_hashes :: "bytes list"
  scale_factor :: nat

datatype block_hash_list = Raw "bytes list" | View block_hash_view

definition view_init :: "bytes list \<Rightarrow> nat \<Rightarrow> nat \<Rightarrow> block_hash_view res" where
  "view_init hs hash_bs target_bs =
     rbind (ensure (hash_bs \<noteq> 0) ZeroDivisionError) (\<lambda>_.
     rbind (ensure (target_bs mod hash_bs = 0) AssertionError) (\<lambda>_.
       Inr \<lparr>view_hashes = hs, scale_factor = target_bs div hash_bs\<rparr>))"

definition view_len :: "block_hash_view \<Rightarrow> nat" where
  "view_len v = length (view_hashes v) div scale_factor v"

definition view_get_value_at :: "block_hash_view \<Rightarrow> int \<Rightarrow> bytes res" where
  "view_get_value_at v i = py_get (view_hashes v) ((i + 1) * int (scale_factor v) - 1)"

fun view_values :: "block_hash_view \<Rightarrow> nat list \<Rightarrow> bytes list res" where
  "view_values v [] = Inr []"
| "view_values v (i # is) =
     rbind (view_get_value_at v (int i)) (\<lambda>h. rbind (view_values v is) (\<lambda>hs. Inr (h # hs)))"

definition view_slice :: "block_hash_view \<Rightarrow> nat \<Rightarrow> nat \<Rightarrow> bytes list res" where
  \<comment> \<open>\<^verbatim>\<open>view[start:stop]\<close> with step 1; \<^verbatim>\<open>slice.indices\<close> clips both ends to the length\<close>
  "view_slice v start stop = view_values v [min start (view_len v)..<min stop (view_len v)]"

definition view_iter :: "block_hash_view \<Rightarrow> bytes list res" where
  "view_iter v = view_values v [0..<view_len v]"

definition resolve_block_hashes ::
  "block_hash_list \<Rightarrow> nat \<Rightarrow> nat \<Rightarrow> bool \<Rightarrow> nat option \<Rightarrow> block_hash_list res"
where
  "resolve_block_hashes hs hash_bs bs fine alignment =
     (if bs = hash_bs then Inr hs
      else case hs of
        View v \<Rightarrow>
          rbind (ensure (hash_bs \<noteq> 0) ZeroDivisionError) (\<lambda>_.
          rbind (ensure (scale_factor v = bs div hash_bs) AssertionError) (\<lambda>_. Inr hs))
      | Raw raw \<Rightarrow>
          rbind (case alignment of
                   None \<Rightarrow> Inr False
                 | Some a \<Rightarrow> if \<not> (fine \<and> a < bs) then Inr False
                            else if a = 0 then Inl ZeroDivisionError else Inr (bs mod a = 0))
            (\<lambda>keep. if keep then Inr hs
              else rbind (ensure (hash_bs \<noteq> 0) ZeroDivisionError) (\<lambda>_.
                   rbind (ensure (bs mod hash_bs = 0) AssertionError) (\<lambda>_.
                   rbind (view_init raw hash_bs bs) (\<lambda>v. Inr (View v))))))"

section \<open>Facts on packing\<close>

lemma uint_byte: "uint (word_of_int x :: 8 word) = x mod 256"
  by (simp add: uint_word_of_int)

lemma from_to_bytes4:
  assumes "to_bytes4 g = Inr b"
  shows "from_bytes_big b = g" and "length b = 4"
proof -
  have g: "0 \<le> g" "g \<le> 4294967295" using assms by (auto simp: to_bytes4_def split: if_splits)
  have b: "b = [word_of_int (g div 16777216), word_of_int (g div 65536), word_of_int (g div 256),
                word_of_int g]"
    using assms g by (simp add: to_bytes4_def)
  have "g div 16777216 \<le> 4294967295 div 16777216" using g(2) by (rule zdiv_mono1) simp
  moreover have "0 \<le> g div 16777216" using g(1) by (simp add: pos_imp_zdiv_nonneg_iff)
  ultimately have "g div 16777216 mod 256 = g div 16777216" by (intro mod_pos_pos_trivial) auto
  moreover have "g div 16777216 * 256 + g div 65536 mod 256 = g div 65536"
    using div_mult_mod_eq [of "g div 65536" 256]
    by (simp add: zdiv_zmult2_eq [symmetric] del: div_mult_mod_eq mult_div_mod_eq)
  moreover have "g div 65536 * 256 + g div 256 mod 256 = g div 256"
    using div_mult_mod_eq [of "g div 256" 256]
    by (simp add: zdiv_zmult2_eq [symmetric] del: div_mult_mod_eq mult_div_mod_eq)
  moreover have "g div 256 * 256 + g mod 256 = g" by (rule div_mult_mod_eq)
  ultimately have "((g div 16777216 mod 256 * 256 + g div 65536 mod 256) * 256 +
      g div 256 mod 256) * 256 + g mod 256 = g" by (simp only:)
  then show "from_bytes_big b = g"
    unfolding b from_bytes_big_def by (simp only: foldl.simps uint_byte mult_zero_left add_0)
  show "length b = 4" by (simp add: b)
qed

lemma unpack_key:
  assumes "make_block_hash_with_group_id h g = Inr key"
  shows "get_block_hash key = h" and "get_group_id key = g"
proof -
  obtain b where b: "to_bytes4 g = Inr b" "key = h @ b"
    using assms by (auto simp: make_block_hash_with_group_id_def)
  then show "get_block_hash key = h" and "get_group_id key = g"
    using from_to_bytes4 [OF b(1)] by (simp_all add: get_block_hash_def get_group_id_def)
qed

lemma make_key_total: "0 \<le> g \<Longrightarrow> g < 2 ^ 32 \<Longrightarrow> \<exists>key. make_block_hash_with_group_id h g = Inr key"
  by (simp add: make_block_hash_with_group_id_def to_bytes4_def)

lemma make_key_inject:
  "make_block_hash_with_group_id h g = Inr key \<Longrightarrow> make_block_hash_with_group_id h' g' = Inr key \<Longrightarrow>
   h = h' \<and> g = g'"
  using unpack_key by metis

section \<open>Multimodal keys of a block\<close>

definition mm_end :: "mm_feature \<Rightarrow> int" where
  "mm_end f = offset (mm_position f) + plen (mm_position f)"

fun mm_ordered :: "mm_feature list \<Rightarrow> bool" where
  \<comment> \<open>the placeholders follow each other without overlap\<close>
  "mm_ordered [] = True"
| "mm_ordered (f # fs) \<longleftrightarrow>
     0 \<le> plen (mm_position f) \<and> (\<forall>g \<in> set fs. mm_end f \<le> offset (mm_position g)) \<and> mm_ordered fs"

definition overlaps :: "int \<Rightarrow> int \<Rightarrow> mm_feature \<Rightarrow> bool" where
  "overlaps s e f \<longleftrightarrow> offset (mm_position f) < e \<and> s < mm_end f"

definition mm_keys :: "mm_feature list \<Rightarrow> int \<Rightarrow> int \<Rightarrow> extra_key list" where
  \<comment> \<open>one key for every placeholder that meets the block\<close>
  "mm_keys fs s e =
     map (\<lambda>f. KMM (mm_identifier f) (offset (mm_position f) - s)) (filter (overlaps s e) fs)"

lemma mm_ordered_append:
  "mm_ordered (xs @ ys) \<longleftrightarrow> mm_ordered xs \<and> mm_ordered ys \<and>
     (\<forall>f \<in> set xs. \<forall>g \<in> set ys. mm_end f \<le> offset (mm_position g))"
  by (induction xs) auto

lemma mm_ordered_plen: "mm_ordered fs \<Longrightarrow> f \<in> set fs \<Longrightarrow> offset (mm_position f) \<le> mm_end f"
  by (induction fs) (auto simp: mm_end_def)

lemma mm_keys_none: "\<forall>f \<in> set fs. \<not> overlaps s e f \<Longrightarrow> mm_keys fs s e = []"
  by (simp add: mm_keys_def)

lemma mm_keys_append: "mm_keys (xs @ ys) s e = mm_keys xs s e @ mm_keys ys s e"
  by (simp add: mm_keys_def)

lemma gen_mm_loop_keys:
  assumes "mm_ordered fs" and "s \<le> e" and "gen_mm_loop fs s e i = (ks, j)"
  shows "ks = mm_keys fs s e \<and> i \<le> j \<and> j \<le> i + int (length fs) \<and>
     (\<forall>f \<in> set (take (nat (j - i)) fs). mm_end f \<le> e)"
  using assms(1,3)
proof (induction fs arbitrary: i ks j)
  case Nil
  then show ?case by (simp add: mm_keys_def)
next
  case (Cons f fs)
  let ?off = "offset (mm_position f)"
  have le: "?off \<le> mm_end f" using Cons.prems(1) by (simp add: mm_end_def)
  have later: "mm_end f \<le> offset (mm_position g)" if "g \<in> set fs" for g using Cons.prems(1) that by simp
  obtain ks' j' where rec: "gen_mm_loop fs s e (i + 1) = (ks', j')" by force
  have IH: "ks' = mm_keys fs s e" "i + 1 \<le> j'" "j' \<le> i + 1 + int (length fs)"
    "\<forall>g \<in> set (take (nat (j' - (i + 1))) fs). mm_end g \<le> e"
    using Cons.IH [OF _ rec] Cons.prems(1) by auto
  have n: "nat (j' - i) = Suc (nat (j' - (i + 1)))" using IH(2) by simp
  consider "\<not> ?off < e" | "?off < e" "mm_end f \<le> s" | "?off < e" "s < mm_end f" "mm_end f \<le> e"
    | "?off < e" "s < mm_end f" "e < mm_end f" by linarith
  then show ?case
  proof cases
    case 1
    have "\<forall>g \<in> set (f # fs). \<not> overlaps s e g" using 1 later le by (force simp: overlaps_def)
    then have "mm_keys (f # fs) s e = []" by (rule mm_keys_none)
    then show ?thesis using Cons.prems(2) 1 by (simp add: Let_def)
  next
    case 2
    then have "ks = ks'" "j = j'" using Cons.prems(2) rec by (simp_all add: Let_def mm_end_def)
    moreover have "\<not> overlaps s e f" using 2 by (simp add: overlaps_def)
    ultimately show ?thesis using IH n 2 assms(2) by (simp add: mm_keys_def)
  next
    case 3
    then have "ks = KMM (mm_identifier f) (?off - s) # ks'" "j = j'"
      using Cons.prems(2) rec by (simp_all add: Let_def mm_end_def)
    moreover have "overlaps s e f" using 3 by (simp add: overlaps_def)
    ultimately show ?thesis using IH n 3 by (simp add: mm_keys_def)
  next
    case 4
    then have "ks = [KMM (mm_identifier f) (?off - s)]" "j = i"
      using Cons.prems(2) by (simp_all add: Let_def mm_end_def)
    moreover have "\<forall>g \<in> set fs. \<not> overlaps s e g" using 4 later by (force simp: overlaps_def)
    moreover have "overlaps s e f" using 4 by (simp add: overlaps_def)
    ultimately show ?thesis by (simp add: mm_keys_def)
  qed
qed

definition mm_idx_ok :: "mm_feature list \<Rightarrow> int \<Rightarrow> int \<Rightarrow> bool" where
  \<comment> \<open>no placeholder before the index reaches the block\<close>
  "mm_idx_ok fs s i \<longleftrightarrow> fs = [] \<or>
     (i < 0 \<longrightarrow> - i \<le> int (length fs)) \<and>
     (\<forall>f \<in> set (take (nat (if i < 0 then int (length fs) + i else i)) fs). mm_end f \<le> s)"

lemma mm_end_le_last: "mm_ordered fs \<Longrightarrow> f \<in> set fs \<Longrightarrow> mm_end f \<le> mm_end (last fs)"
proof (induction fs rule: rev_induct)
  case (snoc g fs)
  then show ?case using mm_ordered_plen [OF snoc.prems(1), of g]
    by (auto simp: mm_ordered_append)
qed simp

lemma mm_idx_ok_mono: "mm_idx_ok fs s i \<Longrightarrow> s \<le> e \<Longrightarrow> mm_idx_ok fs e i"
  by (fastforce simp: mm_idx_ok_def)

lemma set_take_add:
  assumes "x \<in> set (take (a + b) xs)"
  shows "x \<in> set (take a xs) \<or> x \<in> set (take b (drop a xs))"
  using assms by (simp add: take_add)

lemma gen_mm_extra_hash_keys_spec:
  assumes "mm_ordered (mm_features r)" and "s \<le> e" and "mm_idx_ok (mm_features r) s i"
  shows "\<exists>j. gen_mm_extra_hash_keys r s e i = Inr (mm_keys (mm_features r) s e, j) \<and>
    mm_idx_ok (mm_features r) e j"
proof -
  let ?fs = "mm_features r"
  consider "?fs = []" | "?fs \<noteq> []" "mm_end (last ?fs) \<le> s" | "?fs \<noteq> []" "s < mm_end (last ?fs)"
    by linarith
  then show ?thesis
  proof cases
    case 1
    then show ?thesis by (simp add: gen_mm_extra_hash_keys_def mm_keys_def mm_idx_ok_def)
  next
    case 2
    have "\<not> overlaps s e f" if "f \<in> set ?fs" for f
      using mm_end_le_last [OF assms(1) that] 2(2) by (simp add: overlaps_def)
    then have "mm_keys ?fs s e = []" by (intro mm_keys_none) blast
    then show ?thesis using 2 mm_idx_ok_mono [OF assms(3,2)]
      by (simp add: gen_mm_extra_hash_keys_def Let_def mm_end_def)
  next
    case 3
    define k where "k = (if i < 0 then int (length ?fs) + i else i)"
    have ok: "i < 0 \<longrightarrow> - i \<le> int (length ?fs)" "\<forall>f \<in> set (take (nat k) ?fs). mm_end f \<le> s"
      using assms(3) 3(1) by (auto simp: mm_idx_ok_def k_def)
    have k0: "0 \<le> k" using ok(1) by (auto simp: k_def)
    obtain ks j where g: "gen_mm_loop (drop (nat k) ?fs) s e k = (ks, j)" by force
    have "mm_ordered (take (nat k) ?fs @ drop (nat k) ?fs)" using assms(1) by simp
    then have "mm_ordered (drop (nat k) ?fs)" unfolding mm_ordered_append by blast
    from gen_mm_loop_keys [OF this assms(2) g]
    have l: "ks = mm_keys (drop (nat k) ?fs) s e" "k \<le> j"
      "\<forall>f \<in> set (take (nat (j - k)) (drop (nat k) ?fs)). mm_end f \<le> e" by auto
    have "mm_keys (take (nat k) ?fs) s e = []"
      using ok(2) by (intro mm_keys_none) (auto simp: overlaps_def)
    then have "ks = mm_keys ?fs s e"
      using l(1) mm_keys_append [of "take (nat k) ?fs" "drop (nat k) ?fs" s e] by simp
    moreover have "mm_end f \<le> e" if "f \<in> set (take (nat j) ?fs)" for f
    proof -
      have "nat j = nat k + nat (j - k)" using k0 l(2) by simp
      then show ?thesis using set_take_add [of f "nat k" "nat (j - k)" ?fs] that ok(2) l(3) assms(2)
        by fastforce
    qed
    ultimately show ?thesis using 3 ok(1) g k0 l(2)
      by (auto simp: gen_mm_extra_hash_keys_def Let_def mm_end_def mm_idx_ok_def ensure_def
          simp flip: k_def)
  qed
qed

section \<open>The hash chain\<close>

definition block_extra :: "request \<Rightarrow> int \<Rightarrow> int \<Rightarrow> extra_key list option" where
  \<comment> \<open>what a block must be told apart by, besides its tokens\<close>
  "block_extra r s e =
     (let ks = gen_lora_extra_hash_keys r @ mm_keys (mm_features r) s e @ cache_salt_keys r s @
               gen_prompt_embeds_extra_hash_keys r s e
      in if ks = [] then None else Some ks)"

primrec block_hash_at :: "hash_fn \<Rightarrow> bytes \<Rightarrow> nat \<Rightarrow> request \<Rightarrow> nat \<Rightarrow> bytes" where
  "block_hash_at hash none bs r 0 =
     hash (none, take bs (all_token_ids r), block_extra r 0 (int bs))"
| "block_hash_at hash none bs r (Suc k) =
     hash (block_hash_at hash none bs r k, take bs (drop (Suc k * bs) (all_token_ids r)),
           block_extra r (int (Suc k * bs)) (int (Suc (Suc k) * bs)))"

definition good_hash :: "hash_fn \<Rightarrow> bytes \<Rightarrow> bool" where
  "good_hash hash none \<longleftrightarrow> inj hash \<and> none \<notin> range hash \<and> [] \<notin> range hash"

lemma extra_keys_spec:
  assumes "mm_ordered (mm_features r)" and "s \<le> e" and "mm_idx_ok (mm_features r) s i"
  shows "\<exists>j. generate_block_hash_extra_keys r s e i = Inr (block_extra r s e, j) \<and>
    mm_idx_ok (mm_features r) e j"
  using gen_mm_extra_hash_keys_spec [OF assms]
  by (auto simp: generate_block_hash_extra_keys_def block_extra_def Let_def)

lemma hasher_loop_spec:
  assumes "[] \<notin> range hash" and "0 < bs" and "mm_ordered (mm_features r)"
    and "mm_idx_ok (mm_features r) (int (k * bs)) i"
    and "prev = (if k = 0 then None else Some (block_hash_at hash none bs r (k - 1)))"
  shows "hasher_loop hash none bs r (k * bs) i prev =
    Inr (map (block_hash_at hash none bs r) [k..<length (all_token_ids r) div bs])"
  using assms(4,5)
proof (induction "length (all_token_ids r) div bs - k" arbitrary: k i prev)
  case 0
  then have "length (all_token_ids r) < k * bs + bs"
    using assms(2) div_less_iff_less_mult [of bs "length (all_token_ids r)" "Suc k"] by simp
  then show ?case using 0 by (subst hasher_loop.simps) simp
next
  case (Suc n)
  let ?L = "length (all_token_ids r)"
  have "Suc k \<le> ?L div bs" using Suc.hyps(2) by simp
  then have fits: "k * bs + bs \<le> ?L"
    using less_eq_div_iff_mult_less_eq [of bs "Suc k" ?L] assms(2) by simp
  obtain j where j: "generate_block_hash_extra_keys r (int (k * bs)) (int (k * bs + bs)) i =
      Inr (block_extra r (int (k * bs)) (int (k * bs + bs)), j)"
      "mm_idx_ok (mm_features r) (int (Suc k * bs)) j"
    using extra_keys_spec [OF assms(3) _ Suc.prems(1), of "int (k * bs + bs)"]
    by (auto simp: add.commute)
  have h: "hash_block_tokens hash none prev (py_slice (int (k * bs)) (int (k * bs + bs)) (all_token_ids r))
      (block_extra r (int (k * bs)) (int (k * bs + bs))) = block_hash_at hash none bs r k"
  proof (cases k)
    case 0
    then show ?thesis using Suc.prems(2) by (simp add: hash_block_tokens_def py_slice_def)
  next
    case (Suc k')
    have "block_hash_at hash none bs r k' \<in> range hash" by (cases k') simp_all
    then have "block_hash_at hash none bs r k' \<noteq> []" using assms(1) by metis
    then show ?thesis using Suc Suc.prems(2)
      by (simp add: hash_block_tokens_def py_slice_def nat_mult_distrib nat_add_distrib algebra_simps)
  qed
  have "hasher_loop hash none bs r (Suc k * bs) j (Some (block_hash_at hash none bs r k)) =
      Inr (map (block_hash_at hash none bs r) [Suc k..<?L div bs])"
    using Suc.hyps(2) by (intro Suc.hyps(1) [OF _ j(2)]) auto
  then have "hasher_loop hash none bs r (k * bs + bs) j (Some (block_hash_at hash none bs r k)) =
      Inr (map (block_hash_at hash none bs r) [Suc k..<?L div bs])" by (simp add: add.commute)
  moreover have "[k..<?L div bs] = k # [Suc k..<?L div bs]" using Suc.hyps(2) by (intro upt_conv_Cons) simp
  ultimately show ?case using fits assms(2)
    by (subst hasher_loop.simps) (simp only: j(1) h rbind_Inr Let_def prod.case, simp)
qed

definition mm_settled :: "request \<Rightarrow> nat \<Rightarrow> bool" where
  \<comment> \<open>only the last placeholder may reach beyond the blocks already hashed\<close>
  "mm_settled r n \<longleftrightarrow> (\<forall>f \<in> set (butlast (mm_features r)). mm_end f \<le> int n)"

lemma request_block_hasher_spec:
  assumes "[] \<notin> range hash" and "0 < bs" and "mm_ordered (mm_features r)"
    and "block_hashes r = map (block_hash_at hash none bs r) [0..<k]"
    and "k = 0 \<or> mm_settled r (k * bs)"
  shows "request_block_hasher hash none bs r =
    Inr (map (block_hash_at hash none bs r) [k..<length (all_token_ids r) div bs])"
proof -
  have len: "length (block_hashes r) = k" by (simp add: assms(4))
  have prev: "(if block_hashes r = [] then None else Some (last (block_hashes r))) =
      (if k = 0 then None else Some (block_hash_at hash none bs r (k - 1)))"
    by (simp add: assms(4) last_map)
  have "mm_idx_ok (mm_features r) (int (k * bs)) (if k * bs > 0 then - 1 else 0)"
  proof (cases "mm_features r = [] \<or> k = 0")
    case True
    then show ?thesis by (auto simp: mm_idx_ok_def)
  next
    case False
    then have "mm_settled r (k * bs)" using assms(5) by simp
    moreover have "nat (int (length (mm_features r)) + - 1) = length (mm_features r) - 1" by simp
    moreover have "1 \<le> int (length (mm_features r))" using False by (cases "mm_features r") auto
    ultimately show ?thesis using False assms(2)
      by (simp add: mm_idx_ok_def mm_settled_def butlast_conv_take)
  qed
  from hasher_loop_spec [OF assms(1,2,3) this refl, of none]
  have loop: "hasher_loop hash none bs r (k * bs) (if k * bs > 0 then - 1 else 0)
      (if k = 0 then None else Some (block_hash_at hash none bs r (k - 1))) =
      Inr (map (block_hash_at hash none bs r) [k..<length (all_token_ids r) div bs])" .
  show ?thesis
  proof (cases "k * bs + bs > length (all_token_ids r)")
    case True
    then have "length (all_token_ids r) div bs \<le> k"
      using assms(2) div_less_iff_less_mult [of bs "length (all_token_ids r)" "Suc k"] by simp
    then show ?thesis using True by (simp add: request_block_hasher_def len)
  next
    case False
    then show ?thesis unfolding request_block_hasher_def Let_def len prev by (simp only: loop if_False)
  qed
qed

lemma block_extra_tokens: "block_extra (r\<lparr>output_token_ids := xs, all_token_ids := ys\<rparr>) = block_extra r"
  by (intro ext) (simp add: block_extra_def gen_lora_extra_hash_keys_def cache_salt_keys_def
      gen_prompt_embeds_extra_hash_keys_def)

lemma block_hash_at_append:
  assumes "Suc k * bs \<le> length (all_token_ids r)"
  shows "block_hash_at hash none bs
    (r\<lparr>output_token_ids := xs, all_token_ids := all_token_ids r @ ts\<rparr>) k = block_hash_at hash none bs r k"
  using assms
proof (induction k)
  case (Suc k)
  have "take bs (drop (Suc k * bs) (all_token_ids r @ ts)) = take bs (drop (Suc k * bs) (all_token_ids r))"
    using Suc.prems by simp
  moreover have "Suc k * bs \<le> length (all_token_ids r)" using Suc.prems by simp
  moreover have "all_token_ids (r\<lparr>output_token_ids := xs, all_token_ids := all_token_ids r @ ts\<rparr>) =
      all_token_ids r @ ts" by simp
  ultimately show ?case using Suc.IH by (simp only: block_hash_at.simps block_extra_tokens)
qed (simp add: block_extra_tokens)

definition hashed :: "hash_fn \<Rightarrow> bytes \<Rightarrow> nat \<Rightarrow> request \<Rightarrow> bool" where
  \<comment> \<open>the request carries the chained hash of each of its full blocks\<close>
  "hashed hash none bs r \<longleftrightarrow>
     block_hashes r = map (block_hash_at hash none bs r) [0..<length (all_token_ids r) div bs]"

lemma block_hash_at_block_hashes:
  "block_hash_at hash none bs (r\<lparr>block_hashes := hs\<rparr>) k = block_hash_at hash none bs r k"
  by (induction k) (simp_all add: block_extra_def gen_lora_extra_hash_keys_def cache_salt_keys_def
      gen_prompt_embeds_extra_hash_keys_def)

lemma append_output_hashed:
  assumes "[] \<notin> range hash" and "0 < bs" and "mm_ordered (mm_features r)" and "hashed hash none bs r"
    and "length (all_token_ids r) < bs \<or> mm_settled r (length (all_token_ids r) div bs * bs)"
  shows "\<exists>r'. append_output_token_ids (Some (request_block_hasher hash none bs)) ts r = Inr r' \<and>
    hashed hash none bs r' \<and> all_token_ids r' = all_token_ids r @ ts \<and>
    (\<exists>hs. block_hashes r' = block_hashes r @ hs)"
proof -
  let ?q = "r\<lparr>output_token_ids := output_token_ids r @ ts, all_token_ids := all_token_ids r @ ts\<rparr>"
  let ?k = "length (all_token_ids r) div bs"
  have eq: "block_hash_at hash none bs ?q i = block_hash_at hash none bs r i" if "i < ?k" for i
  proof (rule block_hash_at_append)
    show "Suc i * bs \<le> length (all_token_ids r)"
      using that less_eq_div_iff_mult_less_eq [of bs "Suc i" "length (all_token_ids r)"] assms(2) by simp
  qed
  have bh: "block_hashes ?q = map (block_hash_at hash none bs ?q) [0..<?k]"
    using assms(4) eq by (simp add: hashed_def)
  let ?n = "length (all_token_ids ?q) div bs"
  let ?hs = "map (block_hash_at hash none bs ?q) [?k..<?n]"
  have new: "request_block_hasher hash none bs ?q = Inr ?hs"
  proof (rule request_block_hasher_spec [OF assms(1,2) _ bh])
    show "?k = 0 \<or> mm_settled ?q (?k * bs)" using assms(5) by (auto simp: mm_settled_def)
  qed (simp add: assms(3))
  have "?k \<le> ?n" by (simp add: div_le_mono)
  then obtain d where "?n = ?k + d" using le_Suc_ex by blast
  then have up: "[0..<?k] @ [?k..<?n] = [0..<?n]" by (simp only: upt_add_eq_append [of 0] le0)
  let ?r' = "?q\<lparr>block_hashes := block_hashes ?q @ ?hs\<rparr>"
  have "append_output_token_ids (Some (request_block_hasher hash none bs)) ts r = Inr ?r'"
    unfolding append_output_token_ids_def update_block_hashes_def option.case new rbind_Inr ..
  moreover have "hashed hash none bs ?r'"
  proof -
    have "block_hashes ?r' = map (block_hash_at hash none bs ?q) [0..<?n]"
      unfolding up [symmetric] map_append bh [symmetric] by simp
    moreover have "block_hash_at hash none bs ?r' = block_hash_at hash none bs ?q"
      by (rule ext) (rule block_hash_at_block_hashes)
    moreover have "all_token_ids ?r' = all_token_ids ?q" by simp
    ultimately show ?thesis unfolding hashed_def by (simp only:)
  qed
  moreover have "all_token_ids ?r' = all_token_ids r @ ts" by simp
  moreover have "block_hashes ?r' = block_hashes r @ ?hs" by simp
  ultimately show ?thesis by blast
qed

section \<open>Equal hashes mean equal prefixes\<close>

lemma block_hash_at_inject:
  assumes "good_hash hash none" and "0 < bs"
    and "block_hash_at hash none bs r i = block_hash_at hash none bs r' i'"
  shows "i = i' \<and> take (Suc i * bs) (all_token_ids r) = take (Suc i * bs) (all_token_ids r') \<and>
    (\<forall>k \<le> i. block_extra r (int (k * bs)) (int (Suc k * bs)) =
              block_extra r' (int (k * bs)) (int (Suc k * bs)))"
  using assms(3)
proof (induction i arbitrary: i')
  case 0
  have inj: "inj hash" using assms(1) by (simp add: good_hash_def)
  show ?case
  proof (cases i')
    case 0
    then show ?thesis using "0.prems" by (auto simp: inj_eq [OF inj])
  next
    case (Suc j)
    then have "none = block_hash_at hash none bs r' j" using "0.prems" by (simp add: inj_eq [OF inj])
    moreover have "block_hash_at hash none bs r' j \<in> range hash" by (cases j) simp_all
    ultimately show ?thesis using assms(1) by (auto simp: good_hash_def)
  qed
next
  case (Suc i)
  have inj: "inj hash" using assms(1) by (simp add: good_hash_def)
  show ?case
  proof (cases i')
    case 0
    then have "block_hash_at hash none bs r i = none" using Suc.prems by (simp add: inj_eq [OF inj])
    moreover have "block_hash_at hash none bs r i \<in> range hash" by (cases i) simp_all
    ultimately show ?thesis using assms(1) by (auto simp: good_hash_def)
  next
    case (Suc j)
    have p: "block_hash_at hash none bs r i = block_hash_at hash none bs r' j"
      and b: "take bs (drop (Suc i * bs) (all_token_ids r)) = take bs (drop (Suc j * bs) (all_token_ids r'))"
      and x: "block_extra r (int (Suc i * bs)) (int (Suc (Suc i) * bs)) =
        block_extra r' (int (Suc j * bs)) (int (Suc (Suc j) * bs))"
      using Suc.prems unfolding Suc block_hash_at.simps inj_eq [OF inj] prod.inject by blast+
    note IH = Suc.IH [OF p]
    have tk: "take (Suc (Suc i) * bs) xs = take (Suc i * bs) xs @ take bs (drop (Suc i * bs) xs)"
      for xs :: "int list" using take_add [of "Suc i * bs" bs xs] by (simp add: add.commute)
    have ij: "i = j" using IH by blast
    have "take (Suc (Suc i) * bs) (all_token_ids r) = take (Suc (Suc i) * bs) (all_token_ids r')"
      unfolding tk using IH b ij by (simp only:)
    moreover have "block_extra r (int (k * bs)) (int (Suc k * bs)) =
        block_extra r' (int (k * bs)) (int (Suc k * bs))" if "k \<le> Suc i" for k
    proof (cases "k = Suc i")
      case True
      then show ?thesis using x ij by (simp only:)
    next
      case False
      then have "k \<le> i" using that by simp
      then show ?thesis using IH by blast
    qed
    ultimately show ?thesis using Suc ij by blast
  qed
qed

section \<open>Coarser views\<close>

lemma view_get_in_range:
  assumes "0 < scale_factor v" and "i < view_len v"
  shows "view_get_value_at v (int i) = Inr (view_hashes v ! (Suc i * scale_factor v - 1))"
    and "Suc i * scale_factor v - 1 < length (view_hashes v)"
proof -
  have "Suc i \<le> length (view_hashes v) div scale_factor v" using assms(2) by (simp add: view_len_def)
  then have le: "Suc i * scale_factor v \<le> length (view_hashes v)"
    using less_eq_div_iff_mult_less_eq [of "scale_factor v" "Suc i"] assms(1) by simp
  have pos: "0 < Suc i * scale_factor v" using assms(1) by simp
  then obtain n where n: "Suc i * scale_factor v = Suc n" using gr0_conv_Suc by blast
  have "(int i + 1) * int (scale_factor v) = int (Suc i * scale_factor v)" by (simp add: algebra_simps)
  then have "(int i + 1) * int (scale_factor v) - 1 = int (Suc i * scale_factor v - 1)"
    unfolding n by simp
  moreover show "Suc i * scale_factor v - 1 < length (view_hashes v)" using le pos by linarith
  ultimately show "view_get_value_at v (int i) = Inr (view_hashes v ! (Suc i * scale_factor v - 1))"
    unfolding view_get_value_at_def by (simp add: py_get_nonneg)
qed

lemma view_values_in_range:
  assumes "0 < scale_factor v" and "\<forall>i \<in> set is. i < view_len v"
  shows "view_values v is = Inr (map (\<lambda>i. view_hashes v ! (Suc i * scale_factor v - 1)) is)"
  using assms(2) by (induction "is") (simp_all add: view_get_in_range(1) [OF assms(1)] del: mult_Suc)

lemma view_iter_eq:
  "0 < scale_factor v \<Longrightarrow>
   view_iter v = Inr (map (\<lambda>i. view_hashes v ! (Suc i * scale_factor v - 1)) [0..<view_len v])"
  unfolding view_iter_def by (rule view_values_in_range) auto

lemma hashed_nth:
  "hashed hash none bs r \<Longrightarrow> j < length (block_hashes r) \<Longrightarrow>
   block_hashes r ! j = block_hash_at hash none bs r j"
  by (simp add: hashed_def)

lemma view_prefix:
  assumes "good_hash hash none" and "0 < bs" and "0 < f"
    and "hashed hash none bs r" and "hashed hash none bs r'"
    and "i < view_len \<lparr>view_hashes = block_hashes r, scale_factor = f\<rparr>"
    and "i' < view_len \<lparr>view_hashes = block_hashes r', scale_factor = f\<rparr>"
    and "view_get_value_at \<lparr>view_hashes = block_hashes r, scale_factor = f\<rparr> (int i) =
         view_get_value_at \<lparr>view_hashes = block_hashes r', scale_factor = f\<rparr> (int i')"
  shows "i = i' \<and> take (Suc i * (f * bs)) (all_token_ids r) = take (Suc i * (f * bs)) (all_token_ids r')"
proof -
  let ?v = "\<lparr>view_hashes = block_hashes r, scale_factor = f\<rparr>"
  let ?v' = "\<lparr>view_hashes = block_hashes r', scale_factor = f\<rparr>"
  obtain j j' where jf: "Suc i * f = Suc j" "Suc i' * f = Suc j'"
    using assms(3) by (metis gr0_conv_Suc nat_0_less_mult_iff zero_less_Suc)
  have sf: "scale_factor ?v = f" "scale_factor ?v' = f" "view_hashes ?v = block_hashes r"
    "view_hashes ?v' = block_hashes r'" by simp_all
  have j: "view_get_value_at ?v (int i) = Inr (block_hashes r ! j)" "j < length (block_hashes r)"
    using view_get_in_range [of ?v i, OF _ assms(6)] assms(3) unfolding sf jf by simp_all
  have j': "view_get_value_at ?v' (int i') = Inr (block_hashes r' ! j')" "j' < length (block_hashes r')"
    using view_get_in_range [of ?v' i', OF _ assms(7)] assms(3) unfolding sf jf by simp_all
  have "block_hash_at hash none bs r j = block_hash_at hash none bs r' j'"
    using assms(8) unfolding j(1) j'(1) hashed_nth [OF assms(4) j(2)] hashed_nth [OF assms(5) j'(2)]
    by (simp only: sum.inject)
  from block_hash_at_inject [OF assms(1,2) this]
  have eq: "j = j'" "take (Suc j * bs) (all_token_ids r) = take (Suc j * bs) (all_token_ids r')" by auto
  then have "Suc i * f = Suc i' * f" using jf by (simp only:)
  then have "i = i'" using assms(3) by (simp only: mult_cancel2) auto
  moreover have "Suc i * (f * bs) = Suc j * bs" unfolding jf(1) [symmetric] by (simp only: mult.assoc)
  ultimately show ?thesis using eq(2) by (simp only:)
qed

section \<open>A hash function without collisions\<close>

text \<open>
  The assumption \<^const>\<open>good_hash\<close> can be met: a prefix free encoding of the hashed tuple is one
  example, used to instantiate the theorems at concrete requests.
\<close>

definition enc_nat :: "nat \<Rightarrow> bytes" where
  "enc_nat n = replicate n 1 @ [0]"

definition enc_int :: "int \<Rightarrow> bytes" where
  "enc_int i = (if i < 0 then 1 else 0) # enc_nat (nat \<bar>i\<bar>)"

definition enc_list :: "('a \<Rightarrow> bytes) \<Rightarrow> 'a list \<Rightarrow> bytes" where
  "enc_list e xs = enc_nat (length xs) @ concat (map e xs)"

definition enc_string :: "string \<Rightarrow> bytes" where
  "enc_string = enc_list (\<lambda>c. enc_nat (of_char c))"

fun enc_key :: "extra_key \<Rightarrow> bytes" where
  "enc_key (KStr s) = 0 # enc_string s"
| "enc_key (KMM s i) = 1 # enc_string s @ enc_int i"
| "enc_key (KBytes b) = 2 # enc_list (\<lambda>x. [x]) b"

definition sample_hash :: hash_fn where
  "sample_hash x = (case x of (h, ts, ks) \<Rightarrow>
     7 # enc_list (\<lambda>x. [x]) h @ enc_list enc_int ts @
       (case ks of None \<Rightarrow> [0] | Some k \<Rightarrow> 1 # enc_list enc_key k))"

definition prefix_free :: "('a \<Rightarrow> bytes) \<Rightarrow> bool" where
  "prefix_free e \<longleftrightarrow> (\<forall>a b s t. e a @ s = e b @ t \<longrightarrow> a = b \<and> s = t)"

lemma prefix_freeD: "prefix_free e \<Longrightarrow> e a @ s = e b @ t \<longleftrightarrow> a = b \<and> s = t"
  unfolding prefix_free_def by (intro iffI) (blast, simp)

lemma prefix_free_eq: "prefix_free e \<Longrightarrow> e a = e b \<longleftrightarrow> a = b"
  using prefix_freeD [of e a "[]" b "[]"] by simp

lemma prefix_free_nat: "prefix_free enc_nat"
proof -
  have "enc_nat a @ s = enc_nat b @ t \<Longrightarrow> a = b \<and> s = t" for a b s t
  proof (induction a arbitrary: b)
    case 0
    then show ?case by (cases b) (simp_all add: enc_nat_def)
  next
    case (Suc a)
    then show ?case by (cases b) (simp_all add: enc_nat_def)
  qed
  then show ?thesis unfolding prefix_free_def by blast
qed

lemma prefix_free_int: "prefix_free enc_int"
  by (auto simp: prefix_free_def enc_int_def prefix_freeD [OF prefix_free_nat] split: if_splits)

lemma prefix_free_list:
  assumes "prefix_free e"
  shows "prefix_free (enc_list e)"
proof -
  have "xs = ys \<and> s = t" if "length xs = length ys" "concat (map e xs) @ s = concat (map e ys) @ t" for xs ys s t
    using that by (induction xs ys rule: list_induct2) (auto simp: prefix_freeD [OF assms])
  then show ?thesis by (auto simp: prefix_free_def enc_list_def prefix_freeD [OF prefix_free_nat])
qed

lemma prefix_free_string: "prefix_free enc_string"
proof -
  have "prefix_free (\<lambda>c. enc_nat (of_char c))"
    by (auto simp: prefix_free_def prefix_freeD [OF prefix_free_nat])
  then show ?thesis unfolding enc_string_def by (rule prefix_free_list)
qed

lemma prefix_free_byte: "prefix_free (\<lambda>x. [x])"
  by (simp add: prefix_free_def)

lemmas enc_inject = prefix_freeD [OF prefix_free_string] prefix_freeD [OF prefix_free_int]
  prefix_freeD [OF prefix_free_list [OF prefix_free_byte]]
  prefix_freeD [OF prefix_free_list [OF prefix_free_int]]

lemma prefix_free_key: "prefix_free enc_key"
  unfolding prefix_free_def
proof (intro allI impI)
  fix a b :: extra_key and s t
  assume "enc_key a @ s = enc_key b @ t"
  then show "a = b \<and> s = t" by (cases a; cases b) (simp_all add: enc_inject)
qed

lemma sample_hash_good: "good_hash sample_hash [0]"
proof -
  have "inj sample_hash"
  proof (rule injI)
    fix x y :: "bytes \<times> int list \<times> extra_key list option"
    assume e: "sample_hash x = sample_hash y"
    obtain h ts ks h' ts' ks' where xy: "x = (h, ts, ks)" "y = (h', ts', ks')" by (metis prod_cases3)
    show "x = y" using e unfolding xy sample_hash_def
      by (cases ks; cases ks')
        (simp_all add: enc_inject prefix_free_eq [OF prefix_free_list [OF prefix_free_key]]
          prefix_free_eq [OF prefix_free_list [OF prefix_free_int]])
  qed
  then show ?thesis by (auto simp: good_hash_def sample_hash_def)
qed

definition sample_image :: "string \<Rightarrow> int \<Rightarrow> int \<Rightarrow> mm_feature" where
  "sample_image i off len =
     \<lparr>mm_identifier = i, mm_position = \<lparr>offset = off, plen = len, is_embed = None\<rparr>\<rparr>"


section \<open>Properties\<close>

text \<open>
  Packing a block hash with a KV cache group id loses nothing: whenever packing succeeds both
  parts are recovered, it succeeds exactly for group ids that fit four bytes, and other group ids
  raise \<^verbatim>\<open>OverflowError\<close>.
\<close>
theorem block_hash_with_group_id_roundtrip:
  "case make_block_hash_with_group_id h g of
     Inl e \<Rightarrow> e = OverflowError \<and> \<not> (0 \<le> g \<and> g < 2 ^ 32)
   | Inr key \<Rightarrow> 0 \<le> g \<and> g < 2 ^ 32 \<and> get_block_hash key = h \<and> get_group_id key = g"
proof (cases "make_block_hash_with_group_id h g")
  case (Inl e)
  then show ?thesis by (auto simp: make_block_hash_with_group_id_def to_bytes4_def split: if_splits)
next
  case (Inr key)
  have "0 \<le> g \<and> g < 2 ^ 32"
    using Inr by (auto simp: make_block_hash_with_group_id_def to_bytes4_def split: if_splits)
  then show ?thesis using Inr unpack_key [OF Inr] by simp
qed

text \<open>
  C23: the extra keys of a block name exactly the multimodal items whose placeholder meets the block,
  in their order and with their offset relative to the block, provided the placeholders are sorted
  and disjoint and the running index has not skipped an item that still reaches the block; the index
  handed on to the next block satisfies the same condition there.
\<close>
theorem mm_extra_keys_exact:
  assumes "mm_ordered (mm_features r)" and "s \<le> e" and "mm_idx_ok (mm_features r) s i"
  shows "\<exists>j. gen_mm_extra_hash_keys r s e i =
      Inr (map (\<lambda>f. KMM (mm_identifier f) (offset (mm_position f) - s))
             (filter (\<lambda>f. offset (mm_position f) < e \<and> s < mm_end f) (mm_features r)), j) \<and>
    mm_idx_ok (mm_features r) e j"
  using gen_mm_extra_hash_keys_spec [OF assms] by (simp add: mm_keys_def overlaps_def [abs_def])

theorem mm_extra_keys_exact_witness:
  "let r = (sample_request ''r'' [0, 0, 0, 0, 9, 0])\<lparr>mm_features :=
         [sample_image ''x'' 0 3, sample_image ''y'' 3 1, sample_image ''z'' 5 1]\<rparr>
   in mm_ordered (mm_features r) \<and> mm_idx_ok (mm_features r) 2 0 \<and>
      (\<exists>j. gen_mm_extra_hash_keys r 2 4 0 = Inr ([KMM ''x'' (- 2), KMM ''y'' 1], j))"
proof -
  let ?r = "(sample_request ''r'' [0, 0, 0, 0, 9, 0])\<lparr>mm_features :=
         [sample_image ''x'' 0 3, sample_image ''y'' 3 1, sample_image ''z'' 5 1]\<rparr>"
  have o: "mm_ordered (mm_features ?r)" "mm_idx_ok (mm_features ?r) 2 0"
    by (simp_all add: sample_image_def mm_end_def mm_idx_ok_def)
  show ?thesis unfolding Let_def using o mm_extra_keys_exact [OF o(1) _ o(2), of 4]
    by (auto simp: sample_image_def mm_end_def)
qed



text \<open>
  C17: hashing is incremental: appending output tokens to a request that carries the hashes of all its
  full blocks extends the list of hashes to exactly what hashing the longer token list from scratch
  gives, and never raises, as long as at most the last multimodal item reaches beyond the blocks
  already hashed.
\<close>
theorem append_output_rehash_equiv:
  assumes "[] \<notin> range hash" and "0 < bs" and "mm_ordered (mm_features r)" and "hashed hash none bs r"
    and "length (all_token_ids r) < bs \<or> mm_settled r (length (all_token_ids r) div bs * bs)"
  shows "\<exists>r' hs. append_output_token_ids (Some (request_block_hasher hash none bs)) ts r = Inr r' \<and>
    request_block_hasher hash none bs (r'\<lparr>block_hashes := []\<rparr>) = Inr hs \<and> block_hashes r' = hs \<and>
    all_token_ids r' = all_token_ids r @ ts"
proof -
  obtain r' where r': "append_output_token_ids (Some (request_block_hasher hash none bs)) ts r = Inr r'"
    "hashed hash none bs r'" "all_token_ids r' = all_token_ids r @ ts"
    using append_output_hashed [OF assms] by blast
  obtain hs where hs: "r' = (r\<lparr>output_token_ids := output_token_ids r @ ts, all_token_ids := all_token_ids r @ ts\<rparr>)
      \<lparr>block_hashes := hs\<rparr>"
    using r'(1) unfolding append_output_token_ids_def
    by (auto dest!: update_block_hashes_frame)
  let ?q = "r'\<lparr>block_hashes := []\<rparr>"
  have "mm_ordered (mm_features ?q)" using assms(3) by (simp add: hs)
  from request_block_hasher_spec [OF assms(1,2) this, of none 0]
  have "request_block_hasher hash none bs ?q =
      Inr (map (block_hash_at hash none bs ?q) [0..<length (all_token_ids ?q) div bs])" by simp
  moreover have "block_hash_at hash none bs ?q = block_hash_at hash none bs r'"
    by (rule ext) (rule block_hash_at_block_hashes)
  moreover have "all_token_ids ?q = all_token_ids r'" by simp
  ultimately have "request_block_hasher hash none bs ?q = Inr (block_hashes r')"
    using r'(2) unfolding hashed_def by (simp only:)
  then show ?thesis using r'(1,3) by blast
qed

theorem append_output_rehash_equiv_witness:
  "\<exists>r'. [] \<notin> range sample_hash \<and> hashed sample_hash [0] 2 (sample_request ''r'' [5]) \<and>
     append_output_token_ids (Some (request_block_hasher sample_hash [0] 2)) [6, 7] (sample_request ''r'' [5]) =
       Inr r' \<and> all_token_ids r' = [5, 6, 7]"
proof -
  have g: "[] \<notin> range sample_hash" using sample_hash_good by (simp add: good_hash_def)
  have h: "hashed sample_hash [0] 2 (sample_request ''r'' [5])" by (simp add: hashed_def sample_request_def)
  show ?thesis using g h append_output_rehash_equiv [OF g _ _ h, of "[6, 7]"]
    by (auto simp: sample_request_def)
qed

text \<open>
  The coarser view of block hashes is as discriminating as hashing at the coarse block size: with a
  hash function without collisions, equal entries of the views of two requests are at the same
  position, and the requests agree on all tokens up to the end of that coarse block.
\<close>
theorem view_equal_prefix:
  assumes "good_hash hash none" and "0 < bs" and "hashed hash none bs r" and "hashed hash none bs r'"
    and "view_init (block_hashes r) bs target = Inr v" and "view_init (block_hashes r') bs target = Inr v'"
    and "0 < target" and "i < view_len v" and "i' < view_len v'"
    and "view_get_value_at v (int i) = view_get_value_at v' (int i')"
  shows "i = i' \<and> take (Suc i * target) (all_token_ids r) = take (Suc i * target) (all_token_ids r')"
proof -
  define f where "f = target div bs"
  have v: "v = \<lparr>view_hashes = block_hashes r, scale_factor = f\<rparr>"
    "v' = \<lparr>view_hashes = block_hashes r', scale_factor = f\<rparr>" "target mod bs = 0"
    using assms(5,6) by (auto simp: view_init_def f_def)
  have t: "target = f * bs" using v(3) by (auto simp: f_def)
  then have "0 < f" using assms(7) by (cases f) auto
  from view_prefix [OF assms(1,2) this assms(3,4)] show ?thesis
    using assms(8,9,10) unfolding v t by blast
qed

theorem view_equal_prefix_witness:
  "let h = block_hash_at sample_hash [0] 1; q = sample_request ''r'' [5, 6];
       r = q\<lparr>block_hashes := [h q 0, h q 1]\<rparr>; v = \<lparr>view_hashes = block_hashes r, scale_factor = 2\<rparr>
   in good_hash sample_hash [0] \<and> hashed sample_hash [0] 1 r \<and> view_init (block_hashes r) 1 2 = Inr v \<and>
      0 < view_len v \<and> take 2 (all_token_ids r) = take (Suc 0 * 2) (all_token_ids r)"
proof -
  let ?h = "block_hash_at sample_hash [0] 1" and ?q = "sample_request ''r'' [5, 6]"
  let ?r = "?q\<lparr>block_hashes := [?h ?q 0, ?h ?q 1]\<rparr>"
  let ?v = "\<lparr>view_hashes = block_hashes ?r, scale_factor = 2\<rparr>"
  have h: "hashed sample_hash [0] 1 ?r"
    unfolding hashed_def block_hash_at_block_hashes by (simp add: sample_request_def upt_rec)
  have v: "view_init (block_hashes ?r) 1 2 = Inr ?v" by (simp add: view_init_def)
  have l: "0 < view_len ?v" by (simp add: view_len_def)
  show ?thesis unfolding Let_def
    using sample_hash_good h v l view_equal_prefix [OF sample_hash_good _ h h v v _ l l] by simp
qed



end
