(* ===== verification/Block_Map.thy ===== *)
theory Block_Map
  imports Free_Queue
begin

text \<open>
  The map from block hash keys to cached blocks, \<^verbatim>\<open>BlockHashToBlockMap\<close> of
  \<^verbatim>\<open>vllm/v1/core/block_pool.py\<close>. A key holds a single block or, once a second block is cached under
  it, a dictionary from block ids to blocks. \<open>cached_under\<close> reads both forms as the set of blocks
  reachable from a key; the locale \<open>block_cache\<close> is what the pool relies on.
\<close>

section \<open>Definitions\<close>

datatype cached_blocks = One block_ref | Many "(int \<times> block_ref) list"

type_synonym block_map = "bytes \<Rightarrow> cached_blocks option"

definition bm_init :: block_map where
  "bm_init = (\<lambda>_. None)"

definition get_one_block :: "block_map \<Rightarrow> bytes \<Rightarrow> block_ref option res" where
  "get_one_block c key =
     (case c key of
        None \<Rightarrow> Inr None
      | Some (One b) \<Rightarrow> Inr (Some b)
      | Some (Many d) \<Rightarrow> (case d of [] \<Rightarrow> Inl StopIteration | (i, b) # _ \<Rightarrow> Inr (Some b)))"

definition bm_contain :: "block_map \<Rightarrow> bytes \<Rightarrow> int \<Rightarrow> bool" where
  "bm_contain c key bid =
     (case c key of
        None \<Rightarrow> False
      | Some (One b) \<Rightarrow> block_id b = bid
      | Some (Many d) \<Rightarrow> bid \<in> set (keys d))"

definition bm_insert :: "block_map \<Rightarrow> bytes \<Rightarrow> block_ref \<Rightarrow> block_map" where
  "bm_insert c key b =
     (case c key of
        None \<Rightarrow> c(key \<mapsto> One b)
      | Some (One b') \<Rightarrow> c(key \<mapsto> Many (AList.update (block_id b) b [(block_id b', b')]))
      | Some (Many d) \<Rightarrow> c(key \<mapsto> Many (AList.update (block_id b) b d)))"

definition bm_pop :: "block_map \<Rightarrow> bytes \<Rightarrow> int \<Rightarrow> block_ref option \<times> block_map" where
  "bm_pop c key bid =
     (let c0 = c(key := None)
      in case c key of
           None \<Rightarrow> (None, c0)
         | Some (One b) \<Rightarrow>
             if block_id b = bid then (Some b, c0) else (None, c0(key \<mapsto> One b))
         | Some (Many d) \<Rightarrow>
             let b = map_of d bid; d' = AList.delete bid d
             in (b, if length d' > 0 then c0(key \<mapsto> Many d') else c0))"

section \<open>The blocks reachable from a key\<close>

fun entry_blocks :: "cached_blocks \<Rightarrow> block_ref set" where
  "entry_blocks (One b) = {b}"
| "entry_blocks (Many d) = snd ` set d"

definition cached_under :: "block_map \<Rightarrow> bytes \<Rightarrow> block_ref set" where
  "cached_under c key = (case c key of None \<Rightarrow> {} | Some e \<Rightarrow> entry_blocks e)"

fun entry_ok :: "cached_blocks \<Rightarrow> bool" where
  "entry_ok (One b) \<longleftrightarrow> real_block b"
| "entry_ok (Many d) \<longleftrightarrow> d \<noteq> [] \<and> distinct (keys d) \<and>
     (\<forall>(i, b) \<in> set d. real_block b \<and> i = block_id b)"

definition bm_ok :: "block_map \<Rightarrow> bool" where
  "bm_ok c \<longleftrightarrow> (\<forall>key e. c key = Some e \<longrightarrow> entry_ok e)"

lemma block_id_inject: "real_block a \<Longrightarrow> real_block b \<Longrightarrow> block_id a = block_id b \<longleftrightarrow> a = b"
  by (cases a; cases b) (simp_all add: real_block_def)

lemma entry_okD: "bm_ok c \<Longrightarrow> c key = Some e \<Longrightarrow> entry_ok e"
  by (simp add: bm_ok_def)

lemma entry_ok_keys:
  assumes "entry_ok (Many d)" and "real_block b"
  shows "block_id b \<in> set (keys d) \<longleftrightarrow> b \<in> snd ` set d"
proof
  assume "block_id b \<in> set (keys d)"
  then obtain b' where "(block_id b, b') \<in> set d" by (auto simp: keys_def)
  moreover from this have "b' = b" using assms by (auto simp: block_id_inject)
  ultimately show "b \<in> snd ` set d" by force
next
  assume "b \<in> snd ` set d"
  then show "block_id b \<in> set (keys d)" using assms(1) by (force simp: keys_def)
qed

lemma entry_ok_map_of:
  assumes "entry_ok (Many d)" and "real_block b"
  shows "map_of d (block_id b) = (if b \<in> snd ` set d then Some b else None)"
proof (cases "b \<in> snd ` set d")
  case True
  then have "(block_id b, b) \<in> set d" using assms(1) by force
  then show ?thesis using True assms(1) by (simp add: keys_def)
next
  case False
  then have "block_id b \<notin> set (keys d)" using entry_ok_keys [OF assms] by simp
  then show ?thesis using False by (simp add: map_of_eq_None_keys [symmetric])
qed

lemma set_update_real:
  assumes "entry_ok (Many d)" and "real_block b"
  shows "snd ` set (AList.update (block_id b) b d) = insert b (snd ` set d)"
    and "entry_ok (Many (AList.update (block_id b) b d))"
proof -
  have ok: "\<forall>(i, x) \<in> set d. real_block x \<and> i = block_id x" using assms(1) by simp
  have 1: "set (AList.update (block_id b) b d) = insert (block_id b, b) (set d)"
    using ok assms(2)
    by (induction d) (auto simp: block_id_inject)
  then show "snd ` set (AList.update (block_id b) b d) = insert b (snd ` set d)" by simp
  have "AList.update (block_id b) b d \<noteq> []" using 1 by (metis empty_iff insertI1 list.set(1))
  then show "entry_ok (Many (AList.update (block_id b) b d))"
    using assms 1 by auto
qed

lemma set_delete_real:
  assumes "entry_ok (Many d)" and "real_block b"
  shows "snd ` set (AList.delete (block_id b) d) = snd ` set d - {b}"
proof -
  have ok: "\<forall>(i, x) \<in> set d. real_block x \<and> i = block_id x" using assms(1) by simp
  have "set (AList.delete (block_id b) d) = {x \<in> set d. snd x \<noteq> b}"
    using ok assms(2) by (induction d) (auto simp: block_id_inject)
  then show ?thesis by auto
qed

lemma real_block_entry: "entry_ok e \<Longrightarrow> b \<in> entry_blocks e \<Longrightarrow> real_block b"
  by (cases e) auto

lemma entry_ok_Two: "real_block b \<Longrightarrow> entry_ok (Many [(block_id b, b)])"
  by simp

section \<open>The contract of the cache\<close>

locale block_cache =
  fixes ok :: "'c \<Rightarrow> bool"
    and under :: "'c \<Rightarrow> bytes \<Rightarrow> block_ref set"
    and get :: "'c \<Rightarrow> bytes \<Rightarrow> block_ref option res"
    and contain :: "'c \<Rightarrow> bytes \<Rightarrow> int \<Rightarrow> bool"
    and ins :: "'c \<Rightarrow> bytes \<Rightarrow> block_ref \<Rightarrow> 'c"
    and popk :: "'c \<Rightarrow> bytes \<Rightarrow> int \<Rightarrow> block_ref option \<times> 'c"
  assumes under_real: "ok c \<Longrightarrow> b \<in> under c key \<Longrightarrow> real_block b"
    and get_miss: "ok c \<Longrightarrow> under c key = {} \<Longrightarrow> get c key = Inr None"
    and get_hit: "ok c \<Longrightarrow> under c key \<noteq> {} \<Longrightarrow> \<exists>b \<in> under c key. get c key = Inr (Some b)"
    and contain_iff: "ok c \<Longrightarrow> real_block b \<Longrightarrow> contain c key (block_id b) \<longleftrightarrow> b \<in> under c key"
    and ins_ok: "ok c \<Longrightarrow> real_block b \<Longrightarrow> ok (ins c key b)"
    and ins_under: "ok c \<Longrightarrow> real_block b \<Longrightarrow>
        under (ins c key b) k = (if k = key then insert b (under c key) else under c k)"
    and popk_fst: "ok c \<Longrightarrow> real_block b \<Longrightarrow>
        fst (popk c key (block_id b)) = (if b \<in> under c key then Some b else None)"
    and popk_ok: "ok c \<Longrightarrow> real_block b \<Longrightarrow> ok (snd (popk c key (block_id b)))"
    and popk_under: "ok c \<Longrightarrow> real_block b \<Longrightarrow>
        under (snd (popk c key (block_id b))) k = (if k = key then under c key - {b} else under c k)"
begin

lemma get_total: "ok c \<Longrightarrow> \<exists>r. get c key = Inr r"
  using get_miss [of c key] get_hit [of c key] by (cases "under c key = {}") auto

lemma get_Some: "ok c \<Longrightarrow> get c key = Inr (Some b) \<Longrightarrow> b \<in> under c key"
  using get_miss [of c key] get_hit [of c key] by (cases "under c key = {}") auto

lemma get_None_iff: "ok c \<Longrightarrow> get c key = Inr None \<longleftrightarrow> under c key = {}"
  using get_miss [of c key] get_hit [of c key] by (cases "under c key = {}") auto

lemma ins_get: "ok c \<Longrightarrow> real_block b \<Longrightarrow> \<exists>b'. get (ins c key b) key = Inr (Some b')"
  using get_hit [OF ins_ok, of c b key key] ins_under [of c b key key] by auto

lemma pop_ins:
  assumes "ok c" and "real_block b" and "b \<notin> under c key"
  shows "under (snd (popk (ins c key b) key (block_id b))) = under c"
  using assms ins_ok [OF assms(1,2)] by (intro ext) (simp add: popk_under ins_under)

lemma pop_pop:
  assumes "ok c" and "real_block b"
  shows "fst (popk (snd (popk c key (block_id b))) key (block_id b)) = None"
  using assms popk_ok [OF assms] by (simp add: popk_fst popk_under)

end

lemma cached_under_insert:
  assumes "bm_ok c" and "real_block b"
  shows "cached_under (bm_insert c key b) k =
    (if k = key then insert b (cached_under c key) else cached_under c k)"
proof (cases "c key")
  case None
  then show ?thesis by (simp add: bm_insert_def cached_under_def)
next
  case (Some e)
  show ?thesis
  proof (cases e)
    case (One b')
    have "real_block b'" using entry_okD [OF assms(1) Some] One by simp
    then show ?thesis using set_update_real(1) [OF entry_ok_Two assms(2), of b'] Some One
      by (simp add: bm_insert_def cached_under_def del: update.simps)
  next
    case (Many d)
    have "entry_ok (Many d)" using entry_okD [OF assms(1) Some] Many by simp
    then show ?thesis using set_update_real(1) [OF _ assms(2), of d] Some Many
      by (simp add: bm_insert_def cached_under_def)
  qed
qed

lemma bm_ok_upd: "bm_ok c \<Longrightarrow> entry_ok e \<Longrightarrow> bm_ok (c(key \<mapsto> e))"
  by (simp add: bm_ok_def)

lemma bm_ok_del: "bm_ok c \<Longrightarrow> bm_ok (c(key := None))"
  by (simp add: bm_ok_def)

lemma bm_ok_insert:
  assumes "bm_ok c" and "real_block b"
  shows "bm_ok (bm_insert c key b)"
proof (cases "c key")
  case None
  then show ?thesis using assms by (simp add: bm_insert_def bm_ok_upd)
next
  case (Some e)
  note e = entry_okD [OF assms(1) Some]
  show ?thesis
  proof (cases e)
    case (One b')
    then show ?thesis using e Some bm_ok_upd [OF assms(1) set_update_real(2) [OF entry_ok_Two assms(2)]]
      by (simp add: bm_insert_def del: update.simps)
  next
    case (Many d)
    then show ?thesis using e Some bm_ok_upd [OF assms(1) set_update_real(2) [OF _ assms(2)]]
      by (simp add: bm_insert_def del: entry_ok.simps)
  qed
qed

lemma bm_pop_spec:
  assumes "bm_ok c" and "real_block b"
  shows "fst (bm_pop c key (block_id b)) = (if b \<in> cached_under c key then Some b else None)"
    and "bm_ok (snd (bm_pop c key (block_id b)))"
    and "cached_under (snd (bm_pop c key (block_id b))) k =
      (if k = key then cached_under c key - {b} else cached_under c k)"
proof -
  have "fst (bm_pop c key (block_id b)) = (if b \<in> cached_under c key then Some b else None) \<and>
    bm_ok (snd (bm_pop c key (block_id b))) \<and>
    cached_under (snd (bm_pop c key (block_id b))) k =
      (if k = key then cached_under c key - {b} else cached_under c k)"
  proof (cases "c key")
    case None
    then show ?thesis using bm_ok_del [OF assms(1)] by (simp add: bm_pop_def cached_under_def)
  next
    case (Some e)
    note e = entry_okD [OF assms(1) Some]
    show ?thesis
    proof (cases e)
      case (One b')
      then show ?thesis using e Some bm_ok_del [OF assms(1)] assms
        by (auto simp: bm_pop_def cached_under_def block_id_inject Let_def bm_ok_upd)
    next
      case (Many d)
      have m: "entry_ok (Many d)" using e Many by simp
      have r: "entry_ok (Many (AList.delete (block_id b) d))" if "AList.delete (block_id b) d \<noteq> []"
        using m that set_AList_delete [of "block_id b" d] by auto
      show ?thesis
      proof (cases "AList.delete (block_id b) d = []")
        case True
        then show ?thesis using Some Many m bm_ok_del [OF assms(1)] set_delete_real [OF m assms(2)]
          by (simp add: bm_pop_def cached_under_def Let_def entry_ok_map_of [OF m assms(2)]
              del: entry_ok.simps)
      next
        case False
        then show ?thesis using Some Many m bm_ok_upd [OF assms(1) r [OF False]]
            set_delete_real [OF m assms(2)]
          by (simp add: bm_pop_def cached_under_def Let_def entry_ok_map_of [OF m assms(2)]
              del: entry_ok.simps)
      qed
    qed
  qed
  then show "fst (bm_pop c key (block_id b)) = (if b \<in> cached_under c key then Some b else None)"
    and "bm_ok (snd (bm_pop c key (block_id b)))"
    and "cached_under (snd (bm_pop c key (block_id b))) k =
      (if k = key then cached_under c key - {b} else cached_under c k)" by simp_all
qed

lemma bm_contain_iff:
  assumes "bm_ok c" and "real_block b"
  shows "bm_contain c key (block_id b) \<longleftrightarrow> b \<in> cached_under c key"
proof (cases "c key")
  case (Some e)
  then show ?thesis using entry_okD [OF assms(1) Some] assms(2)
    by (cases e) (auto simp: bm_contain_def cached_under_def block_id_inject entry_ok_keys
        simp del: entry_ok.simps(2))
qed (simp add: bm_contain_def cached_under_def)

interpretation bc: block_cache bm_ok cached_under get_one_block bm_contain bm_insert bm_pop
proof unfold_locales
  show "bm_ok c \<Longrightarrow> b \<in> cached_under c key \<Longrightarrow> real_block b" for c b key
    by (auto simp: cached_under_def split: option.splits dest: entry_okD real_block_entry)
  show "bm_ok c \<Longrightarrow> cached_under c key = {} \<Longrightarrow> get_one_block c key = Inr None" for c key
    by (auto simp: cached_under_def get_one_block_def split: option.splits cached_blocks.splits
        dest: entry_okD)
  show "bm_ok c \<Longrightarrow> cached_under c key \<noteq> {} \<Longrightarrow>
      \<exists>b \<in> cached_under c key. get_one_block c key = Inr (Some b)" for c key
    by (auto simp: cached_under_def get_one_block_def split: option.splits cached_blocks.splits
        list.splits dest: entry_okD)
qed (simp_all add: bm_contain_iff bm_ok_insert cached_under_insert bm_pop_spec)

end
