(* ===== verification/Block_Pool.thy ===== *)
theory Block_Pool
  imports Block_Map Block_Hash
begin

text \<open>
  The block pool (\<^verbatim>\<open>BlockPool\<close> of \<^verbatim>\<open>vllm/v1/core/block_pool.py\<close>): allocation, caching, eviction,
  sharing and freeing of KV cache blocks. The state is a record with the block heap and free queue
  (\<open>store\<close>), the hash map, the additional hash keys of each block and the event queue. A Python set
  of keys is the list of its elements in iteration order. The optional metrics collector only
  observes the pool and is left out. The flag \<open>use_int_hashes\<close> is the environment variable
  \<^verbatim>\<open>VLLM_KV_EVENTS_USE_INT_BLOCK_HASHES\<close>.
\<close>

section \<open>State\<close>

record block_stored =
  bs_block_hashes :: "ext_hash list"
  bs_parent_block_hash :: "ext_hash option"
  bs_token_ids :: "int list"
  bs_block_size :: int
  bs_lora_id :: "int option"
  bs_medium :: string
  bs_lora_name :: "string option"
  bs_extra_keys :: "extra_key list option list option"
  bs_group_idx :: int
  bs_session_id :: "string option"

datatype kv_event =
    BlockStored block_stored
  | BlockRemoved "ext_hash list" string int
  | AllBlocksCleared

record pool =
  num_gpu_blocks :: nat
  enable_caching :: bool
  hash_block_size :: nat
  store :: kv_store
  cached_block_hash_to_block :: block_map
  cached_block_hashes_by_block :: "int \<Rightarrow> bytes list option"
  null_block :: block_ref
  enable_kv_cache_events :: bool
  kv_event_queue :: "kv_event list"
  use_int_hashes :: bool

abbreviation blk :: "pool \<Rightarrow> block_ref \<Rightarrow> kv_block" where
  "blk p b \<equiv> heap (store p) b"

abbreviation upd_block :: "block_ref \<Rightarrow> (kv_block \<Rightarrow> kv_block) \<Rightarrow> pool \<Rightarrow> pool" where
  "upd_block b f p \<equiv> p\<lparr>store := modify b f (store p)\<rparr>"

definition pool_init :: "nat \<Rightarrow> bool \<Rightarrow> nat \<Rightarrow> bool \<Rightarrow> bool \<Rightarrow> pool res" where
  "pool_init n caching hbs events use_int =
     rbind (ensure (0 < n) AssertionError) (\<lambda>_.
     rbind (popleft (fq_init (map Block [0..<n]) (\<lambda>_. fresh_block))) (\<lambda>(nb, s).
       Inr \<lparr>num_gpu_blocks = n, enable_caching = caching, hash_block_size = hbs,
            store = modify nb (is_null_update (\<lambda>_. True)) s,
            cached_block_hash_to_block = bm_init, cached_block_hashes_by_block = (\<lambda>_. None),
            null_block = nb, enable_kv_cache_events = events, kv_event_queue = [],
            use_int_hashes = use_int\<rparr>))"

section \<open>Hash keys of a block\<close>

fun pop_hashes :: "block_map \<Rightarrow> bytes list \<Rightarrow> int \<Rightarrow> bytes list \<times> block_map" where
  "pop_hashes c [] bid = ([], c)"
| "pop_hashes c (k # ks) bid =
     (let (r, c') = bm_pop c k bid; (rs, c'') = pop_hashes c' ks bid
      in (if r \<noteq> None then k # rs else rs, c''))"

definition extra_hashes :: "pool \<Rightarrow> block_ref \<Rightarrow> bytes list" where
  \<comment> \<open>\<^verbatim>\<open>cached_block_hashes_by_block.get(block.block_id, ())\<close>\<close>
  "extra_hashes p b =
     (case cached_block_hashes_by_block p (block_id b) of None \<Rightarrow> [] | Some ks \<Rightarrow> ks)"

definition block_keys :: "pool \<Rightarrow> block_ref \<Rightarrow> bytes list" where
  "block_keys p b = (case block_hash (blk p b) of None \<Rightarrow> [] | Some k \<Rightarrow> [k]) @ extra_hashes p b"

definition remove_cached_block_hashes :: "block_ref \<Rightarrow> pool \<Rightarrow> bytes list \<times> pool" where
  "remove_cached_block_hashes b p =
     (let ks = block_keys p b;
          p1 = p\<lparr>cached_block_hashes_by_block :=
                   (cached_block_hashes_by_block p)(block_id b := None)\<rparr>
      in if ks = [] then ([], p1)
         else let (removed, c) = pop_hashes (cached_block_hash_to_block p1) ks (block_id b)
              in (removed, upd_block b reset_hash (p1\<lparr>cached_block_hash_to_block := c\<rparr>)))"

definition emit_block_removed_events :: "bytes list \<Rightarrow> pool \<Rightarrow> pool" where
  "emit_block_removed_events ks p =
     (if \<not> enable_kv_cache_events p then p
      else p\<lparr>kv_event_queue := kv_event_queue p @
               map (\<lambda>k. BlockRemoved [maybe_convert_block_hash (use_int_hashes p) (get_block_hash k)]
                      ''GPU'' (get_group_id k)) ks\<rparr>)"

definition insert_block_hash :: "bytes \<Rightarrow> block_ref \<Rightarrow> int option \<Rightarrow> pool \<Rightarrow> pool res" where
  "insert_block_hash key b nt p =
     (if block_hash (blk p b) = Some key then Inr p
      else if bm_contain (cached_block_hash_to_block p) key (block_id b) then Inr p
      else rbind
        (if block_hash (blk p b) = None
         then rbind (set_block_hash key nt (blk p b)) (\<lambda>k. Inr (upd_block b (\<lambda>_. k) p))
         else Inr (p\<lparr>cached_block_hashes_by_block :=
                (cached_block_hashes_by_block p)(block_id b \<mapsto> List.insert key (extra_hashes p b))\<rparr>))
        (\<lambda>p1. Inr (p1\<lparr>cached_block_hash_to_block :=
                     bm_insert (cached_block_hash_to_block p1) key b\<rparr>)))"

definition maybe_evict_cached_block :: "block_ref \<Rightarrow> pool \<Rightarrow> bool \<times> pool" where
  "maybe_evict_cached_block b p =
     (let (evicted, p1) = remove_cached_block_hashes b p
      in if evicted = [] then (False, p1) else (True, emit_block_removed_events evicted p1))"

definition move_block_hashes :: "block_ref \<Rightarrow> block_ref \<Rightarrow> pool \<Rightarrow> pool res" where
  "move_block_hashes src dst p =
     rbind (ensure (block_hash (blk p dst) = None) AssertionError) (\<lambda>_.
     rbind (ensure (cached_block_hashes_by_block p (block_id dst) = None) AssertionError) (\<lambda>_.
       let nt = block_hash_num_tokens (blk p src);
           (removed, p1) = remove_cached_block_hashes src p
       in rfold (\<lambda>k. insert_block_hash k dst nt) removed p1))"

section \<open>Lookup\<close>

fun get_cached_block :: "pool \<Rightarrow> bytes \<Rightarrow> int list \<Rightarrow> block_ref list option res" where
  "get_cached_block p h [] = Inr (Some [])"
| "get_cached_block p h (g # gs) =
     rbind (make_block_hash_with_group_id h g) (\<lambda>key.
     rbind (get_one_block (cached_block_hash_to_block p) key) (\<lambda>r.
       case r of
         None \<Rightarrow> Inr None
       | Some b \<Rightarrow> rbind (get_cached_block p h gs) (\<lambda>rs.
           Inr (case rs of None \<Rightarrow> None | Some bs \<Rightarrow> Some (b # bs)))))"

section \<open>Caching\<close>

definition hashes_from :: "block_hash_list \<Rightarrow> nat \<Rightarrow> bytes list res" where
  \<comment> \<open>\<^verbatim>\<open>block_hashes[n:]\<close>\<close>
  "hashes_from hs n =
     (case hs of Raw l \<Rightarrow> Inr (drop n l) | View v \<Rightarrow> view_slice v n (view_len v))"

definition hash_at :: "block_hash_list \<Rightarrow> int \<Rightarrow> bytes res" where
  "hash_at hs i = (case hs of Raw l \<Rightarrow> py_get l i | View v \<Rightarrow> view_get_value_at v i)"

definition skip_block :: "pool \<Rightarrow> bool list option \<Rightarrow> nat \<Rightarrow> block_ref \<Rightarrow> bool" where
  "skip_block p msk i b \<longleftrightarrow>
     is_null (blk p b) \<or> (case msk of None \<Rightarrow> False | Some m \<Rightarrow> \<not> m ! i)"

definition drop_partial_hashes :: "block_ref \<Rightarrow> int \<Rightarrow> pool \<Rightarrow> pool res" where
  \<comment> \<open>partial to full promotion of a block that already has a hash\<close>
  "drop_partial_hashes b num_hash_tokens p =
     (if block_hash (blk p b) = None then Inr p
      else rbind (ensure (case block_hash_num_tokens (blk p b) of
                            None \<Rightarrow> False | Some t \<Rightarrow> t < num_hash_tokens) AssertionError) (\<lambda>_.
        let (removed, p1) = remove_cached_block_hashes b p
        in Inr (emit_block_removed_events removed p1)))"

fun cache_full_loop ::
  "bytes list \<Rightarrow> nat \<Rightarrow> nat \<Rightarrow> int \<Rightarrow> bool list option \<Rightarrow> nat \<Rightarrow> block_ref list \<Rightarrow> pool \<Rightarrow>
   (ext_hash list \<times> pool) res"
where
  "cache_full_loop hs nc bs g msk i [] p = Inr ([], p)"
| "cache_full_loop hs nc bs g msk i (b # bl) p =
     (if skip_block p msk i b then cache_full_loop hs nc bs g msk (Suc i) bl p
      else
        rbind (py_get hs (int i)) (\<lambda>h.
        let num_hash_tokens = int ((nc + i + 1) * bs) in
        rbind (make_block_hash_with_group_id h g) (\<lambda>key.
        rbind (drop_partial_hashes b num_hash_tokens p) (\<lambda>p1.
        rbind (insert_block_hash key b (Some num_hash_tokens) p1) (\<lambda>p2.
        rbind (cache_full_loop hs nc bs g msk (Suc i) bl p2) (\<lambda>(ehs, p3).
          Inr (maybe_convert_block_hash (use_int_hashes p) h # ehs, p3)))))))"

fun event_extra_keys ::
  "pool \<Rightarrow> request \<Rightarrow> block_ref list \<Rightarrow> nat \<Rightarrow> nat \<Rightarrow> bool list option \<Rightarrow> int \<Rightarrow> nat list \<Rightarrow>
   extra_key list option list res"
where
  "event_extra_keys p r blocks nc bs msk mm [] = Inr []"
| "event_extra_keys p r blocks nc bs msk mm (i # is) =
     rbind (py_get blocks (int i)) (\<lambda>b.
     if skip_block p msk (i - nc) b then event_extra_keys p r blocks nc bs msk mm is
     else rbind (generate_block_hash_extra_keys r (int (i * bs)) (int (i * bs + bs)) mm) (\<lambda>(ks, mm').
          rbind (event_extra_keys p r blocks nc bs msk mm' is) (\<lambda>kss. Inr (ks # kss))))"

definition build_block_stored_event ::
  "request \<Rightarrow> ext_hash list \<Rightarrow> ext_hash option \<Rightarrow> nat \<Rightarrow> nat \<Rightarrow> nat \<Rightarrow> int \<Rightarrow>
   extra_key list option list \<Rightarrow> block_stored"
where
  "build_block_stored_event r hs par s e bs g kss =
     \<lparr>bs_block_hashes = hs, bs_parent_block_hash = par,
      bs_token_ids = py_slice (int s) (int e) (all_token_ids r), bs_block_size = int bs,
      bs_lora_id = map_option lora_int_id (lora_request r), bs_medium = ''GPU'',
      bs_lora_name = map_option lora_name (lora_request r),
      bs_extra_keys = (if kss = [] then None else Some kss), bs_group_idx = g,
      bs_session_id = session_id r\<rparr>"

definition cache_full_blocks ::
  "request \<Rightarrow> block_ref list \<Rightarrow> nat \<Rightarrow> nat \<Rightarrow> nat \<Rightarrow> int \<Rightarrow> bool list option \<Rightarrow> pool \<Rightarrow> pool res"
where
  "cache_full_blocks r blocks num_cached num_full bs g msk p =
     (if num_cached \<ge> num_full then Inr p
      else
        let new_full = take (num_full - num_cached) (drop num_cached blocks) in
        rbind (ensure (case msk of None \<Rightarrow> True | Some m \<Rightarrow> length m = length new_full)
                 AssertionError) (\<lambda>_.
        rbind (resolve_block_hashes (Raw (block_hashes r)) (hash_block_size p) bs False None) (\<lambda>hs.
        rbind (hashes_from hs num_cached) (\<lambda>new_hs.
        rbind (cache_full_loop new_hs num_cached bs g msk 0 new_full p) (\<lambda>(ehs, p1).
        if \<not> enable_kv_cache_events p then Inr p1
        else
          rbind (if num_cached = 0 then Inr None
                 else rbind (hash_at hs (int num_cached - 1)) (\<lambda>h.
                   Inr (Some (maybe_convert_block_hash (use_int_hashes p) h)))) (\<lambda>par.
          rbind (event_extra_keys p1 r blocks num_cached bs msk 0 [num_cached..<num_full]) (\<lambda>kss.
            Inr (p1\<lparr>kv_event_queue := kv_event_queue p1 @
              [BlockStored (build_block_stored_event r ehs par (num_cached * bs) (num_full * bs)
                              bs g kss)]\<rparr>))))))))"

fun reused_hashes_and_keys ::
  "bool \<Rightarrow> request \<Rightarrow> block_hash_list \<Rightarrow> nat \<Rightarrow> int \<Rightarrow> nat list \<Rightarrow>
   (ext_hash list \<times> extra_key list option list) res"
where
  "reused_hashes_and_keys use_int r hs bs mm [] = Inr ([], [])"
| "reused_hashes_and_keys use_int r hs bs mm (i # is) =
     rbind (hash_at hs (int i)) (\<lambda>h.
     rbind (generate_block_hash_extra_keys r (int (i * bs)) (int (i * bs + bs)) mm) (\<lambda>(ks, mm').
     rbind (reused_hashes_and_keys use_int r hs bs mm' is) (\<lambda>(ehs, kss).
       Inr (maybe_convert_block_hash use_int h # ehs, ks # kss))))"

definition emit_cached_block_events :: "request \<Rightarrow> nat \<Rightarrow> nat \<Rightarrow> int \<Rightarrow> pool \<Rightarrow> pool res" where
  "emit_cached_block_events r num_cached bs g p =
     (if \<not> enable_kv_cache_events p \<or> num_cached = 0 then Inr p
      else
        rbind (resolve_block_hashes (Raw (block_hashes r)) (hash_block_size p) bs False None) (\<lambda>hs.
        rbind (reused_hashes_and_keys (use_int_hashes p) r hs bs 0 [0..<num_cached]) (\<lambda>(ehs, kss).
        if ehs = [] then Inr p
        else Inr (p\<lparr>kv_event_queue := kv_event_queue p @
               [BlockStored (build_block_stored_event r ehs None 0 (num_cached * bs) bs g kss)]\<rparr>))))"

definition get_partial_block_hash :: "pool \<Rightarrow> request \<Rightarrow> nat \<Rightarrow> bytes res" where
  "get_partial_block_hash p r nt =
     rbind (ensure (hash_block_size p \<noteq> 0) ZeroDivisionError) (\<lambda>_.
     rbind (ensure (nt mod hash_block_size p = 0) AssertionError) (\<lambda>_.
       let n = nt div hash_block_size p in
       rbind (ensure (0 < n \<and> n \<le> length (block_hashes r)) AssertionError) (\<lambda>_.
         py_get (block_hashes r) (int n - 1))))"

definition get_partial_block_parent_hash_and_start ::
  "pool \<Rightarrow> request \<Rightarrow> nat \<Rightarrow> (bytes option \<times> nat) res"
where
  "get_partial_block_parent_hash_and_start p r nt =
     rbind (ensure (hash_block_size p \<noteq> 0) ZeroDivisionError) (\<lambda>_.
       let n = nt div hash_block_size p in
       rbind (if n > 1 then rbind (py_get (block_hashes r) (int n - 2)) (\<lambda>h. Inr (Some h))
              else Inr None) (\<lambda>par.
         Inr (par, (n - 1) * hash_block_size p)))"

definition prepare_partial_block :: "block_ref \<Rightarrow> bytes \<Rightarrow> nat \<Rightarrow> bool \<Rightarrow> pool \<Rightarrow> bool \<times> pool" where
  \<comment> \<open>whether the key was cached before, and the pool without outdated keys of the block\<close>
  "prepare_partial_block b key hash_tokens replace p =
     (let cached = (block_hash (blk p b) = Some key \<or>
                    bm_contain (cached_block_hash_to_block p) key (block_id b));
          outdated = (\<not> cached \<and> block_hash (blk p b) \<noteq> None \<and>
                      (case block_hash_num_tokens (blk p b) of
                         None \<Rightarrow> False | Some t \<Rightarrow> t < int hash_tokens))
      in (\<not> replace \<and> cached,
          if replace \<or> outdated
          then let (removed, q) = remove_cached_block_hashes b p
               in emit_block_removed_events removed q
          else p))"

definition emit_partial_stored_event :: "request \<Rightarrow> nat \<Rightarrow> int \<Rightarrow> bytes \<Rightarrow> pool \<Rightarrow> pool res" where
  "emit_partial_stored_event r nt g h p =
     rbind (get_partial_block_parent_hash_and_start p r nt) (\<lambda>(par, start).
     rbind (generate_block_hash_extra_keys r (int start) (int nt) (if start > 0 then - 1 else 0))
       (\<lambda>(ks, _).
         Inr (p\<lparr>kv_event_queue := kv_event_queue p @
           [BlockStored
             \<lparr>bs_block_hashes = [maybe_convert_block_hash (use_int_hashes p) h],
              bs_parent_block_hash = map_option (maybe_convert_block_hash (use_int_hashes p)) par,
              bs_token_ids = py_slice (int start) (int nt) (all_token_ids r),
              bs_block_size = int nt - int start,
              bs_lora_id = map_option lora_int_id (lora_request r), bs_medium = ''GPU'',
              bs_lora_name = map_option lora_name (lora_request r),
              bs_extra_keys = Some [ks], bs_group_idx = g,
              bs_session_id = session_id r\<rparr>]\<rparr>)))"

definition cache_partial_block ::
  "request \<Rightarrow> block_ref \<Rightarrow> nat \<Rightarrow> int \<Rightarrow> nat \<Rightarrow> bool \<Rightarrow> pool \<Rightarrow> (bytes option \<times> pool) res"
where
  "cache_partial_block r b nt g bs replace p =
     (if is_null (blk p b) then Inr (None, p)
      else
        rbind (ensure (hash_block_size p \<noteq> 0) ZeroDivisionError) (\<lambda>_.
        rbind (ensure (bs mod hash_block_size p = 0) AssertionError) (\<lambda>_.
        rbind (ensure (replace \<or> bs > hash_block_size p \<and> nt mod bs \<noteq> 0) AssertionError) (\<lambda>_.
        rbind (get_partial_block_hash p r nt) (\<lambda>h.
        rbind (make_block_hash_with_group_id h g) (\<lambda>key.
        let hash_tokens = nt div hash_block_size p * hash_block_size p;
            (already_cached, p1) = prepare_partial_block b key hash_tokens replace p in
        rbind (insert_block_hash key b (Some (int hash_tokens)) p1) (\<lambda>p2.
        rbind (if enable_kv_cache_events p2 \<and> \<not> already_cached
               then emit_partial_stored_event r nt g h p2 else Inr p2) (\<lambda>p3.
          Inr (Some key, p3)))))))))"

section \<open>Allocation, sharing and freeing\<close>

definition get_num_free_blocks :: "pool \<Rightarrow> int" where
  "get_num_free_blocks p = num_free_blocks (store p)"

definition take_block :: "block_ref \<Rightarrow> pool \<Rightarrow> pool res" where
  \<comment> \<open>the body of both loops of \<^verbatim>\<open>get_new_blocks\<close>\<close>
  "take_block b p =
     (let p1 = (if enable_caching p then snd (maybe_evict_cached_block b p) else p)
      in rbind (ensure (ref_cnt (blk p1 b) = 0) AssertionError) (\<lambda>_.
           Inr (upd_block b (\<lambda>k. k\<lparr>ref_cnt := ref_cnt k + 1\<rparr>) p1)))"

definition get_new_blocks :: "int \<Rightarrow> pool \<Rightarrow> (block_ref list \<times> pool) res" where
  "get_new_blocks n p =
     (if n > get_num_free_blocks p then Inl ValueError
      else rbind (popleft_n n (store p)) (\<lambda>(ret, s).
           rbind (rfold take_block ret (p\<lparr>store := s\<rparr>)) (\<lambda>p1. Inr (ret, p1))))"

definition touch_block :: "block_ref \<Rightarrow> pool \<Rightarrow> pool res" where
  "touch_block b p =
     rbind (if ref_cnt (blk p b) = 0 \<and> \<not> is_null (blk p b)
            then rbind (remove_block b (store p)) (\<lambda>s. Inr (p\<lparr>store := s\<rparr>))
            else Inr p) (\<lambda>p1.
       Inr (upd_block b (\<lambda>k. k\<lparr>ref_cnt := ref_cnt k + 1\<rparr>) p1))"

definition touch :: "block_ref list \<Rightarrow> pool \<Rightarrow> pool res" where
  "touch bs p = rfold touch_block bs p"

definition is_block_writable :: "pool \<Rightarrow> block_ref \<Rightarrow> bool" where
  "is_block_writable p b \<longleftrightarrow>
     \<not> is_null (blk p b) \<and> ref_cnt (blk p b) = 1 \<and> block_hash (blk p b) = None"

fun free_loop ::
  "bool \<Rightarrow> block_ref list \<Rightarrow> kv_store \<Rightarrow> block_ref list \<times> block_ref list \<times> kv_store"
where
  \<comment> \<open>the blocks to evict first, the blocks to evict last, and the new state\<close>
  "free_loop caching [] s = ([], [], s)"
| "free_loop caching (b # bs) s =
     (let s1 = modify b (\<lambda>k. k\<lparr>ref_cnt := ref_cnt k - 1\<rparr>) s;
          k = heap s1 b;
          (first, last, s2) = free_loop caching bs s1
      in if ref_cnt k = 0 \<and> \<not> is_null k
         then if block_hash k = None \<or> \<not> caching then (b # first, last, s2)
              else (first, b # last, s2)
         else (first, last, s2))"

definition free_blocks :: "block_ref list \<Rightarrow> pool \<Rightarrow> pool res" where
  "free_blocks bs p =
     (let (first, last, s) = free_loop (enable_caching p) bs (store p)
      in rbind (prepend_n first s) (\<lambda>s1.
         rbind (append_n last s1) (\<lambda>s2. Inr (p\<lparr>store := s2\<rparr>))))"

definition evict_blocks :: "nat list \<Rightarrow> pool \<Rightarrow> pool res" where
  "evict_blocks ids p =
     rfold (\<lambda>i q. rbind (ensure (i < num_gpu_blocks q) AssertionError) (\<lambda>_.
                    Inr (snd (maybe_evict_cached_block (Block i) q)))) ids p"

definition reset_prefix_cache :: "pool \<Rightarrow> bool \<times> pool" where
  "reset_prefix_cache p =
     (if int (num_gpu_blocks p) - get_num_free_blocks p \<noteq> 1 then (False, p)
      else
        let p1 = p\<lparr>cached_block_hash_to_block := bm_init,
                   cached_block_hashes_by_block := (\<lambda>_. None)\<rparr>;
            p2 = fold (\<lambda>i. upd_block (Block i) reset_hash) [0..<num_gpu_blocks p1] p1
        in (True, if enable_kv_cache_events p2
                  then p2\<lparr>kv_event_queue := kv_event_queue p2 @ [AllBlocksCleared]\<rparr> else p2))"

definition get_usage :: "pool \<Rightarrow> rat" where
  "get_usage p =
     (let total = int (num_gpu_blocks p) - 1
      in if total = 0 then 0 else 1 - of_int (get_num_free_blocks p) / of_int total)"

definition take_events :: "pool \<Rightarrow> kv_event list \<times> pool" where
  "take_events p =
     (if \<not> enable_kv_cache_events p then ([], p)
      else (kv_event_queue p, p\<lparr>kv_event_queue := []\<rparr>))"

end
