(* ===== verification/Pool_Invariant.thy ===== *)
theory Pool_Invariant
  imports Block_Pool
begin

text \<open>
  The invariant of the block pool and what each operation does to it. \<open>free_inv\<close> relates the free
  queue to the reference counts: a block other than the null block is queued exactly when nobody
  refers to it (up to a set of blocks an operation is holding while it runs). \<open>cache_inv\<close> relates the
  hash map to the blocks: a block is found under a key exactly when the key is one of its own.
\<close>

section \<open>The invariant\<close>

definition pool_block :: "nat \<Rightarrow> block_ref \<Rightarrow> bool" where
  \<comment> \<open>an allocatable block: the null block 0 is not\<close>
  "pool_block n b \<longleftrightarrow> (\<exists>i. b = Block i \<and> 0 < i \<and> i < n)"

definition free_inv :: "nat \<Rightarrow> kv_store \<Rightarrow> block_ref list \<Rightarrow> block_ref set \<Rightarrow> bool" where
  "free_inv n s xs held \<longleftrightarrow>
     is_fq s xs \<and> set xs \<inter> held = {} \<and>
     set xs \<union> held = {b. pool_block n b \<and> ref_cnt (heap s b) = 0} \<and>
     (\<forall>i < n. is_null (heap s (Block i)) \<longleftrightarrow> i = 0) \<and>
     (\<forall>b. pool_block n b \<longrightarrow> 0 \<le> ref_cnt (heap s b))"

definition cache_inv :: "pool \<Rightarrow> bool" where
  "cache_inv p \<longleftrightarrow>
     bm_ok (cached_block_hash_to_block p) \<and>
     (\<forall>key b. b \<in> cached_under (cached_block_hash_to_block p) key \<longleftrightarrow>
        pool_block (num_gpu_blocks p) b \<and> key \<in> set (block_keys p b)) \<and>
     (\<forall>b. pool_block (num_gpu_blocks p) b \<longrightarrow>
        distinct (block_keys p b) \<and>
        (block_hash (blk p b) = None \<longleftrightarrow> block_hash_num_tokens (blk p b) = None) \<and>
        (block_hash (blk p b) = None \<longrightarrow> cached_block_hashes_by_block p (block_id b) = None)) \<and>
     block_hash (blk p (Block 0)) = None \<and> cached_block_hashes_by_block p 0 = None"

definition pool_inv :: "pool \<Rightarrow> block_ref list \<Rightarrow> bool" where
  "pool_inv p xs \<longleftrightarrow>
     0 < num_gpu_blocks p \<and> null_block p = Block 0 \<and>
     free_inv (num_gpu_blocks p) (store p) xs {} \<and> cache_inv p"

section \<open>What operations leave alone\<close>

definition same_config :: "pool \<Rightarrow> pool \<Rightarrow> bool" where
  "same_config p p' \<longleftrightarrow>
     num_gpu_blocks p' = num_gpu_blocks p \<and> null_block p' = null_block p \<and>
     enable_caching p' = enable_caching p \<and> hash_block_size p' = hash_block_size p \<and>
     enable_kv_cache_events p' = enable_kv_cache_events p \<and> use_int_hashes p' = use_int_hashes p"

definition hash_only :: "pool \<Rightarrow> pool \<Rightarrow> bool" where
  \<comment> \<open>nothing but hash metadata and events differs\<close>
  "hash_only p p' \<longleftrightarrow> same_config p p' \<and>
     num_free_blocks (store p') = num_free_blocks (store p) \<and>
     (\<forall>b. reset_hash (blk p' b) = reset_hash (blk p b))"

lemma same_config_refl [simp]: "same_config p p"
  by (simp add: same_config_def)

lemma same_config_trans: "same_config p q \<Longrightarrow> same_config q r \<Longrightarrow> same_config p r"
  by (simp add: same_config_def)

lemma hash_only_refl [simp]: "hash_only p p"
  by (simp add: hash_only_def)

lemma hash_only_trans: "hash_only p q \<Longrightarrow> hash_only q r \<Longrightarrow> hash_only p r"
  by (auto simp: hash_only_def intro: same_config_trans)

lemma hash_only_fields:
  assumes "hash_only p p'"
  shows "ref_cnt (blk p' b) = ref_cnt (blk p b)" and "is_null (blk p' b) = is_null (blk p b)"
    and "nxt (store p') b = nxt (store p) b" and "prv (store p') b = prv (store p) b"
    and "num_free_blocks (store p') = num_free_blocks (store p)" and "same_config p p'"
proof -
  have e: "reset_hash (blk p' b) = reset_hash (blk p b)" using assms by (simp add: hash_only_def)
  show "ref_cnt (blk p' b) = ref_cnt (blk p b)" "is_null (blk p' b) = is_null (blk p b)"
    "nxt (store p') b = nxt (store p) b" "prv (store p') b = prv (store p) b"
    using arg_cong [OF e, of ref_cnt] arg_cong [OF e, of is_null]
      arg_cong [OF e, of next_free_block] arg_cong [OF e, of prev_free_block]
    by (simp_all add: reset_hash_def)
qed (use assms in \<open>simp_all add: hash_only_def\<close>)

lemma free_inv_cong:
  assumes "\<And>b. ref_cnt (heap s' b) = ref_cnt (heap s b)" and "\<And>b. is_null (heap s' b) = is_null (heap s b)"
    and "\<And>b. nxt s' b = nxt s b" and "\<And>b. prv s' b = prv s b" and "num_free_blocks s' = num_free_blocks s"
  shows "free_inv n s' xs held = free_inv n s xs held"
  using assms by (simp add: free_inv_def is_fq_def fun_eq_iff)

lemma hash_only_free_inv:
  "hash_only p p' \<Longrightarrow> free_inv n (store p') xs held = free_inv n (store p) xs held"
  by (rule free_inv_cong) (simp_all add: hash_only_fields)

lemma block_keys_cong:
  "block_hash (blk p' b) = block_hash (blk p b) \<Longrightarrow>
   cached_block_hashes_by_block p' (block_id b) = cached_block_hashes_by_block p (block_id b) \<Longrightarrow>
   block_keys p' b = block_keys p b"
  by (simp add: block_keys_def extra_hashes_def)

lemma cache_inv_cong:
  assumes "cache_inv p" and "num_gpu_blocks p' = num_gpu_blocks p"
    and "cached_block_hash_to_block p' = cached_block_hash_to_block p"
    and "cached_block_hashes_by_block p' = cached_block_hashes_by_block p"
    and "\<And>b. block_hash (blk p' b) = block_hash (blk p b)"
    and "\<And>b. block_hash_num_tokens (blk p' b) = block_hash_num_tokens (blk p b)"
  shows "cache_inv p'"
  using assms(1) block_keys_cong [of p' _ p]
  unfolding cache_inv_def assms(2,3,4,5,6) by simp

lemma cache_invD:
  assumes "cache_inv p"
  shows "bm_ok (cached_block_hash_to_block p)"
    and "b \<in> cached_under (cached_block_hash_to_block p) key \<longleftrightarrow>
        pool_block (num_gpu_blocks p) b \<and> key \<in> set (block_keys p b)"
    and "pool_block (num_gpu_blocks p) b \<Longrightarrow> distinct (block_keys p b)"
    and "pool_block (num_gpu_blocks p) b \<Longrightarrow>
        block_hash (blk p b) = None \<longleftrightarrow> block_hash_num_tokens (blk p b) = None"
    and "pool_block (num_gpu_blocks p) b \<Longrightarrow> block_hash (blk p b) = None \<Longrightarrow>
        cached_block_hashes_by_block p (block_id b) = None"
    and "block_keys p (Block 0) = []"
  using assms by (auto simp: cache_inv_def block_keys_def extra_hashes_def)

lemma pool_block_real: "pool_block n b \<Longrightarrow> real_block b"
  by (auto simp: pool_block_def real_block_def)

lemma pool_block_id: "pool_block n b \<Longrightarrow> pool_block n b' \<Longrightarrow> block_id b = block_id b' \<longleftrightarrow> b = b'"
  by (auto simp: pool_block_def)

section \<open>Hash keys\<close>

lemma pop_hashes_spec:
  assumes "bm_ok c" and "real_block b"
  shows "bm_ok (snd (pop_hashes c ks (block_id b))) \<and>
    (\<forall>k. cached_under (snd (pop_hashes c ks (block_id b))) k =
       (if k \<in> set ks then cached_under c k - {b} else cached_under c k)) \<and>
    (distinct ks \<longrightarrow> fst (pop_hashes c ks (block_id b)) = filter (\<lambda>k. b \<in> cached_under c k) ks)"
  using assms(1)
proof (induction ks arbitrary: c)
  case (Cons k ks)
  obtain r c' where pc: "bm_pop c k (block_id b) = (r, c')" by force
  obtain rs c'' where rc: "pop_hashes c' ks (block_id b) = (rs, c'')" by force
  have c': "bm_ok c'" "r = (if b \<in> cached_under c k then Some b else None)"
    "\<And>k'. cached_under c' k' = (if k' = k then cached_under c k - {b} else cached_under c k')"
    using bc.popk_ok [OF Cons.prems assms(2), of k] bc.popk_fst [OF Cons.prems assms(2), of k]
      bc.popk_under [OF Cons.prems assms(2), of k] by (simp_all add: pc)
  have IH: "bm_ok c''" "\<And>k'. cached_under c'' k' = (if k' \<in> set ks then cached_under c' k' - {b} else cached_under c' k')"
    "distinct ks \<Longrightarrow> rs = filter (\<lambda>k. b \<in> cached_under c' k) ks"
    using Cons.IH [OF c'(1)] by (simp_all add: rc)
  have "rs = filter (\<lambda>k. b \<in> cached_under c k) ks" if "distinct (k # ks)"
    using that IH(3) c'(3) by (auto intro!: filter_cong)
  then show ?case using IH c' by (auto simp: pc rc)
qed simp

lemma remove_hashes_spec:
  assumes "cache_inv p" and "pool_block (num_gpu_blocks p) b"
    and "remove_cached_block_hashes b p = (removed, p')"
  shows "removed = block_keys p b" and "cache_inv p'" and "hash_only p p'"
    and "block_keys p' b = []" and "\<And>b'. b' \<noteq> b \<Longrightarrow> real_block b' \<Longrightarrow> block_keys p' b' = block_keys p b'"
    and "kv_event_queue p' = kv_event_queue p" and "block_hash (blk p' b) = None"
proof -
  note D = cache_invD [OF assms(1)]
  let ?n = "num_gpu_blocks p" and ?c = "cached_block_hash_to_block p"
  let ?ex = "(cached_block_hashes_by_block p)(block_id b := None)"
  have rb: "real_block b" by (rule pool_block_real [OF assms(2)])
  let ?c' = "snd (pop_hashes ?c (block_keys p b) (block_id b))"
  note P = pop_hashes_spec [OF D(1) rb, of "block_keys p b"]
  have under: "cached_under ?c' k = cached_under ?c k - {b}" for k
    using P D(2) [of b k] by auto
  have rem: "fst (pop_hashes ?c (block_keys p b) (block_id b)) = block_keys p b"
    using P D(2) [of b] D(3) [OF assms(2)] assms(2) by (simp add: filter_id_conv)
  have nohash: "block_hash (blk p b) = None \<and> block_hash_num_tokens (blk p b) = None"
    if "block_keys p b = []"
    using that D(4) [OF assms(2)] by (auto simp: block_keys_def split: option.splits)
  define q where "q = (if block_keys p b = [] then p\<lparr>cached_block_hashes_by_block := ?ex\<rparr>
    else upd_block b reset_hash (p\<lparr>cached_block_hashes_by_block := ?ex, cached_block_hash_to_block := ?c'\<rparr>))"
  have q: "removed = block_keys p b" "p' = q"
    using assms(3) rem
    by (auto simp: remove_cached_block_hashes_def Let_def q_def split: if_splits prod.splits)
  show "removed = block_keys p b" by (rule q(1))
  have hb: "block_hash (blk q b) = None \<and> block_hash_num_tokens (blk q b) = None"
    using nohash by (simp add: q_def reset_hash_def)
  then show "block_hash (blk p' b) = None" unfolding q by simp
  have ho: "blk q b' = blk p b'" if "b' \<noteq> b" for b' using that by (simp add: q_def)
  have ex: "cached_block_hashes_by_block q = ?ex" by (simp add: q_def)
  have cf: "same_config p q" "num_free_blocks (store q) = num_free_blocks (store p)"
    "kv_event_queue q = kv_event_queue p" by (simp_all add: q_def same_config_def)
  then show "kv_event_queue p' = kv_event_queue p" unfolding q by simp
  show "hash_only p p'" unfolding q hash_only_def using cf
    by (auto simp: q_def reset_hash_def)
  have kb: "block_keys q b = []" using hb by (simp add: block_keys_def extra_hashes_def ex)
  then show "block_keys p' b = []" unfolding q .
  have kb': "block_keys q b' = block_keys p b'" if "b' \<noteq> b" "real_block b'" for b'
    using that by (intro block_keys_cong) (simp_all add: ho ex block_id_inject [OF _ rb])
  then show "block_keys p' b' = block_keys p b'" if "b' \<noteq> b" "real_block b'" for b'
    unfolding q using that by blast
  have cq: "bm_ok (cached_block_hash_to_block q)" "cached_under (cached_block_hash_to_block q) k = cached_under ?c k - {b}" for k
    using D(1,2) P under by (auto simp: q_def)
  have b0: "b \<noteq> Block 0" using assms(2) by (auto simp: pool_block_def)
  show "cache_inv p'" unfolding q cache_inv_def
  proof (intro conjI allI impI)
    fix key b'
    show "b' \<in> cached_under (cached_block_hash_to_block q) key \<longleftrightarrow>
        pool_block (num_gpu_blocks q) b' \<and> key \<in> set (block_keys q b')"
      using cf(1) cq(2) D(2) [of b' key] kb kb' [of b']
      by (cases "b' = b") (auto simp: same_config_def dest: pool_block_real)
  next
    fix b' assume pb: "pool_block (num_gpu_blocks q) b'"
    then have pb': "pool_block ?n b'" using cf(1) by (simp add: same_config_def)
    show "distinct (block_keys q b')"
      using kb kb' [OF _ pool_block_real [OF pb']] D(3) [OF pb'] by (cases "b' = b") auto
    show "block_hash (blk q b') = None \<longleftrightarrow> block_hash_num_tokens (blk q b') = None"
      using hb ho D(4) [OF pb'] by (cases "b' = b") auto
    show "cached_block_hashes_by_block q (block_id b') = None" if "block_hash (blk q b') = None"
      using that ho D(5) [OF pb'] by (cases "b' = b") (simp_all add: ex)
  qed (use cq(1) assms(1) b0 in \<open>simp_all add: ho ex cache_inv_def\<close>)
qed

lemma emit_events_frame [simp]:
  "store (emit_block_removed_events ks p) = store p"
  "cached_block_hash_to_block (emit_block_removed_events ks p) = cached_block_hash_to_block p"
  "cached_block_hashes_by_block (emit_block_removed_events ks p) = cached_block_hashes_by_block p"
  "num_gpu_blocks (emit_block_removed_events ks p) = num_gpu_blocks p"
  "block_keys (emit_block_removed_events ks p) = block_keys p"
  "same_config p (emit_block_removed_events ks p)"
  by (auto simp: emit_block_removed_events_def same_config_def block_keys_def extra_hashes_def)

lemma emit_events_inv:
  "cache_inv p \<Longrightarrow> cache_inv (emit_block_removed_events ks p)"
  "hash_only p (emit_block_removed_events ks p)"
  by (erule cache_inv_cong) (simp_all add: hash_only_def)

lemma insert_hash_spec:
  assumes "cache_inv p" and "pool_block (num_gpu_blocks p) b"
  shows "\<exists>p'. insert_block_hash key b (Some t) p = Inr p' \<and> cache_inv p' \<and> hash_only p p' \<and>
    set (block_keys p' b) = insert key (set (block_keys p b)) \<and>
    (\<forall>b'. b' \<noteq> b \<longrightarrow> real_block b' \<longrightarrow> block_keys p' b' = block_keys p b') \<and>
    kv_event_queue p' = kv_event_queue p \<and> block_hash (blk p' b) \<noteq> None"
proof (cases "key \<in> set (block_keys p b)")
  case True
  note D = cache_invD [OF assms(1)]
  have c: "bm_contain (cached_block_hash_to_block p) key (block_id b)"
    using bc.contain_iff [OF D(1) pool_block_real [OF assms(2)]] D(2) True assms(2) by simp
  have "block_hash (blk p b) \<noteq> None"
    using True D(5) [OF assms(2)]
    by (cases "block_hash (blk p b)") (auto simp: block_keys_def extra_hashes_def)
  then show ?thesis using True c assms(1)
    by (intro exI [of _ p]) (auto simp: insert_block_hash_def)
next
  case False
  note D = cache_invD [OF assms(1)]
  let ?n = "num_gpu_blocks p" and ?c = "cached_block_hash_to_block p"
  have rb: "real_block b" by (rule pool_block_real [OF assms(2)])
  have nc: "\<not> bm_contain ?c key (block_id b)" using bc.contain_iff [OF D(1) rb] D(2) False by simp
  have ne: "block_hash (blk p b) \<noteq> Some key" "key \<notin> set (extra_hashes p b)"
    using False by (auto simp: block_keys_def)
  define q where "q = (if block_hash (blk p b) = None
    then upd_block b (\<lambda>k. k\<lparr>block_hash := Some key, block_hash_num_tokens := Some t\<rparr>) p
    else p\<lparr>cached_block_hashes_by_block := (cached_block_hashes_by_block p)(block_id b \<mapsto> key # extra_hashes p b)\<rparr>)
    \<lparr>cached_block_hash_to_block := bm_insert ?c key b\<rparr>"
  have e: "insert_block_hash key b (Some t) p = Inr q"
    using ne nc D(4) [OF assms(2)]
    by (auto simp: insert_block_hash_def set_block_hash_def q_def modify_def List.insert_def)
  have cf: "same_config p q" "num_free_blocks (store q) = num_free_blocks (store p)"
    "kv_event_queue q = kv_event_queue p" "num_gpu_blocks q = ?n"
    by (simp_all add: q_def same_config_def)
  have ho: "blk q b' = blk p b'" if "b' \<noteq> b" for b' using that by (simp add: q_def)
  have ex: "cached_block_hashes_by_block q i = cached_block_hashes_by_block p i" if "i \<noteq> block_id b" for i
    using that by (simp add: q_def)
  have h: "block_hash (blk q b) \<noteq> None" "block_hash_num_tokens (blk q b) \<noteq> None"
    using D(4) [OF assms(2)] by (cases "block_hash (blk p b)", simp_all add: q_def)+
  have kb: "set (block_keys q b) = insert key (set (block_keys p b)) \<and> distinct (block_keys q b)"
    using ne D(3) [OF assms(2)] D(5) [OF assms(2)]
    by (auto simp: q_def block_keys_def extra_hashes_def split: option.splits)
  have kb': "block_keys q b' = block_keys p b'" if "b' \<noteq> b" "real_block b'" for b'
    using that by (intro block_keys_cong) (simp_all add: ho ex block_id_inject [OF _ rb])
  have un: "cached_under (cached_block_hash_to_block q) k = (if k = key then insert b (cached_under ?c k) else cached_under ?c k)" for k
    using bc.ins_under [OF D(1) rb] by (simp add: q_def)
  have b0: "b \<noteq> Block 0" "block_id b \<noteq> 0" using assms(2) by (auto simp: pool_block_def)
  have "cache_inv q" unfolding cache_inv_def
  proof (intro conjI allI impI)
    show "bm_ok (cached_block_hash_to_block q)" using bc.ins_ok [OF D(1) rb] by (simp add: q_def)
    fix k b'
    show "b' \<in> cached_under (cached_block_hash_to_block q) k \<longleftrightarrow>
        pool_block (num_gpu_blocks q) b' \<and> k \<in> set (block_keys q b')"
      using cf(4) un D(2) [of b' k] kb kb' [of b'] assms(2)
      by (cases "b' = b") (auto dest: pool_block_real)
  next
    fix b' assume "pool_block (num_gpu_blocks q) b'"
    then have pb': "pool_block ?n b'" by (simp add: cf)
    show "distinct (block_keys q b')"
      using kb kb' [OF _ pool_block_real [OF pb']] D(3) [OF pb'] by (cases "b' = b") auto
    show "block_hash (blk q b') = None \<longleftrightarrow> block_hash_num_tokens (blk q b') = None"
      using h ho D(4) [OF pb'] by (cases "b' = b") auto
    show "cached_block_hashes_by_block q (block_id b') = None" if "block_hash (blk q b') = None"
      using that h ho ex D(5) [OF pb'] pool_block_id [OF pb' assms(2)] by (cases "b' = b") auto
  qed (use assms(1) b0 in \<open>simp_all add: ho ex cache_inv_def\<close>)
  moreover have "hash_only p q" unfolding hash_only_def using cf(1,2)
    by (auto simp: q_def reset_hash_def)
  ultimately show ?thesis using e kb kb' cf(3) h(1) by blast
qed

section \<open>Eviction\<close>

lemma maybe_evict_spec:
  assumes "cache_inv p" and "pool_block (num_gpu_blocks p) b"
    and "maybe_evict_cached_block b p = (evicted, p')"
  shows "evicted \<longleftrightarrow> block_keys p b \<noteq> []" and "cache_inv p'" and "hash_only p p'"
    and "block_keys p' b = []" and "\<And>b'. b' \<noteq> b \<Longrightarrow> real_block b' \<Longrightarrow> block_keys p' b' = block_keys p b'"
    and "block_hash (blk p' b) = None"
proof -
  obtain removed q where q: "remove_cached_block_hashes b p = (removed, q)" by force
  note R = remove_hashes_spec [OF assms(1,2) q]
  have e: "evicted \<longleftrightarrow> removed \<noteq> []" "p' = (if removed = [] then q else emit_block_removed_events removed q)"
    using assms(3) by (auto simp: maybe_evict_cached_block_def q split: if_splits)
  show "evicted \<longleftrightarrow> block_keys p b \<noteq> []" using e R(1) by simp
  show "cache_inv p'" "hash_only p p'" "block_keys p' b = []" "block_hash (blk p' b) = None"
    using e R emit_events_inv hash_only_trans by auto
  show "block_keys p' b' = block_keys p b'" if "b' \<noteq> b" "real_block b'" for b'
    using e R(5) [OF that] by simp
qed

lemma maybe_evict_null:
  assumes "cache_inv p"
  shows "cache_inv (snd (maybe_evict_cached_block (Block 0) p)) \<and>
    hash_only p (snd (maybe_evict_cached_block (Block 0) p)) \<and>
    block_keys (snd (maybe_evict_cached_block (Block 0) p)) = block_keys p"
proof -
  have k: "block_keys p (Block 0) = []" "cached_block_hashes_by_block p 0 = None"
    using assms by (simp_all add: cache_inv_def block_keys_def extra_hashes_def)
  then have "(cached_block_hashes_by_block p)(0 := None) = cached_block_hashes_by_block p" by auto
  then have "maybe_evict_cached_block (Block 0) p = (False, p)"
    using k by (simp add: maybe_evict_cached_block_def remove_cached_block_hashes_def)
  then show ?thesis using assms by simp
qed

lemma evict_blocks_spec:
  assumes "cache_inv p" and "0 < num_gpu_blocks p" and "\<forall>i \<in> set ids. i < num_gpu_blocks p"
  shows "\<exists>p'. evict_blocks ids p = Inr p' \<and> cache_inv p' \<and> hash_only p p' \<and>
    (\<forall>b. pool_block (num_gpu_blocks p) b \<longrightarrow>
       block_keys p' b = (if b \<in> Block ` set ids then [] else block_keys p b))"
  using assms
proof (induction ids arbitrary: p)
  case Nil
  then show ?case by (simp add: evict_blocks_def)
next
  case (Cons i ids)
  let ?q = "snd (maybe_evict_cached_block (Block i) p)"
  have q: "cache_inv ?q \<and> hash_only p ?q \<and> (\<forall>b. pool_block (num_gpu_blocks p) b \<longrightarrow>
      block_keys ?q b = (if b = Block i then [] else block_keys p b))"
  proof (cases "i = 0")
    case True
    then show ?thesis using maybe_evict_null [OF Cons.prems(1)] by (auto simp: pool_block_def)
  next
    case False
    then have pb: "pool_block (num_gpu_blocks p) (Block i)" using Cons.prems(3) by (auto simp: pool_block_def)
    obtain ev q where e: "maybe_evict_cached_block (Block i) p = (ev, q)" by force
    show ?thesis using maybe_evict_spec [OF Cons.prems(1) pb e] by (auto simp: e dest: pool_block_real)
  qed
  then have n: "num_gpu_blocks ?q = num_gpu_blocks p" by (simp add: hash_only_def same_config_def)
  obtain p' where p': "evict_blocks ids ?q = Inr p'" "cache_inv p'" "hash_only ?q p'"
    "\<forall>b. pool_block (num_gpu_blocks p) b \<longrightarrow>
       block_keys p' b = (if b \<in> Block ` set ids then [] else block_keys ?q b)"
    using Cons.IH [of ?q] q n Cons.prems by auto
  have "evict_blocks (i # ids) p = Inr p'" using p'(1) Cons.prems(3) by (simp add: evict_blocks_def)
  then show ?case using p' q hash_only_trans by auto
qed

section \<open>Allocation\<close>

lemma free_inv_take:
  assumes "free_inv n s xs (insert b held)" and "b \<notin> held"
  shows "free_inv n (modify b (\<lambda>k. k\<lparr>ref_cnt := ref_cnt k + 1\<rparr>) s) xs held"
proof -
  let ?s = "modify b (\<lambda>k. k\<lparr>ref_cnt := ref_cnt k + 1\<rparr>) s"
  have f: "is_fq s xs" "set xs \<inter> insert b held = {}"
    "set xs \<union> insert b held = {b. pool_block n b \<and> ref_cnt (heap s b) = 0}"
    "\<forall>i < n. is_null (heap s (Block i)) \<longleftrightarrow> i = 0" "\<forall>b. pool_block n b \<longrightarrow> 0 \<le> ref_cnt (heap s b)"
    using assms(1) by (simp_all add: free_inv_def)
  have "is_fq ?s xs" using f(1) by (simp add: is_fq_def fun_eq_iff)
  moreover have "set xs \<union> held = {b. pool_block n b \<and> ref_cnt (heap ?s b) = 0}"
  proof -
    have "b \<notin> set xs" "ref_cnt (heap s b) = 0" using f(2,3) by auto
    then show ?thesis using f(3) assms(2) by auto
  qed
  ultimately show ?thesis using f(2,4,5) by (auto simp: free_inv_def)
qed

lemma free_inv_payload:
  assumes "free_inv n s xs held" and "payload s' = payload s" and "is_fq s' ys"
    and "set ys \<inter> held' = {}" and "set ys \<union> held' = set xs \<union> held"
  shows "free_inv n s' ys held'"
proof -
  have e: "ref_cnt (heap s' b) = ref_cnt (heap s b)" "is_null (heap s' b) = is_null (heap s b)" for b
    using payload_fields [of s' b s] assms(2) by simp_all
  show ?thesis using assms(1,3,4,5) unfolding free_inv_def e by simp
qed

lemma take_block_spec:
  assumes "cache_inv p" and "free_inv (num_gpu_blocks p) (store p) xs (insert b held)" and "b \<notin> held"
  shows "\<exists>p'. take_block b p = Inr p' \<and> cache_inv p' \<and> same_config p p' \<and>
    free_inv (num_gpu_blocks p') (store p') xs held \<and>
    (\<forall>b'. ref_cnt (blk p' b') = ref_cnt (blk p b') + (if b' = b then 1 else 0)) \<and>
    (enable_caching p \<longrightarrow> block_keys p' b = []) \<and>
    (\<forall>b'. b' \<noteq> b \<longrightarrow> real_block b' \<longrightarrow> block_keys p' b' = block_keys p b')"
proof -
  let ?n = "num_gpu_blocks p"
  have pb: "pool_block ?n b" "ref_cnt (blk p b) = 0" using assms(2) by (auto simp: free_inv_def)
  define q where "q = (if enable_caching p then snd (maybe_evict_cached_block b p) else p)"
  obtain ev q' where e: "maybe_evict_cached_block b p = (ev, q')" by force
  have q: "cache_inv q" "hash_only p q" "enable_caching p \<Longrightarrow> block_keys q b = []"
    "\<And>b'. b' \<noteq> b \<Longrightarrow> real_block b' \<Longrightarrow> block_keys q b' = block_keys p b'"
    using maybe_evict_spec [OF assms(1) pb(1) e] assms(1) by (auto simp: q_def e)
  have n: "num_gpu_blocks q = ?n" using q(2) by (simp add: hash_only_def same_config_def)
  let ?p' = "upd_block b (\<lambda>k. k\<lparr>ref_cnt := ref_cnt k + 1\<rparr>) q"
  have "take_block b p = Inr ?p'"
    using hash_only_fields(1) [OF q(2)] pb(2) by (simp add: take_block_def Let_def q_def)
  moreover have "cache_inv ?p'" by (rule cache_inv_cong [OF q(1)]) simp_all
  moreover have "same_config p ?p'" using q(2) by (simp add: hash_only_def same_config_def)
  moreover have "free_inv (num_gpu_blocks ?p') (store ?p') xs held"
    using free_inv_take [of ?n "store q"] assms(2,3) hash_only_free_inv [OF q(2)] n by simp
  moreover have "block_keys ?p' = block_keys q"
    by (rule ext) (rule block_keys_cong, simp_all)
  ultimately show ?thesis using q(3,4) hash_only_fields(1) [OF q(2)]
    by (intro exI [of _ ?p']) auto
qed

lemma take_blocks_spec:
  assumes "cache_inv p" and "free_inv (num_gpu_blocks p) (store p) xs (set bs)" and "distinct bs"
  shows "\<exists>p'. rfold take_block bs p = Inr p' \<and> cache_inv p' \<and> same_config p p' \<and>
    free_inv (num_gpu_blocks p') (store p') xs {} \<and>
    (\<forall>b'. ref_cnt (blk p' b') = ref_cnt (blk p b') + (if b' \<in> set bs then 1 else 0)) \<and>
    (enable_caching p \<longrightarrow> (\<forall>b \<in> set bs. block_keys p' b = [])) \<and>
    (\<forall>b'. b' \<notin> set bs \<longrightarrow> real_block b' \<longrightarrow> block_keys p' b' = block_keys p b')"
  using assms
proof (induction bs arbitrary: p)
  case (Cons b bs)
  have pbs: "\<forall>x \<in> set (b # bs). real_block x"
    using Cons.prems(2) by (auto simp: free_inv_def dest: pool_block_real)
  obtain q where q: "take_block b p = Inr q" "cache_inv q" "same_config p q"
    "free_inv (num_gpu_blocks q) (store q) xs (set bs)"
    "\<forall>b'. ref_cnt (blk q b') = ref_cnt (blk p b') + (if b' = b then 1 else 0)"
    "enable_caching p \<longrightarrow> block_keys q b = []"
    "\<forall>b'. b' \<noteq> b \<longrightarrow> real_block b' \<longrightarrow> block_keys q b' = block_keys p b'"
    using take_block_spec [OF Cons.prems(1), of xs b "set bs"] Cons.prems(2,3) by auto
  obtain p' where p': "rfold take_block bs q = Inr p'" "cache_inv p'" "same_config q p'"
    "free_inv (num_gpu_blocks p') (store p') xs {}"
    "\<forall>b'. ref_cnt (blk p' b') = ref_cnt (blk q b') + (if b' \<in> set bs then 1 else 0)"
    "enable_caching q \<longrightarrow> (\<forall>b \<in> set bs. block_keys p' b = [])"
    "\<forall>b'. b' \<notin> set bs \<longrightarrow> real_block b' \<longrightarrow> block_keys p' b' = block_keys q b'"
    using Cons.IH [OF q(2,4)] Cons.prems(3) by auto
  have "enable_caching q = enable_caching p" using q(3) by (simp add: same_config_def)
  then show ?case using p' q Cons.prems(3) pbs same_config_trans [OF q(3) p'(3)]
    by (intro exI [of _ p']) auto
qed simp

lemma pool_invD:
  assumes "pool_inv p xs"
  shows "0 < num_gpu_blocks p" and "null_block p = Block 0"
    and "free_inv (num_gpu_blocks p) (store p) xs {}" and "cache_inv p"
    and "is_fq (store p) xs" and "distinct xs" and "get_num_free_blocks p = int (length xs)"
    and "b \<in> set xs \<longleftrightarrow> pool_block (num_gpu_blocks p) b \<and> ref_cnt (blk p b) = 0"
  using assms fq.repr_distinct
  by (auto simp: pool_inv_def free_inv_def get_num_free_blocks_def dest: is_fqD(4))

lemma cache_inv_store:
  assumes "cache_inv p" and "payload s = payload (store p)"
  shows "cache_inv (p\<lparr>store := s\<rparr>)"
  by (rule cache_inv_cong [OF assms(1)])
    (use payload_fields [of s _ "store p"] assms(2) in simp_all)

lemma block_keys_store:
  assumes "payload s = payload (store p)"
  shows "block_keys (p\<lparr>store := s\<rparr>) = block_keys p"
  by (rule ext, rule block_keys_cong)
    (use payload_fields [of s _ "store p"] assms in simp_all)

lemma get_new_blocks_spec:
  assumes "pool_inv p xs" and "k \<le> length xs"
  shows "\<exists>p'. get_new_blocks (int k) p = Inr (take k xs, p') \<and> pool_inv p' (drop k xs) \<and>
    same_config p p' \<and>
    (\<forall>b. ref_cnt (blk p' b) = (if b \<in> set (take k xs) then 1 else ref_cnt (blk p b))) \<and>
    (enable_caching p \<longrightarrow> (\<forall>b \<in> set (take k xs). block_keys p' b = [])) \<and>
    (\<forall>b. b \<notin> set (take k xs) \<longrightarrow> real_block b \<longrightarrow> block_keys p' b = block_keys p b)"
proof -
  note D = pool_invD [OF assms(1)]
  obtain s where s: "popleft_n (int k) (store p) = Inr (take k xs, s)" "is_fq s (drop k xs)"
    using fq.popn_take [OF D(5), of "int k"] assms(2) by auto
  have pl: "payload s = payload (store p)" by (rule popleft_n_payload [OF s(1)])
  let ?q = "p\<lparr>store := s\<rparr>"
  have dj: "distinct (take k xs @ drop k xs)" using D(6) by simp
  have "free_inv (num_gpu_blocks p) s (drop k xs) (set (take k xs))"
  proof (rule free_inv_payload [OF D(3) pl s(2)])
    show "set (drop k xs) \<inter> set (take k xs) = {}" using dj by (simp only: distinct_append) blast
    have "set (take k xs @ drop k xs) = set xs" by simp
    then show "set (drop k xs) \<union> set (take k xs) = set xs \<union> {}" by (simp only: set_append) blast
  qed
  then obtain p' where p': "rfold take_block (take k xs) ?q = Inr p'" "cache_inv p'" "same_config ?q p'"
    "free_inv (num_gpu_blocks p') (store p') (drop k xs) {}"
    "\<forall>b'. ref_cnt (blk p' b') = ref_cnt (blk ?q b') + (if b' \<in> set (take k xs) then 1 else 0)"
    "enable_caching ?q \<longrightarrow> (\<forall>b \<in> set (take k xs). block_keys p' b = [])"
    "\<forall>b'. b' \<notin> set (take k xs) \<longrightarrow> real_block b' \<longrightarrow> block_keys p' b' = block_keys ?q b'"
    using take_blocks_spec [of ?q "drop k xs" "take k xs"] cache_inv_store [OF D(4) pl] D(6) by auto
  have "get_new_blocks (int k) p = Inr (take k xs, p')"
    using s(1) p'(1) D(7) assms(2) by (simp add: get_new_blocks_def)
  moreover have "same_config p p'" using p'(3) by (simp add: same_config_def)
  moreover have "pool_inv p' (drop k xs)" using p'(2,4) D(1,2) p'(3) by (simp add: pool_inv_def same_config_def)
  moreover have "ref_cnt (heap s b) = ref_cnt (blk p b)" for b
    using payload_fields(1) [of s b "store p"] pl by simp
  moreover have "ref_cnt (blk p b) = 0" if "b \<in> set (take k xs)" for b
    using D(8) [of b] in_set_takeD [OF that] by simp
  ultimately show ?thesis using p'(5,6,7) block_keys_store [OF pl] by (intro exI [of _ p']) auto
qed

lemma get_new_blocks_too_many:
  "pool_inv p xs \<Longrightarrow> int (length xs) < k \<Longrightarrow> get_new_blocks k p = Inl ValueError"
  by (simp add: get_new_blocks_def pool_invD(7))

section \<open>Sharing\<close>

lemma touch_block_spec:
  assumes "pool_inv p xs" and "pool_block (num_gpu_blocks p) b \<or> b = Block 0"
  shows "\<exists>p'. touch_block b p = Inr p' \<and> pool_inv p' (remove1 b xs) \<and> same_config p p' \<and>
    (\<forall>b'. ref_cnt (blk p' b') = ref_cnt (blk p b') + (if b' = b then 1 else 0)) \<and>
    block_keys p' = block_keys p"
proof -
  note D = pool_invD [OF assms(1)]
  have nl: "is_null (blk p b) \<longleftrightarrow> b = Block 0"
    using D(1,3) assms(2) by (auto simp: free_inv_def pool_block_def)
  let ?inc = "modify b (\<lambda>k. k\<lparr>ref_cnt := ref_cnt k + 1\<rparr>)"
  show ?thesis
  proof (cases "b \<in> set xs")
    case True
    then have r: "ref_cnt (blk p b) = 0" "pool_block (num_gpu_blocks p) b" using D(8) by auto
    then have b0: "b \<noteq> Block 0" by (auto simp: pool_block_def)
    obtain s where s: "remove_block b (store p) = Inr s" "is_fq s (remove1 b xs)"
      using fq.rem_member [OF D(5) True] by auto
    have pl: "payload s = payload (store p)" by (rule remove_block_payload [OF s(1)])
    have "free_inv (num_gpu_blocks p) s (remove1 b xs) (insert b {})"
      by (rule free_inv_payload [OF D(3) pl s(2)]) (use D(6) True in auto)
    then have fi: "free_inv (num_gpu_blocks p) (?inc s) (remove1 b xs) {}" by (rule free_inv_take) simp
    let ?p' = "p\<lparr>store := ?inc s\<rparr>"
    have "touch_block b p = Inr ?p'" using r nl b0 s(1) by (simp add: touch_block_def)
    moreover have "cache_inv ?p'"
      by (rule cache_inv_cong [OF cache_inv_store [OF D(4) pl]]) simp_all
    then have "pool_inv ?p' (remove1 b xs)" using fi D(1,2) by (simp add: pool_inv_def)
    moreover have "block_keys ?p' = block_keys (p\<lparr>store := s\<rparr>)" by (rule ext, rule block_keys_cong) simp_all
    moreover have "ref_cnt (heap s b') = ref_cnt (blk p b')" for b'
      using payload_fields(1) [of s b' "store p"] pl by simp
    ultimately show ?thesis using block_keys_store [OF pl]
      by (intro exI [of _ ?p']) (auto simp: same_config_def)
  next
    case False
    then have c: "\<not> (ref_cnt (blk p b) = 0 \<and> \<not> is_null (blk p b))" using nl assms(2) D(8) by auto
    let ?p' = "p\<lparr>store := ?inc (store p)\<rparr>"
    have "touch_block b p = Inr ?p'" using c unfolding touch_block_def if_not_P [OF c] by simp
    moreover have "cache_inv ?p'" by (rule cache_inv_cong [OF D(4)]) simp_all
    moreover have "free_inv (num_gpu_blocks p) (?inc (store p)) xs {}"
      using D(3) False c nl unfolding free_inv_def is_fq_def
      by (auto simp: fun_eq_iff pool_block_def)
    ultimately have "pool_inv ?p' (remove1 b xs)" using D(1,2) False by (simp add: pool_inv_def remove1_idem)
    moreover have "block_keys ?p' = block_keys p" by (rule ext, rule block_keys_cong) simp_all
    ultimately show ?thesis using \<open>touch_block b p = Inr ?p'\<close>
      by (intro exI [of _ ?p']) (auto simp: same_config_def)
  qed
qed

lemma touch_spec:
  assumes "pool_inv p xs" and "\<forall>b \<in> set bs. pool_block (num_gpu_blocks p) b \<or> b = Block 0"
  shows "\<exists>p'. touch bs p = Inr p' \<and> pool_inv p' (filter (\<lambda>b. b \<notin> set bs) xs) \<and> same_config p p' \<and>
    (\<forall>b. ref_cnt (blk p' b) = ref_cnt (blk p b) + int (count_list bs b)) \<and>
    block_keys p' = block_keys p"
  using assms
proof (induction bs arbitrary: p xs)
  case Nil
  then show ?case by (simp add: touch_def)
next
  case (Cons b bs)
  obtain q where q: "touch_block b p = Inr q" "pool_inv q (remove1 b xs)" "same_config p q"
    "\<forall>b'. ref_cnt (blk q b') = ref_cnt (blk p b') + (if b' = b then 1 else 0)" "block_keys q = block_keys p"
    using touch_block_spec [OF Cons.prems(1), of b] Cons.prems(2) by auto
  have n: "num_gpu_blocks q = num_gpu_blocks p" using q(3) by (simp add: same_config_def)
  obtain p' where p': "touch bs q = Inr p'" "pool_inv p' (filter (\<lambda>b. b \<notin> set bs) (remove1 b xs))"
    "same_config q p'" "\<forall>b'. ref_cnt (blk p' b') = ref_cnt (blk q b') + int (count_list bs b')"
    "block_keys p' = block_keys q"
    using Cons.IH [OF q(2)] Cons.prems(2) n by auto
  have "filter (\<lambda>b. b \<notin> set bs) (remove1 b xs) = filter (\<lambda>x. x \<notin> set (b # bs)) xs"
    using pool_invD(6) [OF Cons.prems(1)]
    by (simp add: distinct_remove1_removeAll removeAll_filter_not_eq) (rule filter_cong, auto)
  then show ?case using p' q same_config_trans [OF q(3) p'(3)]
    by (intro exI [of _ p']) (auto simp: touch_def)
qed

section \<open>Freeing\<close>

lemma free_inv_release:
  assumes "free_inv n s xs held" and "pool_block n b" and "0 < ref_cnt (heap s b)"
  shows "free_inv n (modify b (\<lambda>k. k\<lparr>ref_cnt := ref_cnt k - 1\<rparr>) s) xs
    (if ref_cnt (heap s b) = 1 then insert b held else held)"
proof -
  let ?s = "modify b (\<lambda>k. k\<lparr>ref_cnt := ref_cnt k - 1\<rparr>) s"
  have f: "is_fq s xs" "set xs \<inter> held = {}"
    "set xs \<union> held = {b. pool_block n b \<and> ref_cnt (heap s b) = 0}"
    "\<forall>i < n. is_null (heap s (Block i)) \<longleftrightarrow> i = 0" "\<forall>b. pool_block n b \<longrightarrow> 0 \<le> ref_cnt (heap s b)"
    using assms(1) by (simp_all add: free_inv_def)
  have "b \<notin> set xs \<union> held" unfolding f(3) using assms(3) by simp
  then have b: "b \<notin> set xs" "b \<notin> held" by simp_all
  have "is_fq ?s xs" using f(1) by (simp add: is_fq_def fun_eq_iff)
  moreover have "set xs \<union> (if ref_cnt (heap s b) = 1 then insert b held else held) =
      {b. pool_block n b \<and> ref_cnt (heap ?s b) = 0}"
    using f(3) assms(2,3) by auto
  ultimately show ?thesis using f(2,4,5) b assms(3) by (auto simp: free_inv_def)
qed

lemma free_inv_null:
  assumes "free_inv n s xs held"
  shows "free_inv n (modify (Block 0) (\<lambda>k. k\<lparr>ref_cnt := ref_cnt k - 1\<rparr>) s) xs held"
  using assms unfolding free_inv_def is_fq_def by (auto simp: fun_eq_iff pool_block_def)

lemma free_loop_spec:
  assumes "free_inv n s xs held" and "0 < n" and "\<forall>b \<in> set bs. pool_block n b \<or> b = Block 0"
    and "\<forall>b. pool_block n b \<longrightarrow> int (count_list bs b) \<le> ref_cnt (heap s b)"
    and "free_loop caching bs s = (fr, la, s')"
  shows "free_inv n s' xs (held \<union> set fr \<union> set la) \<and>
    distinct (fr @ la) \<and> (set fr \<union> set la) \<inter> held = {} \<and>
    (\<forall>b. ref_cnt (heap s' b) = ref_cnt (heap s b) - int (count_list bs b)) \<and>
    (\<forall>b. block_hash (heap s' b) = block_hash (heap s b)) \<and>
    (\<forall>b. block_hash_num_tokens (heap s' b) = block_hash_num_tokens (heap s b)) \<and>
    (\<forall>b \<in> set fr. block_hash (heap s b) = None \<or> \<not> caching) \<and>
    (\<forall>b \<in> set la. block_hash (heap s b) \<noteq> None \<and> caching) \<and>
    set (fr @ la) = {b \<in> set bs. pool_block n b \<and> ref_cnt (heap s' b) = 0}"
  using assms(1,3,4,5)
proof (induction bs arbitrary: s s' held fr la)
  case Nil
  then show ?case by simp
next
  case (Cons b bs)
  let ?s = "modify b (\<lambda>k. k\<lparr>ref_cnt := ref_cnt k - 1\<rparr>) s"
  obtain f l t where rec: "free_loop caching bs ?s = (f, l, t)" by (metis prod_cases3)
  have nl: "is_null (heap s b) \<longleftrightarrow> b = Block 0"
    using Cons.prems(1,2) assms(2) by (auto simp: free_inv_def pool_block_def)
  have cnt: "int (count_list bs b') \<le> ref_cnt (heap ?s b')" if "pool_block n b'" for b'
    using Cons.prems(3) that by (cases "b' = b") force+
  have bs: "\<forall>b \<in> set bs. pool_block n b \<or> b = Block 0" using Cons.prems(2) by simp
  define z where "z \<longleftrightarrow> ref_cnt (heap s b) = 1 \<and> b \<noteq> Block 0"
  define held' where "held' = (if z then insert b held else held)"
  have inv: "free_inv n ?s xs held'"
  proof (cases "b = Block 0")
    case True
    then show ?thesis using free_inv_null [OF Cons.prems(1)] by (simp add: held'_def z_def)
  next
    case False
    then have pb: "pool_block n b" using Cons.prems(2) by simp
    have "0 < ref_cnt (heap s b)" using Cons.prems(3) pb by force
    then show ?thesis using free_inv_release [OF Cons.prems(1) pb] False by (simp add: held'_def z_def)
  qed
  have cnt': "\<forall>b'. pool_block n b' \<longrightarrow> int (count_list bs b') \<le> ref_cnt (heap ?s b')" using cnt by blast
  have IH1: "free_inv n t xs (held' \<union> set f \<union> set l)" and IH2: "distinct (f @ l)"
    and IH3: "(set f \<union> set l) \<inter> held' = {}"
    and IH4: "\<And>b'. ref_cnt (heap t b') = ref_cnt (heap ?s b') - int (count_list bs b')"
    and IH5: "\<And>b'. block_hash (heap t b') = block_hash (heap ?s b')"
    and IH6: "\<And>b'. block_hash_num_tokens (heap t b') = block_hash_num_tokens (heap ?s b')"
    and IH7: "\<And>b'. b' \<in> set f \<Longrightarrow> block_hash (heap ?s b') = None \<or> \<not> caching"
    and IH8: "\<And>b'. b' \<in> set l \<Longrightarrow> block_hash (heap ?s b') \<noteq> None \<and> caching"
    and IH9: "set (f @ l) = {b \<in> set bs. pool_block n b \<and> ref_cnt (heap t b) = 0}"
    using Cons.IH [OF inv bs cnt' rec] by blast+
  have hs: "block_hash (heap ?s b') = block_hash (heap s b')"
    "block_hash_num_tokens (heap ?s b') = block_hash_num_tokens (heap s b')" for b' by simp_all
  have rc: "ref_cnt (heap t b') = ref_cnt (heap s b') - int (count_list (b # bs) b')" for b'
    by (simp add: IH4)
  have nb: "b \<notin> held" if z
    using that Cons.prems(1) by (auto simp: z_def free_inv_def)
  have out: "s' = t" "fr = (if z \<and> (block_hash (heap s b) = None \<or> \<not> caching) then b # f else f)"
    "la = (if z \<and> \<not> (block_hash (heap s b) = None \<or> \<not> caching) then b # l else l)"
    using Cons.prems(4) nl by (auto simp: rec z_def Let_def split: if_splits)
  have bfl: "b \<notin> set f \<union> set l" if z using IH3 that by (auto simp: held'_def)
  have zr: "ref_cnt (heap t b) = 0 \<and> b \<notin> set bs \<and> pool_block n b" if z
  proof -
    have pb: "pool_block n b" using that Cons.prems(2) by (auto simp: z_def)
    have "int (count_list bs b) \<le> 0" using cnt [OF pb] that by (simp add: z_def)
    then show ?thesis using rc [of b] that pb by (simp add: z_def count_list_0_iff)
  qed
  have zb: "\<not> (pool_block n b \<and> ref_cnt (heap t b) = 0 \<and> b \<notin> set bs)" if "\<not> z"
  proof
    assume a: "pool_block n b \<and> ref_cnt (heap t b) = 0 \<and> b \<notin> set bs"
    then have "count_list bs b = 0" by (simp add: count_list_0_iff)
    then have "ref_cnt (heap s b) = 1" using rc [of b] a by simp
    then show False using that a by (auto simp: z_def pool_block_def)
  qed
  have sets: "set fr \<union> set la = (if z then insert b (set f \<union> set l) else set f \<union> set l)"
    by (auto simp: out)
  show ?case unfolding out(1)
  proof (intro conjI)
    have "held \<union> set fr \<union> set la = held' \<union> set f \<union> set l"
      unfolding Un_assoc sets by (simp add: held'_def)
    then show "free_inv n t xs (held \<union> set fr \<union> set la)" using IH1 by simp
    show "distinct (fr @ la)" using IH2 bfl by (auto simp: out)
    show "(set fr \<union> set la) \<inter> held = {}" using IH3 nb unfolding sets by (auto simp: held'_def)
    show "\<forall>b'. ref_cnt (heap t b') = ref_cnt (heap s b') - int (count_list (b # bs) b')" using rc by blast
    show "\<forall>b'. block_hash (heap t b') = block_hash (heap s b')" using IH5 hs by simp
    show "\<forall>b'. block_hash_num_tokens (heap t b') = block_hash_num_tokens (heap s b')" using IH6 hs by simp
    show "\<forall>b' \<in> set fr. block_hash (heap s b') = None \<or> \<not> caching"
    proof
      fix b' assume "b' \<in> set fr"
      then have "b' \<in> set f \<or> b' = b \<and> (block_hash (heap s b) = None \<or> \<not> caching)"
        by (simp add: out(2) split: if_splits) blast
      then show "block_hash (heap s b') = None \<or> \<not> caching" using IH7 [of b'] hs(1) [of b'] by auto
    qed
    show "\<forall>b' \<in> set la. block_hash (heap s b') \<noteq> None \<and> caching"
      using IH8 hs(1) by (simp add: out)
    show "set (fr @ la) = {b' \<in> set (b # bs). pool_block n b' \<and> ref_cnt (heap t b') = 0}"
    proof (cases z)
      case True
      then show ?thesis using IH9 sets zr by (simp add: set_eq_iff) blast
    next
      case False
      then show ?thesis using IH9 sets zb by (simp add: set_eq_iff) blast
    qed
  qed
qed

lemma free_blocks_spec:
  assumes "pool_inv p xs" and "\<forall>b \<in> set bs. pool_block (num_gpu_blocks p) b \<or> b = Block 0"
    and "\<forall>b. pool_block (num_gpu_blocks p) b \<longrightarrow> int (count_list bs b) \<le> ref_cnt (blk p b)"
  shows "\<exists>p' fr la. free_blocks bs p = Inr p' \<and> pool_inv p' (fr @ xs @ la) \<and> same_config p p' \<and>
    (\<forall>b. ref_cnt (blk p' b) = ref_cnt (blk p b) - int (count_list bs b)) \<and>
    block_keys p' = block_keys p \<and>
    (\<forall>b \<in> set fr. block_hash (blk p b) = None \<or> \<not> enable_caching p) \<and>
    (\<forall>b \<in> set la. block_hash (blk p b) \<noteq> None \<and> enable_caching p) \<and>
    set (fr @ la) = {b \<in> set bs. pool_block (num_gpu_blocks p) b \<and> ref_cnt (blk p' b) = 0}"
proof -
  note D = pool_invD [OF assms(1)]
  let ?n = "num_gpu_blocks p"
  obtain fr la s where fl: "free_loop (enable_caching p) bs (store p) = (fr, la, s)" by (metis prod_cases3)
  have F1: "free_inv ?n s xs (set fr \<union> set la)" and F2: "distinct (fr @ la)"
    and F4: "\<And>b. ref_cnt (heap s b) = ref_cnt (blk p b) - int (count_list bs b)"
    and F5: "\<And>b. block_hash (heap s b) = block_hash (blk p b)"
    and F6: "\<And>b. block_hash_num_tokens (heap s b) = block_hash_num_tokens (blk p b)"
    and F7: "\<forall>b \<in> set fr. block_hash (blk p b) = None \<or> \<not> enable_caching p"
    and F8: "\<forall>b \<in> set la. block_hash (blk p b) \<noteq> None \<and> enable_caching p"
    and F9: "set (fr @ la) = {b \<in> set bs. pool_block ?n b \<and> ref_cnt (heap s b) = 0}"
    using free_loop_spec [OF D(3,1) assms(2,3) fl, unfolded Un_empty_left] by (elim conjE, blast)+
  have q0: "is_fq s xs" "set xs \<inter> (set fr \<union> set la) = {}" using F1 by (simp_all add: free_inv_def)
  have real: "list_all real_block fr" "list_all real_block la"
    using F9 by (auto simp: list_all_iff set_eq_iff dest: pool_block_real)
  obtain s1 where s1: "prepend_n fr s = Inr s1" "is_fq s1 (fr @ xs)"
    using fq.pren_front [OF q0(1) _ real(1)] F2 q0(2) by auto
  obtain s2 where s2: "append_n la s1 = Inr s2" "is_fq s2 ((fr @ xs) @ la)"
    using fq.appn_back [OF s1(2) _ real(2)] F2 q0(2) by auto
  have pl: "payload s2 = payload s" using prepend_n_payload [OF s1(1)] append_n_payload [OF s2(1)] by simp
  let ?p' = "p\<lparr>store := s2\<rparr>"
  have fld: "ref_cnt (heap s2 b) = ref_cnt (heap s b)" "block_hash (heap s2 b) = block_hash (heap s b)"
    "block_hash_num_tokens (heap s2 b) = block_hash_num_tokens (heap s b)" for b
    using payload_fields [of s2 b s] pl by simp_all
  have "free_blocks bs p = Inr ?p'" by (simp add: free_blocks_def fl s1 s2)
  moreover have "free_inv ?n s2 ((fr @ xs) @ la) {}"
    by (rule free_inv_payload [OF F1 pl s2(2)]) auto
  moreover have "cache_inv ?p'"
    by (rule cache_inv_cong [OF D(4)]) (simp_all add: fld F5 F6)
  moreover have "block_keys ?p' = block_keys p"
    by (rule ext, rule block_keys_cong) (simp_all add: fld F5)
  ultimately show ?thesis using D(1,2) F4 F7 F8 F9 fld(1)
    by (intro exI [of _ ?p'] exI [of _ fr] exI [of _ la]) (simp add: pool_inv_def same_config_def)
qed

section \<open>Caching\<close>

lemma drop_partial_spec:
  assumes "cache_inv p" and "pool_block (num_gpu_blocks p) b" and "drop_partial_hashes b t p = Inr p'"
  shows "cache_inv p'" and "hash_only p p'" and "block_keys p' b = []"
    and "\<And>b'. b' \<noteq> b \<Longrightarrow> real_block b' \<Longrightarrow> block_keys p' b' = block_keys p b'"
proof -
  have "cache_inv p' \<and> hash_only p p' \<and> block_keys p' b = [] \<and>
      (\<forall>b'. b' \<noteq> b \<longrightarrow> real_block b' \<longrightarrow> block_keys p' b' = block_keys p b')"
  proof (cases "block_hash (blk p b) = None")
    case True
    then have "block_keys p b = []" using cache_invD(5) [OF assms(1,2)]
      by (simp add: block_keys_def extra_hashes_def)
    then show ?thesis using assms(1,3) True by (simp add: drop_partial_hashes_def)
  next
    case False
    obtain removed q where q: "remove_cached_block_hashes b p = (removed, q)" by force
    note R = remove_hashes_spec [OF assms(1,2) q]
    have "p' = emit_block_removed_events removed q"
      using assms(3) False by (simp add: drop_partial_hashes_def q)
    then show ?thesis using R(2,3,4,5) emit_events_inv(1) [OF R(2)]
        hash_only_trans [OF R(3) emit_events_inv(2)] by simp
  qed
  then show "cache_inv p'" "hash_only p p'" "block_keys p' b = []"
    "\<And>b'. b' \<noteq> b \<Longrightarrow> real_block b' \<Longrightarrow> block_keys p' b' = block_keys p b'" by blast+
qed

lemma cache_one_spec:
  \<comment> \<open>one iteration of the caching loop\<close>
  assumes "cache_inv p" and "pool_block (num_gpu_blocks p) b"
    and "drop_partial_hashes b t p = Inr p1" and "insert_block_hash key b (Some t) p1 = Inr p2"
  shows "cache_inv p2" and "hash_only p p2" and "set (block_keys p2 b) = {key}"
    and "\<And>b'. b' \<noteq> b \<Longrightarrow> real_block b' \<Longrightarrow> block_keys p2 b' = block_keys p b'"
proof -
  note P = drop_partial_spec [OF assms(1,2,3)]
  have n: "num_gpu_blocks p1 = num_gpu_blocks p" using P(2) by (simp add: hash_only_def same_config_def)
  note I = insert_hash_spec [OF P(1), unfolded n, OF assms(2), of key t, unfolded assms(4) P(3)]
  show "cache_inv p2" "set (block_keys p2 b) = {key}" using I by auto
  show "hash_only p p2" using I hash_only_trans [OF P(2)] by blast
  show "block_keys p2 b' = block_keys p b'" if "b' \<noteq> b" "real_block b'" for b'
    using I P(4) [OF that] that by simp
qed

lemma cache_full_loop_spec:
  assumes "cache_inv p" and "\<forall>b \<in> set bl. is_null (blk p b) \<or> pool_block (num_gpu_blocks p) b"
    and "distinct (filter (\<lambda>b. \<not> is_null (blk p b)) bl)"
    and "cache_full_loop hs nc bs g msk i bl p = Inr (ehs, p')"
  shows "cache_inv p' \<and> hash_only p p' \<and>
    (\<forall>j < length bl. \<not> skip_block p msk (i + j) (bl ! j) \<longrightarrow> i + j < length hs \<and>
       (\<exists>key. make_block_hash_with_group_id (hs ! (i + j)) g = Inr key \<and>
          set (block_keys p' (bl ! j)) = {key})) \<and>
    (\<forall>b. real_block b \<longrightarrow> (\<forall>j < length bl. \<not> skip_block p msk (i + j) (bl ! j) \<longrightarrow> bl ! j \<noteq> b) \<longrightarrow>
       block_keys p' b = block_keys p b)"
  using assms
proof (induction bl arbitrary: i p ehs)
  case (Cons b bl)
  show ?case
  proof (cases "skip_block p msk i b")
    case True
    then have c: "cache_full_loop hs nc bs g msk (Suc i) bl p = Inr (ehs, p')" using Cons.prems(4) by simp
    have d: "distinct (filter (\<lambda>b. \<not> is_null (blk p b)) bl)" using Cons.prems(3) by (simp split: if_splits)
    note IH = Cons.IH [OF Cons.prems(1) _ d c]
    show ?thesis using IH Cons.prems(2) True by (simp add: All_less_Suc2)
  next
    case False
    then have nn: "\<not> is_null (blk p b)" by (simp add: skip_block_def)
    have pb: "pool_block (num_gpu_blocks p) b" using Cons.prems(2) nn by auto
    obtain h key p1 p2 ehs' where s: "py_get hs (int i) = Inr h" "make_block_hash_with_group_id h g = Inr key"
      "drop_partial_hashes b (int ((nc + i + 1) * bs)) p = Inr p1"
      "insert_block_hash key b (Some (int ((nc + i + 1) * bs))) p1 = Inr p2"
      "cache_full_loop hs nc bs g msk (Suc i) bl p2 = Inr (ehs', p')"
      using Cons.prems(4) False by (auto simp: Let_def)
    note O = cache_one_spec [OF Cons.prems(1) pb s(3,4)]
    have hi: "i < length hs" "h = hs ! i" using s(1) by (auto simp: py_get_def split: if_splits)
    have nl: "is_null (blk p2 b') = is_null (blk p b')" for b' by (rule hash_only_fields(2) [OF O(2)])
    have n: "num_gpu_blocks p2 = num_gpu_blocks p" using O(2) by (simp add: hash_only_def same_config_def)
    have sk: "skip_block p2 msk j b' = skip_block p msk j b'" for j b' by (simp add: skip_block_def nl)
    have d: "distinct (filter (\<lambda>b. \<not> is_null (blk p2 b)) bl)" using Cons.prems(3) by (simp add: nl split: if_splits)
    have nb: "b \<notin> set bl" using Cons.prems(3) nn by auto
    have IH: "cache_inv p'" "hash_only p2 p'"
      "\<And>j. j < length bl \<Longrightarrow> \<not> skip_block p msk (Suc i + j) (bl ! j) \<Longrightarrow> Suc i + j < length hs \<and>
       (\<exists>key. make_block_hash_with_group_id (hs ! (Suc i + j)) g = Inr key \<and>
          set (block_keys p' (bl ! j)) = {key})"
      "\<And>b. real_block b \<Longrightarrow> (\<forall>j < length bl. \<not> skip_block p msk (Suc i + j) (bl ! j) \<longrightarrow> bl ! j \<noteq> b) \<Longrightarrow>
       block_keys p' b = block_keys p2 b"
      using Cons.IH [OF O(1) _ d s(5), unfolded sk n nl] Cons.prems(2) by auto
    have kb: "block_keys p' b = block_keys p2 b" using nb by (intro IH(4) pool_block_real [OF pb]) auto
    show ?thesis
    proof (intro conjI allI impI)
      fix j assume j: "j < length (b # bl)" "\<not> skip_block p msk (i + j) ((b # bl) ! j)"
      show "i + j < length hs" using j IH(3) [of "j - 1"] hi by (cases j) auto
      show "\<exists>key. make_block_hash_with_group_id (hs ! (i + j)) g = Inr key \<and>
          set (block_keys p' ((b # bl) ! j)) = {key}"
        using j IH(3) [of "j - 1"] hi s(2) O(3) kb by (cases j) auto
    next
      fix b' assume b': "real_block b'" "\<forall>j < length (b # bl). \<not> skip_block p msk (i + j) ((b # bl) ! j) \<longrightarrow> (b # bl) ! j \<noteq> b'"
      have "b' \<noteq> b" using b'(2) False by force
      moreover have "\<forall>j < length bl. \<not> skip_block p msk (Suc i + j) (bl ! j) \<longrightarrow> bl ! j \<noteq> b'"
        using b'(2) by (simp add: All_less_Suc2)
      ultimately show "block_keys p' b' = block_keys p b'" using IH(4) [OF b'(1)] O(4) [OF _ b'(1)] by simp
    qed (use IH(1) hash_only_trans [OF O(2) IH(2)] in simp_all)
  qed
qed simp


lemma cache_full_blocks_spec:
  assumes "pool_inv p xs" and "\<forall>b \<in> set blocks. b = Block 0 \<or> pool_block (num_gpu_blocks p) b"
    and "distinct (filter (\<lambda>b. b \<noteq> Block 0) blocks)"
    and "cache_full_blocks r blocks nc nf bs g msk p = Inr p'" and "nc < nf"
  shows "pool_inv p' xs \<and> hash_only p p' \<and>
    (\<exists>hs new. resolve_block_hashes (Raw (block_hashes r)) (hash_block_size p) bs False None = Inr hs \<and>
       hashes_from hs nc = Inr new \<and>
       (\<forall>j < min (nf - nc) (length blocks - nc). \<not> skip_block p msk j (blocks ! (nc + j)) \<longrightarrow>
          j < length new \<and> (\<exists>key. make_block_hash_with_group_id (new ! j) g = Inr key \<and>
             set (block_keys p' (blocks ! (nc + j))) = {key})))"
proof -
  note D = pool_invD [OF assms(1)]
  have nn: "\<not> nc \<ge> nf" using assms(5) by simp
  let ?nb = "take (nf - nc) (drop nc blocks)"
  obtain hs new ehs p1 where s:
    "resolve_block_hashes (Raw (block_hashes r)) (hash_block_size p) bs False None = Inr hs"
    "hashes_from hs nc = Inr new" "cache_full_loop new nc bs g msk 0 ?nb p = Inr (ehs, p1)"
    and rest: "(if \<not> enable_kv_cache_events p then Inr p1
        else
          rbind (if nc = 0 then Inr None
                 else rbind (hash_at hs (int nc - 1)) (\<lambda>h.
                   Inr (Some (maybe_convert_block_hash (use_int_hashes p) h)))) (\<lambda>par.
          rbind (event_extra_keys p1 r blocks nc bs msk 0 [nc..<nf]) (\<lambda>kss.
            Inr (p1\<lparr>kv_event_queue := kv_event_queue p1 @
              [BlockStored (build_block_stored_event r ehs par (nc * bs) (nf * bs)
                              bs g kss)]\<rparr>)))) = Inr p'"
    using assms(4) unfolding cache_full_blocks_def if_not_P [OF nn] Let_def rbind_eq_Inr
    by (elim exE conjE, unfold split_paired_all prod.case) blast
  have fin: "\<exists>q. p' = p1\<lparr>kv_event_queue := q\<rparr>"
  proof (cases "enable_kv_cache_events p")
    case True
    then show ?thesis using rest by (simp only: rbind_eq_Inr simp_thms if_False) blast
  next
    case False
    then have "p' = p1\<lparr>kv_event_queue := kv_event_queue p1\<rparr>" using rest by simp
    then show ?thesis by blast
  qed
  have isn: "is_null (blk p b) \<longleftrightarrow> b = Block 0" if "b \<in> set blocks" for b
    using D(1,3) assms(2) that by (fastforce simp: free_inv_def pool_block_def)
  have sub: "set ?nb \<subseteq> set blocks" by (meson order_trans set_drop_subset set_take_subset)
  have "distinct (filter (\<lambda>b. b \<noteq> Block 0) ?nb)"
  proof -
    have "blocks = take nc blocks @ ?nb @ drop (nf - nc) (drop nc blocks)" by (simp del: drop_drop)
    then have "distinct (filter (\<lambda>b. b \<noteq> Block 0) (take nc blocks @ ?nb @ drop (nf - nc) (drop nc blocks)))"
      using assms(3) by (simp only:)
    then show ?thesis by (simp only: filter_append distinct_append)
  qed
  moreover have "filter (\<lambda>b. b \<noteq> Block 0) ?nb = filter (\<lambda>b. \<not> is_null (blk p b)) ?nb"
    using isn sub by (intro filter_cong) auto
  ultimately have dist: "distinct (filter (\<lambda>b. \<not> is_null (blk p b)) ?nb)" by simp
  have L: "cache_inv p1" "hash_only p p1"
    "\<forall>j < length ?nb. \<not> skip_block p msk j (?nb ! j) \<longrightarrow> j < length new \<and>
       (\<exists>key. make_block_hash_with_group_id (new ! j) g = Inr key \<and> set (block_keys p1 (?nb ! j)) = {key})"
    using cache_full_loop_spec [OF D(4) _ dist s(3)] isn sub assms(2) by auto
  have ev: "cache_inv p'" "hash_only p p'" "block_keys p' = block_keys p1"
  proof -
    have "store p' = store p1" "cached_block_hash_to_block p' = cached_block_hash_to_block p1"
      "cached_block_hashes_by_block p' = cached_block_hashes_by_block p1" "same_config p1 p'"
      using fin by (auto simp: same_config_def)
    then show "cache_inv p'" "hash_only p p'" "block_keys p' = block_keys p1"
      using cache_inv_cong [OF L(1)] hash_only_trans [OF L(2), of p']
      by (simp_all add: hash_only_def same_config_def block_keys_def extra_hashes_def fun_eq_iff)
  qed
  have "pool_inv p' xs" using ev(1) hash_only_free_inv [OF ev(2)] D(1,2,3) hash_only_fields(6) [OF ev(2)]
    by (simp add: pool_inv_def same_config_def)
  moreover have "?nb ! j = blocks ! (nc + j)" "j < length ?nb" if "j < min (nf - nc) (length blocks - nc)" for j
  proof -
    have "nc \<le> length blocks" using that by auto
    then show "?nb ! j = blocks ! (nc + j)" "j < length ?nb" using that by simp_all
  qed
  ultimately show ?thesis using ev(2,3) L(3) s(1,2) by (intro conjI exI [of _ hs] exI [of _ new]) auto
qed


lemma prepare_partial_spec:
  assumes "cache_inv p" and "pool_block (num_gpu_blocks p) b"
    and "prepare_partial_block b key t replace p = (cached, p')"
  shows "cache_inv p'" and "hash_only p p'" and "set (block_keys p' b) \<subseteq> set (block_keys p b)"
    and "\<And>b'. b' \<noteq> b \<Longrightarrow> real_block b' \<Longrightarrow> block_keys p' b' = block_keys p b'"
proof -
  obtain removed q where q: "remove_cached_block_hashes b p = (removed, q)" by force
  note R = remove_hashes_spec [OF assms(1,2) q]
  let ?q = "emit_block_removed_events removed q"
  have "p' = p \<or> p' = ?q" using assms(3) by (auto simp: prepare_partial_block_def q Let_def split: if_splits)
  then have "cache_inv p' \<and> hash_only p p' \<and> set (block_keys p' b) \<subseteq> set (block_keys p b) \<and>
      (\<forall>b'. b' \<noteq> b \<longrightarrow> real_block b' \<longrightarrow> block_keys p' b' = block_keys p b')"
    using assms(1) R(2,4,5) emit_events_inv(1) [OF R(2)] hash_only_trans [OF R(3) emit_events_inv(2)]
    by (elim disjE) simp_all
  then show "cache_inv p'" "hash_only p p'" "set (block_keys p' b) \<subseteq> set (block_keys p b)"
    "\<And>b'. b' \<noteq> b \<Longrightarrow> real_block b' \<Longrightarrow> block_keys p' b' = block_keys p b'" by blast+
qed

lemma event_only:
  assumes "cache_inv p"
  shows "cache_inv (p\<lparr>kv_event_queue := q\<rparr>)" and "hash_only p (p\<lparr>kv_event_queue := q\<rparr>)"
    and "block_keys (p\<lparr>kv_event_queue := q\<rparr>) = block_keys p"
  using cache_inv_cong [OF assms, of "p\<lparr>kv_event_queue := q\<rparr>"]
  by (simp_all add: hash_only_def same_config_def block_keys_def extra_hashes_def fun_eq_iff)

lemma emit_partial_event: "emit_partial_stored_event r nt g h p = Inr p' \<Longrightarrow> \<exists>q. p' = p\<lparr>kv_event_queue := q\<rparr>"
  unfolding emit_partial_stored_event_def rbind_eq_Inr by (elim exE conjE, unfold split_paired_all prod.case) auto

lemma hash_only_pool_inv:
  "pool_inv p xs \<Longrightarrow> hash_only p p' \<Longrightarrow> cache_inv p' \<Longrightarrow> pool_inv p' xs"
  using hash_only_free_inv [of p p'] hash_only_fields(6) [of p p']
  by (simp add: pool_inv_def same_config_def)

lemma cache_partial_block_spec:
  assumes "pool_inv p xs" and "pool_block (num_gpu_blocks p) b"
    and "cache_partial_block r b nt g bs replace p = Inr (res, p')"
  shows "pool_inv p' xs \<and> hash_only p p' \<and>
    (\<exists>h key. get_partial_block_hash p r nt = Inr h \<and> make_block_hash_with_group_id h g = Inr key \<and>
       res = Some key \<and> key \<in> set (block_keys p' b) \<and>
       set (block_keys p' b) \<subseteq> insert key (set (block_keys p b))) \<and>
    (\<forall>b'. b' \<noteq> b \<longrightarrow> real_block b' \<longrightarrow> block_keys p' b' = block_keys p b')"
proof -
  note D = pool_invD [OF assms(1)]
  have nn: "\<not> is_null (blk p b)" using D(3) assms(2) by (auto simp: free_inv_def pool_block_def)
  let ?t = "nt div hash_block_size p * hash_block_size p"
  obtain h key where hk: "get_partial_block_hash p r nt = Inr h" "make_block_hash_with_group_id h g = Inr key"
    using assms(3) unfolding cache_partial_block_def if_not_P [OF nn] rbind_eq_Inr by blast
  obtain cached p1 where pp: "prepare_partial_block b key ?t replace p = (cached, p1)" by force
  note P = prepare_partial_spec [OF D(4) assms(2) pp]
  obtain p2 where p2: "insert_block_hash key b (Some (int ?t)) p1 = Inr p2" and res: "res = Some key"
    and ev: "(if enable_kv_cache_events p2 \<and> \<not> cached then emit_partial_stored_event r nt g h p2
      else Inr p2) = Inr p'"
    using assms(3) by (simp add: cache_partial_block_def nn hk pp Let_def del: of_nat_mult) blast
  have n: "num_gpu_blocks p1 = num_gpu_blocks p" using P(2) by (simp add: hash_only_def same_config_def)
  note I = insert_hash_spec [OF P(1), unfolded n, OF assms(2), of key "int ?t", unfolded p2]
  have "\<exists>q. p' = p2\<lparr>kv_event_queue := q\<rparr>"
  proof (cases "enable_kv_cache_events p2 \<and> \<not> cached")
    case True
    then show ?thesis using ev emit_partial_event by simp
  next
    case False
    then have "p' = p2\<lparr>kv_event_queue := kv_event_queue p2\<rparr>" using ev unfolding if_not_P [OF False] by simp
    then show ?thesis by blast
  qed
  then obtain q where p': "p' = p2\<lparr>kv_event_queue := q\<rparr>" by blast
  have i: "cache_inv p2" "hash_only p1 p2" "set (block_keys p2 b) = insert key (set (block_keys p1 b))"
    "\<And>b'. b' \<noteq> b \<Longrightarrow> real_block b' \<Longrightarrow> block_keys p2 b' = block_keys p1 b'" using I by auto
  have ho: "hash_only p p'" unfolding p'
    using hash_only_trans [OF hash_only_trans [OF P(2) i(2)] event_only(2) [OF i(1)]] .
  show ?thesis
    using ho hash_only_pool_inv [OF assms(1) ho] event_only [OF i(1), of q] hk res i(3,4) P(3,4)
    by (auto simp: p')
qed

section \<open>Moving, resetting, creating\<close>

lemma insert_hashes_spec:
  assumes "cache_inv p" and "pool_block (num_gpu_blocks p) b"
  shows "\<exists>p'. rfold (\<lambda>k. insert_block_hash k b (Some t)) ks p = Inr p' \<and> cache_inv p' \<and> hash_only p p' \<and>
    set (block_keys p' b) = set ks \<union> set (block_keys p b) \<and>
    (\<forall>b'. b' \<noteq> b \<longrightarrow> real_block b' \<longrightarrow> block_keys p' b' = block_keys p b') \<and>
    kv_event_queue p' = kv_event_queue p"
  using assms
proof (induction ks arbitrary: p)
  case (Cons k ks)
  obtain q where q: "insert_block_hash k b (Some t) p = Inr q" "cache_inv q" "hash_only p q"
    "set (block_keys q b) = insert k (set (block_keys p b))"
    "\<forall>b'. b' \<noteq> b \<longrightarrow> real_block b' \<longrightarrow> block_keys q b' = block_keys p b'" "kv_event_queue q = kv_event_queue p"
    using insert_hash_spec [OF Cons.prems, of k t] by auto
  have "num_gpu_blocks q = num_gpu_blocks p" using q(3) by (simp add: hash_only_def same_config_def)
  then obtain p' where "rfold (\<lambda>k. insert_block_hash k b (Some t)) ks q = Inr p'" "cache_inv p'" "hash_only q p'"
    "set (block_keys p' b) = set ks \<union> set (block_keys q b)"
    "\<forall>b'. b' \<noteq> b \<longrightarrow> real_block b' \<longrightarrow> block_keys p' b' = block_keys q b'" "kv_event_queue p' = kv_event_queue q"
    using Cons.IH [OF q(2)] Cons.prems(2) by auto
  then show ?case using q hash_only_trans [OF q(3)] by (intro exI [of _ p']) auto
qed simp

lemma move_block_hashes_spec:
  assumes "pool_inv p xs" and "pool_block (num_gpu_blocks p) src" and "pool_block (num_gpu_blocks p) dst"
    and "src \<noteq> dst" and "block_keys p dst = []"
  shows "\<exists>p'. move_block_hashes src dst p = Inr p' \<and> pool_inv p' xs \<and> hash_only p p' \<and>
    block_keys p' src = [] \<and> set (block_keys p' dst) = set (block_keys p src) \<and>
    (\<forall>b'. b' \<noteq> src \<longrightarrow> b' \<noteq> dst \<longrightarrow> real_block b' \<longrightarrow> block_keys p' b' = block_keys p b') \<and>
    kv_event_queue p' = kv_event_queue p"
proof -
  note D = pool_invD [OF assms(1)]
  have h: "block_hash (blk p dst) = None" using assms(5) by (auto simp: block_keys_def split: option.splits)
  have x: "cached_block_hashes_by_block p (block_id dst) = None" by (rule cache_invD(5) [OF D(4) assms(3) h])
  obtain removed q where q: "remove_cached_block_hashes src p = (removed, q)" by force
  note R = remove_hashes_spec [OF D(4) assms(2) q]
  have n: "num_gpu_blocks q = num_gpu_blocks p" using R(3) by (simp add: hash_only_def same_config_def)
  have kd: "block_keys q dst = []" using R(5) [of dst] assms(4,5) pool_block_real [OF assms(3)] by auto
  have kt: "removed = [] \<or> (\<exists>t. block_hash_num_tokens (blk p src) = Some t)"
    using R(1) cache_invD(4,5) [OF D(4) assms(2)] by (auto simp: block_keys_def extra_hashes_def)
  obtain p' where p': "rfold (\<lambda>k. insert_block_hash k dst (block_hash_num_tokens (blk p src))) removed q = Inr p'"
    "cache_inv p'" "hash_only q p'" "set (block_keys p' dst) = set removed"
    "\<forall>b'. b' \<noteq> dst \<longrightarrow> real_block b' \<longrightarrow> block_keys p' b' = block_keys q b'" "kv_event_queue p' = kv_event_queue q"
  proof (cases "removed = []")
    case True
    then show ?thesis using that [of q] R(2) kd by simp
  next
    case False
    then obtain t where t: "block_hash_num_tokens (blk p src) = Some t" using kt by blast
    show ?thesis using insert_hashes_spec [OF R(2), of dst t removed] assms(3) n kd that unfolding t by auto
  qed
  have "move_block_hashes src dst p = Inr p'" using h x p'(1) by (simp add: move_block_hashes_def q)
  moreover have ho: "hash_only p p'" by (rule hash_only_trans [OF R(3) p'(3)])
  moreover have "pool_inv p' xs" by (rule hash_only_pool_inv [OF assms(1) ho p'(2)])
  ultimately show ?thesis using p' R assms(4) pool_block_real [OF assms(2)]
    by (intro exI [of _ p']) auto
qed


lemma fold_reset_hash:
  "fold (\<lambda>i. upd_block (Block i) reset_hash) ids p =
   p\<lparr>store := (store p)\<lparr>heap := (\<lambda>b. if b \<in> Block ` set ids then reset_hash (blk p b) else blk p b)\<rparr>\<rparr>"
proof (induction ids arbitrary: p)
  case Nil
  then show ?case by simp
next
  case (Cons i ids)
  let ?q = "upd_block (Block i) reset_hash p"
  have "(\<lambda>b. if b \<in> Block ` set ids then reset_hash (blk ?q b) else blk ?q b) =
      (\<lambda>b. if b \<in> Block ` set (i # ids) then reset_hash (blk p b) else blk p b)"
    by (rule ext) (simp add: reset_hash_def)
  then show ?case by (simp only: fold_Cons comp_apply Cons) (simp add: modify_def)
qed

lemma reset_prefix_cache_spec:
  assumes "pool_inv p xs"
  shows "case reset_prefix_cache p of (ok, p') \<Rightarrow>
    pool_inv p' xs \<and>
    (ok \<longleftrightarrow> (\<forall>b. pool_block (num_gpu_blocks p) b \<longrightarrow> ref_cnt (blk p b) = 0)) \<and>
    (if ok then hash_only p p' \<and> cached_block_hash_to_block p' = bm_init \<and>
       (\<forall>i < num_gpu_blocks p. block_keys p' (Block i) = [])
     else p' = p)"
proof -
  note D = pool_invD [OF assms]
  let ?n = "num_gpu_blocks p"
  have P: "{b. pool_block ?n b} = Block ` {0<..<?n}" by (auto simp: pool_block_def)
  then have fin: "finite {b. pool_block ?n b}" and card: "card {b. pool_block ?n b} = ?n - 1"
    by (simp_all add: card_image inj_on_def)
  have sub: "set xs \<subseteq> {b. pool_block ?n b}" using D(8) by auto
  have "int ?n - get_num_free_blocks p = 1 \<longleftrightarrow> card (set xs) = card {b. pool_block ?n b}"
    using D(1,6,7) card by (auto simp: distinct_card)
  also have "\<dots> \<longleftrightarrow> set xs = {b. pool_block ?n b}" using card_subset_eq [OF fin sub] by auto
  also have "\<dots> \<longleftrightarrow> (\<forall>b. pool_block ?n b \<longrightarrow> ref_cnt (blk p b) = 0)" using D(8) by (auto simp: set_eq_iff)
  finally have ok: "int ?n - get_num_free_blocks p = 1 \<longleftrightarrow> (\<forall>b. pool_block ?n b \<longrightarrow> ref_cnt (blk p b) = 0)" .
  show ?thesis
  proof (cases "int ?n - get_num_free_blocks p = 1")
    case False
    then show ?thesis using assms ok by (simp add: reset_prefix_cache_def)
  next
    case True
    define q where "q = p\<lparr>cached_block_hash_to_block := bm_init, cached_block_hashes_by_block := (\<lambda>_. None),
      store := (store p)\<lparr>heap := (\<lambda>b. if b \<in> Block ` {0..<?n} then reset_hash (blk p b) else blk p b)\<rparr>\<rparr>"
    obtain evs where r: "reset_prefix_cache p = (True, q\<lparr>kv_event_queue := evs\<rparr>)"
    proof (cases "enable_kv_cache_events p")
      case True
      then show ?thesis using \<open>int ?n - get_num_free_blocks p = 1\<close> that [of "kv_event_queue p @ [AllBlocksCleared]"]
        by (simp add: reset_prefix_cache_def fold_reset_hash q_def Let_def cong: if_cong)
    next
      case False
      then show ?thesis using \<open>int ?n - get_num_free_blocks p = 1\<close> that [of "kv_event_queue p"]
        by (simp add: reset_prefix_cache_def fold_reset_hash q_def Let_def cong: if_cong)
    qed
    have hq: "block_hash (blk q (Block i)) = None \<and> block_hash_num_tokens (blk q (Block i)) = None" if "i < ?n" for i
      using that by (simp add: q_def reset_hash_def)
    have kq: "block_keys q (Block i) = []" if "i < ?n" for i
      using hq [OF that] by (simp add: block_keys_def extra_hashes_def q_def)
    have n: "num_gpu_blocks q = ?n" by (simp add: q_def)
    have "cache_inv q" unfolding cache_inv_def
    proof (intro conjI allI impI)
      show "bm_ok (cached_block_hash_to_block q)" by (simp add: q_def bm_init_def bm_ok_def)
      show "b \<in> cached_under (cached_block_hash_to_block q) key \<longleftrightarrow>
        pool_block (num_gpu_blocks q) b \<and> key \<in> set (block_keys q b)" for key b
      proof -
        have "cached_under (cached_block_hash_to_block q) key = {}"
          by (simp add: q_def bm_init_def cached_under_def)
        then show ?thesis using kq by (auto simp: n pool_block_def)
      qed
    qed (use hq kq D(1) in \<open>auto simp: n pool_block_def\<close>, auto simp: q_def)
    moreover have ho: "hash_only p q" by (auto simp: hash_only_def same_config_def q_def reset_hash_def)
    ultimately show ?thesis using True ok kq event_only [of q evs] hash_only_trans [OF ho]
        hash_only_pool_inv [OF assms, of "q\<lparr>kv_event_queue := evs\<rparr>"]
      by (simp add: r) (simp add: q_def)
  qed
qed

lemma link_consecutive_payload: "payload (link_consecutive bs i s) = payload s"
  by (simp add: link_consecutive_def Let_def)

lemma fq_init_payload: "payload (fq_init bs (\<lambda>_. fresh_block)) b = fresh_block"
proof -
  have f: "payload (fold (link_consecutive bs) is s) = payload s" for "is" s
    by (induction "is" arbitrary: s) (simp_all add: link_consecutive_payload)
  have m: "payload (modify r (\<lambda>_. fresh_block) s) b = fresh_block" if "payload s b = fresh_block" for r s
    using that by (simp add: payload_def fresh_block_def)
  have z: "payload \<lparr>heap = \<lambda>_. fresh_block, num_free_blocks = k\<rparr> b = fresh_block" for k
    by (simp add: payload_def fresh_block_def)
  show ?thesis unfolding fq_init_def Let_def by (simp add: m f z)
qed

lemma pool_init_spec:
  assumes "0 < n"
  shows "\<exists>p. pool_init n caching hbs events use_int = Inr p \<and> pool_inv p (map Block [1..<n]) \<and>
    num_gpu_blocks p = n \<and> enable_caching p = caching \<and> hash_block_size p = hbs \<and>
    (\<forall>b. ref_cnt (blk p b) = 0) \<and> (\<forall>b. block_keys p b = [])"
proof -
  let ?s = "fq_init (map Block [0..<n]) (\<lambda>_. fresh_block)"
  have "is_fq ?s (map Block [0..<n])"
    by (rule fq_init_is_fq) (auto simp: distinct_map inj_on_def fresh_block_def)
  then have "is_fq ?s (Block 0 # map Block [1..<n])" using assms by (simp add: upt_conv_Cons)
  then obtain s where s: "popleft ?s = Inr (Block 0, s)" "is_fq s (map Block [1..<n])"
    using fq.pop1_first by blast
  have pl: "payload s b = fresh_block" for b
    using popleft_payload [OF s(1)] fq_init_payload by simp
  have fld: "ref_cnt (heap s b) = 0" "block_hash (heap s b) = None" "block_hash_num_tokens (heap s b) = None"
    "\<not> is_null (heap s b)" for b
  proof -
    have "ref_cnt (payload s b) = 0" "block_hash (payload s b) = None" "block_hash_num_tokens (payload s b) = None"
      "\<not> is_null (payload s b)" by (simp_all add: pl fresh_block_def)
    then show "ref_cnt (heap s b) = 0" "block_hash (heap s b) = None" "block_hash_num_tokens (heap s b) = None"
      "\<not> is_null (heap s b)" by (simp_all add: payload_def)
  qed
  let ?s' = "modify (Block 0) (is_null_update (\<lambda>_. True)) s"
  let ?p = "\<lparr>num_gpu_blocks = n, enable_caching = caching, hash_block_size = hbs, store = ?s',
            cached_block_hash_to_block = bm_init, cached_block_hashes_by_block = (\<lambda>_. None),
            null_block = Block 0, enable_kv_cache_events = events, kv_event_queue = [],
            use_int_hashes = use_int\<rparr>"
  have "pool_init n caching hbs events use_int = Inr ?p" using assms s(1) by (simp add: pool_init_def)
  moreover have "is_fq ?s' (map Block [1..<n])" using s(2) by (simp add: is_fq_def fun_eq_iff)
  then have "free_inv n ?s' (map Block [1..<n]) {}"
    by (auto simp: free_inv_def fld pool_block_def)
  moreover have k: "block_keys ?p b = []" for b by (simp add: block_keys_def extra_hashes_def fld)
  have "cache_inv ?p" unfolding cache_inv_def k
    by (auto simp: bm_init_def bm_ok_def cached_under_def fld)
  ultimately show ?thesis using assms k by (intro exI [of _ ?p]) (simp add: pool_inv_def fld)
qed

section \<open>Lookup\<close>

lemma get_cached_block_sound:
  assumes "cache_inv p" and "get_cached_block p h gs = Inr (Some bs)"
  shows "length bs = length gs \<and> (\<forall>i < length gs. \<exists>key. make_block_hash_with_group_id h (gs ! i) = Inr key \<and>
    pool_block (num_gpu_blocks p) (bs ! i) \<and> key \<in> set (block_keys p (bs ! i)))"
  using assms(2)
proof (induction gs arbitrary: bs)
  case (Cons g gs)
  then obtain key b bs' where s: "make_block_hash_with_group_id h g = Inr key"
    "get_one_block (cached_block_hash_to_block p) key = Inr (Some b)" "get_cached_block p h gs = Inr (Some bs')"
    "bs = b # bs'"
    by (auto split: option.splits)
  have "b \<in> cached_under (cached_block_hash_to_block p) key"
    by (rule bc.get_Some [OF cache_invD(1) [OF assms(1)] s(2)])
  then show ?case using Cons.IH [OF s(3)] s(1,4) cache_invD(2) [OF assms(1)]
    by (auto simp: nth_Cons split: nat.split)
qed simp

lemma get_cached_block_complete:
  assumes "cache_inv p" and "\<forall>g \<in> set gs. 0 \<le> g \<and> g < 2 ^ 32"
    and "\<forall>g \<in> set gs. \<exists>key b. make_block_hash_with_group_id h g = Inr key \<and>
      pool_block (num_gpu_blocks p) b \<and> key \<in> set (block_keys p b)"
  shows "\<exists>bs. get_cached_block p h gs = Inr (Some bs)"
  using assms(2,3)
proof (induction gs)
  case (Cons g gs)
  obtain key b where k: "make_block_hash_with_group_id h g = Inr key" "pool_block (num_gpu_blocks p) b"
    "key \<in> set (block_keys p b)" using Cons.prems(2) by auto
  then have "b \<in> cached_under (cached_block_hash_to_block p) key" using cache_invD(2) [OF assms(1)] by simp
  then obtain b' where "get_one_block (cached_block_hash_to_block p) key = Inr (Some b')"
    using bc.get_hit [OF cache_invD(1) [OF assms(1)], of key] by auto
  then show ?case using Cons k(1) by auto
qed simp

end
