(* ===== verification/Pool_Machine.thy ===== *)
theory Pool_Machine
  imports Pool_Invariant
begin

text \<open>
  The block pool as a state machine over the calls its clients make, the invariant of every
  reachable pool, and the properties of the pool that the KV cache managers depend on: fresh
  allocation, the eviction order after a release, lookup after caching, and what eviction, reset and
  the transfer of hash keys do to lookups.
\<close>

section \<open>The pool as a state machine\<close>

text \<open>
  One step is one call of the pool by its clients. The guards are the protocol the callers keep:
  they release only blocks of the pool they hold references to, cache a block list without
  repetitions, and move hash keys onto a block that has none.
\<close>

definition client_blocks :: "pool \<Rightarrow> block_ref list \<Rightarrow> bool" where
  "client_blocks p bs \<longleftrightarrow> (\<forall>b \<in> set bs. pool_block (num_gpu_blocks p) b \<or> b = Block 0)"

definition holds_refs :: "pool \<Rightarrow> block_ref list \<Rightarrow> bool" where
  "holds_refs p bs \<longleftrightarrow>
     (\<forall>b. pool_block (num_gpu_blocks p) b \<longrightarrow> int (count_list bs b) \<le> ref_cnt (blk p b))"

inductive pool_step :: "pool \<Rightarrow> pool \<Rightarrow> bool" where
  alloc: "0 \<le> k \<Longrightarrow> get_new_blocks k p = Inr (bs, p') \<Longrightarrow> pool_step p p'"
| share: "client_blocks p bs \<Longrightarrow> touch bs p = Inr p' \<Longrightarrow> pool_step p p'"
| release: "client_blocks p bs \<Longrightarrow> holds_refs p bs \<Longrightarrow> free_blocks bs p = Inr p' \<Longrightarrow> pool_step p p'"
| cache_full: "client_blocks p bs \<Longrightarrow> distinct (filter (\<lambda>b. b \<noteq> Block 0) bs) \<Longrightarrow>
    cache_full_blocks r bs nc nf sz g msk p = Inr p' \<Longrightarrow> pool_step p p'"
| cache_partial: "pool_block (num_gpu_blocks p) b \<Longrightarrow>
    cache_partial_block r b nt g sz replace p = Inr (res, p') \<Longrightarrow> pool_step p p'"
| evict: "\<forall>i \<in> set ids. i < num_gpu_blocks p \<Longrightarrow> evict_blocks ids p = Inr p' \<Longrightarrow> pool_step p p'"
| move: "pool_block (num_gpu_blocks p) src \<Longrightarrow> pool_block (num_gpu_blocks p) dst \<Longrightarrow> src \<noteq> dst \<Longrightarrow>
    block_keys p dst = [] \<Longrightarrow> move_block_hashes src dst p = Inr p' \<Longrightarrow> pool_step p p'"
| reset: "reset_prefix_cache p = (ok, p') \<Longrightarrow> pool_step p p'"
| drain: "take_events p = (evs, p') \<Longrightarrow> pool_step p p'"

inductive_cases pool_stepE: "pool_step p p'"

lemma pool_step_inv:
  assumes "pool_step p p'" and "pool_inv p xs"
  shows "\<exists>ys. pool_inv p' ys \<and> num_gpu_blocks p' = num_gpu_blocks p"
  using assms
proof (induction rule: pool_step.induct)
  case (alloc k p bs p')
  have "nat k \<le> length xs" using alloc get_new_blocks_too_many [OF alloc.prems, of k] by fastforce
  then show ?case using get_new_blocks_spec [OF alloc.prems, of "nat k"] alloc.hyps
    by (auto simp: same_config_def)
next
  case (share p bs p')
  then show ?case using touch_spec [OF share.prems, of bs] by (auto simp: client_blocks_def same_config_def)
next
  case (release p bs p')
  then show ?case using free_blocks_spec [OF release.prems, of bs]
    by (auto simp: client_blocks_def holds_refs_def same_config_def)
next
  case (cache_full p bs r nc nf sz g msk p')
  show ?case
  proof (cases "nc < nf")
    case True
    have "\<forall>b \<in> set bs. b = Block 0 \<or> pool_block (num_gpu_blocks p) b"
      using cache_full.hyps(1) by (auto simp: client_blocks_def)
    from cache_full_blocks_spec [OF cache_full.prems this cache_full.hyps(2,3) True]
    show ?thesis by (auto dest: hash_only_fields(6) simp: same_config_def)
  next
    case False
    then show ?thesis using cache_full by (auto simp: cache_full_blocks_def)
  qed
next
  case (cache_partial p b r nt g sz replace res p')
  then show ?case using cache_partial_block_spec [OF cache_partial.prems cache_partial.hyps]
    by (auto dest: hash_only_fields(6) simp: same_config_def)
next
  case (evict ids p p')
  then show ?case
    using evict_blocks_spec [OF pool_invD(4,1) [OF evict.prems] evict.hyps(1)]
      hash_only_pool_inv [OF evict.prems, of p']
    by (auto dest: hash_only_fields(6) simp: same_config_def)
next
  case (move p src dst p')
  then show ?case using move_block_hashes_spec [OF move.prems move.hyps(1,2,3,4)]
    by (auto dest: hash_only_fields(6) simp: same_config_def)
next
  case (reset p ok p')
  then show ?case using reset_prefix_cache_spec [OF reset.prems]
    by (auto dest: hash_only_fields(6) simp: same_config_def split: if_splits)
next
  case (drain p evs p')
  have "p' = p \<or> p' = p\<lparr>kv_event_queue := []\<rparr>" using drain.hyps by (auto simp: take_events_def split: if_splits)
  then show ?case using drain.prems event_only [OF pool_invD(4) [OF drain.prems], of "[]"]
      hash_only_pool_inv [OF drain.prems, of "p\<lparr>kv_event_queue := []\<rparr>"] by auto
qed

lemma pool_steps_inv:
  assumes "pool_step\<^sup>*\<^sup>* p p'" and "pool_inv p xs"
  shows "\<exists>ys. pool_inv p' ys \<and> num_gpu_blocks p' = num_gpu_blocks p"
  using assms
proof (induction rule: rtranclp_induct)
  case (step q r)
  then show ?case using pool_step_inv by fastforce
qed blast

section \<open>Caching succeeds\<close>

lemma cache_full_loop_total:
  assumes "cache_inv p"
    and "\<forall>b \<in> set bl. real_block b \<and> (is_null (blk p b) \<or> pool_block (num_gpu_blocks p) b)"
    and "distinct (filter (\<lambda>b. \<not> is_null (blk p b)) bl)" and "i + length bl \<le> length hs"
    and "0 \<le> g \<and> g < 2 ^ 32" and "\<forall>b \<in> set bl. block_keys p b = []"
  shows "\<exists>ehs p'. cache_full_loop hs nc bs g msk i bl p = Inr (ehs, p')"
  using assms(1,2,3,4,6)
proof (induction bl arbitrary: i p)
  case (Cons b bl)
  show ?case
  proof (cases "skip_block p msk i b")
    case True
    have "distinct (filter (\<lambda>b. \<not> is_null (blk p b)) bl)" using Cons.prems(3) by (simp split: if_splits)
    then show ?thesis using Cons.IH [of p "Suc i"] Cons.prems True by auto
  next
    case False
    then have nn: "\<not> is_null (blk p b)" by (simp add: skip_block_def)
    have pb: "pool_block (num_gpu_blocks p) b" using Cons.prems(2) nn by auto
    have h: "block_hash (blk p b) = None" using Cons.prems(5) by (auto simp: block_keys_def split: option.splits)
    obtain key where key: "make_block_hash_with_group_id (hs ! i) g = Inr key" using make_key_total assms(5) by blast
    have d: "drop_partial_hashes b (int ((nc + i + 1) * bs)) p = Inr p" by (simp add: drop_partial_hashes_def h)
    obtain p2 where p2: "insert_block_hash key b (Some (int ((nc + i + 1) * bs))) p = Inr p2"
      using insert_hash_spec [OF Cons.prems(1) pb] by blast
    note O = cache_one_spec [OF Cons.prems(1) pb d p2]
    have nl: "is_null (blk p2 b') = is_null (blk p b')" for b' by (rule hash_only_fields(2) [OF O(2)])
    have n: "num_gpu_blocks p2 = num_gpu_blocks p" using O(2) by (simp add: hash_only_def same_config_def)
    have nb: "b \<notin> set bl" using Cons.prems(3) nn by auto
    have "block_keys p2 b' = []" if "b' \<in> set bl" for b'
      using O(4) [of b'] nb that Cons.prems(2,5) by auto
    then obtain ehs p' where "cache_full_loop hs nc bs g msk (Suc i) bl p2 = Inr (ehs, p')"
      using Cons.IH [OF O(1), of "Suc i"] Cons.prems(2,3,4) by (auto simp: nl n split: if_splits)
    moreover have "py_get hs (int i) = Inr (hs ! i)" using Cons.prems(4) by (simp add: py_get_nonneg)
    ultimately show ?thesis using False key d p2 by (simp add: Let_def del: of_nat_mult of_nat_add of_nat_Suc)
  qed
qed simp

lemma cache_full_blocks_total:
  assumes "pool_inv p xs" and "client_blocks p blocks" and "distinct (filter (\<lambda>b. b \<noteq> Block 0) blocks)"
    and "hash_block_size p = bs" and "nf \<le> length (block_hashes r)" and "0 \<le> g \<and> g < 2 ^ 32"
    and "\<forall>b \<in> set (drop nc blocks). block_keys p b = []" and "\<not> enable_kv_cache_events p"
  shows "\<exists>p'. cache_full_blocks r blocks nc nf bs g None p = Inr p'"
proof -
  note D = pool_invD [OF assms(1)]
  let ?nb = "take (nf - nc) (drop nc blocks)"
  have blk: "real_block b" "is_null (blk p b) \<longleftrightarrow> b = Block 0" "is_null (blk p b) \<or> pool_block (num_gpu_blocks p) b"
    if "b \<in> set blocks" for b
    using D(1,3) assms(2) that by (auto simp: client_blocks_def free_inv_def pool_block_def real_block_def)
  have sub: "set ?nb \<subseteq> set (drop nc blocks)" "set (drop nc blocks) \<subseteq> set blocks"
    by (auto dest: in_set_takeD in_set_dropD)
  have "distinct (filter (\<lambda>b. b \<noteq> Block 0) (drop nc blocks))"
    using assms(3) by (metis append_take_drop_id distinct_append filter_append)
  then have "distinct (filter (\<lambda>b. b \<noteq> Block 0) ?nb)"
    by (metis append_take_drop_id distinct_append filter_append)
  moreover have "filter (\<lambda>b. b \<noteq> Block 0) ?nb = filter (\<lambda>b. \<not> is_null (blk p b)) ?nb"
    using blk sub by (intro filter_cong) auto
  ultimately have "distinct (filter (\<lambda>b. \<not> is_null (blk p b)) ?nb)" by simp
  moreover have "0 + length ?nb \<le> length (drop nc (block_hashes r))" using assms(5) by auto
  moreover have "\<forall>b \<in> set ?nb. real_block b \<and> (is_null (blk p b) \<or> pool_block (num_gpu_blocks p) b)"
    "\<forall>b \<in> set ?nb. block_keys p b = []"
    using blk sub assms(7) by blast+
  ultimately obtain ehs p' where "cache_full_loop (drop nc (block_hashes r)) nc bs g None 0 ?nb p = Inr (ehs, p')"
    using cache_full_loop_total [OF D(4) _ _ _ assms(6)] by metis
  then show ?thesis using assms(4,8)
    by (simp add: cache_full_blocks_def Let_def resolve_block_hashes_def hashes_from_def)
qed

section \<open>Properties\<close>

text \<open>
  C5: however its clients interleave allocation, sharing, release, caching, eviction, key transfer
  and resets, a pool created by the constructor keeps its invariant: the free queue is a well formed
  doubly linked list without repetitions that holds exactly the blocks nobody refers to (never the
  null block), its counter is right, and together with the blocks in use it accounts for all blocks.
\<close>
theorem pool_reachable_inv:
  assumes "pool_init n caching hbs events use_int = Inr p0" and "pool_step\<^sup>*\<^sup>* p0 p"
  shows "\<exists>xs. is_fq (store p) xs \<and> distinct xs \<and> get_num_free_blocks p = int (length xs) \<and>
    set xs = {b. pool_block n b \<and> ref_cnt (blk p b) = 0} \<and>
    length xs + card {b. pool_block n b \<and> 0 < ref_cnt (blk p b)} + 1 = n \<and> cache_inv p"
proof -
  have n: "0 < n" using assms(1) by (auto simp: pool_init_def ensure_def split: if_splits)
  obtain p1 where "pool_init n caching hbs events use_int = Inr p1" "pool_inv p1 (map Block [1..<n])"
    "num_gpu_blocks p1 = n" using pool_init_spec [OF n] by blast
  then obtain xs where xs: "pool_inv p xs" "num_gpu_blocks p = n"
    using pool_steps_inv [OF assms(2)] assms(1) by auto
  note D = pool_invD [OF xs(1), unfolded xs(2)]
  have "{b. pool_block n b} = Block ` {0<..<n}" by (auto simp: pool_block_def)
  then have fin: "finite {b. pool_block n b}" and card: "card {b. pool_block n b} = n - 1"
    by (simp_all add: card_image inj_on_def)
  have sx: "set xs = {b. pool_block n b \<and> ref_cnt (blk p b) = 0}" using D(8) by auto
  have "{b. pool_block n b} = set xs \<union> {b. pool_block n b \<and> 0 < ref_cnt (blk p b)}"
    using D(3) unfolding sx free_inv_def by force
  moreover have "set xs \<inter> {b. pool_block n b \<and> 0 < ref_cnt (blk p b)} = {}" using D(8) by auto
  ultimately have "n - 1 = card (set xs) + card {b. pool_block n b \<and> 0 < ref_cnt (blk p b)}"
    using card fin card_Un_disjoint by (metis (no_types, lifting) finite_Un)
  then have "length xs + card {b. pool_block n b \<and> 0 < ref_cnt (blk p b)} + 1 = n"
    unfolding distinct_card [OF D(6)] using n by simp
  then show ?thesis using D sx by (intro exI [of _ xs]) simp
qed

theorem pool_reachable_inv_witness:
  "\<exists>p0 bs p. pool_init 3 True 1 False False = Inr p0 \<and> get_new_blocks 1 p0 = Inr (bs, p) \<and>
     pool_step\<^sup>*\<^sup>* p0 p \<and> (\<exists>xs. is_fq (store p) xs \<and>
       length xs + card {b. pool_block 3 b \<and> 0 < ref_cnt (blk p b)} + 1 = 3)"
proof -
  obtain p0 where p0: "pool_init 3 True 1 False False = Inr p0" "pool_inv p0 (map Block [1..<3])"
    using pool_init_spec [of 3 True 1 False False] by auto
  obtain p where p: "get_new_blocks 1 p0 = Inr (take 1 (map Block [1..<3]), p)"
    using get_new_blocks_spec [OF p0(2), of 1] by auto
  have "pool_step\<^sup>*\<^sup>* p0 p" using pool_step.alloc [OF _ p] by auto
  with pool_reachable_inv [OF p0(1) this] p0(1) p show ?thesis by blast
qed

text \<open>
  C15: \<^verbatim>\<open>get_new_blocks\<close> hands out the first blocks of the eviction order, each with reference count one
  and, with caching enabled, without any hash key left in the prefix cache; all other blocks keep
  their counts and keys. Asking for more blocks than are free raises and hands out nothing.
\<close>
theorem get_new_blocks_fresh:
  assumes "pool_inv p xs"
  shows "(k \<le> length xs \<longrightarrow>
      (\<exists>p'. get_new_blocks (int k) p = Inr (take k xs, p') \<and> pool_inv p' (drop k xs) \<and>
        distinct (take k xs) \<and>
        (\<forall>b. ref_cnt (blk p' b) = (if b \<in> set (take k xs) then 1 else ref_cnt (blk p b))) \<and>
        (enable_caching p \<longrightarrow> (\<forall>b \<in> set (take k xs). \<forall>key.
            b \<notin> cached_under (cached_block_hash_to_block p') key)) \<and>
        (\<forall>b key. b \<notin> set (take k xs) \<longrightarrow>
            b \<in> cached_under (cached_block_hash_to_block p') key \<longleftrightarrow>
            b \<in> cached_under (cached_block_hash_to_block p) key))) \<and>
    (length xs < k \<longrightarrow> get_new_blocks (int k) p = Inl ValueError)"
proof (intro conjI impI)
  assume k: "k \<le> length xs"
  obtain p' where p': "get_new_blocks (int k) p = Inr (take k xs, p')" "pool_inv p' (drop k xs)"
    "same_config p p'" "\<forall>b. ref_cnt (blk p' b) = (if b \<in> set (take k xs) then 1 else ref_cnt (blk p b))"
    "enable_caching p \<longrightarrow> (\<forall>b \<in> set (take k xs). block_keys p' b = [])"
    "\<forall>b. b \<notin> set (take k xs) \<longrightarrow> real_block b \<longrightarrow> block_keys p' b = block_keys p b"
    using get_new_blocks_spec [OF assms k] by blast
  note C = cache_invD(2) [OF pool_invD(4) [OF p'(2)]] cache_invD(2) [OF pool_invD(4) [OF assms]]
  have "num_gpu_blocks p' = num_gpu_blocks p" using p'(3) by (simp add: same_config_def)
  then show "\<exists>p'. get_new_blocks (int k) p = Inr (take k xs, p') \<and> pool_inv p' (drop k xs) \<and>
        distinct (take k xs) \<and>
        (\<forall>b. ref_cnt (blk p' b) = (if b \<in> set (take k xs) then 1 else ref_cnt (blk p b))) \<and>
        (enable_caching p \<longrightarrow> (\<forall>b \<in> set (take k xs). \<forall>key.
            b \<notin> cached_under (cached_block_hash_to_block p') key)) \<and>
        (\<forall>b key. b \<notin> set (take k xs) \<longrightarrow>
            b \<in> cached_under (cached_block_hash_to_block p') key \<longleftrightarrow>
            b \<in> cached_under (cached_block_hash_to_block p) key)"
    using p' C pool_invD(6) [OF assms] by (intro exI [of _ p']) (auto dest: pool_block_real)
qed (use get_new_blocks_too_many [OF assms] in simp)

theorem get_new_blocks_fresh_witness:
  "\<exists>p p'. pool_init 4 True 1 False False = Inr p \<and> pool_inv p [Block 1, Block 2, Block 3] \<and>
     get_new_blocks 2 p = Inr ([Block 1, Block 2], p') \<and> pool_inv p' [Block 3] \<and>
     ref_cnt (blk p' (Block 1)) = 1 \<and> get_new_blocks 5 p = Inl ValueError"
proof -
  obtain p where p: "pool_init 4 True 1 False False = Inr p" "pool_inv p (map Block [1..<4])"
    using pool_init_spec [of 4 True 1 False False] by auto
  have l: "map Block [1..<4] = [Block 1, Block 2, Block 3]" by (simp add: upt_rec)
  have "get_new_blocks (int 5) p = Inl ValueError" using get_new_blocks_fresh [OF p(2), of 5] by simp
  moreover have "\<exists>p'. get_new_blocks (int 2) p = Inr ([Block 1, Block 2], p') \<and> pool_inv p' [Block 3] \<and>
      ref_cnt (blk p' (Block 1)) = 1"
    using get_new_blocks_fresh [OF p(2) [unfolded l], of 2] by auto
  ultimately show ?thesis using p unfolding l by auto
qed

text \<open>
  C16: \<^verbatim>\<open>free_blocks\<close> gives back one reference per occurrence. The blocks nobody refers to any more
  re-enter the eviction order: those without a hash (or with caching disabled) at the front, so they
  are reused first, and those that can still serve a prefix hit at the end, so they are evicted last.
  What was free before keeps its order in between, and no cache entry is lost.
\<close>
theorem free_blocks_order:
  assumes "pool_inv p xs" and "client_blocks p bs" and "holds_refs p bs"
  shows "\<exists>p' fr la. free_blocks bs p = Inr p' \<and> pool_inv p' (fr @ xs @ la) \<and>
    (\<forall>b. ref_cnt (blk p' b) = ref_cnt (blk p b) - int (count_list bs b)) \<and>
    (\<forall>b \<in> set fr. block_hash (blk p b) = None \<or> \<not> enable_caching p) \<and>
    (\<forall>b \<in> set la. block_hash (blk p b) \<noteq> None \<and> enable_caching p) \<and>
    set fr \<union> set la = {b \<in> set bs. pool_block (num_gpu_blocks p) b \<and>
                         ref_cnt (blk p b) = int (count_list bs b)} \<and>
    block_keys p' = block_keys p"
proof -
  obtain p' fr la where f: "free_blocks bs p = Inr p'" "pool_inv p' (fr @ xs @ la)"
    "\<forall>b. ref_cnt (blk p' b) = ref_cnt (blk p b) - int (count_list bs b)"
    "block_keys p' = block_keys p"
    "\<forall>b \<in> set fr. block_hash (blk p b) = None \<or> \<not> enable_caching p"
    "\<forall>b \<in> set la. block_hash (blk p b) \<noteq> None \<and> enable_caching p"
    "set (fr @ la) = {b \<in> set bs. pool_block (num_gpu_blocks p) b \<and> ref_cnt (blk p' b) = 0}"
    using free_blocks_spec [OF assms(1)] assms(2,3) unfolding client_blocks_def holds_refs_def by blast
  have "set fr \<union> set la = {b \<in> set bs. pool_block (num_gpu_blocks p) b \<and>
      ref_cnt (blk p b) = int (count_list bs b)}"
    using f(3,7) by auto
  then show ?thesis using f by blast
qed

theorem free_blocks_order_witness:
  "\<exists>p p1 p2. pool_init 4 True 1 False False = Inr p \<and> get_new_blocks 2 p = Inr ([Block 1, Block 2], p1) \<and>
     pool_inv p1 [Block 3] \<and> client_blocks p1 [Block 2] \<and> holds_refs p1 [Block 2] \<and>
     free_blocks [Block 2] p1 = Inr p2 \<and> ref_cnt (blk p2 (Block 2)) = 0 \<and> ref_cnt (blk p2 (Block 1)) = 1"
proof -
  obtain p where p: "pool_init 4 True 1 False False = Inr p" "pool_inv p (map Block [1..<4])"
    "num_gpu_blocks p = 4" "\<forall>b. ref_cnt (blk p b) = 0"
    using pool_init_spec [of 4 True 1 False False] by auto
  have l: "map Block [1..<4] = [Block 1, Block 2, Block 3]" by (simp add: upt_rec)
  obtain p1 where p1: "get_new_blocks 2 p = Inr ([Block 1, Block 2], p1)" "pool_inv p1 [Block 3]"
    "num_gpu_blocks p1 = 4" "\<forall>b. ref_cnt (blk p1 b) = (if b \<in> {Block 1, Block 2} then 1 else 0)"
    using get_new_blocks_spec [OF p(2) [unfolded l], of 2] p(3,4) by (auto simp: same_config_def)
  have c: "client_blocks p1 [Block 2]" "holds_refs p1 [Block 2]"
    using p1(3,4) by (auto simp: client_blocks_def holds_refs_def pool_block_def)
  obtain p2 where "free_blocks [Block 2] p1 = Inr p2"
    "\<forall>b. ref_cnt (blk p2 b) = ref_cnt (blk p1 b) - int (count_list [Block 2] b)"
    using free_blocks_order [OF p1(2) c] by blast
  then show ?thesis using p(1) p1 c by auto
qed

text \<open>
  C9: after \<^verbatim>\<open>cache_full_blocks\<close> succeeds, every block it did not skip can be found: looking up the
  hash of its position in the same KV cache group returns a block registered under that very key,
  and the block cached is registered under this key only (an earlier, partial entry is gone). The
  allocation state is untouched.
\<close>
theorem cache_full_blocks_lookup:
  assumes "pool_inv p xs" and "client_blocks p blocks" and "distinct (filter (\<lambda>b. b \<noteq> Block 0) blocks)"
    and "cache_full_blocks r blocks nc nf bs g None p = Inr p'" and "hash_block_size p = bs"
    and "nc \<le> i" and "i < nf" and "i < length blocks" and "blocks ! i \<noteq> Block 0"
  shows "pool_inv p' xs \<and> i < length (block_hashes r) \<and>
    (\<exists>key b. make_block_hash_with_group_id (block_hashes r ! i) g = Inr key \<and>
       set (block_keys p' (blocks ! i)) = {key} \<and>
       get_cached_block p' (block_hashes r ! i) [g] = Inr (Some [b]) \<and> key \<in> set (block_keys p' b))"
proof -
  note D = pool_invD [OF assms(1)]
  have pb: "pool_block (num_gpu_blocks p) (blocks ! i)"
    using assms(2,8,9) by (auto simp: client_blocks_def)
  have "\<not> skip_block p None (i - nc) (blocks ! i)"
    using D(3) pb by (auto simp: skip_block_def free_inv_def pool_block_def)
  moreover have "\<forall>b \<in> set blocks. b = Block 0 \<or> pool_block (num_gpu_blocks p) b"
    using assms(2) by (auto simp: client_blocks_def)
  from cache_full_blocks_spec [OF assms(1) this assms(3,4)]
  have S: "pool_inv p' xs" "hash_only p p'"
    "\<forall>j < min (nf - nc) (length blocks - nc). \<not> skip_block p None j (blocks ! (nc + j)) \<longrightarrow>
       j < length (drop nc (block_hashes r)) \<and>
       (\<exists>key. make_block_hash_with_group_id (drop nc (block_hashes r) ! j) g = Inr key \<and>
          set (block_keys p' (blocks ! (nc + j))) = {key})"
    using assms(5,6,7) by (auto simp: resolve_block_hashes_def hashes_from_def)
  moreover have "i - nc < min (nf - nc) (length blocks - nc)" "nc + (i - nc) = i" using assms(6,7,8) by auto
  ultimately obtain key where key: "i - nc < length (drop nc (block_hashes r))"
    "make_block_hash_with_group_id (drop nc (block_hashes r) ! (i - nc)) g = Inr key"
    "set (block_keys p' (blocks ! i)) = {key}" by metis
  have e: "i < length (block_hashes r)" "drop nc (block_hashes r) ! (i - nc) = block_hashes r ! i"
    using key(1) assms(6) by auto
  have n: "num_gpu_blocks p' = num_gpu_blocks p" using hash_only_fields(6) [OF S(2)] by (simp add: same_config_def)
  have C: "cache_inv p'" by (rule pool_invD(4) [OF S(1)])
  have "0 \<le> g \<and> g < 2 ^ 32" using key(2)
    by (auto simp: make_block_hash_with_group_id_def to_bytes4_def split: if_splits)
  moreover have "make_block_hash_with_group_id (block_hashes r ! i) g = Inr key \<and>
      pool_block (num_gpu_blocks p') (blocks ! i) \<and> key \<in> set (block_keys p' (blocks ! i))"
    using key(2,3) e(2) pb n by simp
  ultimately obtain l where l: "get_cached_block p' (block_hashes r ! i) [g] = Inr (Some l)"
    using get_cached_block_complete [OF C, of "[g]" "block_hashes r ! i"] by auto
  then obtain b where b: "l = [b]" "key \<in> set (block_keys p' b)"
    using get_cached_block_sound [OF C l] key(2) e(2) by (cases l) auto
  then show ?thesis using S(1) e key(2,3) l by auto
qed

theorem cache_full_blocks_lookup_witness:
  "\<exists>p p1 p2 r b. pool_init 4 True 2 False False = Inr p \<and>
     get_new_blocks 2 p = Inr ([Block 1, Block 2], p1) \<and>
     r = (sample_request ''r'' [5, 6, 7, 8])\<lparr>block_hashes := [[1], [2]]\<rparr> \<and>
     cache_full_blocks r [Block 1, Block 2] 0 2 2 0 None p1 = Inr p2 \<and>
     get_cached_block p2 [2] [0] = Inr (Some [b])"
proof -
  obtain p where p: "pool_init 4 True 2 False False = Inr p" "pool_inv p (map Block [1..<4])"
    "num_gpu_blocks p = 4" "hash_block_size p = 2" "\<forall>b. block_keys p b = []"
    using pool_init_spec [of 4 True 2 False False] by auto
  have ev: "\<not> enable_kv_cache_events p" using p(1) by (auto simp: pool_init_def)
  have l: "map Block [1..<4] = [Block 1, Block 2, Block 3]" by (simp add: upt_rec)
  obtain p1 where p1: "get_new_blocks 2 p = Inr ([Block 1, Block 2], p1)" "pool_inv p1 [Block 3]"
    "num_gpu_blocks p1 = 4" "hash_block_size p1 = 2" "\<not> enable_kv_cache_events p1"
    "enable_caching p \<longrightarrow> (\<forall>b \<in> {Block 1, Block 2}. block_keys p1 b = [])" "same_config p p1"
    using get_new_blocks_spec [OF p(2) [unfolded l], of 2] p(3,4) ev by (auto simp: same_config_def)
  have k: "block_keys p1 (Block 1) = [] \<and> block_keys p1 (Block 2) = []"
    using p1(6) p(1) by (auto simp: pool_init_def)
  let ?r = "(sample_request ''r'' [5, 6, 7, 8])\<lparr>block_hashes := [[1], [2]]\<rparr>"
  have c: "client_blocks p1 [Block 1, Block 2]" using p1(3) by (simp add: client_blocks_def pool_block_def)
  have d: "distinct (filter (\<lambda>b. b \<noteq> Block 0) [Block 1, Block 2])" by simp
  obtain p2 where p2: "cache_full_blocks ?r [Block 1, Block 2] 0 2 2 0 None p1 = Inr p2"
    using cache_full_blocks_total [OF p1(2) c d p1(4), of 2 ?r 0 0] k p1(5) by auto
  show ?thesis
    using cache_full_blocks_lookup [OF p1(2) c d p2 p1(4), of 1] p(1) p1(1) p2 by auto
qed

text \<open>
  C20: a lookup never returns a block under a wrong key: if \<^verbatim>\<open>get_cached_block\<close> returns blocks for a
  hash and a list of groups, there is one block per group, each of them an allocatable block of the
  pool registered under that hash and group; and it returns nothing (or raises) only if a group id
  does not fit the four byte encoding or some group has no such block.
\<close>
theorem get_cached_block_exact:
  assumes "cache_inv p"
  shows "(\<forall>bs. get_cached_block p h gs = Inr (Some bs) \<longrightarrow>
      length bs = length gs \<and> (\<forall>i < length gs. \<exists>key.
        make_block_hash_with_group_id h (gs ! i) = Inr key \<and>
        pool_block (num_gpu_blocks p) (bs ! i) \<and> key \<in> set (block_keys p (bs ! i)))) \<and>
    ((\<forall>g \<in> set gs. \<exists>key b. make_block_hash_with_group_id h g = Inr key \<and>
        pool_block (num_gpu_blocks p) b \<and> key \<in> set (block_keys p b)) \<longrightarrow>
      (\<exists>bs. get_cached_block p h gs = Inr (Some bs)))"
proof -
  have "0 \<le> g \<and> g < 2 ^ 32" if "make_block_hash_with_group_id h g = Inr key" for g key
    using that by (auto simp: make_block_hash_with_group_id_def to_bytes4_def split: if_splits)
  then show ?thesis
    using get_cached_block_sound [OF assms] get_cached_block_complete [OF assms, of gs h] by blast
qed

theorem get_cached_block_exact_witness:
  "\<exists>p. pool_init 3 True 2 False False = Inr p \<and> cache_inv p \<and>
     (\<exists>bs. get_cached_block p [1] [] = Inr (Some bs)) \<and>
     (\<forall>bs. get_cached_block p [1] [0] \<noteq> Inr (Some bs))"
proof -
  obtain p where p: "pool_init 3 True 2 False False = Inr p" "pool_inv p (map Block [1..<3])"
    "\<forall>b. block_keys p b = []" using pool_init_spec [of 3 True 2 False False] by auto
  have c: "cache_inv p" by (rule pool_invD(4) [OF p(2)])
  have "get_cached_block p [1] [0] \<noteq> Inr (Some bs)" for bs
    using get_cached_block_exact [OF c, of "[1]" "[0]"] p(3) by auto
  moreover have "\<exists>bs. get_cached_block p [1] [] = Inr (Some bs)"
    using get_cached_block_exact [OF c, of "[1]" "[]"] by simp
  ultimately show ?thesis using p(1) c by blast
qed

text \<open>
  C21: \<^verbatim>\<open>reset_prefix_cache\<close> succeeds exactly when no block is in use. It then forgets every cached
  block, so that each lookup misses, and leaves the allocation state as it was; when it fails it
  changes nothing.
\<close>
theorem reset_prefix_cache_exact:
  assumes "pool_inv p xs" and "reset_prefix_cache p = (ok, p')"
  shows "(ok \<longleftrightarrow> (\<forall>b. pool_block (num_gpu_blocks p) b \<longrightarrow> ref_cnt (blk p b) = 0)) \<and>
    pool_inv p' xs \<and>
    (ok \<longrightarrow> (\<forall>h g. 0 \<le> g \<longrightarrow> g < 2 ^ 32 \<longrightarrow> get_cached_block p' h [g] = Inr None)) \<and>
    (\<not> ok \<longrightarrow> p' = p)"
proof -
  note R = reset_prefix_cache_spec [OF assms(1), unfolded assms(2) prod.case]
  have "get_cached_block p' h [g] = Inr None" if ok: ok and g: "0 \<le> g" "g < 2 ^ 32" for h g
  proof -
    obtain key where "make_block_hash_with_group_id h g = Inr key" using make_key_total [OF g] by blast
    moreover have "cached_block_hash_to_block p' = bm_init" using R ok by simp
    ultimately show ?thesis by (simp add: get_one_block_def bm_init_def)
  qed
  then show ?thesis using R by (cases ok) auto
qed

theorem reset_prefix_cache_exact_witness:
  "\<exists>p ok p'. pool_init 3 True 2 False False = Inr p \<and> pool_inv p [Block 1, Block 2] \<and>
     reset_prefix_cache p = (ok, p') \<and> ok \<and> get_cached_block p' [1] [0] = Inr None"
proof -
  obtain p where p: "pool_init 3 True 2 False False = Inr p" "pool_inv p (map Block [1..<3])"
    "\<forall>b. ref_cnt (blk p b) = 0" using pool_init_spec [of 3 True 2 False False] by auto
  have l: "map Block [1..<3] = [Block 1, Block 2]" by (simp add: upt_rec)
  obtain ok p' where r: "reset_prefix_cache p = (ok, p')" by force
  show ?thesis using reset_prefix_cache_exact [OF p(2) r] p r unfolding l by auto
qed

text \<open>
  \<^verbatim>\<open>evict_blocks\<close> takes exactly the given blocks out of the prefix cache: afterwards none of them is
  registered under any key, every other block is registered under the keys it had, and reference
  counts and the free queue are untouched. It raises if an id is not a block of the pool.
\<close>
theorem evict_blocks_exact:
  assumes "pool_inv p xs"
  shows "((\<forall>i \<in> set ids. i < num_gpu_blocks p) \<longrightarrow>
      (\<exists>p'. evict_blocks ids p = Inr p' \<and> pool_inv p' xs \<and>
        (\<forall>b. ref_cnt (blk p' b) = ref_cnt (blk p b)) \<and>
        (\<forall>b key. b \<in> cached_under (cached_block_hash_to_block p') key \<longleftrightarrow>
           b \<in> cached_under (cached_block_hash_to_block p) key \<and> b \<notin> Block ` set ids))) \<and>
    ((\<exists>i \<in> set ids. \<not> i < num_gpu_blocks p) \<longrightarrow> evict_blocks ids p = Inl AssertionError)"
proof (intro conjI impI)
  note D = pool_invD [OF assms]
  assume ids: "\<forall>i \<in> set ids. i < num_gpu_blocks p"
  obtain p' where p': "evict_blocks ids p = Inr p'" "cache_inv p'" "hash_only p p'"
    "\<forall>b. pool_block (num_gpu_blocks p) b \<longrightarrow>
       block_keys p' b = (if b \<in> Block ` set ids then [] else block_keys p b)"
    using evict_blocks_spec [OF D(4,1) ids] by blast
  have n: "num_gpu_blocks p' = num_gpu_blocks p"
    using hash_only_fields(6) [OF p'(3)] by (simp add: same_config_def)
  show "\<exists>p'. evict_blocks ids p = Inr p' \<and> pool_inv p' xs \<and>
        (\<forall>b. ref_cnt (blk p' b) = ref_cnt (blk p b)) \<and>
        (\<forall>b key. b \<in> cached_under (cached_block_hash_to_block p') key \<longleftrightarrow>
           b \<in> cached_under (cached_block_hash_to_block p) key \<and> b \<notin> Block ` set ids)"
  proof (intro exI [of _ p'] conjI allI)
    show "pool_inv p' xs" by (rule hash_only_pool_inv [OF assms p'(3,2)])
    show "ref_cnt (blk p' b) = ref_cnt (blk p b)" for b by (rule hash_only_fields(1) [OF p'(3)])
    show "b \<in> cached_under (cached_block_hash_to_block p') key \<longleftrightarrow>
        b \<in> cached_under (cached_block_hash_to_block p) key \<and> b \<notin> Block ` set ids" for b key
      unfolding cache_invD(2) [OF p'(2)] cache_invD(2) [OF D(4)] n using p'(4)
      by (cases "b \<in> Block ` set ids") auto
  qed (rule p'(1))
next
  have "evict_blocks ids q = Inl AssertionError"
    if "cache_inv q" "0 < num_gpu_blocks q" "\<exists>i \<in> set ids. \<not> i < num_gpu_blocks q" for q
    using that
  proof (induction ids arbitrary: q)
    case (Cons i ids)
    show ?case
    proof (cases "i < num_gpu_blocks q")
      case True
      obtain q' where q': "evict_blocks [i] q = Inr q'" "cache_inv q'" "hash_only q q'"
        using evict_blocks_spec [OF Cons.prems(1,2), of "[i]"] True by auto
      have n: "num_gpu_blocks q' = num_gpu_blocks q"
        using hash_only_fields(6) [OF q'(3)] by (simp add: same_config_def)
      have "evict_blocks (i # ids) q = evict_blocks ids q'" using q'(1) True by (simp add: evict_blocks_def)
      then show ?thesis using Cons.IH [OF q'(2)] Cons.prems(2,3) True by (auto simp: n)
    qed (simp add: evict_blocks_def)
  qed simp
  then show "evict_blocks ids p = Inl AssertionError" if "\<exists>i \<in> set ids. \<not> i < num_gpu_blocks p"
    using that pool_invD(1,4) [OF assms] by blast
qed

theorem evict_blocks_exact_witness:
  "\<exists>p p'. pool_init 3 True 2 False False = Inr p \<and> pool_inv p [Block 1, Block 2] \<and>
     evict_blocks [2, 0] p = Inr p' \<and> pool_inv p' [Block 1, Block 2] \<and>
     evict_blocks [1, 7] p = Inl AssertionError"
proof -
  obtain p where p: "pool_init 3 True 2 False False = Inr p" "pool_inv p (map Block [1..<3])"
    "num_gpu_blocks p = 3" using pool_init_spec [of 3 True 2 False False] by auto
  have l: "map Block [1..<3] = [Block 1, Block 2]" by (simp add: upt_rec)
  show ?thesis using evict_blocks_exact [OF p(2), of "[2, 0]"] evict_blocks_exact [OF p(2), of "[1, 7]"] p
    unfolding l by auto
qed

text \<open>
  \<^verbatim>\<open>move_block_hashes\<close> moves all prefix cache entries of one block to another block that has none:
  afterwards the destination is found under exactly the keys that led to the source, the source under
  none, all other blocks as before, and no event is emitted.
\<close>
theorem move_block_hashes_exact:
  assumes "pool_inv p xs" and "pool_block (num_gpu_blocks p) src" and "pool_block (num_gpu_blocks p) dst"
    and "src \<noteq> dst" and "block_keys p dst = []"
  shows "\<exists>p'. move_block_hashes src dst p = Inr p' \<and> pool_inv p' xs \<and>
    kv_event_queue p' = kv_event_queue p \<and>
    (\<forall>b key. b \<in> cached_under (cached_block_hash_to_block p') key \<longleftrightarrow>
       (if b = dst then src \<in> cached_under (cached_block_hash_to_block p) key
        else b \<noteq> src \<and> b \<in> cached_under (cached_block_hash_to_block p) key))"
proof -
  obtain p' where p': "move_block_hashes src dst p = Inr p'" "pool_inv p' xs" "hash_only p p'"
    "block_keys p' src = []" "set (block_keys p' dst) = set (block_keys p src)"
    "\<forall>b'. b' \<noteq> src \<longrightarrow> b' \<noteq> dst \<longrightarrow> real_block b' \<longrightarrow> block_keys p' b' = block_keys p b'"
    "kv_event_queue p' = kv_event_queue p"
    using move_block_hashes_spec [OF assms] by blast
  have n: "num_gpu_blocks p' = num_gpu_blocks p"
    using hash_only_fields(6) [OF p'(3)] by (simp add: same_config_def)
  have "b \<in> cached_under (cached_block_hash_to_block p') key \<longleftrightarrow>
       (if b = dst then src \<in> cached_under (cached_block_hash_to_block p) key
        else b \<noteq> src \<and> b \<in> cached_under (cached_block_hash_to_block p) key)" for b key
    unfolding cache_invD(2) [OF pool_invD(4) [OF p'(2)]] cache_invD(2) [OF pool_invD(4) [OF assms(1)]] n
    using p'(4,5,6) assms(2,3) pool_block_real [of "num_gpu_blocks p" b] by (cases "b = src") auto
  then show ?thesis using p' by blast
qed

theorem move_block_hashes_exact_witness:
  "\<exists>p p'. pool_init 3 True 2 False False = Inr p \<and> pool_inv p [Block 1, Block 2] \<and>
     move_block_hashes (Block 1) (Block 2) p = Inr p' \<and> pool_inv p' [Block 1, Block 2]"
proof -
  obtain p where p: "pool_init 3 True 2 False False = Inr p" "pool_inv p (map Block [1..<3])"
    "num_gpu_blocks p = 3" "\<forall>b. block_keys p b = []" using pool_init_spec [of 3 True 2 False False] by auto
  have l: "map Block [1..<3] = [Block 1, Block 2]" by (simp add: upt_rec)
  show ?thesis using move_block_hashes_exact [OF p(2), of "Block 1" "Block 2"] p
    unfolding l by (auto simp: pool_block_def)
qed

end
