(* ===== verification/Encoder_Cache.thy ===== *)
theory Encoder_Cache
  imports Request
begin

text \<open>
  The encoder cache managers (\<^verbatim>\<open>vllm/v1/core/encoder_cache_manager.py\<close>): bookkeeping of which encoder
  outputs are cached, which requests refer to them, and how many embedding slots are free or can be
  reclaimed. Python sets are lists without repetitions, the ordered dictionary of reclaimable entries
  is an association list, oldest entry first. The invariant ties both slot counters to the cached
  entries, for item sizes and request features that do not change over time.
\<close>

section \<open>The manager for multimodal models\<close>

record encoder_cache =
  cache_size :: int
  num_free_slots :: int
  num_freeable_slots :: int
  cached :: "string \<Rightarrow> string list option"
  request_cached_ids :: "string \<Rightarrow> nat list option"
  freeable :: "(string \<times> int) list"
  freed :: "string list"

definition ec_init :: "int \<Rightarrow> encoder_cache" where
  "ec_init n = \<lparr>cache_size = n, num_free_slots = n, num_freeable_slots = n, cached = (\<lambda>_. None),
     request_cached_ids = (\<lambda>_. None), freeable = [], freed = []\<rparr>"

definition ec_reset :: "encoder_cache \<Rightarrow> encoder_cache" where
  "ec_reset c = c\<lparr>cached := (\<lambda>_. None), request_cached_ids := (\<lambda>_. None), freeable := [], freed := [],
     num_free_slots := cache_size c, num_freeable_slots := cache_size c\<rparr>"

definition mm_hash_of :: "request \<Rightarrow> nat \<Rightarrow> string res" where
  \<comment> \<open>\<^verbatim>\<open>request.mm_features[input_id].identifier\<close>\<close>
  "mm_hash_of r i = rbind (py_get (mm_features r) (int i)) (\<lambda>f. Inr (mm_identifier f))"

definition ids_of :: "encoder_cache \<Rightarrow> string \<Rightarrow> nat list" where
  "ids_of c rid = (case request_cached_ids c rid of None \<Rightarrow> [] | Some is \<Rightarrow> is)"

definition add_ref :: "string \<Rightarrow> string list \<Rightarrow> string \<Rightarrow> nat \<Rightarrow> encoder_cache \<Rightarrow> encoder_cache" where
  \<comment> \<open>\<^verbatim>\<open>self.cached[mm_hash].add(rid)\<close> and \<^verbatim>\<open>self.request_cached_ids.setdefault(rid, set()).add(i)\<close>\<close>
  "add_ref h refs rid i c =
     c\<lparr>cached := (cached c)(h \<mapsto> List.insert rid refs),
       request_cached_ids := (request_cached_ids c)(rid \<mapsto> List.insert i (ids_of c rid))\<rparr>"

definition check_and_update_cache :: "request \<Rightarrow> nat \<Rightarrow> encoder_cache \<Rightarrow> (bool \<times> encoder_cache) res" where
  "check_and_update_cache r i c =
     rbind (mm_hash_of r i) (\<lambda>h.
     case cached c h of
       None \<Rightarrow> Inr (False, c)
     | Some refs \<Rightarrow>
         rbind (if refs = []
                then case map_of (freeable c) h of
                       None \<Rightarrow> Inl KeyError
                     | Some n \<Rightarrow> Inr (c\<lparr>freeable := AList.delete h (freeable c),
                                       num_freeable_slots := num_freeable_slots c - n\<rparr>)
                else Inr c) (\<lambda>c1.
           Inr (True, add_ref h refs (request_id r) i c1)))"

fun evict_loop :: "int \<Rightarrow> (string \<times> int) list \<Rightarrow> encoder_cache \<Rightarrow> encoder_cache res" where
  \<comment> \<open>the \<^verbatim>\<open>while\<close> loop of \<^verbatim>\<open>can_allocate\<close>; the list is what is left of \<^verbatim>\<open>freeable\<close>\<close>
  "evict_loop n [] c = (if n > num_free_slots c then Inl KeyError else Inr (c\<lparr>freeable := []\<rparr>))"
| "evict_loop n ((h, k) # fs) c =
     (if n > num_free_slots c
      then if cached c h = None then Inl KeyError
           else evict_loop n fs (c\<lparr>cached := (cached c)(h := None), freed := freed c @ [h],
                                   num_free_slots := num_free_slots c + k\<rparr>)
      else Inr (c\<lparr>freeable := (h, k) # fs\<rparr>))"

definition ec_can_allocate ::
  "request \<Rightarrow> nat \<Rightarrow> int \<Rightarrow> int \<Rightarrow> encoder_cache \<Rightarrow> (bool \<times> encoder_cache) res"
where
  "ec_can_allocate r i budget scheduled c =
     rbind (get_num_encoder_embeds r i) (\<lambda>k.
     if k > budget then Inr (False, c)
     else let n = k + scheduled
          in if n \<le> num_free_slots c then Inr (True, c)
             else if n > num_freeable_slots c then Inr (False, c)
             else rbind (evict_loop n (freeable c) c) (\<lambda>c1. Inr (True, c1)))"

definition ec_allocate :: "request \<Rightarrow> nat \<Rightarrow> encoder_cache \<Rightarrow> encoder_cache res" where
  "ec_allocate r i c =
     rbind (mm_hash_of r i) (\<lambda>h.
     rbind (get_num_encoder_embeds r i) (\<lambda>k.
     rbind (ensure (num_free_slots c \<ge> k) AssertionError) (\<lambda>_.
     rbind (ensure (num_freeable_slots c \<ge> k) AssertionError) (\<lambda>_.
       let refs = (case cached c h of None \<Rightarrow> [] | Some rs \<Rightarrow> rs);
           c1 = add_ref h refs (request_id r) i c
       in Inr (c1\<lparr>num_free_slots := num_free_slots c1 - k,
                  num_freeable_slots := num_freeable_slots c1 - k\<rparr>)))))"

definition get_cached_input_ids :: "request \<Rightarrow> encoder_cache \<Rightarrow> nat list" where
  "get_cached_input_ids r c = ids_of c (request_id r)"

definition drop_id :: "string \<Rightarrow> nat \<Rightarrow> encoder_cache \<Rightarrow> encoder_cache" where
  "drop_id rid i c =
     (case request_cached_ids c rid of
        None \<Rightarrow> c
      | Some is \<Rightarrow>
          let is' = filter (\<lambda>j. j \<noteq> i) is
          in c\<lparr>request_cached_ids := (request_cached_ids c)(rid := (if is' = [] then None else Some is'))\<rparr>)"

fun any_same_hash :: "request \<Rightarrow> string \<Rightarrow> nat list \<Rightarrow> bool res" where
  "any_same_hash r h [] = Inr False"
| "any_same_hash r h (j # js) =
     rbind (mm_hash_of r j) (\<lambda>h'. if h' = h then Inr True else any_same_hash r h js)"

definition free_encoder_input :: "request \<Rightarrow> nat \<Rightarrow> encoder_cache \<Rightarrow> encoder_cache res" where
  "free_encoder_input r i c =
     rbind (mm_hash_of r i) (\<lambda>h.
     let rid = request_id r; c1 = drop_id rid i c in
     case cached c1 h of
       None \<Rightarrow> Inr c1
     | Some refs \<Rightarrow>
         if refs = [] then Inr c1
         else rbind (any_same_hash r h (ids_of c1 rid)) (\<lambda>held.
           if held then Inr c1
           else let refs' = filter (\<lambda>x. x \<noteq> rid) refs;
                    c2 = c1\<lparr>cached := (cached c1)(h \<mapsto> refs')\<rparr>
                in if refs' = []
                   then rbind (get_num_encoder_embeds r i) (\<lambda>k.
                     Inr (c2\<lparr>freeable := AList.update h k (freeable c2),
                             num_freeable_slots := num_freeable_slots c2 + k\<rparr>))
                   else Inr c2))"

definition ec_free :: "request \<Rightarrow> encoder_cache \<Rightarrow> encoder_cache res" where
  "ec_free r c = rfold (free_encoder_input r) (get_cached_input_ids r c) c"

definition get_freed_mm_hashes :: "encoder_cache \<Rightarrow> string list \<times> encoder_cache" where
  "get_freed_mm_hashes c =
     (filter (\<lambda>h. cached c h = None) (freed c), c\<lparr>freed := []\<rparr>)"

section \<open>The budget\<close>

definition compute_mm_encoder_budget ::
  "bool \<Rightarrow> int \<Rightarrow> int \<Rightarrow> int \<Rightarrow> (string \<times> int) list \<Rightarrow> (int \<times> int) res"
where
  \<comment> \<open>\<^verbatim>\<open>disable_chunked_mm_input\<close>, \<^verbatim>\<open>max_num_batched_tokens\<close>, \<^verbatim>\<open>max_num_encoder_input_tokens\<close>,
      \<^verbatim>\<open>encoder_cache_size\<close> of the scheduler configuration\<close>
  "compute_mm_encoder_budget no_chunk max_batched max_enc enc_size per_item =
     (if per_item = [] then Inr (0, 0)
      else let m = Max (snd ` set per_item)
           in if no_chunk \<and> m > max_batched then Inl ValueError
              else Inr (max max_enc m, max enc_size m))"

section \<open>The manager for encoder-decoder models\<close>

record enc_dec_cache =
  ed_cache_size :: int
  ed_num_free_slots :: int
  allocated :: "string list"
  to_free :: "string list"

definition ed_init :: "int \<Rightarrow> enc_dec_cache" where
  "ed_init n = \<lparr>ed_cache_size = n, ed_num_free_slots = n, allocated = [], to_free = []\<rparr>"

definition ed_reset :: "enc_dec_cache \<Rightarrow> enc_dec_cache" where
  "ed_reset c = c\<lparr>ed_num_free_slots := ed_cache_size c, allocated := [], to_free := []\<rparr>"

definition ed_check_and_update_cache :: "request \<Rightarrow> nat \<Rightarrow> enc_dec_cache \<Rightarrow> bool \<times> enc_dec_cache" where
  "ed_check_and_update_cache r i c = (False, c)"

definition ed_can_allocate :: "request \<Rightarrow> nat \<Rightarrow> int \<Rightarrow> int \<Rightarrow> enc_dec_cache \<Rightarrow> bool res" where
  "ed_can_allocate r i budget scheduled c =
     rbind (get_num_encoder_embeds r i) (\<lambda>k.
       if k > budget then Inr False else Inr (k + scheduled \<le> ed_num_free_slots c))"

definition ed_allocate :: "request \<Rightarrow> nat \<Rightarrow> enc_dec_cache \<Rightarrow> enc_dec_cache res" where
  "ed_allocate r i c =
     rbind (get_num_encoder_embeds r i) (\<lambda>k.
     rbind (mm_hash_of r i) (\<lambda>h.
       Inr (c\<lparr>ed_num_free_slots := ed_num_free_slots c - k, allocated := allocated c @ [h]\<rparr>)))"

definition ed_free_encoder_input :: "request \<Rightarrow> nat \<Rightarrow> enc_dec_cache \<Rightarrow> enc_dec_cache res" where
  "ed_free_encoder_input r i c =
     rbind (get_num_encoder_embeds r i) (\<lambda>k.
       Inr (c\<lparr>ed_num_free_slots := ed_num_free_slots c + k\<rparr>))"

definition ed_free :: "request \<Rightarrow> enc_dec_cache \<Rightarrow> enc_dec_cache res" where
  "ed_free r c = rfold (ed_free_encoder_input r) [0..<length (mm_features r)] c"

definition ed_get_cached_input_ids :: "request \<Rightarrow> enc_dec_cache \<Rightarrow> nat list" where
  "ed_get_cached_input_ids r c = [0..<length (mm_features r)]"

definition ed_get_freed_mm_hashes :: "enc_dec_cache \<Rightarrow> string list \<times> enc_dec_cache" where
  "ed_get_freed_mm_hashes c = (to_free c, c\<lparr>to_free := allocated c, allocated := []\<rparr>)"


section \<open>The invariant\<close>

text \<open>
  The sizes of the items and the features of the requests are fixed: \<open>size_of h\<close> is the number of
  embeddings of the item with hash \<open>h\<close>, and \<open>feats rid\<close> are the features of the request \<open>rid\<close>.
\<close>

definition request_fits :: "(string \<Rightarrow> mm_feature list) \<Rightarrow> (string \<Rightarrow> int) \<Rightarrow> request \<Rightarrow> bool" where
  "request_fits feats size_of r \<longleftrightarrow>
     mm_features r = feats (request_id r) \<and>
     (\<forall>f\<in>set (mm_features r). get_num_embeds (mm_position f) = size_of (mm_identifier f) \<and>
                               0 \<le> size_of (mm_identifier f))"

definition referenced :: "encoder_cache \<Rightarrow> string set" where
  "referenced c = {h \<in> dom (cached c). cached c h \<noteq> Some []}"

definition holds_ref :: "encoder_cache \<Rightarrow> string \<Rightarrow> string \<Rightarrow> bool" where
  "holds_ref c h rid \<longleftrightarrow> (case cached c h of None \<Rightarrow> False | Some refs \<Rightarrow> rid \<in> set refs)"

definition ec_slots :: "(string \<Rightarrow> int) \<Rightarrow> encoder_cache \<Rightarrow> bool" where
  "ec_slots size_of c \<longleftrightarrow>
     finite (dom (cached c)) \<and>
     (\<forall>h\<in>dom (cached c). 0 \<le> size_of h) \<and>
     num_free_slots c = cache_size c - sum size_of (dom (cached c)) \<and>
     num_freeable_slots c = cache_size c - sum size_of (referenced c) \<and>
     distinct (map fst (freeable c)) \<and>
     map_of (freeable c) = (\<lambda>h. if cached c h = Some [] then Some (size_of h) else None) \<and>
     0 \<le> num_free_slots c"

definition ec_refs :: "(string \<Rightarrow> mm_feature list) \<Rightarrow> encoder_cache \<Rightarrow> bool" where
  "ec_refs feats c \<longleftrightarrow>
     (\<forall>rid. \<forall>i\<in>set (ids_of c rid). i < length (feats rid)) \<and>
     (\<forall>h rid. holds_ref c h rid \<longleftrightarrow>
        (\<exists>i\<in>set (ids_of c rid). mm_identifier (feats rid ! i) = h))"

lemma ec_init_slots: "0 \<le> n \<Longrightarrow> ec_slots size_of (ec_init n)"
  by (simp add: ec_slots_def ec_init_def referenced_def)

lemma ec_init_refs: "ec_refs feats (ec_init n)"
  by (simp add: ec_refs_def ec_init_def holds_ref_def ids_of_def)

lemma ec_reset_slots: "0 \<le> cache_size c \<Longrightarrow> ec_slots size_of (ec_reset c)"
  by (simp add: ec_slots_def ec_reset_def referenced_def)

lemma ec_reset_refs: "ec_refs feats (ec_reset c)"
  by (simp add: ec_refs_def ec_reset_def holds_ref_def ids_of_def)

lemma mm_hash_of_eq:
  "i < length (mm_features r) \<Longrightarrow> mm_hash_of r i = Inr (mm_identifier (mm_features r ! i))"
  by (simp add: mm_hash_of_def py_get_nonneg)

lemma mm_hash_of_Inr:
  "mm_hash_of r i = Inr h \<longleftrightarrow> i < length (mm_features r) \<and> h = mm_identifier (mm_features r ! i)"
  by (auto simp: mm_hash_of_def py_get_def)

lemma get_num_encoder_embeds_fits:
  assumes "request_fits feats size_of r" and "mm_hash_of r i = Inr h"
  shows "get_num_encoder_embeds r i = Inr (size_of h)" and "0 \<le> size_of h"
  using assms by (auto simp: request_fits_def get_num_encoder_embeds_def mm_hash_of_Inr)

lemma slots_bounds:
  assumes "ec_slots size_of c"
  shows "0 \<le> num_free_slots c" and "num_free_slots c \<le> num_freeable_slots c"
    and "num_freeable_slots c \<le> cache_size c"
proof -
  have f: "finite (dom (cached c))" and nn: "\<And>h. h \<in> dom (cached c) \<Longrightarrow> 0 \<le> size_of h"
    and sub: "referenced c \<subseteq> dom (cached c)"
    using assms by (auto simp: ec_slots_def referenced_def)
  have "sum size_of (referenced c) \<le> sum size_of (dom (cached c))"
    using f sub nn by (intro sum_mono2) auto
  moreover have "0 \<le> sum size_of (referenced c)" using sub nn by (intro sum_nonneg) auto
  ultimately show "0 \<le> num_free_slots c" and "num_free_slots c \<le> num_freeable_slots c"
    and "num_freeable_slots c \<le> cache_size c"
    using assms by (auto simp: ec_slots_def)
qed

lemma referenced_upd:
  "referenced (c\<lparr>cached := (cached c)(h \<mapsto> refs)\<rparr>) =
     (if refs = [] then referenced c - {h} else insert h (referenced c))"
  by (auto simp: referenced_def split: if_splits)

lemma sum_swap_in:
  fixes f :: "'a \<Rightarrow> int"
  shows "finite A \<Longrightarrow> h \<notin> A \<Longrightarrow> sum f (insert h A) = f h + sum f A"
    and "finite A \<Longrightarrow> h \<in> A \<Longrightarrow> sum f (A - {h}) = sum f A - f h"
  by (simp_all add: sum_diff1)

section \<open>Taking a reference\<close>

lemma add_ref_sel [simp]:
  "cache_size (add_ref h refs rid i c) = cache_size c"
  "num_free_slots (add_ref h refs rid i c) = num_free_slots c"
  "num_freeable_slots (add_ref h refs rid i c) = num_freeable_slots c"
  "freeable (add_ref h refs rid i c) = freeable c"
  "freed (add_ref h refs rid i c) = freed c"
  "cached (add_ref h refs rid i c) = (cached c)(h \<mapsto> List.insert rid refs)"
  by (simp_all add: add_ref_def)

lemma ids_of_add_ref:
  "ids_of (add_ref h refs rid i c) r' = (if r' = rid then List.insert i (ids_of c rid) else ids_of c r')"
  by (simp add: add_ref_def ids_of_def)

lemma add_ref_refs:
  assumes "ec_refs feats c" and "i < length (feats rid)" and "mm_identifier (feats rid ! i) = h"
    and "refs = (case cached c h of None \<Rightarrow> [] | Some rs \<Rightarrow> rs)"
  shows "ec_refs feats (add_ref h refs rid i c)"
proof -
  have "holds_ref (add_ref h refs rid i c) h' r' \<longleftrightarrow> holds_ref c h' r' \<or> h' = h \<and> r' = rid" for h' r'
    using assms(4) by (auto simp: holds_ref_def split: option.splits)
  then show ?thesis
    using assms(1-3) unfolding ec_refs_def by (auto simp: ids_of_add_ref)
qed

lemma ec_refs_cong:
  "cached c' = cached c \<Longrightarrow> request_cached_ids c' = request_cached_ids c \<Longrightarrow>
   ec_refs feats c' = ec_refs feats c"
  by (simp add: ec_refs_def holds_ref_def ids_of_def)

lemma map_of_delete_fun: "map_of (AList.delete h d) = (map_of d)(h := None)"
  by (rule delete_conv')

lemma check_and_update_spec:
  assumes s: "ec_slots size_of c" and r: "ec_refs feats c"
    and fit: "request_fits feats size_of q" and h: "mm_hash_of q i = Inr h"
  shows "\<exists>c'. check_and_update_cache q i c = Inr (cached c h \<noteq> None, c') \<and>
     ec_slots size_of c' \<and> ec_refs feats c' \<and>
     (cached c h \<noteq> None \<longrightarrow> holds_ref c' h (request_id q)) \<and>
     num_free_slots c' = num_free_slots c \<and> dom (cached c') = dom (cached c)"
proof (cases "cached c h")
  case None
  then show ?thesis using s r h by (simp add: check_and_update_cache_def)
next
  case (Some refs)
  let ?rid = "request_id q"
  have i: "i < length (feats ?rid)" "mm_identifier (feats ?rid ! i) = h"
    using h fit by (auto simp: mm_hash_of_Inr request_fits_def)
  have fin: "finite (referenced c)" using s by (auto simp: ec_slots_def referenced_def)
  have dom: "dom ((cached c)(h \<mapsto> List.insert ?rid refs)) = dom (cached c)" using Some by auto
  have ne: "List.insert ?rid refs \<noteq> []" by (auto simp: List.insert_def)
  show ?thesis
  proof (cases "refs = []")
    case True
    let ?c1 = "c\<lparr>freeable := AList.delete h (freeable c),
                 num_freeable_slots := num_freeable_slots c - size_of h\<rparr>"
    let ?c2 = "add_ref h refs ?rid i ?c1"
    have m: "map_of (freeable c) h = Some (size_of h)"
      using s Some True by (simp add: ec_slots_def)
    have nin: "h \<notin> referenced c" using Some True by (simp add: referenced_def)
    have R: "referenced ?c2 = insert h (referenced c)"
      using Some ne by (auto simp: referenced_def)
    have "ec_slots size_of ?c2"
      unfolding ec_slots_def R using s Some True dom ne
      by (auto simp: ec_slots_def sum_swap_in(1) [OF fin nin] map_of_delete_fun distinct_delete)
    moreover have "ec_refs feats ?c2"
      using i Some r by (intro add_ref_refs) (simp_all add: ec_refs_cong [of ?c1 c])
    ultimately show ?thesis
      using h Some True m dom by (simp add: check_and_update_cache_def holds_ref_def)
  next
    case False
    let ?c2 = "add_ref h refs ?rid i c"
    have R: "referenced ?c2 = referenced c"
      using Some False ne by (auto simp: referenced_def)
    have "ec_slots size_of ?c2"
      unfolding ec_slots_def R using s Some False dom ne by (auto simp: ec_slots_def)
    moreover have "ec_refs feats ?c2" using i Some r by (intro add_ref_refs) simp_all
    ultimately show ?thesis
      using h Some False dom by (simp add: check_and_update_cache_def holds_ref_def)
  qed
qed


section \<open>Reclaiming and reserving slots\<close>

lemma restrict_map_UNIV [simp]: "m |` UNIV = m"
  by (simp add: restrict_map_def)

definition evict_one :: "string \<Rightarrow> int \<Rightarrow> encoder_cache \<Rightarrow> encoder_cache" where
  \<comment> \<open>one round of the eviction loop\<close>
  "evict_one h k c = c\<lparr>cached := (cached c)(h := None), freed := freed c @ [h],
                       num_free_slots := num_free_slots c + k\<rparr>"

lemma evict_one_slots:
  assumes "ec_slots size_of (c\<lparr>freeable := (h, k) # fs\<rparr>)"
  shows "cached c h = Some []" and "ec_slots size_of ((evict_one h k c)\<lparr>freeable := fs\<rparr>)"
proof -
  let ?c1 = "(evict_one h k c)\<lparr>freeable := fs\<rparr>"
  note s = assms [unfolded ec_slots_def, simplified]
  have m: "(map_of fs)(h \<mapsto> k) = (\<lambda>h. if cached c h = Some [] then Some (size_of h) else None)"
    using s by simp
  from fun_cong [OF m, of h] show h: "cached c h = Some []" by (auto split: if_splits)
  with fun_cong [OF m, of h] have k: "k = size_of h" by simp
  have "map_of fs h = None" using s by (simp add: map_of_eq_None_iff)
  then have "map_of fs x = (if cached ?c1 x = Some [] then Some (size_of x) else None)" for x
    using fun_cong [OF m, of x] by (auto simp: evict_one_def split: if_splits)
  then have m': "map_of fs = (\<lambda>x. if cached ?c1 x = Some [] then Some (size_of x) else None)" ..
  have R: "referenced ?c1 = referenced c" using h by (auto simp: referenced_def evict_one_def)
  have R0: "referenced (c\<lparr>freeable := (h, k) # fs\<rparr>) = referenced c" by (simp add: referenced_def)
  have D: "dom (cached ?c1) = dom (cached c) - {h}" by (auto simp: evict_one_def)
  have "sum size_of (dom (cached c) - {h}) = sum size_of (dom (cached c)) - size_of h"
    using s h by (intro sum_swap_in(2)) auto
  moreover have "0 \<le> size_of h" using s h by auto
  ultimately show "ec_slots size_of ?c1"
    unfolding ec_slots_def R D using s m' k R0 by (simp add: evict_one_def)
qed

lemma no_freeable_slots:
  assumes "ec_slots size_of (c\<lparr>freeable := []\<rparr>)"
  shows "num_free_slots c = num_freeable_slots c"
proof -
  note s = assms [unfolded ec_slots_def, simplified]
  have "cached c h \<noteq> Some []" for h
  proof -
    have "(\<lambda>h. if cached c h = Some [] then Some (size_of h) else None) h = None"
      using s by (metis (no_types))
    then show ?thesis by (auto split: if_splits)
  qed
  then have "referenced (c\<lparr>freeable := []\<rparr>) = dom (cached c)" by (auto simp: referenced_def)
  with s show ?thesis by simp
qed

lemma evict_loop_spec:
  assumes "ec_slots size_of (c\<lparr>freeable := fs\<rparr>)" and "n \<le> num_freeable_slots c"
  shows "\<exists>c' ev. evict_loop n fs c = Inr c' \<and> ec_slots size_of c' \<and>
     n \<le> num_free_slots c' \<and> fs = ev @ freeable c' \<and>
     cached c' = (cached c) |` (- set (map fst ev)) \<and>
     (\<forall>h\<in>set (map fst ev). cached c h = Some []) \<and>
     freed c' = freed c @ map fst ev \<and>
     num_free_slots c' = num_free_slots c + sum_list (map snd ev) \<and>
     (ev \<noteq> [] \<longrightarrow> num_free_slots c + sum_list (map snd (butlast ev)) < n) \<and>
     num_freeable_slots c' = num_freeable_slots c \<and> cache_size c' = cache_size c \<and>
     request_cached_ids c' = request_cached_ids c"
  using assms
proof (induction fs arbitrary: c)
  case Nil
  then have "n \<le> num_free_slots c" using no_freeable_slots by simp
  with Nil show ?case by (intro exI [of _ "c\<lparr>freeable := []\<rparr>"] exI [of _ "[]"]) simp
next
  case (Cons p fs)
  obtain h k where p: "p = (h, k)" by (cases p)
  show ?case
  proof (cases "n > num_free_slots c")
    case False
    then show ?thesis using Cons.prems p
      by (intro exI [of _ "c\<lparr>freeable := (h, k) # fs\<rparr>"] exI [of _ "[]"]) simp
  next
    case True
    let ?c1 = "evict_one h k c"
    have h: "cached c h = Some []" and s1: "ec_slots size_of (?c1\<lparr>freeable := fs\<rparr>)"
      using evict_one_slots Cons.prems(1) p by auto
    have "n \<le> num_freeable_slots ?c1" using Cons.prems(2) by (simp add: evict_one_def)
    from Cons.IH [OF s1 this] obtain c' ev where
      e: "evict_loop n fs ?c1 = Inr c'" and
      f: "ec_slots size_of c'" "n \<le> num_free_slots c'" "fs = ev @ freeable c'"
        "cached c' = cached ?c1 |` (- set (map fst ev))"
        "freed c' = freed ?c1 @ map fst ev"
        "num_free_slots c' = num_free_slots ?c1 + sum_list (map snd ev)"
        "num_freeable_slots c' = num_freeable_slots ?c1" "cache_size c' = cache_size ?c1"
        "request_cached_ids c' = request_cached_ids ?c1" and
      u: "\<forall>h\<in>set (map fst ev). cached ?c1 h = Some []" and
      l: "ev \<noteq> [] \<longrightarrow> num_free_slots ?c1 + sum_list (map snd (butlast ev)) < n"
      by (elim exE conjE) blast
    have "evict_loop n (p # fs) c = Inr c'" using True h e p by (simp add: evict_one_def)
    moreover have "cached c' = (cached c) |` (- set (map fst (p # ev)))"
      using f(4) p by (auto simp: evict_one_def restrict_map_def fun_eq_iff)
    moreover have "\<forall>h\<in>set (map fst (p # ev)). cached c h = Some []"
      using u h p by (auto simp: evict_one_def split: if_splits)
    ultimately show ?thesis using f l p True
      by (intro exI [of _ c'] exI [of _ "p # ev"]) (simp add: evict_one_def add.assoc)
  qed
qed

lemma holds_ref_restrict:
  assumes "\<forall>h\<in>S. cached c h = Some []"
    and "cached c' = (cached c) |` (- S)"
  shows "holds_ref c' h rid = holds_ref c h rid"
  using assms by (auto simp: holds_ref_def restrict_map_def)

lemma ec_can_allocate_cases:
  assumes s: "ec_slots size_of c" and fit: "request_fits feats size_of q" and h: "mm_hash_of q i = Inr h"
  shows "\<exists>c' ev. ec_can_allocate q i budget scheduled c =
       Inr (size_of h \<le> budget \<and> size_of h + scheduled \<le> num_freeable_slots c, c') \<and>
     ec_slots size_of c' \<and>
     (size_of h \<le> budget \<and> size_of h + scheduled \<le> num_freeable_slots c \<longrightarrow>
        size_of h + scheduled \<le> num_free_slots c') \<and>
     (\<not> (size_of h \<le> budget \<and> size_of h + scheduled \<le> num_freeable_slots c) \<longrightarrow> c' = c) \<and>
     freeable c = ev @ freeable c' \<and>
     cached c' = (cached c) |` (- set (map fst ev)) \<and>
     (\<forall>h\<in>set (map fst ev). cached c h = Some []) \<and>
     freed c' = freed c @ map fst ev \<and>
     (ev \<noteq> [] \<longrightarrow> num_free_slots c + sum_list (map snd (butlast ev)) < size_of h + scheduled) \<and>
     num_freeable_slots c' = num_freeable_slots c \<and> cache_size c' = cache_size c \<and>
     request_cached_ids c' = request_cached_ids c"
proof -
  note k = get_num_encoder_embeds_fits(1) [OF fit h]
  let ?n = "size_of h + scheduled"
  have same: ?thesis if "ec_can_allocate q i budget scheduled c =
      Inr (size_of h \<le> budget \<and> ?n \<le> num_freeable_slots c, c)"
    and "size_of h \<le> budget \<and> ?n \<le> num_freeable_slots c \<longrightarrow> ?n \<le> num_free_slots c"
    using that s by (intro exI [of _ c] exI [of _ "[]"]) simp
  consider "size_of h > budget" | "size_of h \<le> budget" "?n \<le> num_free_slots c"
    | "size_of h \<le> budget" "?n > num_free_slots c" "?n > num_freeable_slots c"
    | "size_of h \<le> budget" "?n > num_free_slots c" "?n \<le> num_freeable_slots c" by linarith
  then show ?thesis
  proof cases
    case 1 then show ?thesis using k by (intro same) (auto simp: ec_can_allocate_def)
  next
    case 2 then show ?thesis using k slots_bounds(2) [OF s] by (intro same) (auto simp: ec_can_allocate_def)
  next
    case 3 then show ?thesis using k by (intro same) (auto simp: ec_can_allocate_def)
  next
    case 4
    have "ec_slots size_of (c\<lparr>freeable := freeable c\<rparr>)" using s by simp
    from evict_loop_spec [OF this 4(3)] obtain c' ev where
      "evict_loop ?n (freeable c) c = Inr c'" and f: "ec_slots size_of c'" "?n \<le> num_free_slots c'"
        "freeable c = ev @ freeable c'" "cached c' = (cached c) |` (- set (map fst ev))"
        "\<forall>h\<in>set (map fst ev). cached c h = Some []" "freed c' = freed c @ map fst ev"
        "ev \<noteq> [] \<longrightarrow> num_free_slots c + sum_list (map snd (butlast ev)) < ?n"
        "num_freeable_slots c' = num_freeable_slots c" "cache_size c' = cache_size c"
        "request_cached_ids c' = request_cached_ids c"
      by (elim exE conjE) blast
    then have e: "ec_can_allocate q i budget scheduled c = Inr (True, c')"
      using 4 k by (simp add: ec_can_allocate_def)
    show ?thesis using e f 4 by (intro exI [of _ c'] exI [of _ ev]) simp
  qed
qed

lemma ec_allocate_spec:
  assumes s: "ec_slots size_of c" and r: "ec_refs feats c" and fit: "request_fits feats size_of q"
    and h: "mm_hash_of q i = Inr h" and new: "cached c h = None" and room: "size_of h \<le> num_free_slots c"
  shows "\<exists>c'. ec_allocate q i c = Inr c' \<and> ec_slots size_of c' \<and> ec_refs feats c' \<and>
     cached c' = (cached c)(h \<mapsto> [request_id q]) \<and>
     num_free_slots c' = num_free_slots c - size_of h \<and>
     num_freeable_slots c' = num_freeable_slots c - size_of h"
proof -
  let ?rid = "request_id q"
  let ?c1 = "add_ref h [] ?rid i c"
  let ?c2 = "?c1\<lparr>num_free_slots := num_free_slots ?c1 - size_of h,
                 num_freeable_slots := num_freeable_slots ?c1 - size_of h\<rparr>"
  note k = get_num_encoder_embeds_fits [OF fit h]
  have i: "i < length (feats ?rid)" "mm_identifier (feats ?rid ! i) = h"
    using h fit by (auto simp: mm_hash_of_Inr request_fits_def)
  have "num_freeable_slots c \<ge> size_of h" using slots_bounds(2) [OF s] room by simp
  then have e: "ec_allocate q i c = Inr ?c2" using h k new room by (simp add: ec_allocate_def)
  have fin: "finite (dom (cached c))" "finite (referenced c)"
    using s by (auto simp: ec_slots_def referenced_def)
  have nin: "h \<notin> dom (cached c)" "h \<notin> referenced c" using new by (auto simp: referenced_def)
  have D: "dom (cached ?c2) = insert h (dom (cached c))" by auto
  have R: "referenced ?c2 = insert h (referenced c)" by (auto simp: referenced_def)
  have m: "map_of (freeable ?c2) = (\<lambda>x. if cached ?c2 x = Some [] then Some (size_of x) else None)"
    using s new by (auto simp: ec_slots_def)
  have "ec_slots size_of ?c2"
    unfolding ec_slots_def D R m using s k(2) room
    by (simp add: ec_slots_def sum_swap_in(1) [OF fin(1) nin(1)] sum_swap_in(1) [OF fin(2) nin(2)])
  moreover have "ec_refs feats ?c1" using r i new by (intro add_ref_refs) simp_all
  then have "ec_refs feats ?c2" by (subst ec_refs_cong [of ?c2 ?c1]) simp_all
  ultimately show ?thesis using e by simp
qed


section \<open>Giving a reference back\<close>

lemma drop_id_sel [simp]:
  "cache_size (drop_id rid i c) = cache_size c"
  "num_free_slots (drop_id rid i c) = num_free_slots c"
  "num_freeable_slots (drop_id rid i c) = num_freeable_slots c"
  "freeable (drop_id rid i c) = freeable c"
  "freed (drop_id rid i c) = freed c"
  "cached (drop_id rid i c) = cached c"
  by (simp_all add: drop_id_def Let_def split: option.splits)

lemma ids_of_drop_id:
  "ids_of (drop_id rid i c) r' = (if r' = rid then filter (\<lambda>j. j \<noteq> i) (ids_of c rid) else ids_of c r')"
  by (auto simp: drop_id_def ids_of_def Let_def split: option.splits)

lemma any_same_hash_eq:
  "\<forall>j\<in>set js. j < length (mm_features r) \<Longrightarrow>
   any_same_hash r h js = Inr (\<exists>j\<in>set js. mm_identifier (mm_features r ! j) = h)"
  by (induction js) (auto simp: mm_hash_of_eq)

lemma ec_refs_dropI:
  assumes "ec_refs feats c" and "mm_identifier (feats rid ! i) = h"
    and ids: "\<And>r'. ids_of c' r' = (if r' = rid then filter (\<lambda>j. j \<noteq> i) (ids_of c rid) else ids_of c r')"
    and ref: "\<And>h' r'. holds_ref c' h' r' \<longleftrightarrow> holds_ref c h' r' \<and>
       \<not> (h' = h \<and> r' = rid \<and> \<not> (\<exists>j\<in>set (ids_of c' rid). mm_identifier (feats rid ! j) = h))"
  shows "ec_refs feats c'"
  using assms(1,2) unfolding ec_refs_def ref by (auto simp: ids)

lemma ec_slots_cong:
  assumes "cache_size c' = cache_size c" and "num_free_slots c' = num_free_slots c"
    and "num_freeable_slots c' = num_freeable_slots c" and "cached c' = cached c"
    and "freeable c' = freeable c"
  shows "ec_slots size_of c' = ec_slots size_of c"
  using assms by (simp add: ec_slots_def referenced_def)

definition release_ref :: "string \<Rightarrow> string \<Rightarrow> int \<Rightarrow> string list \<Rightarrow> encoder_cache \<Rightarrow> encoder_cache" where
  \<comment> \<open>the tail of \<^verbatim>\<open>free_encoder_input\<close>: the request leaves the reference set\<close>
  "release_ref h rid k refs c =
     (let refs' = filter (\<lambda>x. x \<noteq> rid) refs; c2 = c\<lparr>cached := (cached c)(h \<mapsto> refs')\<rparr>
      in if refs' = [] then c2\<lparr>freeable := AList.update h k (freeable c2),
                              num_freeable_slots := num_freeable_slots c2 + k\<rparr>
         else c2)"

lemma release_ref_slots:
  assumes s: "ec_slots size_of c" and h: "cached c h = Some refs" "refs \<noteq> []"
  shows "ec_slots size_of (release_ref h rid (size_of h) refs c)"
proof -
  let ?refs' = "filter (\<lambda>x. x \<noteq> rid) refs"
  let ?c' = "release_ref h rid (size_of h) refs c"
  have D: "dom (cached ?c') = dom (cached c)" using h by (auto simp: release_ref_def Let_def)
  have m: "map_of (freeable c) h = None" using s h by (simp add: ec_slots_def)
  have fin: "finite (referenced c)" using s by (auto simp: ec_slots_def referenced_def)
  have "h \<in> referenced c" using h by (auto simp: referenced_def)
  note out = sum_swap_in(2) [OF fin this, of size_of]
  show ?thesis
  proof (cases "?refs' = []")
    case True
    have R: "referenced ?c' = referenced c - {h}"
      using True by (auto simp: referenced_def release_ref_def split: if_splits)
    have "map_of (freeable ?c') = (\<lambda>x. if cached ?c' x = Some [] then Some (size_of x) else None)"
      using s True by (auto simp: ec_slots_def release_ref_def update_conv' fun_eq_iff)
    moreover have "distinct (map fst (freeable ?c'))"
      using s True by (simp add: ec_slots_def release_ref_def distinct_update)
    ultimately show ?thesis
      unfolding ec_slots_def D R using s True out by (simp add: ec_slots_def release_ref_def)
  next
    case False
    have R: "referenced ?c' = referenced c"
      using False h by (auto simp: referenced_def release_ref_def split: if_splits)
    have "map_of (freeable ?c') = (\<lambda>x. if cached ?c' x = Some [] then Some (size_of x) else None)"
      using s False h by (auto simp: ec_slots_def release_ref_def fun_eq_iff)
    then show ?thesis
      unfolding ec_slots_def D R using s False by (simp add: ec_slots_def release_ref_def)
  qed
qed

lemma free_encoder_input_spec:
  assumes s: "ec_slots size_of c" and r: "ec_refs feats c" and fit: "request_fits feats size_of q"
    and i: "i < length (mm_features q)"
  shows "\<exists>c'. free_encoder_input q i c = Inr c' \<and> ec_slots size_of c' \<and> ec_refs feats c' \<and>
     (\<forall>r'. ids_of c' r' = (if r' = request_id q then filter (\<lambda>j. j \<noteq> i) (ids_of c r') else ids_of c r')) \<and>
     dom (cached c') = dom (cached c) \<and> num_free_slots c' = num_free_slots c \<and>
     cache_size c' = cache_size c"
proof -
  let ?rid = "request_id q"
  let ?c1 = "drop_id ?rid i c"
  define h where "h = mm_identifier (mm_features q ! i)"
  have hh: "mm_hash_of q i = Inr h" using i by (simp add: h_def mm_hash_of_eq)
  note k = get_num_encoder_embeds_fits(1) [OF fit hh]
  have fe: "mm_features q = feats ?rid" using fit by (simp add: request_fits_def)
  have hf: "mm_identifier (feats ?rid ! i) = h" using h_def fe by simp
  have rng: "\<forall>j\<in>set (ids_of ?c1 ?rid). j < length (mm_features q)"
    using r fe by (auto simp: ec_refs_def ids_of_drop_id)
  note any = any_same_hash_eq [OF rng, of h]
  let ?held = "\<exists>j\<in>set (ids_of ?c1 ?rid). mm_identifier (mm_features q ! j) = h"
  have s1: "ec_slots size_of ?c1" using s by (subst ec_slots_cong [of _ c]) simp_all
  note refsI = ec_refs_dropI [OF r hf]
  have ref1: "holds_ref ?c1 = holds_ref c" by (simp add: holds_ref_def fun_eq_iff)
  have keep: ?thesis if e: "free_encoder_input q i c = Inr ?c1"
    and g: "?held \<or> \<not> holds_ref c h ?rid"
  proof -
    have "ec_refs feats ?c1"
      by (rule refsI) (use g in \<open>auto simp: ids_of_drop_id ref1 fe\<close>)
    then show ?thesis using e s1 by (intro exI [of _ ?c1]) (simp add: ids_of_drop_id)
  qed
  show ?thesis
  proof (cases "cached c h = None \<or> cached c h = Some []")
    case True
    then show ?thesis using hh
      by (intro keep) (auto simp: free_encoder_input_def holds_ref_def Let_def)
  next
    case False
    then obtain refs where refs: "cached c h = Some refs" "refs \<noteq> []" by auto
    show ?thesis
    proof (cases ?held)
      case True
      then show ?thesis using hh refs any
        by (intro keep) (simp_all add: free_encoder_input_def Let_def)
    next
      case nheld: False
      let ?c' = "release_ref h ?rid (size_of h) refs ?c1"
      have e: "free_encoder_input q i c = Inr ?c'"
        using hh refs any nheld k by (simp add: free_encoder_input_def release_ref_def Let_def)
      have s': "ec_slots size_of ?c'" using s1 refs by (intro release_ref_slots) simp_all
      have ids': "ids_of ?c' = ids_of ?c1" by (simp add: release_ref_def Let_def ids_of_def fun_eq_iff)
      have c': "cached ?c' = (cached c)(h \<mapsto> filter (\<lambda>x. x \<noteq> ?rid) refs)"
        by (simp add: release_ref_def Let_def)
      have "ec_refs feats ?c'"
        by (rule refsI) (use nheld refs in
          \<open>auto simp: ids' ids_of_drop_id fe holds_ref_def c' split: option.splits\<close>)
      moreover have "dom (cached ?c') = dom (cached c)" using c' refs by auto
      moreover have "num_free_slots ?c' = num_free_slots c" "cache_size ?c' = cache_size c"
        by (simp_all add: release_ref_def Let_def)
      ultimately show ?thesis using e s'
        by (intro exI [of _ ?c']) (simp add: ids' ids_of_drop_id)
    qed
  qed
qed


lemma ec_free_loop_spec:
  assumes "ec_slots size_of c" and "ec_refs feats c" and fit: "request_fits feats size_of q"
    and "\<forall>i\<in>set is. i < length (mm_features q)"
  shows "\<exists>c'. rfold (free_encoder_input q) is c = Inr c' \<and> ec_slots size_of c' \<and> ec_refs feats c' \<and>
     (\<forall>r'. ids_of c' r' =
        (if r' = request_id q then filter (\<lambda>j. j \<notin> set is) (ids_of c r') else ids_of c r')) \<and>
     dom (cached c') = dom (cached c) \<and> num_free_slots c' = num_free_slots c \<and>
     cache_size c' = cache_size c"
  using assms(1,2,4)
proof (induction "is" arbitrary: c)
  case Nil
  then show ?case by simp
next
  case (Cons i "is")
  from free_encoder_input_spec [OF Cons.prems(1,2) fit, of i] Cons.prems(3) obtain c1 where
    c1: "free_encoder_input q i c = Inr c1" "ec_slots size_of c1" "ec_refs feats c1"
      "dom (cached c1) = dom (cached c)" "num_free_slots c1 = num_free_slots c"
      "cache_size c1 = cache_size c" and
    i1: "\<And>r'. ids_of c1 r' = (if r' = request_id q then filter (\<lambda>j. j \<noteq> i) (ids_of c r') else ids_of c r')"
    by auto
  from Cons.IH [OF c1(2,3)] Cons.prems(3) obtain c2 where
    c2: "rfold (free_encoder_input q) is c1 = Inr c2" "ec_slots size_of c2" "ec_refs feats c2"
      "dom (cached c2) = dom (cached c1)" "num_free_slots c2 = num_free_slots c1"
      "cache_size c2 = cache_size c1" and
    i2: "\<And>r'. ids_of c2 r' =
      (if r' = request_id q then filter (\<lambda>j. j \<notin> set is) (ids_of c1 r') else ids_of c1 r')"
    by auto
  have "ids_of c2 r' = (if r' = request_id q then filter (\<lambda>j. j \<notin> set (i # is)) (ids_of c r')
                        else ids_of c r')" for r'
    by (simp add: i1 i2 conj_commute cong: conj_cong)
  then show ?case using c1 c2 by (intro exI [of _ c2]) simp
qed

lemma ec_free_spec:
  assumes s: "ec_slots size_of c" and r: "ec_refs feats c" and fit: "request_fits feats size_of q"
  shows "\<exists>c'. ec_free q c = Inr c' \<and> ec_slots size_of c' \<and> ec_refs feats c' \<and>
     (\<forall>h r'. holds_ref c' h r' \<longleftrightarrow> holds_ref c h r' \<and> r' \<noteq> request_id q) \<and>
     dom (cached c') = dom (cached c) \<and> num_free_slots c' = num_free_slots c"
proof -
  let ?ids = "ids_of c (request_id q)"
  have "\<forall>i\<in>set ?ids. i < length (mm_features q)"
    using r fit by (auto simp: ec_refs_def request_fits_def)
  from ec_free_loop_spec [OF s r fit this] obtain c' where
    c': "rfold (free_encoder_input q) ?ids c = Inr c'" "ec_slots size_of c'" "ec_refs feats c'"
      "dom (cached c') = dom (cached c)" "num_free_slots c' = num_free_slots c" and
    ids: "\<And>r'. ids_of c' r' = (if r' = request_id q then [] else ids_of c r')"
    by auto
  have "holds_ref c' h r' \<longleftrightarrow> holds_ref c h r' \<and> r' \<noteq> request_id q" for h r'
    using c'(3) r ids [of r'] by (simp add: ec_refs_def)
  with c' show ?thesis by (simp add: ec_free_def get_cached_input_ids_def)
qed

section \<open>Histories\<close>

text \<open>
  The calls the scheduler makes, in any order. It allocates an item only after
  \<^const>\<open>check_and_update_cache\<close> has answered that the item is not cached.
\<close>

inductive ec_step ::
  "(string \<Rightarrow> mm_feature list) \<Rightarrow> (string \<Rightarrow> int) \<Rightarrow> encoder_cache \<Rightarrow> encoder_cache \<Rightarrow> bool"
  for feats size_of
where
  check: "request_fits feats size_of q \<Longrightarrow> check_and_update_cache q i c = Inr (b, c') \<Longrightarrow>
    ec_step feats size_of c c'"
| can_allocate: "request_fits feats size_of q \<Longrightarrow>
    ec_can_allocate q i budget scheduled c = Inr (b, c') \<Longrightarrow> ec_step feats size_of c c'"
| allocate: "request_fits feats size_of q \<Longrightarrow> check_and_update_cache q i c = Inr (False, c) \<Longrightarrow>
    ec_allocate q i c = Inr c' \<Longrightarrow> ec_step feats size_of c c'"
| free_input: "request_fits feats size_of q \<Longrightarrow> free_encoder_input q i c = Inr c' \<Longrightarrow>
    ec_step feats size_of c c'"
| free: "request_fits feats size_of q \<Longrightarrow> ec_free q c = Inr c' \<Longrightarrow> ec_step feats size_of c c'"
| freed: "get_freed_mm_hashes c = (hs, c') \<Longrightarrow> ec_step feats size_of c c'"
| reset: "ec_step feats size_of c (ec_reset c)"

definition ec_inv :: "(string \<Rightarrow> mm_feature list) \<Rightarrow> (string \<Rightarrow> int) \<Rightarrow> int \<Rightarrow> encoder_cache \<Rightarrow> bool" where
  "ec_inv feats size_of n c \<longleftrightarrow> ec_slots size_of c \<and> ec_refs feats c \<and> cache_size c = n"

lemma check_cache_size: "check_and_update_cache q i c = Inr (b, c') \<Longrightarrow> cache_size c' = cache_size c"
  by (auto simp: check_and_update_cache_def split: option.splits if_splits)

lemma allocate_cache_size: "ec_allocate q i c = Inr c' \<Longrightarrow> cache_size c' = cache_size c"
  by (auto simp: ec_allocate_def Let_def split: option.splits)

lemma check_False: "check_and_update_cache q i c = Inr (False, c') \<Longrightarrow>
   \<exists>h. mm_hash_of q i = Inr h \<and> cached c h = None"
  by (auto simp: check_and_update_cache_def split: option.splits)

lemma free_input_range: "free_encoder_input q i c = Inr c' \<Longrightarrow> i < length (mm_features q)"
  by (auto simp: free_encoder_input_def mm_hash_of_Inr)

lemma ec_step_inv:
  assumes "ec_step feats size_of c c'" and "ec_inv feats size_of n c"
  shows "ec_inv feats size_of n c'"
  using assms
proof (induction rule: ec_step.induct)
  case (check q i c b c')
  then obtain h where "mm_hash_of q i = Inr h" by (auto simp: check_and_update_cache_def)
  from check_and_update_spec [OF _ _ check(1) this, of c] check show ?case
    by (auto simp: ec_inv_def dest: check_cache_size)
next
  case (can_allocate q i budget scheduled c b c')
  then have "i < length (mm_features q)"
    by (auto simp: ec_can_allocate_def get_num_encoder_embeds_def split: if_splits)
  then obtain h where h: "mm_hash_of q i = Inr h" by (simp add: mm_hash_of_eq)
  have s: "ec_slots size_of c" and r: "ec_refs feats c" and n: "cache_size c = n"
    using can_allocate(3) by (simp_all add: ec_inv_def)
  from ec_can_allocate_cases [OF s can_allocate(1) h, of budget scheduled]
  obtain d b' and ev :: "(string \<times> int) list" where d: "ec_can_allocate q i budget scheduled c = Inr (b', d)" and
    ev: "ec_slots size_of d" "cached d = (cached c) |` (- set (map fst ev))"
    "\<forall>h\<in>set (map fst ev). cached c h = Some []" "cache_size d = cache_size c"
    "request_cached_ids d = request_cached_ids c" by (elim exE conjE) blast
  have "d = c'" using d can_allocate(2) by simp
  note ev = ev [unfolded this]
  have "ec_refs feats c'"
    using r unfolding ec_refs_def ids_of_def ev(5) holds_ref_restrict [OF ev(3,2)] .
  with ev n show ?case by (simp add: ec_inv_def)
next
  case (allocate q i c c')
  then obtain h where h: "mm_hash_of q i = Inr h" "cached c h = None" using check_False by blast
  have s: "ec_slots size_of c" and r: "ec_refs feats c" and n: "cache_size c = n"
    using allocate(4) by (simp_all add: ec_inv_def)
  note k = get_num_encoder_embeds_fits(1) [OF allocate(1) h(1)]
  have "size_of h \<le> num_free_slots c" using allocate(3) h k by (auto simp: ec_allocate_def)
  from ec_allocate_spec [OF s r allocate(1) h this] allocate(3) n show ?case
    by (auto simp: ec_inv_def dest: allocate_cache_size)
next
  case (free_input q i c c')
  from free_encoder_input_spec [OF _ _ free_input(1) free_input_range [OF free_input(2)], of c]
    free_input(2,3) show ?case by (auto simp: ec_inv_def)
next
  case (free q c c')
  have "ec_slots size_of c" "ec_refs feats c" using free(3) by (simp_all add: ec_inv_def)
  moreover from this(2) free(1) have "\<forall>i\<in>set (ids_of c (request_id q)). i < length (mm_features q)"
    by (auto simp: ec_refs_def request_fits_def)
  ultimately show ?case
    using ec_free_loop_spec [of size_of c feats q "ids_of c (request_id q)"] free
    by (auto simp: ec_inv_def ec_free_def get_cached_input_ids_def)
next
  case (freed c hs c')
  then have "c' = c\<lparr>freed := []\<rparr>" by (simp add: get_freed_mm_hashes_def)
  with freed(2) show ?case
    using ec_slots_cong [of c' c size_of] ec_refs_cong [of c' c feats] by (simp add: ec_inv_def)
next
  case (reset c)
  then have "0 \<le> cache_size c" using slots_bounds [of size_of c] by (simp add: ec_inv_def)
  with reset show ?case
    by (simp add: ec_inv_def ec_reset_slots ec_reset_refs) (simp add: ec_reset_def)
qed

definition ec_reachable ::
  "(string \<Rightarrow> mm_feature list) \<Rightarrow> (string \<Rightarrow> int) \<Rightarrow> int \<Rightarrow> encoder_cache \<Rightarrow> bool"
where
  "ec_reachable feats size_of n c \<longleftrightarrow> (ec_step feats size_of)\<^sup>*\<^sup>* (ec_init n) c"

lemma ec_reachable_inv:
  assumes "ec_reachable feats size_of n c" and "0 \<le> n"
  shows "ec_inv feats size_of n c"
  using assms(1) unfolding ec_reachable_def
proof (induction rule: rtranclp_induct)
  case base
  show ?case using assms(2)
    by (simp add: ec_inv_def ec_init_slots ec_init_refs) (simp add: ec_init_def)
next
  case (step c c')
  then show ?case using ec_step_inv by blast
qed


section \<open>Properties\<close>

definition image_request :: "string \<Rightarrow> string \<Rightarrow> request" where
  \<comment> \<open>a request with one image of three tokens, for instantiating the theorems below\<close>
  "image_request rid h = (sample_request rid [7, 7, 7])\<lparr>mm_features :=
     [\<lparr>mm_identifier = h, mm_position = \<lparr>offset = 0, plen = 3, is_embed = None\<rparr>\<rparr>]\<rparr>"

definition image_feats :: "string \<Rightarrow> mm_feature list" where
  "image_feats rid = mm_features (image_request rid rid)"

definition one_unreferenced :: encoder_cache where
  \<comment> \<open>a cache of five slots after a request has cached an image and finished\<close>
  "one_unreferenced =
     \<lparr>cache_size = 5, num_free_slots = 2, num_freeable_slots = 5, cached = [''a'' \<mapsto> []],
      request_cached_ids = (\<lambda>_. None)(''a'' := None), freeable = [(''a'', 3)], freed = []\<rparr>"

lemmas ec_eval = image_request_def sample_request_def mm_hash_of_def py_get_def add_ref_def ids_of_def
  check_and_update_cache_def ec_allocate_def get_num_encoder_embeds_def get_num_embeds_def
  embeds_cumsum_def ec_init_def ec_free_def get_cached_input_ids_def free_encoder_input_def drop_id_def
  ec_can_allocate_def one_unreferenced_def

lemma image_request_fits: "request_fits image_feats (\<lambda>_. 3) (image_request rid rid)"
  by (simp add: request_fits_def image_feats_def image_request_def sample_request_def
      get_num_embeds_def embeds_cumsum_def)

lemma one_unreferenced_reachable: "ec_reachable image_feats (\<lambda>_. 3) 5 one_unreferenced"
proof -
  let ?q = "image_request ''a'' ''a''"
  let ?c = "\<lparr>cache_size = 5, num_free_slots = 2, num_freeable_slots = 2, cached = [''a'' \<mapsto> [''a'']],
      request_cached_ids = [''a'' \<mapsto> [0]], freeable = [], freed = []\<rparr> :: encoder_cache"
  have a: "ec_allocate ?q 0 (ec_init 5) = Inr ?c" by (simp add: ec_eval)
  have n: "check_and_update_cache ?q 0 (ec_init 5) = Inr (False, ec_init 5)" by (simp add: ec_eval)
  have f: "ec_free ?q ?c = Inr one_unreferenced" by (simp add: ec_eval Let_def)
  show ?thesis unfolding ec_reachable_def
    using ec_step.allocate [OF image_request_fits n a] ec_step.free [OF image_request_fits f]
    by (rule rtranclp.rtrancl_into_rtrancl [OF r_into_rtranclp])
qed

text \<open>
  C29: slot accounting of the encoder cache: in every state the manager can reach, the slots that are
  not free are exactly those of the cached items, the slots that cannot be reclaimed are exactly those
  of the items some request refers to, both counters stay within the cache size, the queue of
  reclaimable items lists each unreferenced item once with its size, and a request refers to an item
  exactly when one of its cached inputs has that hash.
\<close>
theorem encoder_cache_accounting:
  assumes "0 \<le> n" and "ec_reachable feats size_of n c"
  shows "num_free_slots c = n - (\<Sum>h | cached c h \<noteq> None. size_of h) \<and>
    num_freeable_slots c = n - (\<Sum>h | cached c h \<noteq> None \<and> cached c h \<noteq> Some []. size_of h) \<and>
    0 \<le> num_free_slots c \<and> num_free_slots c \<le> num_freeable_slots c \<and> num_freeable_slots c \<le> n \<and>
    distinct (map fst (freeable c)) \<and>
    set (freeable c) = {(h, k). cached c h = Some [] \<and> k = size_of h} \<and>
    (\<forall>h rid. holds_ref c h rid \<longleftrightarrow>
       (\<exists>i\<in>set (ids_of c rid). i < length (feats rid) \<and> mm_identifier (feats rid ! i) = h))"
proof -
  have inv: "ec_slots size_of c" "ec_refs feats c" "cache_size c = n"
    using ec_reachable_inv [OF assms(2,1)] by (simp_all add: ec_inv_def)
  have d: "distinct (map fst (freeable c))" using inv(1) by (simp add: ec_slots_def)
  have "(h, k) \<in> set (freeable c) \<longleftrightarrow> cached c h = Some [] \<and> k = size_of h" for h k
    using inv(1) map_of_eq_Some_iff [OF d, of h k] by (auto simp: ec_slots_def split: if_splits)
  then have "set (freeable c) = {(h, k). cached c h = Some [] \<and> k = size_of h}" by auto
  moreover have "referenced c = {h. cached c h \<noteq> None \<and> cached c h \<noteq> Some []}"
    "dom (cached c) = {h. cached c h \<noteq> None}"
    by (auto simp: referenced_def)
  moreover have "\<forall>h rid. holds_ref c h rid \<longleftrightarrow>
       (\<exists>i\<in>set (ids_of c rid). i < length (feats rid) \<and> mm_identifier (feats rid ! i) = h)"
    using inv(2) by (auto simp: ec_refs_def)
  ultimately show ?thesis using d inv(1,3) slots_bounds [OF inv(1)] by (simp add: ec_slots_def)
qed

theorem encoder_cache_accounting_witness:
  "(0::int) \<le> 5 \<and> ec_reachable image_feats (\<lambda>_. 3) 5 one_unreferenced \<and>
   set (freeable one_unreferenced) = {(h, k). cached one_unreferenced h = Some [] \<and> k = 3}"
  using encoder_cache_accounting [OF _ one_unreferenced_reachable] one_unreferenced_reachable by simp

text \<open>
  C30: admission to the encoder cache: in a reachable state \<^verbatim>\<open>can_allocate\<close> never raises, and answers
  yes exactly when the item fits the compute budget and, with the embeddings already scheduled, the
  reclaimable slots. When it says no the state is unchanged. When it says yes it has evicted the
  oldest unreferenced items, no more of them than needed, and none that a request refers to, has
  recorded each of them for the workers, and a following \<^verbatim>\<open>allocate\<close> of an item that is not cached
  succeeds.
\<close>
theorem can_allocate_exact:
  assumes "0 \<le> n" and "ec_reachable feats size_of n c" and "request_fits feats size_of q"
    and "mm_hash_of q i = Inr h" and "0 \<le> scheduled"
  defines "need \<equiv> size_of h + scheduled"
  shows "\<exists>ok c' ev. ec_can_allocate q i budget scheduled c = Inr (ok, c') \<and>
    (ok \<longleftrightarrow> size_of h \<le> budget \<and> need \<le> num_freeable_slots c) \<and>
    (\<not> ok \<longrightarrow> c' = c) \<and>
    freeable c = ev @ freeable c' \<and> freed c' = freed c @ map fst ev \<and>
    cached c' = (cached c) |` (- set (map fst ev)) \<and>
    (\<forall>h r. holds_ref c h r \<longrightarrow> h \<notin> set (map fst ev)) \<and>
    (ev \<noteq> [] \<longrightarrow> num_free_slots c + sum_list (map snd (butlast ev)) < need) \<and>
    (ok \<longrightarrow> need \<le> num_free_slots c' \<and>
       (cached c h = None \<longrightarrow> (\<exists>c''. ec_allocate q i c' = Inr c'' \<and> holds_ref c'' h (request_id q))))"
proof -
  have inv: "ec_slots size_of c" "ec_refs feats c"
    using ec_reachable_inv [OF assms(2,1)] by (simp_all add: ec_inv_def)
  let ?ok = "size_of h \<le> budget \<and> need \<le> num_freeable_slots c"
  from ec_can_allocate_cases [OF inv(1) assms(3,4), of budget scheduled] obtain c' ev where
    e: "ec_can_allocate q i budget scheduled c = Inr (?ok, c')" and s': "ec_slots size_of c'" and
    f: "?ok \<longrightarrow> need \<le> num_free_slots c'" "\<not> ?ok \<longrightarrow> c' = c" "freeable c = ev @ freeable c'"
      "cached c' = (cached c) |` (- set (map fst ev))" "freed c' = freed c @ map fst ev"
      "ev \<noteq> [] \<longrightarrow> num_free_slots c + sum_list (map snd (butlast ev)) < need" and
    u: "\<forall>h\<in>set (map fst ev). cached c h = Some []" and
    ids: "request_cached_ids c' = request_cached_ids c"
    unfolding need_def by (elim exE conjE) blast
  have "ec_refs feats c'"
    using inv(2) unfolding ec_refs_def ids_of_def ids holds_ref_restrict [OF u f(4)] .
  then have "\<exists>c''. ec_allocate q i c' = Inr c'' \<and> holds_ref c'' h (request_id q)"
    if "?ok" and "cached c h = None"
  proof -
    have "cached c' h = None" using that f(4) by (simp add: restrict_map_def)
    moreover have "size_of h \<le> num_free_slots c'" using that f(1) assms(5) by (simp add: need_def)
    ultimately show ?thesis
      using ec_allocate_spec [OF s' \<open>ec_refs feats c'\<close> assms(3,4)] by (auto simp: holds_ref_def)
  qed
  moreover have "\<forall>h r. holds_ref c h r \<longrightarrow> h \<notin> set (map fst ev)"
    using u by (fastforce simp: holds_ref_def)
  ultimately show ?thesis using e f by (intro exI [of _ ?ok] exI [of _ c'] exI [of _ ev]) simp
qed

theorem can_allocate_exact_witness:
  "(0::int) \<le> 5 \<and> ec_reachable image_feats (\<lambda>_. 3) 5 one_unreferenced \<and>
   request_fits image_feats (\<lambda>_. 3) (image_request ''b'' ''b'') \<and>
   mm_hash_of (image_request ''b'' ''b'') 0 = Inr ''b'' \<and>
   (\<exists>c'. ec_can_allocate (image_request ''b'' ''b'') 0 8 0 one_unreferenced = Inr (True, c') \<and>
         3 \<le> num_free_slots c')"
proof -
  have h: "mm_hash_of (image_request ''b'' ''b'') 0 = Inr ''b''" by (simp add: ec_eval)
  show ?thesis
    using can_allocate_exact [OF _ one_unreferenced_reachable image_request_fits [of "''b''"] h, of 0 8]
      one_unreferenced_reachable image_request_fits [of "''b''"] h
    by (auto simp: one_unreferenced_def)
qed

text \<open>
  Finishing a request: \<^verbatim>\<open>free\<close> never raises in a reachable state, gives back every reference of
  the request and no reference of another one, also when the request repeats an item, and keeps every
  item in the cache, so that no slot becomes free before it is needed.
\<close>
theorem free_releases_all:
  assumes "0 \<le> n" and "ec_reachable feats size_of n c" and "request_fits feats size_of q"
  shows "\<exists>c'. ec_free q c = Inr c' \<and>
    (\<forall>h rid. holds_ref c' h rid \<longleftrightarrow> holds_ref c h rid \<and> rid \<noteq> request_id q) \<and>
    dom (cached c') = dom (cached c) \<and> num_free_slots c' = num_free_slots c \<and>
    get_cached_input_ids q c' = []"
proof -
  have inv: "ec_slots size_of c" "ec_refs feats c"
    using ec_reachable_inv [OF assms(2,1)] by (simp_all add: ec_inv_def)
  from ec_free_spec [OF inv assms(3)] obtain c' where
    c': "ec_free q c = Inr c'" "ec_refs feats c'"
      "\<forall>h r'. holds_ref c' h r' \<longleftrightarrow> holds_ref c h r' \<and> r' \<noteq> request_id q"
      "dom (cached c') = dom (cached c)" "num_free_slots c' = num_free_slots c"
    by auto
  have "ids_of c' (request_id q) = []"
  proof (rule ccontr)
    assume "ids_of c' (request_id q) \<noteq> []"
    then obtain i where "i \<in> set (ids_of c' (request_id q))" by (meson list.set_sel(1))
    then have "holds_ref c' (mm_identifier (feats (request_id q) ! i)) (request_id q)"
      using c'(2) by (auto simp: ec_refs_def)
    with c'(3) show False by simp
  qed
  with c' show ?thesis by (auto simp: get_cached_input_ids_def)
qed

theorem free_releases_all_witness:
  "(0::int) \<le> 5 \<and> ec_reachable image_feats (\<lambda>_. 3) 5 one_unreferenced \<and>
   request_fits image_feats (\<lambda>_. 3) (image_request ''a'' ''a'') \<and>
   (\<exists>c'. ec_free (image_request ''a'' ''a'') one_unreferenced = Inr c' \<and> num_free_slots c' = 2)"
  using free_releases_all [OF _ one_unreferenced_reachable image_request_fits [of "''a''"]]
    one_unreferenced_reachable image_request_fits [of "''a''"]
  by (auto simp: one_unreferenced_def)

end
