(* ===== verification/Offload_Policy.thy ===== *)
theory Offload_Policy
  imports Block_Hash
begin

text \<open>
  The replacement policies of the CPU offloading tier (\<^verbatim>\<open>vllm/v1/kv_offload/cpu/policies\<close>): the chunk
  status, the LRU policy with its list of evictable chunks, and the adaptive ARC policy with its two
  resident lists and two ghost lists. The operations of the abstract class \<^verbatim>\<open>CachePolicy\<close> form a
  record; the locale \<open>cache_policy\<close> states what the offloading manager relies on, and both policies
  are instances of it. A chunk status is a mutable object that a policy holds under one key: writing
  its reference count is the operation \<open>op_put\<close>. Floats are rationals.
\<close>

section \<open>Offload keys\<close>

definition make_offload_key :: "bytes \<Rightarrow> int \<Rightarrow> bytes res" where
  "make_offload_key block_hash group_idx = rbind (to_bytes4 group_idx) (\<lambda>b. Inr (block_hash @ b))"

definition get_offload_block_hash :: "bytes \<Rightarrow> bytes" where
  "get_offload_block_hash key = take (length key - 4) key"

definition get_offload_group_idx :: "bytes \<Rightarrow> int" where
  "get_offload_group_idx key = from_bytes_big (drop (length key - 4) key)"

section \<open>Chunk status and the policy interface\<close>

record chunk_status =
  ref_cnt :: "32 word"
  chunk_id :: int

definition chunk_init :: "int \<Rightarrow> chunk_status" where
  "chunk_init i = \<lparr>ref_cnt = - 1, chunk_id = i\<rparr>"

definition is_ready :: "chunk_status \<Rightarrow> bool" where
  "is_ready c \<longleftrightarrow> 0 \<le> sint (ref_cnt c)"

type_synonym evict_result = "(bytes \<times> chunk_status) list option"

record 'p policy_ops =
  op_get :: "'p \<Rightarrow> bytes \<Rightarrow> chunk_status option"
  op_insert :: "bytes \<Rightarrow> chunk_status \<Rightarrow> 'p \<Rightarrow> 'p"
  op_remove :: "bytes \<Rightarrow> 'p \<Rightarrow> 'p res"
  op_touch :: "bytes list \<Rightarrow> 'p \<Rightarrow> 'p"
  op_evict :: "nat \<Rightarrow> bytes set \<Rightarrow> 'p \<Rightarrow> (evict_result \<times> 'p) res"
  op_clear :: "'p \<Rightarrow> 'p"
  op_mark_evictable :: "bytes \<Rightarrow> 'p \<Rightarrow> 'p"
  op_mark_non_evictable :: "bytes \<Rightarrow> 'p \<Rightarrow> 'p res"
  op_put :: "bytes \<Rightarrow> chunk_status \<Rightarrow> 'p \<Rightarrow> 'p"

text \<open>An \<^verbatim>\<open>OrderedDict\<close> whose values are all \<^verbatim>\<open>None\<close> is the list of its keys.\<close>

definition od_add :: "'k \<Rightarrow> 'k list \<Rightarrow> 'k list" where
  "od_add k ks = (if k \<in> set ks then ks else ks @ [k])"

definition od_del :: "'k \<Rightarrow> 'k list \<Rightarrow> 'k list" where
  "od_del k ks = filter (\<lambda>x. x \<noteq> k) ks"

definition od_to_end :: "'k \<Rightarrow> 'k list \<Rightarrow> 'k list" where
  "od_to_end k ks = od_del k ks @ [k]"

section \<open>LRU\<close>

record lru_policy =
  lru_capacity :: int
  evictable_chunks :: "bytes list"
  chunks :: "bytes \<Rightarrow> chunk_status option"

definition lru_init :: "int \<Rightarrow> lru_policy" where
  "lru_init n = \<lparr>lru_capacity = n, evictable_chunks = [], chunks = (\<lambda>_. None)\<rparr>"

definition lru_get :: "lru_policy \<Rightarrow> bytes \<Rightarrow> chunk_status option" where
  "lru_get p k = chunks p k"

definition lru_insert :: "bytes \<Rightarrow> chunk_status \<Rightarrow> lru_policy \<Rightarrow> lru_policy" where
  "lru_insert k c p =
     (let p1 = p\<lparr>chunks := (chunks p)(k \<mapsto> c)\<rparr>
      in if ref_cnt c = 0 then p1\<lparr>evictable_chunks := od_add k (evictable_chunks p1)\<rparr> else p1)"

definition lru_remove :: "bytes \<Rightarrow> lru_policy \<Rightarrow> lru_policy res" where
  "lru_remove k p =
     rbind (ensure (chunks p k \<noteq> None) KeyError) (\<lambda>_.
       Inr (p\<lparr>chunks := (chunks p)(k := None), evictable_chunks := od_del k (evictable_chunks p)\<rparr>))"

definition lru_touch_one :: "bytes \<Rightarrow> lru_policy \<Rightarrow> lru_policy" where
  "lru_touch_one k p =
     (if k \<in> set (evictable_chunks p)
      then p\<lparr>evictable_chunks := od_to_end k (evictable_chunks p)\<rparr> else p)"

definition lru_touch :: "bytes list \<Rightarrow> lru_policy \<Rightarrow> lru_policy" where
  "lru_touch ks p = fold lru_touch_one (rev ks) p"

definition lru_clear :: "lru_policy \<Rightarrow> lru_policy" where
  "lru_clear p = p\<lparr>evictable_chunks := [], chunks := (\<lambda>_. None)\<rparr>"

fun lru_scan ::
  "lru_policy \<Rightarrow> bytes set \<Rightarrow> nat \<Rightarrow> bytes list \<Rightarrow> (bytes \<times> chunk_status) list \<Rightarrow>
   (bytes \<times> chunk_status) list res"
where
  \<comment> \<open>the candidate loop of \<^verbatim>\<open>evict\<close>, which stops at \<open>n\<close> candidates\<close>
  "lru_scan p prot n [] cands = Inr cands"
| "lru_scan p prot n (k # ks) cands =
     (if k \<in> prot then lru_scan p prot n ks cands
      else case chunks p k of
             None \<Rightarrow> Inl KeyError
           | Some c \<Rightarrow>
               rbind (ensure (ref_cnt c = 0) AssertionError) (\<lambda>_.
                 let cands' = cands @ [(k, c)]
                 in if length cands' = n then Inr cands' else lru_scan p prot n ks cands'))"

definition lru_drop :: "bytes \<times> chunk_status \<Rightarrow> lru_policy \<Rightarrow> lru_policy res" where
  "lru_drop kc p =
     rbind (ensure (fst kc \<in> set (evictable_chunks p)) KeyError) (\<lambda>_.
     rbind (ensure (chunks p (fst kc) \<noteq> None) KeyError) (\<lambda>_.
       Inr (p\<lparr>evictable_chunks := od_del (fst kc) (evictable_chunks p),
              chunks := (chunks p)(fst kc := None)\<rparr>)))"

definition lru_evict :: "nat \<Rightarrow> bytes set \<Rightarrow> lru_policy \<Rightarrow> (evict_result \<times> lru_policy) res" where
  "lru_evict n prot p =
     (if n = 0 then Inr (Some [], p)
      else rbind (lru_scan p prot n (evictable_chunks p) []) (\<lambda>cands.
        if length cands < n then Inr (None, p)
        else rbind (rfold lru_drop cands p) (\<lambda>p1. Inr (Some cands, p1))))"

definition lru_mark_evictable :: "bytes \<Rightarrow> lru_policy \<Rightarrow> lru_policy" where
  "lru_mark_evictable k p = p\<lparr>evictable_chunks := od_add k (evictable_chunks p)\<rparr>"

definition lru_mark_non_evictable :: "bytes \<Rightarrow> lru_policy \<Rightarrow> lru_policy res" where
  "lru_mark_non_evictable k p =
     rbind (ensure (k \<in> set (evictable_chunks p)) KeyError) (\<lambda>_.
       Inr (p\<lparr>evictable_chunks := od_del k (evictable_chunks p)\<rparr>))"

definition lru_put :: "bytes \<Rightarrow> chunk_status \<Rightarrow> lru_policy \<Rightarrow> lru_policy" where
  "lru_put k c p = p\<lparr>chunks := (chunks p)(k \<mapsto> c)\<rparr>"

definition lru_ops :: "lru_policy policy_ops" where
  "lru_ops = \<lparr>op_get = lru_get, op_insert = lru_insert, op_remove = lru_remove, op_touch = lru_touch,
     op_evict = lru_evict, op_clear = lru_clear, op_mark_evictable = lru_mark_evictable,
     op_mark_non_evictable = lru_mark_non_evictable, op_put = lru_put\<rparr>"

section \<open>ARC\<close>

record arc_policy =
  arc_capacity :: int
  target_t1_size :: rat
  t1 :: "(bytes \<times> chunk_status) list"
  t2 :: "(bytes \<times> chunk_status) list"
  b1 :: "bytes list"
  b2 :: "bytes list"

definition arc_init :: "int \<Rightarrow> arc_policy" where
  "arc_init n = \<lparr>arc_capacity = n, target_t1_size = 0, t1 = [], t2 = [], b1 = [], b2 = []\<rparr>"

definition arc_get :: "arc_policy \<Rightarrow> bytes \<Rightarrow> chunk_status option" where
  "arc_get p k = (case map_of (t1 p) k of Some c \<Rightarrow> Some c | None \<Rightarrow> map_of (t2 p) k)"

definition arc_insert :: "bytes \<Rightarrow> chunk_status \<Rightarrow> arc_policy \<Rightarrow> arc_policy" where
  "arc_insert k c p =
     p\<lparr>t1 := AList.update k c (t1 p), b1 := od_del k (b1 p), b2 := od_del k (b2 p)\<rparr>"

definition arc_remove :: "bytes \<Rightarrow> arc_policy \<Rightarrow> arc_policy res" where
  "arc_remove k p =
     (case map_of (t1 p) k of
        Some _ \<Rightarrow> Inr (p\<lparr>t1 := AList.delete k (t1 p)\<rparr>)
      | None \<Rightarrow> Inr (p\<lparr>t2 := AList.delete k (t2 p)\<rparr>))"

definition arc_touch_one :: "bytes \<Rightarrow> arc_policy \<Rightarrow> arc_policy" where
  "arc_touch_one k p =
     (case map_of (t1 p) k of
        Some c \<Rightarrow>
          let p1 = p\<lparr>t1 := AList.delete k (t1 p)\<rparr>
          in if \<not> is_ready c then p1\<lparr>t1 := AList.update k c (t1 p1)\<rparr>
             else p1\<lparr>t2 := AList.update k c (t2 p1)\<rparr>
      | None \<Rightarrow>
          if k \<in> set (keys (t2 p)) then p\<lparr>t2 := od_move_to_end k (t2 p)\<rparr>
          else if k \<in> set (b1 p)
          then let delta = max 1 (rat_of_nat (length (b2 p)) / rat_of_nat (length (b1 p)))
               in p\<lparr>target_t1_size := min (target_t1_size p + delta) (rat_of_int (arc_capacity p)),
                    b1 := od_to_end k (b1 p)\<rparr>
          else if k \<in> set (b2 p)
          then let delta = max 1 (rat_of_nat (length (b1 p)) / rat_of_nat (length (b2 p)))
               in p\<lparr>target_t1_size := max (target_t1_size p - delta) 0,
                    b2 := od_to_end k (b2 p)\<rparr>
          else p)"

definition arc_touch :: "bytes list \<Rightarrow> arc_policy \<Rightarrow> arc_policy" where
  "arc_touch ks p = fold arc_touch_one (rev ks) p"

definition arc_clear :: "arc_policy \<Rightarrow> arc_policy" where
  "arc_clear p = p\<lparr>t1 := [], t2 := [], b1 := [], b2 := [], target_t1_size := 0\<rparr>"

fun next_candidate ::
  "bytes set \<Rightarrow> (bytes \<times> chunk_status) list \<Rightarrow>
   (bytes \<times> chunk_status) option \<times> (bytes \<times> chunk_status) list"
where
  \<comment> \<open>the next eviction candidate of an iterator, and what is left of the iterator\<close>
  "next_candidate prot [] = (None, [])"
| "next_candidate prot ((k, c) # es) =
     (if ref_cnt c = 0 \<and> k \<notin> prot then (Some (k, c), es) else next_candidate prot es)"

fun arc_select ::
  "bytes set \<Rightarrow> int \<Rightarrow> nat \<Rightarrow> int \<Rightarrow> (bytes \<times> chunk_status) list \<Rightarrow> (bytes \<times> chunk_status) list \<Rightarrow>
   (bytes \<times> chunk_status \<times> bool) list option"
where
  \<comment> \<open>the selection loop: target, rounds left, virtual size of T1, the two iterators\<close>
  "arc_select prot target 0 v it1 it2 = Some []"
| "arc_select prot target (Suc n) v it1 it2 =
     (let first = (if v \<ge> target then next_candidate prot it1 else (None, it1)); it1' = snd first
      in case fst first of
           Some (k, c) \<Rightarrow> map_option ((#) (k, c, True)) (arc_select prot target n (v - 1) it1' it2)
         | None \<Rightarrow>
             (case next_candidate prot it2 of
                (Some (k, c), it2') \<Rightarrow>
                  map_option ((#) (k, c, False)) (arc_select prot target n v it1' it2')
              | (None, it2') \<Rightarrow>
                  (case next_candidate prot it1' of
                     (None, _) \<Rightarrow> None
                   | (Some (k, c), it1'') \<Rightarrow>
                       map_option ((#) (k, c, True))
                         (arc_select prot target n (v - 1) it1'' it2'))))"

definition arc_drop :: "bytes \<times> chunk_status \<times> bool \<Rightarrow> arc_policy \<Rightarrow> arc_policy res" where
  "arc_drop cand p =
     (case cand of (k, c, from_t1) \<Rightarrow>
        if from_t1
        then rbind (ensure (k \<in> set (keys (t1 p))) KeyError) (\<lambda>_.
               Inr (p\<lparr>t1 := AList.delete k (t1 p), b1 := od_add k (b1 p)\<rparr>))
        else rbind (ensure (k \<in> set (keys (t2 p))) KeyError) (\<lambda>_.
               Inr (p\<lparr>t2 := AList.delete k (t2 p), b2 := od_add k (b2 p)\<rparr>)))"

definition trim_ghost :: "int \<Rightarrow> bytes list \<Rightarrow> bytes list" where
  "trim_ghost cap g = drop (nat (int (length g) - cap)) g"

definition arc_evict :: "nat \<Rightarrow> bytes set \<Rightarrow> arc_policy \<Rightarrow> (evict_result \<times> arc_policy) res" where
  "arc_evict n prot p =
     (if n = 0 then Inr (Some [], p)
      else case arc_select prot \<lfloor>target_t1_size p\<rfloor> n (int (length (t1 p))) (t1 p) (t2 p) of
             None \<Rightarrow> Inr (None, p)
           | Some cands \<Rightarrow>
               rbind (rfold arc_drop cands p) (\<lambda>p1.
                 Inr (Some (map (\<lambda>(k, c, _). (k, c)) cands),
                      p1\<lparr>b1 := trim_ghost (arc_capacity p) (b1 p1),
                         b2 := trim_ghost (arc_capacity p) (b2 p1)\<rparr>)))"

definition arc_put :: "bytes \<Rightarrow> chunk_status \<Rightarrow> arc_policy \<Rightarrow> arc_policy" where
  "arc_put k c p =
     (if k \<in> set (keys (t1 p)) then p\<lparr>t1 := AList.update k c (t1 p)\<rparr>
      else p\<lparr>t2 := AList.update k c (t2 p)\<rparr>)"

definition arc_ops :: "arc_policy policy_ops" where
  "arc_ops = \<lparr>op_get = arc_get, op_insert = arc_insert, op_remove = arc_remove, op_touch = arc_touch,
     op_evict = arc_evict, op_clear = arc_clear, op_mark_evictable = (\<lambda>_ p. p),
     op_mark_non_evictable = (\<lambda>_ p. Inr p), op_put = arc_put\<rparr>"


section \<open>What the manager relies on\<close>

definition idle :: "('p, 'm) policy_ops_scheme \<Rightarrow> bytes set \<Rightarrow> 'p \<Rightarrow> bytes set" where
  "idle ops prot p = {k. \<exists>c. op_get ops p k = Some c \<and> ref_cnt c = 0 \<and> k \<notin> prot}"

locale cache_policy =
  fixes ops :: "'p policy_ops" and inv :: "'p \<Rightarrow> bool"
  assumes finite_get: "inv p \<Longrightarrow> finite (dom (op_get ops p))"
    and get_put: "op_get ops p k \<noteq> None \<Longrightarrow> op_get ops (op_put ops k c p) = (op_get ops p)(k \<mapsto> c)"
    and get_mark: "op_get ops (op_mark_evictable ops k p) = op_get ops p"
    and insert_inv: "inv p \<Longrightarrow> op_get ops p k = None \<Longrightarrow> ref_cnt c \<noteq> 0 \<Longrightarrow> inv (op_insert ops k c p)"
    and insert_get: "inv p \<Longrightarrow> op_get ops (op_insert ops k c p) = (op_get ops p)(k \<mapsto> c)"
    and pin: "inv p \<Longrightarrow> op_get ops p k = Some c \<Longrightarrow> ref_cnt c = 0 \<Longrightarrow> r \<noteq> 0 \<Longrightarrow>
      \<exists>p1. op_mark_non_evictable ops k p = Inr p1 \<and> op_get ops p1 = op_get ops p \<and>
           inv (op_put ops k (c\<lparr>ref_cnt := r\<rparr>) p1)"
    and adjust: "inv p \<Longrightarrow> op_get ops p k = Some c \<Longrightarrow> ref_cnt c \<noteq> 0 \<Longrightarrow> r \<noteq> 0 \<Longrightarrow>
      inv (op_put ops k (c\<lparr>ref_cnt := r\<rparr>) p)"
    and unpin: "inv p \<Longrightarrow> op_get ops p k = Some c \<Longrightarrow> ref_cnt c \<noteq> 0 \<Longrightarrow>
      inv (op_mark_evictable ops k (op_put ops k (c\<lparr>ref_cnt := 0\<rparr>) p))"
    and remove: "inv p \<Longrightarrow> op_get ops p k = Some c \<Longrightarrow>
      \<exists>p'. op_remove ops k p = Inr p' \<and> op_get ops p' = (op_get ops p)(k := None) \<and> inv p'"
    and touch_inv: "inv p \<Longrightarrow> inv (op_touch ops ks p)"
    and touch_get: "inv p \<Longrightarrow> op_get ops (op_touch ops ks p) = op_get ops p"
    and clear_inv: "inv p \<Longrightarrow> inv (op_clear ops p)"
    and clear_get: "op_get ops (op_clear ops p) = (\<lambda>_. None)"
    and evict_none: "inv p \<Longrightarrow> card (idle ops prot p) < n \<Longrightarrow> op_evict ops n prot p = Inr (None, p)"
    and evict_some: "inv p \<Longrightarrow> n \<le> card (idle ops prot p) \<Longrightarrow>
      \<exists>ev p'. op_evict ops n prot p = Inr (Some ev, p') \<and> length ev = n \<and> distinct (map fst ev) \<and>
        (\<forall>kc\<in>set ev. op_get ops p (fst kc) = Some (snd kc) \<and> ref_cnt (snd kc) = 0 \<and> fst kc \<notin> prot) \<and>
        op_get ops p' = (op_get ops p) |` (- fst ` set ev) \<and> inv p'"

section \<open>LRU keeps the contract\<close>

definition lru_inv :: "lru_policy \<Rightarrow> bool" where
  "lru_inv p \<longleftrightarrow> distinct (evictable_chunks p) \<and> finite (dom (chunks p)) \<and>
     set (evictable_chunks p) = {k. \<exists>c. chunks p k = Some c \<and> ref_cnt c = 0}"

lemma set_od_add [simp]: "set (od_add k ks) = insert k (set ks)"
  by (auto simp: od_add_def)

lemma distinct_od_add [simp]: "distinct ks \<Longrightarrow> distinct (od_add k ks)"
  by (simp add: od_add_def)

lemma set_od_del [simp]: "set (od_del k ks) = set ks - {k}"
  by (auto simp: od_del_def)

lemma distinct_od_del [simp]: "distinct ks \<Longrightarrow> distinct (od_del k ks)"
  by (simp add: od_del_def)

lemma set_od_to_end [simp]: "set (od_to_end k ks) = insert k (set ks)"
  by (auto simp: od_to_end_def)

lemma distinct_od_to_end [simp]: "distinct ks \<Longrightarrow> distinct (od_to_end k ks)"
  by (simp add: od_to_end_def)

lemma length_od_to_end: "distinct ks \<Longrightarrow> k \<in> set ks \<Longrightarrow> length (od_to_end k ks) = length ks"
  by (metis (no_types) distinct_card distinct_od_to_end insert_absorb set_od_to_end)

lemma lru_touch_one_props:
  "lru_inv p \<Longrightarrow> lru_inv (lru_touch_one k p) \<and> chunks (lru_touch_one k p) = chunks p"
  by (auto simp: lru_touch_one_def lru_inv_def)

lemma lru_touch_props:
  "lru_inv p \<Longrightarrow> lru_inv (lru_touch ks p) \<and> chunks (lru_touch ks p) = chunks p"
  unfolding lru_touch_def
  by (induction ks) (use lru_touch_one_props in \<open>auto simp: fold_append\<close>)

lemma lru_scan_eq:
  assumes "\<forall>k\<in>set ks. \<exists>c. chunks p k = Some c \<and> ref_cnt c = 0" and "length cands < n"
  shows "lru_scan p prot n ks cands =
    Inr (cands @ map (\<lambda>k. (k, the (chunks p k))) (take (n - length cands) (filter (\<lambda>k. k \<notin> prot) ks)))"
  using assms
proof (induction ks arbitrary: cands)
  case Nil
  then show ?case by simp
next
  case (Cons k ks)
  then obtain c where c: "chunks p k = Some c" "ref_cnt c = 0" by auto
  have ks: "\<forall>k\<in>set ks. \<exists>c. chunks p k = Some c \<and> ref_cnt c = 0" using Cons.prems(1) by simp
  define m where "m = n - length (cands @ [(k, c)])"
  have m: "n - length cands = Suc m" using Cons.prems(2) by (simp add: m_def)
  consider "k \<in> prot" | "k \<notin> prot" "length (cands @ [(k, c)]) = n"
    | "k \<notin> prot" "length (cands @ [(k, c)]) < n" using Cons.prems(2) by force
  then show ?case
  proof cases
    case 1
    then show ?thesis using Cons.IH [OF ks Cons.prems(2)] by simp
  next
    case 2
    then have "m = 0" by (simp add: m_def)
    then show ?thesis using 2 c unfolding m by simp
  next
    case 3
    then show ?thesis using Cons.IH [OF ks 3(2)] c unfolding m m_def [symmetric] by simp
  qed
qed

lemma lru_drop_all:
  assumes "distinct (map fst cs)" and "\<forall>kc\<in>set cs. fst kc \<in> set (evictable_chunks p)"
    and "\<forall>kc\<in>set cs. chunks p (fst kc) \<noteq> None"
  shows "rfold lru_drop cs p =
    Inr (p\<lparr>evictable_chunks := filter (\<lambda>k. k \<notin> fst ` set cs) (evictable_chunks p),
           chunks := (chunks p) |` (- fst ` set cs)\<rparr>)"
  using assms
proof (induction cs arbitrary: p)
  case Nil
  then show ?case by (simp add: restrict_map_def)
next
  case (Cons kc cs)
  let ?p1 = "p\<lparr>evictable_chunks := od_del (fst kc) (evictable_chunks p),
              chunks := (chunks p)(fst kc := None)\<rparr>"
  have "lru_drop kc p = Inr ?p1" using Cons.prems by (simp add: lru_drop_def)
  moreover have "rfold lru_drop cs ?p1 =
    Inr (?p1\<lparr>evictable_chunks := filter (\<lambda>k. k \<notin> fst ` set cs) (evictable_chunks ?p1),
            chunks := (chunks ?p1) |` (- fst ` set cs)\<rparr>)"
    using Cons.prems by (intro Cons.IH) (auto simp: image_iff)
  moreover have "(chunks ?p1) |` (- fst ` set cs) = (chunks p) |` (- fst ` set (kc # cs))"
    by (auto simp: restrict_map_def fun_eq_iff)
  ultimately show ?case by (simp add: od_del_def conj_commute)
qed

lemma lru_idle: "idle lru_ops prot p = {k. \<exists>c. chunks p k = Some c \<and> ref_cnt c = 0 \<and> k \<notin> prot}"
  by (simp add: idle_def lru_ops_def lru_get_def)

lemma lru_idle_card:
  assumes "lru_inv p"
  shows "card (idle lru_ops prot p) = length (filter (\<lambda>k. k \<notin> prot) (evictable_chunks p))"
proof -
  have "idle lru_ops prot p = set (filter (\<lambda>k. k \<notin> prot) (evictable_chunks p))"
    using assms by (auto simp: lru_idle lru_inv_def)
  then show ?thesis using assms distinct_card [of "filter (\<lambda>k. k \<notin> prot) (evictable_chunks p)"]
    by (simp only: lru_inv_def distinct_filter)
qed

lemma lru_evict_eq:
  fixes prot :: "bytes set"
  assumes inv: "lru_inv p"
  defines "ks \<equiv> filter (\<lambda>k. k \<notin> prot) (evictable_chunks p)"
  shows "lru_evict n prot p =
    (if length ks < n then Inr (None, p)
     else Inr (Some (map (\<lambda>k. (k, the (chunks p k))) (take n ks)),
               p\<lparr>evictable_chunks := filter (\<lambda>k. k \<notin> set (take n ks)) (evictable_chunks p),
                 chunks := (chunks p) |` (- set (take n ks))\<rparr>))"
proof (cases "n = 0")
  case True
  then show ?thesis by (simp add: lru_evict_def restrict_map_def)
next
  case False
  let ?cs = "map (\<lambda>k. (k, the (chunks p k))) (take n ks)"
  have sub: "set (take n ks) \<subseteq> set (evictable_chunks p)"
    using set_take_subset [of n ks] by (auto simp: ks_def)
  have s: "lru_scan p prot n (evictable_chunks p) [] = Inr ?cs"
    using lru_scan_eq [of "evictable_chunks p" p "[]" n prot] False inv
    by (simp add: ks_def lru_inv_def)
  show ?thesis
  proof (cases "length ks < n")
    case True
    then show ?thesis using s False by (simp add: lru_evict_def)
  next
    case enough: False
    have ev: "\<And>k. k \<in> set (evictable_chunks p) \<Longrightarrow> chunks p k \<noteq> None"
      using inv by (auto simp: lru_inv_def)
    have im: "fst ` set ?cs = set (take n ks)" by (simp add: image_image)
    have "rfold lru_drop ?cs p =
      Inr (p\<lparr>evictable_chunks := filter (\<lambda>k. k \<notin> fst ` set ?cs) (evictable_chunks p),
             chunks := (chunks p) |` (- fst ` set ?cs)\<rparr>)"
    proof (rule lru_drop_all)
      show "distinct (map fst ?cs)"
        using inv by (simp add: lru_inv_def ks_def o_def)
      show "\<forall>kc\<in>set ?cs. fst kc \<in> set (evictable_chunks p)" using sub by auto
      show "\<forall>kc\<in>set ?cs. chunks p (fst kc) \<noteq> None" using sub ev by auto
    qed
    then show ?thesis using s False enough unfolding lru_evict_def im by simp
  qed
qed

lemma lru_inv_restrict:
  assumes "lru_inv p"
  shows "lru_inv (p\<lparr>evictable_chunks := filter (\<lambda>k. k \<notin> S) (evictable_chunks p),
                    chunks := (chunks p) |` (- S)\<rparr>)"
proof -
  have "finite (dom (chunks p |` (- S)))" using assms by (simp add: lru_inv_def)
  then show ?thesis using assms by (auto simp: lru_inv_def restrict_map_def split: if_splits)
qed

lemma lru_evict_some:
  assumes inv: "lru_inv p" and "n \<le> card (idle lru_ops prot p)"
  shows "\<exists>ev p'. lru_evict n prot p = Inr (Some ev, p') \<and> length ev = n \<and> distinct (map fst ev) \<and>
        (\<forall>kc\<in>set ev. chunks p (fst kc) = Some (snd kc) \<and> ref_cnt (snd kc) = 0 \<and> fst kc \<notin> prot) \<and>
        chunks p' = (chunks p) |` (- fst ` set ev) \<and> lru_inv p'"
proof -
  let ?ks = "filter (\<lambda>k. k \<notin> prot) (evictable_chunks p)"
  define l where "l = take n ?ks"
  define ev where "ev = map (\<lambda>k. (k, the (chunks p k))) l"
  define p' where "p' = p\<lparr>evictable_chunks := filter (\<lambda>k. k \<notin> set l) (evictable_chunks p),
                 chunks := (chunks p) |` (- set l)\<rparr>"
  have len: "n \<le> length ?ks" using assms(2) lru_idle_card [OF inv] by simp
  have e: "lru_evict n prot p = Inr (Some ev, p')"
    unfolding ev_def p'_def l_def lru_evict_eq [OF inv] using len by (simp only: not_less [symmetric] if_False)
  have l: "\<And>k. k \<in> set l \<Longrightarrow> k \<in> set (evictable_chunks p) \<and> k \<notin> prot"
    unfolding l_def by (drule in_set_takeD) simp
  have k: "chunks p (fst kc) = Some (snd kc) \<and> ref_cnt (snd kc) = 0 \<and> fst kc \<notin> prot"
    if kc: "kc \<in> set ev" for kc
  proof -
    obtain k where k: "kc = (k, the (chunks p k))" "k \<in> set l" using kc by (auto simp: ev_def)
    then show ?thesis using l [OF k(2)] inv by (auto simp: lru_inv_def)
  qed
  have "distinct l" using inv unfolding l_def by (simp add: lru_inv_def)
  then have d: "distinct (map fst ev)" by (simp add: ev_def o_def)
  have ln: "length ev = n" using len by (simp add: ev_def l_def)
  have im: "fst ` set ev = set l" by (simp add: ev_def image_image)
  have c: "chunks p' = (chunks p) |` (- fst ` set ev)" unfolding im by (simp add: p'_def)
  have "lru_inv p'" unfolding p'_def by (rule lru_inv_restrict [OF inv])
  with e k d ln c show ?thesis by blast
qed

lemma lru_evict_none:
  "lru_inv p \<Longrightarrow> card (idle lru_ops prot p) < n \<Longrightarrow> lru_evict n prot p = Inr (None, p)"
  by (simp add: lru_evict_eq lru_idle_card)

lemmas lru_op_defs = lru_ops_def lru_get_def lru_insert_def lru_remove_def lru_clear_def
  lru_mark_evictable_def lru_mark_non_evictable_def lru_put_def

interpretation lru: cache_policy lru_ops lru_inv
proof unfold_locales
  show "card (idle lru_ops prot p) < n \<Longrightarrow> op_evict lru_ops n prot p = Inr (None, p)"
    if "lru_inv p" for p n prot
    using lru_evict_none that by (simp add: lru_ops_def)
  show "\<exists>ev p'. op_evict lru_ops n prot p = Inr (Some ev, p') \<and> length ev = n \<and> distinct (map fst ev) \<and>
        (\<forall>kc\<in>set ev. op_get lru_ops p (fst kc) = Some (snd kc) \<and> ref_cnt (snd kc) = 0 \<and> fst kc \<notin> prot) \<and>
        op_get lru_ops p' = (op_get lru_ops p) |` (- fst ` set ev) \<and> lru_inv p'"
    if "lru_inv p" "n \<le> card (idle lru_ops prot p)" for p n prot
  proof -
    have "op_evict lru_ops = lru_evict" "op_get lru_ops = chunks"
      by (simp_all add: lru_op_defs fun_eq_iff)
    with lru_evict_some [OF that] show ?thesis by simp
  qed
  show "finite (dom (op_get lru_ops p))" if "lru_inv p" for p
  proof -
    have "op_get lru_ops p = chunks p" by (simp add: lru_op_defs fun_eq_iff)
    then show ?thesis using that by (simp add: lru_inv_def)
  qed
  show "lru_inv (op_touch lru_ops ks p)" if "lru_inv p" for p ks
    using lru_touch_props [OF that] by (simp add: lru_ops_def)
qed (auto simp: lru_op_defs lru_inv_def lru_touch_props fun_eq_iff Let_def)


section \<open>ARC keeps the contract\<close>

definition arc_lists :: "arc_policy \<Rightarrow> bool" where
  \<comment> \<open>no key is in two of the four lists, or twice in one\<close>
  "arc_lists p \<longleftrightarrow> distinct (keys (t1 p) @ keys (t2 p) @ b1 p @ b2 p)"

definition arc_inv :: "arc_policy \<Rightarrow> bool" where
  "arc_inv p \<longleftrightarrow> arc_lists p \<and> 0 \<le> target_t1_size p \<and>
     target_t1_size p \<le> rat_of_int (arc_capacity p) \<and>
     int (length (b1 p)) \<le> arc_capacity p \<and> int (length (b2 p)) \<le> arc_capacity p"

lemma arc_get_None: "arc_get p k = None \<longleftrightarrow> k \<notin> set (keys (t1 p)) \<and> k \<notin> set (keys (t2 p))"
  using map_of_eq_None_keys [of "t1 p" k] map_of_eq_None_keys [of "t2 p" k]
  by (auto simp: arc_get_def split: option.splits)

lemma dom_arc_get: "dom (arc_get p) = set (keys (t1 p)) \<union> set (keys (t2 p))"
  using arc_get_None by (auto simp: dom_def)

lemma arc_get_cong: "t1 p' = t1 p \<Longrightarrow> t2 p' = t2 p \<Longrightarrow> arc_get p' = arc_get p"
  by (rule ext) (simp add: arc_get_def split: option.split)

lemma length_od_del: "length (od_del k ks) \<le> length ks"
  by (simp add: od_del_def)

lemma keys_move_to_end:
  "k \<in> set (keys d) \<Longrightarrow> keys (od_move_to_end k d) = filter (\<lambda>x. x \<noteq> k) (keys d) @ [k]"
  by (auto simp: od_move_to_end_def map_of_in_keys keys_delete)

lemma map_of_move_to_end:
  "distinct (keys d) \<Longrightarrow> map_of (od_move_to_end k d) = map_of d"
  by (auto simp: od_move_to_end_def delete_conv' fun_eq_iff map_add_def split: option.splits)

lemma arc_touch_resident:
  assumes "arc_lists p" and "map_of (t1 p) k = Some c"
  shows "arc_inv p \<Longrightarrow> arc_inv (arc_touch_one k p)" and "arc_get (arc_touch_one k p) = arc_get p"
proof -
  have k: "k \<in> set (keys (t1 p))" "k \<notin> set (keys (t2 p))"
    using assms map_of_in_keys [of k "t1 p"] by (auto simp: arc_lists_def)
  then have k2: "map_of (t2 p) k = None" by (simp add: map_of_eq_None_keys)
  show "arc_inv p \<Longrightarrow> arc_inv (arc_touch_one k p)"
    using assms k by (auto simp: arc_touch_one_def arc_inv_def arc_lists_def keys_update Let_def keys_delete)
  show "arc_get (arc_touch_one k p) = arc_get p"
    using assms(2) k2
    by (auto simp: arc_touch_one_def arc_get_def fun_eq_iff update_conv' delete_conv' Let_def
        split: option.splits)
qed

lemma arc_touch_one_props:
  assumes inv: "arc_inv p"
  shows "arc_inv (arc_touch_one k p) \<and> arc_get (arc_touch_one k p) = arc_get p"
proof (cases "map_of (t1 p) k")
  case (Some c)
  then show ?thesis using arc_touch_resident inv by (auto simp: arc_inv_def)
next
  case None
  have l: "arc_lists p" using inv by (simp add: arc_inv_def)
  consider "k \<in> set (keys (t2 p))" | "k \<notin> set (keys (t2 p))" "k \<in> set (b1 p)"
    | "k \<notin> set (keys (t2 p))" "k \<notin> set (b1 p)" "k \<in> set (b2 p)"
    | "k \<notin> set (keys (t2 p))" "k \<notin> set (b1 p)" "k \<notin> set (b2 p)" by blast
  then show ?thesis
  proof cases
    case 1
    then have "arc_touch_one k p = p\<lparr>t2 := od_move_to_end k (t2 p)\<rparr>"
      using None by (simp add: arc_touch_one_def)
    then show ?thesis using 1 inv l None
      by (auto simp: arc_inv_def arc_lists_def keys_move_to_end arc_get_def fun_eq_iff
          map_of_move_to_end split: option.splits)
  next
    case 2
    have "0 \<le> arc_capacity p" using inv by (simp add: arc_inv_def)
    then show ?thesis using 2 inv l None
      by (auto simp: arc_touch_one_def Let_def arc_inv_def arc_lists_def length_od_to_end
          intro: arc_get_cong)
  next
    case 3
    have "0 \<le> arc_capacity p" using inv by (simp add: arc_inv_def)
    then show ?thesis using 3 inv l None
      by (auto simp: arc_touch_one_def Let_def arc_inv_def arc_lists_def length_od_to_end
          intro: arc_get_cong)
  next
    case 4
    then show ?thesis using inv None by (simp add: arc_touch_one_def)
  qed
qed

lemma arc_touch_props: "arc_inv p \<Longrightarrow> arc_inv (arc_touch ks p) \<and> arc_get (arc_touch ks p) = arc_get p"
  unfolding arc_touch_def
  by (induction ks) (use arc_touch_one_props in \<open>auto simp: fold_append\<close>)

definition cands :: "bytes set \<Rightarrow> (bytes \<times> chunk_status) list \<Rightarrow> (bytes \<times> chunk_status) list" where
  "cands prot es = filter (\<lambda>kc. ref_cnt (snd kc) = 0 \<and> fst kc \<notin> prot) es"

lemma next_candidate_cases:
  obtains "cands prot es = []" "next_candidate prot es = (None, [])"
  | x es' where "cands prot es = x # cands prot es'" "next_candidate prot es = (Some x, es')"
proof -
  have "(cands prot es = [] \<and> next_candidate prot es = (None, [])) \<or>
    (\<exists>x es'. cands prot es = x # cands prot es' \<and> next_candidate prot es = (Some x, es'))"
    by (induction es) (auto simp: cands_def)
  with that show thesis by blast
qed

definition from_list :: "bool \<Rightarrow> (bytes \<times> chunk_status \<times> bool) list \<Rightarrow> (bytes \<times> chunk_status) list" where
  "from_list b cs = map (\<lambda>(k, c, _). (k, c)) (filter (\<lambda>(_, _, b'). b' = b) cs)"

definition select_ok ::
  "nat \<Rightarrow> (bytes \<times> chunk_status) list \<Rightarrow> (bytes \<times> chunk_status) list \<Rightarrow>
   (bytes \<times> chunk_status \<times> bool) list \<Rightarrow> bool"
where
  "select_ok n c1 c2 cs \<longleftrightarrow> length cs = n \<and>
     (\<exists>i. from_list True cs = take i c1) \<and> (\<exists>j. from_list False cs = take j c2)"

lemma select_ok_True:
  "select_ok n xs c2 cs \<Longrightarrow> select_ok (Suc n) (kc # xs) c2 ((fst kc, snd kc, True) # cs)"
  unfolding select_ok_def by (auto simp: from_list_def) (metis take_Suc_Cons)

lemma select_ok_False:
  "select_ok n c1 xs cs \<Longrightarrow> select_ok (Suc n) c1 (kc # xs) ((fst kc, snd kc, False) # cs)"
  unfolding select_ok_def by (auto simp: from_list_def) (metis take_Suc_Cons)

lemma arc_select_first:
  assumes "v \<ge> target" and "next_candidate prot it1 = (Some x, it1')"
  shows "arc_select prot target (Suc n) v it1 it2 =
    map_option ((#) (fst x, snd x, True)) (arc_select prot target n (v - 1) it1' it2)"
  using assms by (cases x) (simp add: Let_def)

lemma arc_select_second:
  assumes "v < target \<and> it1' = it1 \<or> v \<ge> target \<and> next_candidate prot it1 = (None, it1')"
  shows "arc_select prot target (Suc n) v it1 it2 =
    (case next_candidate prot it2 of
       (Some x, it2') \<Rightarrow> map_option ((#) (fst x, snd x, False)) (arc_select prot target n v it1' it2')
     | (None, it2') \<Rightarrow>
         (case next_candidate prot it1' of
            (None, _) \<Rightarrow> None
          | (Some x, it1'') \<Rightarrow>
              map_option ((#) (fst x, snd x, True)) (arc_select prot target n (v - 1) it1'' it2')))"
  using assms by (auto simp: Let_def split: option.splits prod.splits)

lemma arc_select_spec:
  "(length (cands prot it1) + length (cands prot it2) < n \<and> arc_select prot target n v it1 it2 = None) \<or>
   (n \<le> length (cands prot it1) + length (cands prot it2) \<and>
    (\<exists>cs. arc_select prot target n v it1 it2 = Some cs \<and>
          select_ok n (cands prot it1) (cands prot it2) cs))"
proof (induction n arbitrary: v it1 it2)
  case 0
  have "from_list b [] = take 0 xs" for b xs by (simp add: from_list_def)
  then have "select_ok 0 (cands prot it1) (cands prot it2) []" unfolding select_ok_def by blast
  then show ?case by simp
next
  case (Suc n)
  show ?case
  proof (cases rule: next_candidate_cases [of prot it1])
    case c1: 1
    show ?thesis
    proof (cases rule: next_candidate_cases [of prot it2])
      case 1
      then show ?thesis using c1 arc_select_second [of v target "if v < target then it1 else []" it1 prot n it2]
        by (auto split: if_splits)
    next
      case (2 x it2')
      let ?i1 = "if v < target then it1 else []"
      have "cands prot ?i1 = []" using c1 by (auto simp: cands_def)
      then show ?thesis
        using c1 2 arc_select_second [of v target ?i1 it1 prot n it2] Suc.IH [of ?i1 it2' v]
          select_ok_False [of n "[]" "cands prot it2'" _ x]
        by (auto split: if_splits)
    qed
  next
    case c1: (2 y it1')
    show ?thesis
    proof (cases "v \<ge> target")
      case True
      then show ?thesis
        using c1 arc_select_first [OF True c1(2), of n it2] Suc.IH [of it1' it2 "v - 1"]
          select_ok_True [of n "cands prot it1'" "cands prot it2" _ y] by auto
    next
      case False
      show ?thesis
      proof (cases rule: next_candidate_cases [of prot it2])
        case 1
        have "cands prot [] = []" by (simp add: cands_def)
        then show ?thesis
          using 1 c1 False arc_select_second [of v target it1 it1 prot n it2]
            Suc.IH [of it1' "[]" "v - 1"] select_ok_True [of n "cands prot it1'" "[]" _ y] by auto
      next
        case (2 x it2')
        then show ?thesis
          using c1 False arc_select_second [of v target it1 it1 prot n it2]
            Suc.IH [of it1 it2' v] select_ok_False [of n "cands prot it1" "cands prot it2'" _ x] by auto
      qed
    qed
  qed
qed


lemma arc_drop_one:
  assumes "arc_lists p" and "map_of (if b then t1 p else t2 p) k = Some c"
  shows "\<exists>p'. arc_drop (k, c, b) p = Inr p' \<and> arc_lists p' \<and> arc_get p' = (arc_get p)(k := None) \<and>
    target_t1_size p' = target_t1_size p \<and> arc_capacity p' = arc_capacity p \<and>
    map_of (t1 p') = (if b then (map_of (t1 p))(k := None) else map_of (t1 p)) \<and>
    map_of (t2 p') = (if b then map_of (t2 p) else (map_of (t2 p))(k := None))"
proof (cases b)
  case True
  then have k: "k \<in> set (keys (t1 p))" using assms(2) by (auto simp: map_of_in_keys)
  then have "k \<notin> set (keys (t2 p))" using assms(1) by (auto simp: arc_lists_def)
  then have k2: "map_of (t2 p) k = None" by (simp add: map_of_eq_None_keys)
  let ?p' = "p\<lparr>t1 := AList.delete k (t1 p), b1 := od_add k (b1 p)\<rparr>"
  have "arc_drop (k, c, b) p = Inr ?p'" using True k by (simp add: arc_drop_def)
  moreover have "arc_lists ?p'" using assms(1) k by (auto simp: arc_lists_def)
  moreover have "arc_get ?p' = (arc_get p)(k := None)"
    using k2 by (rule_tac ext) (simp add: arc_get_def delete_conv' split: option.splits)
  ultimately show ?thesis using True by (intro exI [of _ ?p']) (simp add: delete_conv')
next
  case False
  then have k: "k \<in> set (keys (t2 p))" using assms(2) by (auto simp: map_of_in_keys)
  then have "k \<notin> set (keys (t1 p))" using assms(1) by (auto simp: arc_lists_def)
  then have k2: "map_of (t1 p) k = None" by (simp add: map_of_eq_None_keys)
  let ?p' = "p\<lparr>t2 := AList.delete k (t2 p), b2 := od_add k (b2 p)\<rparr>"
  have "arc_drop (k, c, b) p = Inr ?p'" using False k by (simp add: arc_drop_def)
  moreover have "arc_lists ?p'" using assms(1) k by (auto simp: arc_lists_def)
  moreover have "arc_get ?p' = (arc_get p)(k := None)"
    using k2 by (rule_tac ext) (simp add: arc_get_def delete_conv' split: option.splits)
  ultimately show ?thesis using False by (intro exI [of _ ?p']) (simp add: delete_conv')
qed

lemma arc_drop_all:
  assumes "arc_lists p" and "distinct (map fst cs)"
    and "\<forall>(k, c, b)\<in>set cs. map_of (if b then t1 p else t2 p) k = Some c"
  shows "\<exists>p'. rfold arc_drop cs p = Inr p' \<and> arc_lists p' \<and>
    arc_get p' = (arc_get p) |` (- fst ` set cs) \<and>
    target_t1_size p' = target_t1_size p \<and> arc_capacity p' = arc_capacity p"
  using assms
proof (induction cs arbitrary: p)
  case Nil
  then show ?case by (simp add: restrict_map_def)
next
  case (Cons x cs)
  obtain k c b where x: "x = (k, c, b)" by (cases x)
  then have kc: "map_of (if b then t1 p else t2 p) k = Some c" using Cons.prems(3) by simp
  from arc_drop_one [OF Cons.prems(1) this] obtain p1 where
    p1: "arc_drop x p = Inr p1" "arc_lists p1" "arc_get p1 = (arc_get p)(k := None)"
      "target_t1_size p1 = target_t1_size p" "arc_capacity p1 = arc_capacity p" and
    m: "map_of (t1 p1) = (if b then (map_of (t1 p))(k := None) else map_of (t1 p))"
      "map_of (t2 p1) = (if b then map_of (t2 p) else (map_of (t2 p))(k := None))"
    unfolding x by blast
  have "map_of (if b' then t1 p1 else t2 p1) k' = Some c'" if y: "(k', c', b') \<in> set cs" for k' c' b'
  proof -
    have "k' \<noteq> k" using y Cons.prems(2) x by force
    moreover have "map_of (if b' then t1 p else t2 p) k' = Some c'" using y Cons.prems(3) by auto
    ultimately show ?thesis using m by (auto split: if_splits)
  qed
  then have "\<forall>(k, c, b)\<in>set cs. map_of (if b then t1 p1 else t2 p1) k = Some c" by blast
  from Cons.IH [OF p1(2) _ this] Cons.prems(2) obtain p' where
    p': "rfold arc_drop cs p1 = Inr p'" "arc_lists p'" "arc_get p' = (arc_get p1) |` (- fst ` set cs)"
      "target_t1_size p' = target_t1_size p1" "arc_capacity p' = arc_capacity p1" by auto
  have "arc_get p' = (arc_get p) |` (- fst ` set (x # cs))"
    unfolding p'(3) p1(3) using x by (auto simp: restrict_map_def fun_eq_iff)
  then show ?case using p1 p' by (intro exI [of _ p']) simp
qed

lemma from_list_keys: "fst ` set cs = fst ` set (from_list True cs) \<union> fst ` set (from_list False cs)"
  by (induction cs) (auto simp: from_list_def)

lemma from_list_Cons [simp]:
  "from_list b ((k, c, b') # cs) = (if b' = b then (k, c) # from_list b cs else from_list b cs)"
  by (simp add: from_list_def)

lemma from_list_distinct:
  assumes "distinct (map fst (from_list True cs))" and "distinct (map fst (from_list False cs))"
    and "fst ` set (from_list True cs) \<inter> fst ` set (from_list False cs) = {}"
  shows "distinct (map fst cs)"
  using assms
proof (induction cs)
  case Nil
  then show ?case by simp
next
  case (Cons x cs)
  obtain k c b where x: "x = (k, c, b)" by (cases x)
  have "k \<notin> fst ` set cs" using Cons.prems x by (cases b) (auto simp: from_list_keys [of cs])
  moreover have "distinct (map fst cs)" using Cons x by (cases b) auto
  ultimately show ?case using x by simp
qed

lemma from_list_member: "(k, c, b) \<in> set cs \<Longrightarrow> (k, c) \<in> set (from_list b cs)"
  by (force simp: from_list_def image_iff)

lemma cands_subset: "set (cands prot es) \<subseteq> set es"
  by (auto simp: cands_def)

lemma cands_distinct: "distinct (keys es) \<Longrightarrow> distinct (map fst (cands prot es))"
  by (simp add: cands_def keys_def distinct_map_filter)

lemma trim_ghost_props:
  "distinct g \<Longrightarrow> distinct (trim_ghost cap g)" "set (trim_ghost cap g) \<subseteq> set g"
  "0 \<le> cap \<Longrightarrow> int (length (trim_ghost cap g)) \<le> cap"
  by (auto simp: trim_ghost_def dest: in_set_dropD)

lemma arc_trim:
  assumes "arc_lists p" and "0 \<le> target_t1_size p" and "target_t1_size p \<le> rat_of_int (arc_capacity p)"
  shows "arc_inv (p\<lparr>b1 := trim_ghost (arc_capacity p) (b1 p), b2 := trim_ghost (arc_capacity p) (b2 p)\<rparr>)"
proof -
  have "0 \<le> rat_of_int (arc_capacity p)" using assms(2,3) by linarith
  then have cap: "0 \<le> arc_capacity p" by simp
  note tr = trim_ghost_props(2) [of "arc_capacity p" "b1 p"] trim_ghost_props(2) [of "arc_capacity p" "b2 p"]
  have "arc_lists (p\<lparr>b1 := trim_ghost (arc_capacity p) (b1 p), b2 := trim_ghost (arc_capacity p) (b2 p)\<rparr>)"
    using assms(1) tr by (auto simp: arc_lists_def trim_ghost_props(1))
  then show ?thesis using assms(2,3) trim_ghost_props(3) [OF cap] by (simp add: arc_inv_def)
qed

lemma select_ok_props:
  assumes "arc_lists p" and "select_ok n (cands prot (t1 p)) (cands prot (t2 p)) cs"
  shows "distinct (map fst cs)"
    and "\<And>k c b. (k, c, b) \<in> set cs \<Longrightarrow>
      map_of (if b then t1 p else t2 p) k = Some c \<and> ref_cnt c = 0 \<and> k \<notin> prot"
proof -
  obtain i j where i: "from_list True cs = take i (cands prot (t1 p))"
    and j: "from_list False cs = take j (cands prot (t2 p))"
    using assms(2) by (auto simp: select_ok_def)
  have d: "distinct (keys (t1 p))" "distinct (keys (t2 p))" using assms(1) by (auto simp: arc_lists_def)
  have s1: "set (from_list True cs) \<subseteq> set (cands prot (t1 p))"
    and s2: "set (from_list False cs) \<subseteq> set (cands prot (t2 p))"
    using i j set_take_subset by (metis, metis)
  have "fst ` set (t1 p) \<inter> fst ` set (t2 p) = {}" using assms(1) by (auto simp: arc_lists_def keys_def)
  then have "fst ` set (from_list True cs) \<inter> fst ` set (from_list False cs) = {}"
    using s1 s2 cands_subset by blast
  moreover have "distinct (map fst (from_list True cs))" "distinct (map fst (from_list False cs))"
    using i j cands_distinct [OF d(1)] cands_distinct [OF d(2)]
    by (simp_all add: distinct_take flip: take_map)
  ultimately show "distinct (map fst cs)" by (intro from_list_distinct)
  fix k c b
  assume "(k, c, b) \<in> set cs"
  then have "(k, c) \<in> set (cands prot (if b then t1 p else t2 p))"
    using from_list_member s1 s2 by (cases b) auto
  then show "map_of (if b then t1 p else t2 p) k = Some c \<and> ref_cnt c = 0 \<and> k \<notin> prot"
    using d by (auto simp: cands_def keys_def map_of_eq_Some_iff)
qed

lemma arc_get_in:
  assumes "arc_lists p"
  shows "arc_get p k = Some c \<longleftrightarrow> (k, c) \<in> set (t1 p) \<or> (k, c) \<in> set (t2 p)"
proof -
  have d: "distinct (map fst (t1 p))" "distinct (map fst (t2 p))" and
    x: "fst ` set (t1 p) \<inter> fst ` set (t2 p) = {}"
    using assms by (auto simp: arc_lists_def keys_def)
  show ?thesis
  proof (cases "map_of (t1 p) k")
    case None
    then have "(k, c) \<notin> set (t1 p)" by (force simp: map_of_eq_None_iff)
    then show ?thesis using None d by (simp add: arc_get_def)
  next
    case (Some c')
    then have "(k, c) \<notin> set (t2 p)" using x by (force dest: map_of_SomeD)
    then show ?thesis using Some d(1) map_of_eq_Some_iff [OF d(1), of k c] by (simp add: arc_get_def)
  qed
qed

lemma arc_idle_card:
  assumes l: "arc_lists p"
  shows "card (idle arc_ops prot p) = length (cands prot (t1 p)) + length (cands prot (t2 p))"
proof -
  let ?A = "fst ` set (cands prot (t1 p))" and ?B = "fst ` set (cands prot (t2 p))"
  have mem: "k \<in> fst ` set (cands prot es) \<longleftrightarrow> (\<exists>c. (k, c) \<in> set es \<and> ref_cnt c = 0 \<and> k \<notin> prot)"
    for k es by (auto simp: cands_def image_iff)
  have "idle arc_ops prot p = ?A \<union> ?B"
    by (rule set_eqI) (simp only: Un_iff mem, auto simp: idle_def arc_ops_def arc_get_in [OF l])
  moreover have "fst ` set (t1 p) \<inter> fst ` set (t2 p) = {}"
    using l by (auto simp: arc_lists_def keys_def)
  then have "?A \<inter> ?B = {}"
    using image_mono [OF cands_subset [of prot "t1 p"], of fst]
      image_mono [OF cands_subset [of prot "t2 p"], of fst] by blast
  moreover have "card ?A = length (cands prot (t1 p))" "card ?B = length (cands prot (t2 p))"
    using l cands_distinct [of "t1 p" prot] cands_distinct [of "t2 p" prot]
      distinct_card [of "map fst (cands prot (t1 p))"] distinct_card [of "map fst (cands prot (t2 p))"]
    by (simp_all add: arc_lists_def)
  ultimately show ?thesis by (simp add: card_Un_disjoint)
qed


lemma arc_evict_cases:
  assumes inv: "arc_inv p"
  shows "card (idle arc_ops prot p) < n \<Longrightarrow> arc_evict n prot p = Inr (None, p)"
    and "n \<le> card (idle arc_ops prot p) \<Longrightarrow>
      \<exists>ev p'. arc_evict n prot p = Inr (Some ev, p') \<and> length ev = n \<and> distinct (map fst ev) \<and>
        (\<forall>kc\<in>set ev. arc_get p (fst kc) = Some (snd kc) \<and> ref_cnt (snd kc) = 0 \<and> fst kc \<notin> prot) \<and>
        arc_get p' = (arc_get p) |` (- fst ` set ev) \<and> arc_inv p'"
proof -
  have l: "arc_lists p" using inv by (simp add: arc_inv_def)
  note spec = arc_select_spec [of prot "t1 p" "t2 p" n "\<lfloor>target_t1_size p\<rfloor>" "int (length (t1 p))"]
  show "arc_evict n prot p = Inr (None, p)" if "card (idle arc_ops prot p) < n"
    using that spec arc_idle_card [OF l, of prot] by (auto simp: arc_evict_def)
  assume n: "n \<le> card (idle arc_ops prot p)"
  show "\<exists>ev p'. arc_evict n prot p = Inr (Some ev, p') \<and> length ev = n \<and> distinct (map fst ev) \<and>
        (\<forall>kc\<in>set ev. arc_get p (fst kc) = Some (snd kc) \<and> ref_cnt (snd kc) = 0 \<and> fst kc \<notin> prot) \<and>
        arc_get p' = (arc_get p) |` (- fst ` set ev) \<and> arc_inv p'"
  proof (cases "n = 0")
    case True
    then show ?thesis using inv
      by (intro exI [of _ "[]"] exI [of _ p]) (simp add: arc_evict_def restrict_map_def)
  next
    case False
    obtain cs where cs: "arc_select prot \<lfloor>target_t1_size p\<rfloor> n (int (length (t1 p))) (t1 p) (t2 p) = Some cs"
      and ok: "select_ok n (cands prot (t1 p)) (cands prot (t2 p)) cs"
      using spec n arc_idle_card [OF l, of prot] by auto
    note sel = select_ok_props [OF l ok]
    have "\<forall>(k, c, b)\<in>set cs. map_of (if b then t1 p else t2 p) k = Some c" using sel(2) by blast
    from arc_drop_all [OF l sel(1) this] obtain p1 where
      p1: "rfold arc_drop cs p = Inr p1" "arc_lists p1" "arc_get p1 = (arc_get p) |` (- fst ` set cs)"
        "target_t1_size p1 = target_t1_size p" "arc_capacity p1 = arc_capacity p" by blast
    define ev where "ev = map (\<lambda>(k, c, _). (k, c)) cs"
    define p' where "p' = p1\<lparr>b1 := trim_ghost (arc_capacity p1) (b1 p1),
                             b2 := trim_ghost (arc_capacity p1) (b2 p1)\<rparr>"
    have e: "arc_evict n prot p = Inr (Some ev, p')"
      using False cs p1 by (simp add: arc_evict_def ev_def p'_def)
    have i: "arc_inv p'"
      unfolding p'_def by (rule arc_trim) (use inv p1 in \<open>simp_all add: arc_inv_def\<close>)
    have f: "map fst ev = map fst cs" by (simp add: ev_def case_prod_unfold)
    then have fs: "fst ` set ev = fst ` set cs" by (metis set_map)
    have g: "arc_get p' = (arc_get p) |` (- fst ` set ev)"
      unfolding fs p1(3) [symmetric] p'_def by (rule arc_get_cong) simp_all
    have m: "arc_get p (fst kc) = Some (snd kc) \<and> ref_cnt (snd kc) = 0 \<and> fst kc \<notin> prot"
      if kc: "kc \<in> set ev" for kc
    proof -
      obtain k c b where y: "(k, c, b) \<in> set cs" "kc = (k, c)" using kc by (auto simp: ev_def)
      have "(k, c) \<in> set (if b then t1 p else t2 p)" using sel(2) [OF y(1)] by (simp add: map_of_SomeD)
      then have "arc_get p k = Some c" using arc_get_in [OF l] by (auto split: if_splits)
      then show ?thesis using sel(2) [OF y(1)] y(2) by simp
    qed
    have "length ev = n" using ok by (simp add: ev_def select_ok_def)
    then show ?thesis using e i f g m sel(1) by (intro exI [of _ ev] exI [of _ p']) simp
  qed
qed

lemma arc_put_get:
  assumes "arc_get p k \<noteq> None"
  shows "arc_get (arc_put k c p) = (arc_get p)(k \<mapsto> c)"
proof (cases "k \<in> set (keys (t1 p))")
  case True
  then show ?thesis
    by (intro ext) (simp add: arc_put_def arc_get_def update_conv' split: option.splits)
next
  case False
  then have "map_of (t1 p) k = None" by (simp add: map_of_eq_None_keys)
  then show ?thesis using False
    by (intro ext) (simp add: arc_put_def arc_get_def update_conv' split: option.splits)
qed

lemma arc_put_inv: "arc_inv p \<Longrightarrow> arc_get p k \<noteq> None \<Longrightarrow> arc_inv (arc_put k c p)"
  using arc_get_None [of p k] by (auto simp: arc_put_def arc_inv_def arc_lists_def keys_update)

lemma arc_insert_props:
  assumes "arc_inv p"
  shows "arc_get (arc_insert k c p) = (arc_get p)(k \<mapsto> c)"
    and "arc_get p k = None \<Longrightarrow> arc_inv (arc_insert k c p)"
proof -
  show "arc_get (arc_insert k c p) = (arc_get p)(k \<mapsto> c)"
    by (intro ext) (simp add: arc_insert_def arc_get_def update_conv' split: option.splits)
  have "length (od_del k (b1 p)) \<le> length (b1 p)" "length (od_del k (b2 p)) \<le> length (b2 p)"
    by (rule length_od_del)+
  then show "arc_inv (arc_insert k c p)" if "arc_get p k = None"
    using assms that by (auto simp: arc_insert_def arc_inv_def arc_lists_def keys_update arc_get_None)
qed

lemma arc_remove_props:
  assumes inv: "arc_inv p"
  shows "\<exists>p'. arc_remove k p = Inr p' \<and> arc_get p' = (arc_get p)(k := None) \<and> arc_inv p'"
proof (cases "map_of (t1 p) k")
  case None
  let ?p' = "p\<lparr>t2 := AList.delete k (t2 p)\<rparr>"
  have "arc_get ?p' = (arc_get p)(k := None)" using None
    by (intro ext) (simp add: arc_get_def delete_conv' split: option.splits)
  moreover have "arc_inv ?p'" using inv by (auto simp: arc_inv_def arc_lists_def)
  ultimately show ?thesis using None by (simp add: arc_remove_def)
next
  case (Some c)
  let ?p' = "p\<lparr>t1 := AList.delete k (t1 p)\<rparr>"
  have "k \<in> set (keys (t1 p))" using Some by (auto simp: map_of_in_keys)
  then have "k \<notin> set (keys (t2 p))" using inv by (auto simp: arc_inv_def arc_lists_def)
  then have "map_of (t2 p) k = None" by (simp add: map_of_eq_None_keys)
  then have "arc_get ?p' = (arc_get p)(k := None)"
    by (intro ext) (simp add: arc_get_def delete_conv' split: option.splits)
  moreover have "arc_inv ?p'" using inv by (auto simp: arc_inv_def arc_lists_def)
  ultimately show ?thesis using Some by (simp add: arc_remove_def)
qed

lemma arc_clear_props: "arc_inv p \<Longrightarrow> arc_inv (arc_clear p)" "arc_get (arc_clear p) = (\<lambda>_. None)"
proof -
  show "arc_get (arc_clear p) = (\<lambda>_. None)" by (intro ext) (simp add: arc_clear_def arc_get_def)
  assume "arc_inv p"
  then have "0 \<le> rat_of_int (arc_capacity p)" unfolding arc_inv_def by linarith
  then show "arc_inv (arc_clear p)" by (simp add: arc_inv_def arc_lists_def arc_clear_def)
qed

interpretation arc: cache_policy arc_ops arc_inv
proof unfold_locales
  have "finite (dom (arc_get p))" for p by (simp add: dom_arc_get)
  then show "finite (dom (op_get arc_ops p))" for p by (simp add: arc_ops_def)
qed (use arc_evict_cases arc_put_get arc_put_inv arc_insert_props arc_remove_props arc_clear_props
      arc_touch_props in \<open>auto simp: arc_ops_def\<close>)

lemma lru_init_inv: "lru_inv (lru_init n)"
  by (simp add: lru_inv_def lru_init_def)

lemma arc_init_inv: "0 \<le> n \<Longrightarrow> arc_inv (arc_init n)"
  by (simp add: arc_inv_def arc_lists_def arc_init_def)

end
