(* ===== verification/Offload_Manager.thy ===== *)
theory Offload_Manager
  imports Offload_Policy
begin

text \<open>
  The CPU offloading manager (\<^verbatim>\<open>vllm/v1/kv_offload/cpu/manager.py\<close>): the pool of chunk ids, reference
  counting of chunks that are being read or written, admission by access counts, and eviction
  delegated to a replacement policy. Every operation takes the operations of the policy, as the
  Python object calls the methods of its \<^verbatim>\<open>CachePolicy\<close>. The invariant is proved once, in the
  locale \<open>cache_policy\<close>, and used for LRU and for ARC.
\<close>

section \<open>State\<close>

datatype lookup_result = MISS | HIT | HIT_PENDING | RETRY

record offloading_event =
  event_keys :: "bytes list"
  removed :: bool

record prepare_store_output =
  keys_to_store :: "bytes list"
  store_spec :: "int list"
  evicted_keys :: "bytes list"

record 'p offload_manager =
  num_chunks :: int
  num_allocated_chunks :: int
  free_list :: "int list"
  events :: "offloading_event list option"
  policy :: 'p
  num_evictable_cache_chunks :: int
  num_write_pending_chunks :: int
  store_threshold :: int
  max_tracker_size :: int
  stores_skipped_in_current_batch :: int
  allocation_sizes_in_current_batch :: "int list"
  counts :: "(bytes \<times> int) list option"

definition om_init :: "int \<Rightarrow> 'p \<Rightarrow> bool \<Rightarrow> int \<Rightarrow> int \<Rightarrow> 'p offload_manager" where
  "om_init n p enable_events threshold tracker =
     \<lparr>num_chunks = n, num_allocated_chunks = 0, free_list = [],
      events = (if enable_events then Some [] else None), policy = p,
      num_evictable_cache_chunks = 0, num_write_pending_chunks = 0, store_threshold = threshold,
      max_tracker_size = tracker, stores_skipped_in_current_batch = 0,
      allocation_sizes_in_current_batch = [], counts = (if threshold \<ge> 2 then Some [] else None)\<rparr>"

section \<open>The chunk pool\<close>

definition get_num_free_chunks :: "'p offload_manager \<Rightarrow> int" where
  "get_num_free_chunks m = int (length (free_list m)) + num_chunks m - num_allocated_chunks m"

definition allocate_chunks ::
  "bytes list \<Rightarrow> 'p offload_manager \<Rightarrow> (chunk_status list \<times> 'p offload_manager) res"
where
  "allocate_chunks ks m =
     (let num_fresh = min (int (length ks)) (num_chunks m - num_allocated_chunks m);
          num_reused = int (length ks) - num_fresh;
          a = num_allocated_chunks m; fl = free_list m
      in rbind (ensure (int (length fl) \<ge> num_reused) AssertionError) (\<lambda>_.
           Inr (map chunk_init ([a..a + num_fresh - 1] @ take (nat num_reused) (rev fl)),
                m\<lparr>num_allocated_chunks := a + int (nat num_fresh),
                  free_list := take (length fl - nat num_reused) fl\<rparr>)))"

definition free_chunk :: "chunk_status \<Rightarrow> 'p offload_manager \<Rightarrow> 'p offload_manager" where
  "free_chunk c m = m\<lparr>free_list := free_list m @ [chunk_id c]\<rparr>"

definition get_load_store_spec :: "chunk_status list \<Rightarrow> int list" where
  "get_load_store_spec cs = map chunk_id cs"

section \<open>Access counts\<close>

definition count_again :: "bytes \<Rightarrow> (bytes \<times> int) list \<times> bytes list \<Rightarrow> (bytes \<times> int) list \<times> bytes list" where
  \<comment> \<open>first loop: a tracked key moves to the end and is counted\<close>
  "count_again k s =
     (case s of (cs, prot) \<Rightarrow>
        (case map_of cs k of
           None \<Rightarrow> (cs, prot)
         | Some n \<Rightarrow> (AList.update k (n + 1) (od_move_to_end k cs), List.insert k prot)))"

definition track_new :: "int \<Rightarrow> bytes \<Rightarrow> (bytes \<times> int) list \<times> int \<Rightarrow> ((bytes \<times> int) list \<times> int) res" where
  \<comment> \<open>second loop: a new key replaces the oldest key that was not offered\<close>
  "track_new tracker k s =
     (case s of (cs, unprotected) \<Rightarrow>
        if k \<in> set (keys cs) then Inr (cs, unprotected)
        else if int (length cs) \<ge> tracker
        then if unprotected = 0 then Inr (cs, unprotected)
             else rbind (ensure (cs \<noteq> []) KeyError) (\<lambda>_.
                    Inr (AList.update k 1 (tl cs), unprotected - 1))
        else Inr (AList.update k 1 cs, unprotected))"

definition record_counts :: "int \<Rightarrow> bytes list \<Rightarrow> (bytes \<times> int) list \<Rightarrow> (bytes \<times> int) list res" where
  "record_counts tracker ks cs =
     (case fold count_again ks (cs, []) of (cs1, prot) \<Rightarrow>
        rbind (rfold (track_new tracker) ks (cs1, int (length cs1) - int (length prot))) (\<lambda>s. Inr (fst s)))"

definition record_accesses :: "bytes list \<Rightarrow> 'p offload_manager \<Rightarrow> 'p offload_manager res" where
  "record_accesses ks m =
     (case counts m of
        None \<Rightarrow> Inl AssertionError
      | Some cs \<Rightarrow>
          rbind (record_counts (max_tracker_size m) ks cs) (\<lambda>cs'. Inr (m\<lparr>counts := Some cs'\<rparr>)))"

section \<open>The manager interface\<close>

definition om_lookup :: "'p policy_ops \<Rightarrow> bytes \<Rightarrow> 'p offload_manager \<Rightarrow> lookup_result" where
  "om_lookup ops k m =
     (case op_get ops (policy m) k of
        None \<Rightarrow> MISS
      | Some c \<Rightarrow> if \<not> is_ready c then HIT_PENDING else HIT)"

definition pin_chunk ::
  "'p policy_ops \<Rightarrow> bytes \<Rightarrow> chunk_status \<Rightarrow> 'p offload_manager \<Rightarrow> 'p offload_manager res"
where
  \<comment> \<open>the common part of \<^verbatim>\<open>prepare_load\<close> and \<^verbatim>\<open>reserve_hits\<close>\<close>
  "pin_chunk ops k c m =
     rbind (if ref_cnt c = 0
            then rbind (op_mark_non_evictable ops k (policy m)) (\<lambda>p1.
                 let m1 = m\<lparr>policy := p1,
                            num_evictable_cache_chunks := num_evictable_cache_chunks m - 1\<rparr>
                 in rbind (ensure (num_evictable_cache_chunks m1 \<ge> 0) AssertionError) (\<lambda>_. Inr m1))
            else Inr m) (\<lambda>m1.
       Inr (m1\<lparr>policy := op_put ops k (c\<lparr>ref_cnt := ref_cnt c + 1\<rparr>) (policy m1)\<rparr>))"

definition unpin_chunk :: "'p policy_ops \<Rightarrow> bytes \<Rightarrow> 'p offload_manager \<Rightarrow> 'p offload_manager res" where
  \<comment> \<open>the loop body of \<^verbatim>\<open>complete_load\<close> and \<^verbatim>\<open>release_reservation\<close>\<close>
  "unpin_chunk ops k m =
     (case op_get ops (policy m) k of
        None \<Rightarrow> Inl AssertionError
      | Some c \<Rightarrow>
          rbind (ensure (sint (ref_cnt c) > 0) AssertionError) (\<lambda>_.
            let c1 = c\<lparr>ref_cnt := ref_cnt c - 1\<rparr>; m1 = m\<lparr>policy := op_put ops k c1 (policy m)\<rparr>
            in if ref_cnt c1 = 0
               then Inr (m1\<lparr>num_evictable_cache_chunks := num_evictable_cache_chunks m1 + 1,
                            policy := op_mark_evictable ops k (policy m1)\<rparr>)
               else Inr m1))"

fun om_prepare_load ::
  "'p policy_ops \<Rightarrow> bytes list \<Rightarrow> 'p offload_manager \<Rightarrow> (int list \<times> 'p offload_manager) res"
where
  "om_prepare_load ops [] m = Inr ([], m)"
| "om_prepare_load ops (k # ks) m =
     (case op_get ops (policy m) k of
        None \<Rightarrow> Inl AssertionError
      | Some c \<Rightarrow>
          rbind (ensure (is_ready c) AssertionError) (\<lambda>_.
          rbind (pin_chunk ops k c m) (\<lambda>m1.
          rbind (om_prepare_load ops ks m1) (\<lambda>(ids, m2). Inr (chunk_id c # ids, m2)))))"

fun om_reserve_hits ::
  "'p policy_ops \<Rightarrow> bytes list \<Rightarrow> 'p offload_manager \<Rightarrow> (bytes list \<times> 'p offload_manager) res"
where
  "om_reserve_hits ops [] m = Inr ([], m)"
| "om_reserve_hits ops (k # ks) m =
     (case op_get ops (policy m) k of
        None \<Rightarrow> om_reserve_hits ops ks m
      | Some c \<Rightarrow>
          if \<not> is_ready c then om_reserve_hits ops ks m
          else rbind (pin_chunk ops k c m) (\<lambda>m1.
               rbind (om_reserve_hits ops ks m1) (\<lambda>(res, m2). Inr (k # res, m2))))"

definition om_release_reservation ::
  "'p policy_ops \<Rightarrow> bytes list \<Rightarrow> 'p offload_manager \<Rightarrow> 'p offload_manager res"
where
  "om_release_reservation ops ks m = rfold (unpin_chunk ops) ks m"

definition om_complete_load ::
  "'p policy_ops \<Rightarrow> bytes list \<Rightarrow> 'p offload_manager \<Rightarrow> 'p offload_manager res"
where
  "om_complete_load ops ks m = rfold (unpin_chunk ops) ks m"

definition om_touch :: "'p policy_ops \<Rightarrow> bytes list \<Rightarrow> 'p offload_manager \<Rightarrow> 'p offload_manager" where
  "om_touch ops ks m = m\<lparr>policy := op_touch ops ks (policy m)\<rparr>"

definition admit_keys :: "bytes list \<Rightarrow> 'p offload_manager \<Rightarrow> (bytes list \<times> 'p offload_manager) res" where
  \<comment> \<open>the access count filter at the start of \<^verbatim>\<open>prepare_store\<close>\<close>
  "admit_keys ks m =
     (if counts m = None then Inr (ks, m)
      else rbind (record_accesses ks m) (\<lambda>m1.
        let cs = the (counts m1);
            ks' = filter (\<lambda>k. (case map_of cs k of None \<Rightarrow> 0 | Some n \<Rightarrow> n) \<ge> store_threshold m1) ks
        in Inr (ks', m1\<lparr>stores_skipped_in_current_batch :=
                          stores_skipped_in_current_batch m1 + (int (length ks) - int (length ks'))\<rparr>)))"

definition make_room ::
  "'p policy_ops \<Rightarrow> bytes list \<Rightarrow> int \<Rightarrow> 'p offload_manager \<Rightarrow> (bytes list option \<times> 'p offload_manager) res"
where
  \<comment> \<open>the eviction part of \<^verbatim>\<open>prepare_store\<close>: the evicted keys, or \<^verbatim>\<open>None\<close> when there is not enough to evict\<close>
  "make_room ops ks n m =
     (if n > 0
      then if n > num_evictable_cache_chunks m then Inr (None, m)
           else rbind (op_evict ops (nat n) (set ks) (policy m)) (\<lambda>(ev, p1).
             case ev of
               None \<Rightarrow> Inr (None, m\<lparr>policy := p1\<rparr>)
             | Some evicted \<Rightarrow>
                 let m1 = m\<lparr>policy := p1, num_evictable_cache_chunks :=
                             num_evictable_cache_chunks m - int (length evicted)\<rparr>
                 in rbind (ensure (num_evictable_cache_chunks m1 \<ge> 0) AssertionError) (\<lambda>_.
                      Inr (Some (map fst evicted), fold (free_chunk \<circ> snd) evicted m1)))
      else Inr (Some [], m))"

definition add_event :: "bytes list \<Rightarrow> bool \<Rightarrow> 'p offload_manager \<Rightarrow> 'p offload_manager" where
  "add_event ks rem m =
     (case events m of
        None \<Rightarrow> m
      | Some es \<Rightarrow> if ks = [] then m
                   else m\<lparr>events := Some (es @ [\<lparr>event_keys = ks, removed = rem\<rparr>])\<rparr>)"

definition insert_chunks ::
  "'p policy_ops \<Rightarrow> (bytes \<times> chunk_status) list \<Rightarrow> 'p offload_manager \<Rightarrow> 'p offload_manager"
where
  "insert_chunks ops kcs m = m\<lparr>policy := fold (\<lambda>(k, c). op_insert ops k c) kcs (policy m)\<rparr>"

definition om_prepare_store ::
  "'p policy_ops \<Rightarrow> bytes list \<Rightarrow> 'p offload_manager \<Rightarrow>
   (prepare_store_output option \<times> 'p offload_manager) res"
where
  "om_prepare_store ops offered m0 =
     rbind (admit_keys offered m0) (\<lambda>(ks, m).
     let to_store = filter (\<lambda>k. op_get ops (policy m) k = None) ks in
     if to_store = []
     then Inr (Some \<lparr>keys_to_store = [], store_spec = get_load_store_spec [], evicted_keys = []\<rparr>, m)
     else
       let m1 = m\<lparr>allocation_sizes_in_current_batch :=
                    allocation_sizes_in_current_batch m @ [int (length to_store)]\<rparr>
       in rbind (make_room ops ks (int (length to_store) - get_num_free_chunks m1) m1) (\<lambda>(room, m2).
            case room of
              None \<Rightarrow> Inr (None, m2)
            | Some to_evict \<Rightarrow>
                rbind (allocate_chunks to_store (add_event to_evict True m2)) (\<lambda>(cs, m3).
                rbind (ensure (length cs = length to_store) AssertionError) (\<lambda>_.
                  let m4 = insert_chunks ops (zip to_store cs) m3
                  in Inr (Some \<lparr>keys_to_store = to_store, store_spec = get_load_store_spec cs,
                                evicted_keys = to_evict\<rparr>,
                          m4\<lparr>num_write_pending_chunks :=
                               num_write_pending_chunks m4 + int (length to_store)\<rparr>)))))"

definition store_ok ::
  "'p policy_ops \<Rightarrow> bytes \<Rightarrow> bytes list \<times> 'p offload_manager \<Rightarrow> bytes list \<times> 'p offload_manager"
where
  \<comment> \<open>loop body of \<^verbatim>\<open>complete_store\<close> after a successful transfer\<close>
  "store_ok ops k s =
     (case s of (stored, m) \<Rightarrow>
        (case op_get ops (policy m) k of
           None \<Rightarrow> s
         | Some c \<Rightarrow>
             if is_ready c then s
             else (stored @ [k],
                   m\<lparr>policy := op_mark_evictable ops k (op_put ops k (c\<lparr>ref_cnt := 0\<rparr>) (policy m)),
                     num_write_pending_chunks := num_write_pending_chunks m - 1,
                     num_evictable_cache_chunks := num_evictable_cache_chunks m + 1\<rparr>)))"

definition store_failed :: "'p policy_ops \<Rightarrow> bytes \<Rightarrow> 'p offload_manager \<Rightarrow> 'p offload_manager res" where
  \<comment> \<open>loop body of \<^verbatim>\<open>complete_store\<close> after a failed transfer\<close>
  "store_failed ops k m =
     (case op_get ops (policy m) k of
        None \<Rightarrow> Inr m
      | Some c \<Rightarrow>
          if is_ready c then Inr m
          else rbind (op_remove ops k (policy m)) (\<lambda>p1.
                 Inr (free_chunk c (m\<lparr>num_write_pending_chunks := num_write_pending_chunks m - 1,
                                      policy := p1\<rparr>))))"

definition om_complete_store ::
  "'p policy_ops \<Rightarrow> bytes list \<Rightarrow> bool \<Rightarrow> 'p offload_manager \<Rightarrow> 'p offload_manager res"
where
  "om_complete_store ops ks success m =
     (if success
      then case fold (store_ok ops) ks ([], m) of (stored, m1) \<Rightarrow> Inr (add_event stored False m1)
      else rfold (store_failed ops) ks m)"

definition om_reset_cache :: "'p policy_ops \<Rightarrow> 'p offload_manager \<Rightarrow> 'p offload_manager" where
  "om_reset_cache ops m =
     m\<lparr>policy := op_clear ops (policy m), num_evictable_cache_chunks := 0,
       num_write_pending_chunks := 0, free_list := [], num_allocated_chunks := 0\<rparr>"

definition om_take_events :: "'p offload_manager \<Rightarrow> offloading_event list \<times> 'p offload_manager" where
  "om_take_events m =
     (case events m of None \<Rightarrow> ([], m) | Some es \<Rightarrow> (es, m\<lparr>events := Some []\<rparr>))"

record offload_stats =
  cpu_cache_usage :: rat
  cpu_cache_write_usage :: rat
  cpu_cache_read_usage :: rat
  cpu_allocation_sizes :: "int list"
  stores_skipped :: int

definition om_get_stats :: "'p offload_manager \<Rightarrow> offload_stats \<times> 'p offload_manager" where
  "om_get_stats m =
     (let num_used = num_allocated_chunks m - int (length (free_list m)) - num_evictable_cache_chunks m;
          per = (\<lambda>x. if num_chunks m > 0 then rat_of_int x / rat_of_int (num_chunks m) else 0);
          usage = per num_used; write_usage = per (num_write_pending_chunks m)
      in (\<lparr>cpu_cache_usage = usage, cpu_cache_write_usage = write_usage,
           cpu_cache_read_usage = max (usage - write_usage) 0,
           cpu_allocation_sizes = allocation_sizes_in_current_batch m,
           stores_skipped = (if store_threshold m \<ge> 2 then stores_skipped_in_current_batch m else 0)\<rparr>,
          m\<lparr>allocation_sizes_in_current_batch := [],
            stores_skipped_in_current_batch :=
              (if store_threshold m \<ge> 2 then 0 else stores_skipped_in_current_batch m)\<rparr>))"


section \<open>The chunk table\<close>

text \<open>
  What the counters and the free list must satisfy for the chunks \<open>g\<close> the policy holds: chunk ids are
  handed out once, every id below \<open>a\<close> is either in use or free, and the two counters count the idle
  chunks and the chunks being written.
\<close>

type_synonym chunk_map = "bytes \<Rightarrow> chunk_status option"

definition idle_keys :: "chunk_map \<Rightarrow> bytes set" where
  "idle_keys g = {k. \<exists>c. g k = Some c \<and> ref_cnt c = 0}"

definition writing_keys :: "chunk_map \<Rightarrow> bytes set" where
  "writing_keys g = {k. \<exists>c. g k = Some c \<and> \<not> is_ready c}"

definition id_of :: "chunk_map \<Rightarrow> bytes \<Rightarrow> int" where
  "id_of g k = chunk_id (the (g k))"

definition chunk_table :: "chunk_map \<Rightarrow> int \<Rightarrow> int list \<Rightarrow> int \<Rightarrow> int \<Rightarrow> bool" where
  "chunk_table g a fl ev wp \<longleftrightarrow>
     finite (dom g) \<and> 0 \<le> a \<and> distinct fl \<and> inj_on (id_of g) (dom g) \<and>
     id_of g ` dom g \<inter> set fl = {} \<and> id_of g ` dom g \<union> set fl = {0..<a} \<and>
     ev = int (card (idle_keys g)) \<and> wp = int (card (writing_keys g)) \<and>
     (\<forall>k c. g k = Some c \<longrightarrow> - 1 \<le> sint (ref_cnt c))"

lemma chunk_tableD:
  assumes "chunk_table g a fl ev wp"
  shows "finite (dom g)" "0 \<le> a" "distinct fl" "inj_on (id_of g) (dom g)"
    "id_of g ` dom g \<inter> set fl = {}" "id_of g ` dom g \<union> set fl = {0..<a}"
    "ev = int (card (idle_keys g))" "wp = int (card (writing_keys g))"
    "\<And>k c. g k = Some c \<Longrightarrow> - 1 \<le> sint (ref_cnt c)"
    "finite (idle_keys g)" "finite (writing_keys g)"
proof -
  have "idle_keys g \<subseteq> dom g" "writing_keys g \<subseteq> dom g" by (auto simp: idle_keys_def writing_keys_def)
  then show "finite (idle_keys g)" "finite (writing_keys g)"
    using assms finite_subset by (auto simp: chunk_table_def)
qed (use assms in \<open>auto simp: chunk_table_def\<close>)

lemma idle_upd: "idle_keys (g(k \<mapsto> c)) = (if ref_cnt c = 0 then insert k (idle_keys g) else idle_keys g - {k})"
  by (auto simp: idle_keys_def)

lemma writing_upd:
  "writing_keys (g(k \<mapsto> c)) = (if is_ready c then writing_keys g - {k} else insert k (writing_keys g))"
  by (auto simp: writing_keys_def)

lemma card_ins: "finite A \<Longrightarrow> x \<notin> A \<Longrightarrow> int (card (insert x A)) = int (card A) + 1"
  by simp

lemma card_del: "finite A \<Longrightarrow> x \<in> A \<Longrightarrow> int (card (A - {x})) = int (card A) - 1"
  by (metis card_Suc_Diff1 add_diff_cancel_right' of_nat_Suc add.commute)

lemma is_ready_zero: "ref_cnt c = 0 \<Longrightarrow> is_ready c"
  by (simp add: is_ready_def)

text \<open>Setting a reference count.\<close>

lemma chunk_table_ref:
  assumes t: "chunk_table g a fl ev wp" and k: "g k = Some c" and r: "- 1 \<le> sint r"
  defines "ev' \<equiv> ev + (if r = 0 then 1 else 0) - (if ref_cnt c = 0 then 1 else 0)"
    and "wp' \<equiv> wp + (if sint r < 0 then 1 else 0) - (if is_ready c then 0 else 1)"
  shows "chunk_table (g(k \<mapsto> c\<lparr>ref_cnt := r\<rparr>)) a fl ev' wp'"
proof -
  let ?g = "g(k \<mapsto> c\<lparr>ref_cnt := r\<rparr>)"
  note d = chunk_tableD [OF t]
  have dom: "dom ?g = dom g" using k by auto
  have ids: "id_of ?g = id_of g" using k by (auto simp: id_of_def fun_eq_iff)
  have i: "k \<in> idle_keys g \<longleftrightarrow> ref_cnt c = 0" "k \<in> writing_keys g \<longleftrightarrow> \<not> is_ready c"
    using k by (auto simp: idle_keys_def writing_keys_def)
  have rdy: "is_ready (c\<lparr>ref_cnt := r\<rparr>) \<longleftrightarrow> 0 \<le> sint r" by (simp add: is_ready_def)
  have "ev' = int (card (idle_keys ?g))"
    using d(7) i(1) card_ins [OF d(10), of k] card_del [OF d(10), of k]
    by (auto simp: ev'_def idle_upd insert_absorb)
  moreover have "wp' = int (card (writing_keys ?g))"
    unfolding writing_upd rdy
    using d(8) i(2) card_ins [OF d(11), of k] card_del [OF d(11), of k]
    by (auto simp: wp'_def insert_absorb)
  moreover have "\<forall>k' c'. ?g k' = Some c' \<longrightarrow> - 1 \<le> sint (ref_cnt c')" using d(9) r by auto
  ultimately show ?thesis unfolding chunk_table_def dom ids using d by blast
qed

text \<open>A new chunk, being written, with an id that was not in use.\<close>

lemma chunk_table_insert:
  assumes t: "chunk_table g a fl ev wp" and k: "g k = None" and d': "distinct fl'" and a': "0 \<le> a'"
    and fl: "set fl' = set fl - {i}" and i: "i \<in> set fl \<and> a' = a \<or> i = a \<and> a' = a + 1"
  shows "chunk_table (g(k \<mapsto> chunk_init i)) a' fl' ev (wp + 1)"
proof -
  let ?g = "g(k \<mapsto> chunk_init i)"
  note d = chunk_tableD [OF t]
  have kd: "k \<notin> dom g" using k by auto
  have dom: "dom ?g = insert k (dom g)" by auto
  have im: "id_of ?g ` dom g = id_of g ` dom g" using kd by (intro image_cong) (auto simp: id_of_def)
  have im': "id_of ?g ` dom ?g = insert i (id_of g ` dom g)"
    unfolding dom image_insert im by (simp add: id_of_def chunk_init_def)
  have new: "i \<notin> id_of g ` dom g"
  proof
    assume "i \<in> id_of g ` dom g"
    then have "i \<in> {0..<a}" "i \<notin> set fl" using d(5,6) by blast+
    with i show False by simp
  qed
  have "inj_on (id_of ?g) (dom ?g)"
    unfolding dom using d(4) new im kd
    by (auto simp: inj_on_def id_of_def chunk_init_def)
  moreover have "insert i (id_of g ` dom g) \<inter> set fl' = {}" using d(5) fl by auto
  moreover have "insert i (id_of g ` dom g) \<union> set fl' = {0..<a'}"
  proof -
    have "insert i (id_of g ` dom g) \<union> set fl' = insert i {0..<a}" using d(6) fl by auto
    also have "... = {0..<a'}" using i d(2,6) by auto
    finally show ?thesis .
  qed
  moreover have "idle_keys ?g = idle_keys g" "writing_keys ?g = insert k (writing_keys g)"
    using k by (auto simp: idle_keys_def writing_keys_def chunk_init_def is_ready_def)
  moreover have "k \<notin> writing_keys g" using k by (simp add: writing_keys_def)
  moreover have "\<forall>k' c'. ?g k' = Some c' \<longrightarrow> - 1 \<le> sint (ref_cnt c')"
    using d(9) by (auto simp: chunk_init_def)
  ultimately show ?thesis
    using d a' d' unfolding chunk_table_def im' by (simp add: card_ins)
qed

text \<open>Giving up a chunk: its id goes back to the free list.\<close>

lemma chunk_table_remove:
  assumes t: "chunk_table g a fl ev wp" and k: "g k = Some c"
  shows "chunk_table (g(k := None)) a (fl @ [chunk_id c])
    (ev - (if ref_cnt c = 0 then 1 else 0)) (wp - (if is_ready c then 0 else 1))"
proof -
  let ?g = "g(k := None)"
  note d = chunk_tableD [OF t]
  have kd: "k \<in> dom g" and ik: "id_of g k = chunk_id c" using k by (auto simp: id_of_def)
  have dom: "dom ?g = dom g - {k}" by auto
  have im: "id_of ?g ` dom ?g = id_of g ` (dom g - {k})"
    unfolding dom by (intro image_cong) (auto simp: id_of_def)
  have im': "id_of g ` (dom g - {k}) = id_of g ` dom g - {chunk_id c}"
    using inj_on_image_set_diff [OF d(4), of "dom g" "{k}"] kd ik by simp
  have "inj_on (id_of ?g) (dom ?g)"
    unfolding dom using d(4) by (auto simp: inj_on_def id_of_def)
  moreover have u: "chunk_id c \<in> id_of g ` dom g" using kd ik by force
  moreover have "chunk_id c \<notin> set fl" using u d(5) by auto
  moreover have "(id_of g ` dom g - {chunk_id c}) \<inter> set (fl @ [chunk_id c]) = {}" using d(5) by auto
  moreover have "(id_of g ` dom g - {chunk_id c}) \<union> set (fl @ [chunk_id c]) = {0..<a}"
    using u d(6) [symmetric] by (simp only: set_append) auto
  moreover have "int (card (idle_keys ?g)) = ev - (if ref_cnt c = 0 then 1 else 0)"
  proof -
    have "idle_keys ?g = idle_keys g - {k}" by (auto simp: idle_keys_def)
    moreover have "k \<in> idle_keys g \<longleftrightarrow> ref_cnt c = 0" using k by (simp add: idle_keys_def)
    ultimately show ?thesis using d(7,10) card_del [of "idle_keys g" k] by auto
  qed
  moreover have "int (card (writing_keys ?g)) = wp - (if is_ready c then 0 else 1)"
  proof -
    have "writing_keys ?g = writing_keys g - {k}" by (auto simp: writing_keys_def)
    moreover have "k \<in> writing_keys g \<longleftrightarrow> \<not> is_ready c" using k by (simp add: writing_keys_def)
    ultimately show ?thesis using d(8,11) card_del [of "writing_keys g" k] by auto
  qed
  moreover have "\<forall>k' c'. ?g k' = Some c' \<longrightarrow> - 1 \<le> sint (ref_cnt c')" using d(9) by auto
  ultimately show ?thesis
    using d(1,2,3) unfolding chunk_table_def im im' by simp
qed


section \<open>The access counts\<close>

definition counts_split :: "bytes set \<Rightarrow> (bytes \<times> int) list \<Rightarrow> (bytes \<times> int) list \<Rightarrow> bytes list \<Rightarrow> bool" where
  \<comment> \<open>the tracked keys that were offered are at the end, the others in front in their old order\<close>
  "counts_split offered cs0 cs prot \<longleftrightarrow>
     (\<exists>B. cs = filter (\<lambda>kv. fst kv \<notin> offered) cs0 @ B \<and> set (keys B) = set (keys cs0) \<inter> offered \<and>
          distinct (keys B) \<and> distinct prot \<and> set prot = set (keys B))"

lemma delete_filter: "AList.delete k d = filter (\<lambda>kv. fst kv \<noteq> k) d"
  by (induction d) auto

lemma update_last: "k \<notin> set (keys d) \<Longrightarrow> AList.update k v (d @ [(k, w)]) = d @ [(k, v)]"
  by (induction d) auto

lemma count_again_split:
  assumes "distinct (keys cs0)" and "counts_split S cs0 cs prot"
  shows "case count_again k (cs, prot) of (cs', prot') \<Rightarrow> counts_split (insert k S) cs0 cs' prot'"
proof -
  let ?A = "filter (\<lambda>kv. fst kv \<notin> S) cs0" and ?A' = "filter (\<lambda>kv. fst kv \<notin> insert k S) cs0"
  obtain B where B: "cs = ?A @ B" "set (keys B) = set (keys cs0) \<inter> S" "distinct (keys B)"
    "distinct prot" "set prot = set (keys B)"
    using assms(2) by (auto simp: counts_split_def)
  have kA: "set (keys ?A) = set (keys cs0) - S" by (auto simp: keys_def)
  show ?thesis
  proof (cases "map_of cs k")
    case None
    then have "k \<notin> set (keys cs)" by (simp add: map_of_eq_None_keys)
    then have k: "k \<notin> set (keys cs0)" using B(1,2) kA by auto
    then have "?A' = ?A" by (intro filter_cong) (auto simp: keys_def)
    then have "counts_split (insert k S) cs0 cs prot" using B k unfolding counts_split_def by auto
    then show ?thesis using None by (simp add: count_again_def)
  next
    case (Some n)
    then have "k \<in> set (keys cs)" by (auto simp: map_of_in_keys)
    then have k: "k \<in> set (keys cs0)" using B(1,2) kA by auto
    let ?B' = "AList.delete k B @ [(k, n + 1)]"
    have "AList.delete k ?A = ?A'" by (simp add: delete_filter conj_commute)
    then have del: "AList.delete k cs = ?A' @ AList.delete k B" unfolding B(1) by (simp add: delete_filter)
    have "AList.update k (n + 1) (AList.delete k cs @ [(k, n)]) = AList.delete k cs @ [(k, n + 1)]"
      by (rule update_last) simp
    then have "AList.update k (n + 1) (od_move_to_end k cs) = ?A' @ ?B'"
      using Some del by (simp add: od_move_to_end_def)
    moreover have "counts_split (insert k S) cs0 (?A' @ ?B') (List.insert k prot)"
      unfolding counts_split_def
      by (intro exI [of _ ?B']) (use B(2-5) k in \<open>auto simp: keys_delete\<close>)
    ultimately show ?thesis using Some by (simp add: count_again_def)
  qed
qed

lemma count_again_fold:
  assumes "distinct (keys cs0)" and "counts_split S cs0 cs prot"
  shows "case fold count_again ks (cs, prot) of (cs', prot') \<Rightarrow> counts_split (S \<union> set ks) cs0 cs' prot'"
  using assms(2)
proof (induction ks arbitrary: S cs prot)
  case Nil
  then show ?case by simp
next
  case (Cons k ks)
  obtain cs1 prot1 where 1: "count_again k (cs, prot) = (cs1, prot1)" by force
  have "counts_split (insert k S) cs0 cs1 prot1"
    using count_again_split [OF assms(1) Cons.prems, of k] 1 by simp
  from Cons.IH [OF this] 1 show ?case by simp
qed

lemma count_again_value:
  assumes "distinct (keys cs)"
  shows "distinct (keys (fst (count_again k (cs, prot)))) \<and>
    map_of (fst (count_again k (cs, prot))) x = map_option (\<lambda>n. if x = k then n + 1 else n) (map_of cs x)"
proof (cases "map_of cs k")
  case None
  then show ?thesis using assms by (cases "map_of cs x") (auto simp: count_again_def)
next
  case (Some n)
  then have "k \<in> set (keys cs)" by (auto simp: map_of_in_keys)
  then have d: "distinct (keys (od_move_to_end k cs))"
    using assms by (simp add: keys_move_to_end)
  have m: "map_of (od_move_to_end k cs) x = map_of cs x" using assms by (simp add: map_of_move_to_end)
  show ?thesis
  proof (cases "x = k")
    case True
    then show ?thesis using Some d by (simp add: count_again_def update_conv')
  next
    case False
    then show ?thesis using Some d m
      by (cases "map_of cs x") (simp_all add: count_again_def update_conv')
  qed
qed

lemma count_again_fold_value:
  assumes "distinct (keys cs)"
  shows "map_of (fst (fold count_again ks (cs, prot))) x =
    map_option (\<lambda>n. n + int (count_list ks x)) (map_of cs x)"
  using assms
proof (induction ks arbitrary: cs prot)
  case Nil
  then show ?case by (simp add: option.map_ident)
next
  case (Cons k ks)
  obtain cs1 prot1 where 1: "count_again k (cs, prot) = (cs1, prot1)" by force
  have d: "distinct (keys cs1)" and
    v: "map_of cs1 x = map_option (\<lambda>n. if x = k then n + 1 else n) (map_of cs x)"
    using count_again_value [OF Cons.prems, of k prot x] 1 by simp_all
  show ?case using 1 Cons.IH [OF d, of prot1] v by (cases "map_of cs x") auto
qed

definition track_inv :: "int \<Rightarrow> bytes list \<Rightarrow> (bytes \<times> int) list \<Rightarrow> (bytes \<times> int) list \<times> int \<Rightarrow> bool" where
  \<comment> \<open>state of the second loop: the keys that may still be evicted are in front\<close>
  "track_inv tracker ks B s \<longleftrightarrow>
     (\<exists>A C. fst s = A @ B @ C \<and> snd s = int (length A) \<and> distinct (keys (fst s)) \<and>
            set (keys A) \<inter> set ks = {} \<and> (\<forall>kv\<in>set C. snd kv = 1) \<and>
            int (length (fst s)) \<le> max tracker 0)"

lemma track_new_step:
  assumes "track_inv tracker ks B s" and "k \<in> set ks"
  shows "\<exists>s'. track_new tracker k s = Inr s' \<and> track_inv tracker ks B s'"
proof -
  obtain A C where s: "fst s = A @ B @ C" "snd s = int (length A)" and d: "distinct (keys (fst s))"
    and ak: "set (keys A) \<inter> set ks = {}" and c: "\<forall>kv\<in>set C. snd kv = 1"
    and l: "int (length (fst s)) \<le> max tracker 0"
    using assms(1) by (auto simp: track_inv_def)
  obtain cs u where cu: "s = (cs, u)" by force
  have ov: "AList.update k 1 d = d @ [(k, 1)]" if "k \<notin> set (keys d)" for d :: "(bytes \<times> int) list"
    using that by (induction d) auto
  consider "k \<in> set (keys cs)" | "k \<notin> set (keys cs)" "int (length cs) \<ge> tracker" "u = 0"
    | "k \<notin> set (keys cs)" "int (length cs) \<ge> tracker" "u \<noteq> 0"
    | "k \<notin> set (keys cs)" "int (length cs) < tracker" by linarith
  then show ?thesis
  proof cases
    case 1
    then show ?thesis using assms(1) cu by (simp add: track_new_def)
  next
    case 2
    then show ?thesis using assms(1) cu by (simp add: track_new_def)
  next
    case 3
    then obtain a A' where A: "A = a # A'" using s(2) cu by (cases A) auto
    let ?cs' = "A' @ B @ (C @ [(k, 1)])"
    have k: "k \<notin> set (keys (tl cs))" using 3 s(1) cu A by simp
    have "track_new tracker k s = Inr (?cs', u - 1)"
      using 3 cu s(1) A ov [OF k] by (simp add: track_new_def)
    moreover have "track_inv tracker ks B (?cs', u - 1)"
      unfolding track_inv_def
      by (intro exI [of _ A'] exI [of _ "C @ [(k, 1)]"])
         (use s d ak c l k cu A in \<open>auto\<close>)
    ultimately show ?thesis by blast
  next
    case 4
    let ?cs' = "A @ B @ (C @ [(k, 1)])"
    have "track_new tracker k s = Inr (?cs', u)"
      using 4 cu s(1) ov [of cs] by (simp add: track_new_def)
    moreover have "track_inv tracker ks B (?cs', u)"
      unfolding track_inv_def
      by (intro exI [of _ A] exI [of _ "C @ [(k, 1)]"]) (use s d ak c l 4 cu in \<open>auto\<close>)
    ultimately show ?thesis by blast
  qed
qed

lemma track_new_fold:
  assumes "track_inv tracker ks B s" and "set ks' \<subseteq> set ks"
  shows "\<exists>s'. rfold (track_new tracker) ks' s = Inr s' \<and> track_inv tracker ks B s'"
  using assms
proof (induction ks' arbitrary: s)
  case Nil
  then show ?case by simp
next
  case (Cons k ks')
  from track_new_step [OF Cons.prems(1), of k] Cons.prems(2) obtain s1 where
    s1: "track_new tracker k s = Inr s1" "track_inv tracker ks B s1" by auto
  with Cons.IH [OF s1(2)] Cons.prems(2) show ?case by simp
qed

lemma record_counts_spec:
  assumes d: "distinct (keys cs)" and l: "int (length cs) \<le> max tracker 0"
  shows "\<exists>cs'. record_counts tracker ks cs = Inr cs' \<and> distinct (keys cs') \<and>
    int (length cs') \<le> max tracker 0 \<and>
    (\<forall>k\<in>set ks. \<forall>n. map_of cs k = Some n \<longrightarrow> map_of cs' k = Some (n + int (count_list ks k)))"
proof -
  obtain cs1 prot where 1: "fold count_again ks (cs, []) = (cs1, prot)" by force
  have "counts_split {} cs cs []" by (simp add: counts_split_def)
  from count_again_fold [OF d this, of ks] 1 have "counts_split (set ks) cs cs1 prot" by simp
  then obtain B where B: "cs1 = filter (\<lambda>kv. fst kv \<notin> set ks) cs @ B"
    "set (keys B) = set (keys cs) \<inter> set ks" "distinct (keys B)" "distinct prot" "set prot = set (keys B)"
    by (auto simp: counts_split_def)
  let ?A = "filter (\<lambda>kv. fst kv \<notin> set ks) cs"
  have kA: "set (keys ?A) = set (keys cs) - set ks" by (auto simp: keys_def)
  have dA: "distinct (keys ?A)" using d by (simp add: keys_def distinct_map_filter)
  have d1: "distinct (keys cs1)" using dA B kA by auto
  have "length prot = length B" using B(3-5) distinct_card [of prot] distinct_card [of "keys B"] by simp
  then have u: "int (length cs1) - int (length prot) = int (length ?A)" using B(1) by simp
  have "set (keys cs1) = set (keys cs)" using B(1,2) kA by auto
  then have l1: "length cs1 = length cs"
    using d d1 distinct_card [of "keys cs1"] distinct_card [of "keys cs"] by simp
  have "track_inv tracker ks B (cs1, int (length cs1) - int (length prot))"
    unfolding track_inv_def u
    by (intro exI [of _ ?A] exI [of _ "[]"]) (use B(1) d1 l l1 kA in \<open>auto simp del: set_filter\<close>)
  from track_new_fold [OF this, of ks] obtain s' where
    s': "rfold (track_new tracker) ks (cs1, int (length cs1) - int (length prot)) = Inr s'"
      "track_inv tracker ks B s'" by auto
  then obtain A' C where A': "fst s' = A' @ B @ C" "distinct (keys (fst s'))"
    "int (length (fst s')) \<le> max tracker 0" by (auto simp: track_inv_def)
  have r: "record_counts tracker ks cs = Inr (fst s')" using 1 s'(1) by (simp add: record_counts_def)
  have "map_of (fst s') k = Some (n + int (count_list ks k))"
    if k: "k \<in> set ks" and n: "map_of cs k = Some n" for k n
  proof -
    have "map_of cs1 k = Some (n + int (count_list ks k))"
      using count_again_fold_value [OF d, of ks "[]" k] 1 n by simp
    then have "(k, n + int (count_list ks k)) \<in> set cs1" by (rule map_of_SomeD)
    then have "(k, n + int (count_list ks k)) \<in> set (fst s')" using k B(1) A'(1) by auto
    then show ?thesis using A'(2) by (simp add: keys_def map_of_eq_Some_iff)
  qed
  with r A' show ?thesis by blast
qed


section \<open>The manager invariant\<close>

definition counts_ok :: "int \<Rightarrow> (bytes \<times> int) list option \<Rightarrow> bool" where
  "counts_ok tracker cnts \<longleftrightarrow>
     (case cnts of
        None \<Rightarrow> True
      | Some cs \<Rightarrow> distinct (keys cs) \<and> int (length cs) \<le> max tracker 0)"

definition om_ok :: "'p policy_ops \<Rightarrow> ('p \<Rightarrow> bool) \<Rightarrow> 'p offload_manager \<Rightarrow> bool" where
  "om_ok ops pinv m \<longleftrightarrow> pinv (policy m) \<and> num_allocated_chunks m \<le> num_chunks m \<and>
     counts_ok (max_tracker_size m) (counts m) \<and>
     chunk_table (op_get ops (policy m)) (num_allocated_chunks m) (free_list m)
       (num_evictable_cache_chunks m) (num_write_pending_chunks m)"

definition pinned :: "bytes list \<Rightarrow> chunk_map \<Rightarrow> chunk_map" where
  \<comment> \<open>the chunks after one more reference for every occurrence of a key\<close>
  "pinned ks g = (\<lambda>k. map_option (\<lambda>c. c\<lparr>ref_cnt := ref_cnt c + of_nat (count_list ks k)\<rparr>) (g k))"

definition head_room :: "nat \<Rightarrow> chunk_map \<Rightarrow> bool" where
  \<comment> \<open>\<open>n\<close> more references do not overflow a reference count\<close>
  "head_room n g \<longleftrightarrow> (\<forall>k c. g k = Some c \<longrightarrow> sint (ref_cnt c) + int n < 2 ^ 31)"

lemma sint_inc:
  fixes w :: "32 word"
  assumes "0 \<le> sint w" and "sint w + 1 < 2 ^ 31"
  shows "sint (w + 1) = sint w + 1"
  using assms by (simp add: sint_word_ariths signed_take_bit_int_eq_self)

lemma sint_dec:
  fixes w :: "32 word"
  assumes "0 < sint w"
  shows "sint (w - 1) = sint w - 1"
proof -
  have "sint w < 2 ^ 31" using sint_lt [of w] by simp
  then show ?thesis using assms by (simp add: sint_word_ariths signed_take_bit_int_eq_self)
qed

lemma sint_zero_iff: "sint (w :: 32 word) = 0 \<longleftrightarrow> w = 0"
  by (metis sint_0 signed_word_eqI)


lemma sint_add_nat:
  fixes w :: "32 word"
  assumes "0 \<le> sint w" and "sint w + int n < 2 ^ 31"
  shows "sint (w + of_nat n) = sint w + int n"
  using assms(2)
proof (induction n)
  case 0
  then show ?case by simp
next
  case (Suc n)
  then have "sint (w + of_nat n) = sint w + int n" by simp
  then show ?case using sint_inc [of "w + of_nat n"] assms(1) Suc.prems by (simp add: ac_simps)
qed

definition ready_keys :: "chunk_map \<Rightarrow> bytes set" where
  "ready_keys g = {k. \<exists>c. g k = Some c \<and> is_ready c}"

lemma pinned_Nil [simp]: "pinned [] g = g"
  by (rule ext) (simp add: pinned_def option.map_ident)

lemma pinned_Cons:
  "g k = Some c \<Longrightarrow> pinned ks (g(k \<mapsto> c\<lparr>ref_cnt := ref_cnt c + 1\<rparr>)) = pinned (k # ks) g"
  by (auto simp: pinned_def fun_eq_iff ac_simps)

lemma pinned_uncons:
  assumes "g k = Some c"
  shows "(pinned (k # ks) g)(k \<mapsto> c\<lparr>ref_cnt := ref_cnt c + of_nat (count_list (k # ks) k) - 1\<rparr>) = pinned ks g"
  using assms by (auto simp: pinned_def fun_eq_iff ac_simps)

lemma head_room_pin:
  assumes "head_room (Suc n) g" and "g k = Some c" and "is_ready c"
  shows "head_room n (g(k \<mapsto> c\<lparr>ref_cnt := ref_cnt c + 1\<rparr>))" and "sint (ref_cnt c) + 1 < 2 ^ 31"
    and "ready_keys (g(k \<mapsto> c\<lparr>ref_cnt := ref_cnt c + 1\<rparr>)) = ready_keys g"
proof -
  have "sint (ref_cnt c) + int (Suc n) < 2 ^ 31" using assms unfolding head_room_def by blast
  then show r: "sint (ref_cnt c) + 1 < 2 ^ 31" by simp
  have s: "sint (ref_cnt c + 1) = sint (ref_cnt c) + 1"
    using sint_inc r assms(3) by (simp add: is_ready_def)
  show "head_room n (g(k \<mapsto> c\<lparr>ref_cnt := ref_cnt c + 1\<rparr>))"
    unfolding head_room_def
  proof (intro allI impI)
    fix k' c' assume c': "(g(k \<mapsto> c\<lparr>ref_cnt := ref_cnt c + 1\<rparr>)) k' = Some c'"
    show "sint (ref_cnt c') + int n < 2 ^ 31"
    proof (cases "k' = k")
      case True
      then show ?thesis using c' s \<open>sint (ref_cnt c) + int (Suc n) < 2 ^ 31\<close> by auto
    next
      case False
      then have "sint (ref_cnt c') + int (Suc n) < 2 ^ 31" using c' assms(1) by (simp add: head_room_def)
      then show ?thesis by simp
    qed
  qed
  show "ready_keys (g(k \<mapsto> c\<lparr>ref_cnt := ref_cnt c + 1\<rparr>)) = ready_keys g"
    using assms(2,3) s by (auto simp: ready_keys_def is_ready_def)
qed

text \<open>Evicting idle chunks and inserting new ones, in the chunk table.\<close>

lemma chunk_table_evict:
  assumes "chunk_table g a fl ev wp" and "distinct (map fst es)"
    and "\<forall>kc\<in>set es. g (fst kc) = Some (snd kc) \<and> ref_cnt (snd kc) = 0"
  shows "chunk_table (g |` (- fst ` set es)) a (fl @ map (chunk_id \<circ> snd) es) (ev - int (length es)) wp"
  using assms
proof (induction es arbitrary: g fl ev)
  case Nil
  then show ?case by (simp add: restrict_map_def)
next
  case (Cons kc es)
  have kc: "g (fst kc) = Some (snd kc)" "ref_cnt (snd kc) = 0" using Cons.prems(3) by auto
  have t: "chunk_table (g(fst kc := None)) a (fl @ [chunk_id (snd kc)]) (ev - 1) wp"
    using chunk_table_remove [OF Cons.prems(1) kc(1)] kc(2) is_ready_zero by simp
  have n: "\<forall>x\<in>set es. (g(fst kc := None)) (fst x) = Some (snd x) \<and> ref_cnt (snd x) = 0"
  proof
    fix x assume x: "x \<in> set es"
    then have "fst x \<in> fst ` set es" by (rule imageI)
    moreover have "fst kc \<notin> fst ` set es" using Cons.prems(2) by simp
    ultimately have "fst x \<noteq> fst kc" by metis
    with x show "(g(fst kc := None)) (fst x) = Some (snd x) \<and> ref_cnt (snd x) = 0"
      using Cons.prems(3) by simp
  qed
  have "distinct (map fst es)" using Cons.prems(2) by simp
  from Cons.IH [OF t this n]
  have "chunk_table ((g(fst kc := None)) |` (- fst ` set es)) a
      ((fl @ [chunk_id (snd kc)]) @ map (chunk_id \<circ> snd) es) (ev - 1 - int (length es)) wp" .
  moreover have r: "(g(fst kc := None)) |` (- fst ` set es) = g |` (- fst ` set (kc # es))"
    by (auto simp: restrict_map_def fun_eq_iff)
  ultimately show ?case unfolding r by (simp add: algebra_simps o_def)
qed

definition add_chunks :: "(bytes \<times> chunk_status) list \<Rightarrow> chunk_map \<Rightarrow> chunk_map" where
  "add_chunks kcs g = fold (\<lambda>(k, c) g. g(k \<mapsto> c)) kcs g"

lemma add_chunks_simps [simp]:
  "add_chunks [] g = g" "add_chunks ((k, c) # kcs) g = add_chunks kcs (g(k \<mapsto> c))"
  "add_chunks (xs @ ys) g = add_chunks ys (add_chunks xs g)"
  by (simp_all add: add_chunks_def)

lemma add_chunks_other: "k \<notin> fst ` set kcs \<Longrightarrow> add_chunks kcs g k = g k"
  by (induction kcs arbitrary: g) auto

lemma add_chunks_in:
  "distinct (map fst kcs) \<Longrightarrow> (k, c) \<in> set kcs \<Longrightarrow> add_chunks kcs g k = Some c"
  by (induction kcs arbitrary: g) (force simp: add_chunks_other)+

lemma chunk_table_fresh:
  assumes "chunk_table g a fl ev wp" and "distinct ks" and "\<forall>k\<in>set ks. g k = None"
  shows "chunk_table (add_chunks (zip ks (map chunk_init [a..a + int (length ks) - 1])) g)
    (a + int (length ks)) fl ev (wp + int (length ks))"
  using assms
proof (induction ks arbitrary: g a wp)
  case Nil
  then show ?case by simp
next
  case (Cons k ks)
  note d = chunk_tableD [OF Cons.prems(1)]
  have ds: "distinct ks" using Cons.prems(2) by simp
  have "a \<notin> set fl" using d(6) by auto
  then have t: "chunk_table (g(k \<mapsto> chunk_init a)) (a + 1) fl ev (wp + 1)"
    using Cons.prems d(2,3) by (intro chunk_table_insert [of g a fl]) auto
  have n: "\<forall>k'\<in>set ks. (g(k \<mapsto> chunk_init a)) k' = None" using Cons.prems(2,3) by auto
  have "chunk_table
      (add_chunks (zip ks (map chunk_init [a + 1..a + 1 + int (length ks) - 1])) (g(k \<mapsto> chunk_init a)))
      (a + 1 + int (length ks)) fl ev (wp + 1 + int (length ks))"
    by (rule Cons.IH [OF t ds n])
  moreover have "[a..a + int (length (k # ks)) - 1] = a # [a + 1..a + 1 + int (length ks) - 1]"
    by (subst upto_rec1) (simp_all add: algebra_simps)
  ultimately show ?case by (simp add: algebra_simps)
qed

lemma chunk_table_reused:
  assumes "chunk_table g a (rev st) ev wp" and "distinct ks" and "\<forall>k\<in>set ks. g k = None"
    and "length ks \<le> length st"
  shows "chunk_table (add_chunks (zip ks (map chunk_init (take (length ks) st))) g)
    a (rev (drop (length ks) st)) ev (wp + int (length ks))"
  using assms
proof (induction ks arbitrary: g st wp)
  case Nil
  then show ?case by simp
next
  case (Cons k ks)
  then obtain i st' where st: "st = i # st'" by (cases st) auto
  note d = chunk_tableD [OF Cons.prems(1)]
  have ds: "distinct ks" and l: "length ks \<le> length st'" using Cons.prems(2,4) st by simp_all
  have t: "chunk_table (g(k \<mapsto> chunk_init i)) a (rev st') ev (wp + 1)"
    using Cons.prems d(2,3) st by (intro chunk_table_insert [of g a "rev st"]) auto
  have n: "\<forall>k'\<in>set ks. (g(k \<mapsto> chunk_init i)) k' = None" using Cons.prems(2,3) by auto
  have "chunk_table
      (add_chunks (zip ks (map chunk_init (take (length ks) st'))) (g(k \<mapsto> chunk_init i)))
      a (rev (drop (length ks) st')) ev (wp + 1 + int (length ks))"
    by (rule Cons.IH [OF t ds n l])
  then show ?case using st by (simp add: algebra_simps)
qed

lemma allocate_chunks_spec:
  assumes tab: "chunk_table g (num_allocated_chunks m) (free_list m) ev wp" and ds: "distinct ks"
    and new: "\<forall>k\<in>set ks. g k = None" and le: "int (length ks) \<le> get_num_free_chunks m"
    and cap: "num_allocated_chunks m \<le> num_chunks m"
  shows "\<exists>ids a' fl'. allocate_chunks ks m =
      Inr (map chunk_init ids, m\<lparr>num_allocated_chunks := a', free_list := fl'\<rparr>) \<and>
    length ids = length ks \<and> a' \<le> num_chunks m \<and>
    chunk_table (add_chunks (zip ks (map chunk_init ids)) g) a' fl' ev (wp + int (length ks))"
proof -
  let ?a = "num_allocated_chunks m" and ?fl = "free_list m"
  define f where "f = nat (min (int (length ks)) (num_chunks m - ?a))"
  define r where "r = length ks - f"
  have f: "min (int (length ks)) (num_chunks m - ?a) = int f" "f \<le> length ks" "?a + int f \<le> num_chunks m"
    using cap by (auto simp: f_def)
  have r: "int (length ks) - int f = int r" using f(2) by (simp add: r_def)
  have rl: "r \<le> length ?fl"
  proof (cases "f = length ks")
    case True
    then show ?thesis by (simp add: r_def)
  next
    case False
    then have "int f = num_chunks m - ?a" using f(1) by linarith
    then show ?thesis using le r by (simp add: get_num_free_chunks_def)
  qed
  let ?k1 = "take f ks" and ?k2 = "drop f ks"
  let ?i1 = "[?a..?a + int f - 1]" and ?i2 = "take r (rev ?fl)"
  have l1: "length ?k1 = f" "length ?k2 = r" using f(2) by (simp_all add: r_def)
  have li: "length ?i1 = f" "length ?i2 = r" using rl by simp_all
  let ?g1 = "add_chunks (zip ?k1 (map chunk_init ?i1)) g"
  have dk: "distinct ?k1" "distinct ?k2" "set ?k1 \<inter> set ?k2 = {}"
    using ds by (auto simp: set_take_disj_set_drop_if_distinct)
  have n1: "\<forall>k\<in>set ?k1. g k = None" using new by (auto dest: in_set_takeD)
  from chunk_table_fresh [OF tab dk(1) n1]
  have t1: "chunk_table ?g1 (?a + int f) (rev (rev ?fl)) ev (wp + int f)" using l1 by simp
  have n2: "\<forall>k\<in>set ?k2. ?g1 k = None"
  proof
    fix k assume k: "k \<in> set ?k2"
    then have "k \<notin> set ?k1" using dk(3) by blast
    then have "k \<notin> fst ` set (zip ?k1 (map chunk_init ?i1))" by (auto dest: set_zip_leftD)
    then show "?g1 k = None" using new k by (simp add: add_chunks_other in_set_dropD)
  qed
  have "length ?k2 \<le> length (rev ?fl)" using rl l1 by simp
  from chunk_table_reused [OF t1 dk(2) n2 this]
  have t2: "chunk_table (add_chunks (zip ?k2 (map chunk_init ?i2)) ?g1) (?a + int f)
      (rev (drop r (rev ?fl))) ev (wp + int f + int r)" using l1 by simp
  have z: "zip ks (map chunk_init (?i1 @ ?i2)) = zip ?k1 (map chunk_init ?i1) @ zip ?k2 (map chunk_init ?i2)"
    using zip_append [of ?k1 "map chunk_init ?i1" ?k2 "map chunk_init ?i2"] l1 li by simp
  have fl: "rev (drop r (rev ?fl)) = take (length ?fl - r) ?fl" by (simp add: rev_drop)
  have "allocate_chunks ks m = Inr (map chunk_init (?i1 @ ?i2),
      m\<lparr>num_allocated_chunks := ?a + int f, free_list := take (length ?fl - r) ?fl\<rparr>)"
    unfolding allocate_chunks_def f(1) r Let_def using rl by simp
  moreover have "chunk_table (add_chunks (zip ks (map chunk_init (?i1 @ ?i2))) g) (?a + int f)
      (take (length ?fl - r) ?fl) ev (wp + int (length ks))"
    using t2 r unfolding z fl by (simp add: algebra_simps)
  moreover have "length (?i1 @ ?i2) = length ks" using li r by simp
  ultimately show ?thesis using f(3) by blast
qed

context cache_policy
begin

abbreviation "chunks_of m \<equiv> op_get ops (policy m)"

lemma om_okD:
  assumes "om_ok ops inv m"
  shows "inv (policy m)" "num_allocated_chunks m \<le> num_chunks m"
    "counts_ok (max_tracker_size m) (counts m)"
    "chunk_table (chunks_of m) (num_allocated_chunks m) (free_list m)
       (num_evictable_cache_chunks m) (num_write_pending_chunks m)"
  using assms by (simp_all add: om_ok_def)

lemma pin_chunk_ok:
  assumes ok: "om_ok ops inv m" and k: "chunks_of m k = Some c" and rdy: "is_ready c"
    and room: "sint (ref_cnt c) + 1 < 2 ^ 31"
  shows "\<exists>m'. pin_chunk ops k c m = Inr m' \<and> om_ok ops inv m' \<and>
    chunks_of m' = (chunks_of m)(k \<mapsto> c\<lparr>ref_cnt := ref_cnt c + 1\<rparr>) \<and>
    num_chunks m' = num_chunks m \<and> free_list m' = free_list m \<and>
    num_allocated_chunks m' = num_allocated_chunks m \<and> counts m' = counts m"
proof -
  note d = om_okD [OF ok]
  let ?r = "ref_cnt c + 1"
  have r: "sint ?r = sint (ref_cnt c) + 1" using sint_inc rdy room by (simp add: is_ready_def)
  then have r0: "?r \<noteq> 0" "0 \<le> sint ?r" "- 1 \<le> sint ?r"
    using rdy sint_zero_iff [of ?r] by (auto simp: is_ready_def)
  note tab = chunk_table_ref [OF d(4) k r0(3)]
  show ?thesis
  proof (cases "ref_cnt c = 0")
    case True
    from pin [OF d(1) k True r0(1)] obtain p1 where
      p1: "op_mark_non_evictable ops k (policy m) = Inr p1" "op_get ops p1 = chunks_of m"
        "inv (op_put ops k (c\<lparr>ref_cnt := ?r\<rparr>) p1)" by blast
    let ?m' = "m\<lparr>policy := op_put ops k (c\<lparr>ref_cnt := ?r\<rparr>) p1,
                 num_evictable_cache_chunks := num_evictable_cache_chunks m - 1\<rparr>"
    have g: "op_get ops (op_put ops k (c\<lparr>ref_cnt := ?r\<rparr>) p1) = (chunks_of m)(k \<mapsto> c\<lparr>ref_cnt := ?r\<rparr>)"
      using get_put [of p1 k] k p1(2) by simp
    have tab': "chunk_table ((chunks_of m)(k \<mapsto> c\<lparr>ref_cnt := ?r\<rparr>)) (num_allocated_chunks m) (free_list m)
        (num_evictable_cache_chunks m - 1) (num_write_pending_chunks m)"
      using tab True r0 rdy by simp
    then have "0 \<le> num_evictable_cache_chunks m - 1" using chunk_tableD(7) by (metis of_nat_0_le_iff)
    then have "pin_chunk ops k c m = Inr ?m'" using True p1 by (simp add: pin_chunk_def Let_def)
    moreover have "om_ok ops inv ?m'" using d tab' p1(3) g by (simp add: om_ok_def)
    ultimately show ?thesis using g by (intro exI [of _ ?m']) simp
  next
    case False
    let ?m' = "m\<lparr>policy := op_put ops k (c\<lparr>ref_cnt := ?r\<rparr>) (policy m)\<rparr>"
    have g: "chunks_of ?m' = (chunks_of m)(k \<mapsto> c\<lparr>ref_cnt := ?r\<rparr>)" using get_put k by simp
    have "pin_chunk ops k c m = Inr ?m'" using False by (simp add: pin_chunk_def)
    moreover have "om_ok ops inv ?m'"
      using d tab False r0 rdy g adjust [OF d(1) k False r0(1)] by (simp add: om_ok_def)
    ultimately show ?thesis using g by (intro exI [of _ ?m']) simp
  qed
qed

lemma unpin_chunk_ok:
  assumes ok: "om_ok ops inv m" and k: "chunks_of m k = Some c" and pos: "0 < sint (ref_cnt c)"
  shows "\<exists>m'. unpin_chunk ops k m = Inr m' \<and> om_ok ops inv m' \<and>
    chunks_of m' = (chunks_of m)(k \<mapsto> c\<lparr>ref_cnt := ref_cnt c - 1\<rparr>) \<and>
    num_chunks m' = num_chunks m \<and> free_list m' = free_list m \<and>
    num_allocated_chunks m' = num_allocated_chunks m \<and> counts m' = counts m"
proof -
  note d = om_okD [OF ok]
  let ?r = "ref_cnt c - 1" and ?p = "op_put ops k (c\<lparr>ref_cnt := ref_cnt c - 1\<rparr>) (policy m)"
  have r: "sint ?r = sint (ref_cnt c) - 1" using sint_dec pos by simp
  then have r0: "- 1 \<le> sint ?r" "0 \<le> sint ?r" using pos by auto
  have c0: "ref_cnt c \<noteq> 0" "is_ready c" using pos by (auto simp: is_ready_def)
  have g: "op_get ops ?p = (chunks_of m)(k \<mapsto> c\<lparr>ref_cnt := ?r\<rparr>)" using get_put k by simp
  note tab = chunk_table_ref [OF d(4) k r0(1)]
  show ?thesis
  proof (cases "?r = 0")
    case True
    let ?m' = "m\<lparr>policy := op_mark_evictable ops k ?p,
                 num_evictable_cache_chunks := num_evictable_cache_chunks m + 1\<rparr>"
    have "unpin_chunk ops k m = Inr ?m'" using k pos True by (simp add: unpin_chunk_def Let_def)
    moreover have "om_ok ops inv ?m'"
      using d tab True c0 r0 unpin [OF d(1) k c0(1)] get_mark g by (simp add: om_ok_def)
    ultimately show ?thesis using g get_mark by (intro exI [of _ ?m']) simp
  next
    case False
    let ?m' = "m\<lparr>policy := ?p\<rparr>"
    have "unpin_chunk ops k m = Inr ?m'" using k pos False by (simp add: unpin_chunk_def Let_def)
    moreover have "om_ok ops inv ?m'"
      using d tab False c0 r0 adjust [OF d(1) k c0(1) False] g by (simp add: om_ok_def)
    ultimately show ?thesis using g by (intro exI [of _ ?m']) simp
  qed
qed

lemma unpin_chunk_Inr:
  "unpin_chunk ops k m = Inr m' \<Longrightarrow> \<exists>c. chunks_of m k = Some c \<and> 0 < sint (ref_cnt c)"
  by (auto simp: unpin_chunk_def split: option.splits)

lemma unpin_all_ok:
  assumes "rfold (unpin_chunk ops) ks m = Inr m'" and "om_ok ops inv m"
  shows "om_ok ops inv m'"
  using assms by (rule rfold_invariant) (use unpin_chunk_Inr unpin_chunk_ok in fastforce)

lemma store_ok_ok:
  assumes ok: "om_ok ops inv m"
  shows "om_ok ops inv (snd (store_ok ops k (st, m)))"
proof (cases "chunks_of m k")
  case None
  then show ?thesis using ok by (simp add: store_ok_def)
next
  case (Some c)
  note d = om_okD [OF ok]
  show ?thesis
  proof (cases "is_ready c")
    case True
    then show ?thesis using ok Some by (simp add: store_ok_def)
  next
    case False
    then have c0: "ref_cnt c \<noteq> 0" using is_ready_zero by blast
    have "chunk_table ((chunks_of m)(k \<mapsto> c\<lparr>ref_cnt := 0\<rparr>)) (num_allocated_chunks m) (free_list m)
        (num_evictable_cache_chunks m + 1) (num_write_pending_chunks m - 1)"
      using chunk_table_ref [OF d(4) Some, of 0] False c0 by simp
    then show ?thesis using d Some False unpin [OF d(1) Some c0] get_mark get_put [of "policy m" k]
      by (simp add: store_ok_def om_ok_def)
  qed
qed

lemma store_ok_all: "om_ok ops inv m \<Longrightarrow> om_ok ops inv (snd (fold (store_ok ops) ks (st, m)))"
proof (induction ks arbitrary: st m)
  case Nil
  then show ?case by simp
next
  case (Cons k ks)
  obtain st1 m1 where s: "store_ok ops k (st, m) = (st1, m1)" by force
  then have "om_ok ops inv m1" using store_ok_ok [OF Cons.prems, of k st] by simp
  then show ?case using Cons.IH s by simp
qed

lemma store_failed_ok:
  assumes ok: "om_ok ops inv m"
  shows "\<exists>m'. store_failed ops k m = Inr m' \<and> om_ok ops inv m'"
proof (cases "chunks_of m k")
  case None
  then show ?thesis using ok by (simp add: store_failed_def)
next
  case (Some c)
  note d = om_okD [OF ok]
  show ?thesis
  proof (cases "is_ready c")
    case True
    then show ?thesis using ok Some by (simp add: store_failed_def)
  next
    case False
    from remove [OF d(1) Some] obtain p' where
      p': "op_remove ops k (policy m) = Inr p'" "op_get ops p' = (chunks_of m)(k := None)" "inv p'" by blast
    have "ref_cnt c \<noteq> 0" using False is_ready_zero by blast
    then show ?thesis using chunk_table_remove [OF d(4) Some] d False Some p'
      by (simp add: store_failed_def om_ok_def free_chunk_def)
  qed
qed

lemma add_event_ok: "om_ok ops inv (add_event ks b m) = om_ok ops inv m"
  by (simp add: add_event_def om_ok_def split: option.splits)

lemma complete_store_ok:
  assumes "om_ok ops inv m"
  shows "\<exists>m'. om_complete_store ops ks b m = Inr m' \<and> om_ok ops inv m'"
proof (cases b)
  case True
  obtain st m1 where s: "fold (store_ok ops) ks ([], m) = (st, m1)" by force
  then have "om_ok ops inv m1" using store_ok_all [OF assms, of ks "[]"] by simp
  then show ?thesis using True s by (simp add: om_complete_store_def add_event_ok)
next
  case False
  have "\<exists>m'. rfold (store_failed ops) ks m = Inr m' \<and> om_ok ops inv m'"
    using assms by (induction ks arbitrary: m) (use store_failed_ok in fastforce)+
  then show ?thesis using False by (simp add: om_complete_store_def)
qed

lemma reset_ok:
  assumes "om_ok ops inv m"
  shows "om_ok ops inv (om_reset_cache ops m)"
proof -
  have "0 \<le> num_chunks m" using om_okD [OF assms] chunk_tableD(2) by fastforce
  then show ?thesis using assms clear_inv clear_get
    by (simp add: om_ok_def om_reset_cache_def chunk_table_def idle_keys_def writing_keys_def)
qed

lemma touch_ok: "om_ok ops inv m \<Longrightarrow> om_ok ops inv (om_touch ops ks m)"
  using touch_inv touch_get by (simp add: om_ok_def om_touch_def)


section \<open>Loads\<close>

lemma prepare_load_spec:
  assumes "om_ok ops inv m" and "head_room (length ks) (chunks_of m)"
  shows "if set ks \<subseteq> ready_keys (chunks_of m)
    then \<exists>m'. om_prepare_load ops ks m = Inr (map (id_of (chunks_of m)) ks, m') \<and> om_ok ops inv m' \<and>
           chunks_of m' = pinned ks (chunks_of m) \<and> num_chunks m' = num_chunks m
    else om_prepare_load ops ks m = Inl AssertionError"
  using assms
proof (induction ks arbitrary: m)
  case Nil
  then show ?case by simp
next
  case (Cons k ks)
  show ?case
  proof (cases "k \<in> ready_keys (chunks_of m)")
    case False
    then have "om_prepare_load ops (k # ks) m = Inl AssertionError"
      by (auto simp: ready_keys_def split: option.splits)
    then show ?thesis using False by simp
  next
    case True
    then obtain c where c: "chunks_of m k = Some c" "is_ready c" by (auto simp: ready_keys_def)
    let ?g = "(chunks_of m)(k \<mapsto> c\<lparr>ref_cnt := ref_cnt c + 1\<rparr>)"
    have hr: "head_room (Suc (length ks)) (chunks_of m)" using Cons.prems(2) by simp
    note h = head_room_pin [OF hr c]
    from pin_chunk_ok [OF Cons.prems(1) c h(2)] obtain m1 where
      m1: "pin_chunk ops k c m = Inr m1" "om_ok ops inv m1" "chunks_of m1 = ?g"
        "num_chunks m1 = num_chunks m" by blast
    have ids: "id_of ?g = id_of (chunks_of m)" using c(1) by (auto simp: id_of_def fun_eq_iff)
    have i: "chunk_id c = id_of (chunks_of m) k" using c(1) by (simp add: id_of_def)
    note IH = Cons.IH [OF m1(2), unfolded m1(3) h(3) ids, OF h(1)]
    show ?thesis
    proof (cases "set ks \<subseteq> ready_keys (chunks_of m)")
      case sub: True
      with IH obtain m' where m': "om_prepare_load ops ks m1 = Inr (map (id_of (chunks_of m)) ks, m')"
        "om_ok ops inv m'" "chunks_of m' = pinned ks ?g" "num_chunks m' = num_chunks m1" by auto
      then show ?thesis using sub True c m1(1,4) pinned_Cons [of "chunks_of m" k c ks, OF c(1)] i by simp
    next
      case False
      then show ?thesis using IH c m1(1) by simp
    qed
  qed
qed

lemma reserve_hits_eq:
  assumes "om_ok ops inv m" and "head_room (length ks) (chunks_of m)"
  shows "\<exists>m'. om_reserve_hits ops ks m = Inr (filter (\<lambda>k. k \<in> ready_keys (chunks_of m)) ks, m') \<and>
    om_ok ops inv m' \<and> num_chunks m' = num_chunks m \<and>
    chunks_of m' = pinned (filter (\<lambda>k. k \<in> ready_keys (chunks_of m)) ks) (chunks_of m)"
  using assms
proof (induction ks arbitrary: m)
  case Nil
  then show ?case by simp
next
  case (Cons k ks)
  have hr: "head_room (Suc (length ks)) (chunks_of m)" using Cons.prems(2) by simp
  show ?case
  proof (cases "k \<in> ready_keys (chunks_of m)")
    case False
    then have "om_reserve_hits ops (k # ks) m = om_reserve_hits ops ks m"
      by (auto simp: ready_keys_def split: option.splits)
    moreover have "head_room (length ks) (chunks_of m)" using hr by (fastforce simp: head_room_def)
    ultimately show ?thesis using Cons.IH [OF Cons.prems(1)] False by simp
  next
    case True
    then obtain c where c: "chunks_of m k = Some c" "is_ready c" by (auto simp: ready_keys_def)
    let ?g = "(chunks_of m)(k \<mapsto> c\<lparr>ref_cnt := ref_cnt c + 1\<rparr>)"
    note h = head_room_pin [OF hr c]
    from pin_chunk_ok [OF Cons.prems(1) c h(2)] obtain m1 where
      m1: "pin_chunk ops k c m = Inr m1" "om_ok ops inv m1" "chunks_of m1 = ?g"
        "num_chunks m1 = num_chunks m" by blast
    let ?ks = "filter (\<lambda>k. k \<in> ready_keys (chunks_of m)) ks"
    from Cons.IH [OF m1(2), unfolded m1(3) h(3), OF h(1)] obtain m' where
      "om_reserve_hits ops ks m1 = Inr (?ks, m')" "om_ok ops inv m'" "num_chunks m' = num_chunks m1"
      "chunks_of m' = pinned ?ks ?g" by blast
    then show ?thesis using True c m1(1,4) pinned_Cons [of "chunks_of m" k c ?ks, OF c(1)] by simp
  qed
qed

lemma unpin_pinned:
  assumes "om_ok ops inv m" and "chunks_of m = pinned ks g" and "head_room (length ks) g"
    and "set ks \<subseteq> ready_keys g"
  shows "\<exists>m'. rfold (unpin_chunk ops) ks m = Inr m' \<and> om_ok ops inv m' \<and> chunks_of m' = g"
  using assms
proof (induction ks arbitrary: m)
  case Nil
  then show ?case by simp
next
  case (Cons k ks)
  obtain c where c: "g k = Some c" "is_ready c" using Cons.prems(4) by (auto simp: ready_keys_def)
  let ?n = "count_list (k # ks) k"
  let ?c = "c\<lparr>ref_cnt := ref_cnt c + of_nat ?n\<rparr>"
  have k: "chunks_of m k = Some ?c" using Cons.prems(2) c(1) by (simp add: pinned_def)
  have "?n \<le> length (k # ks)" by (rule count_le_length)
  then have "int ?n \<le> int (length (k # ks))" by (simp only: of_nat_le_iff)
  moreover have "sint (ref_cnt c) + int (length (k # ks)) < 2 ^ 31"
    using Cons.prems(3) c(1) unfolding head_room_def by blast
  ultimately have lt: "sint (ref_cnt c) + int ?n < 2 ^ 31" by linarith
  have "sint (ref_cnt c + of_nat ?n) = sint (ref_cnt c) + int ?n"
    using c(2) lt by (intro sint_add_nat) (simp_all only: is_ready_def)
  moreover have "0 < int ?n" by simp
  ultimately have pos: "0 < sint (ref_cnt ?c)" using c(2) by (simp add: is_ready_def)
  from unpin_chunk_ok [OF Cons.prems(1) k pos] obtain m1 where
    m1: "unpin_chunk ops k m = Inr m1" "om_ok ops inv m1"
      "chunks_of m1 = (chunks_of m)(k \<mapsto> ?c\<lparr>ref_cnt := ref_cnt ?c - 1\<rparr>)" by blast
  have "chunks_of m1 = pinned ks g"
    using m1(3) pinned_uncons [of g k c ks, OF c(1)] Cons.prems(2) by simp
  moreover have "head_room (length ks) g" using Cons.prems(3) by (fastforce simp: head_room_def)
  ultimately show ?case using Cons.IH [OF m1(2)] Cons.prems(4) m1(1) by simp
qed

section \<open>Stores\<close>

lemma admit_keys_ok:
  assumes ok: "om_ok ops inv m"
  shows "\<exists>ks m'. admit_keys offered m = Inr (ks, m') \<and> om_ok ops inv m' \<and>
    (\<exists>P. ks = filter P offered) \<and> policy m' = policy m \<and> num_chunks m' = num_chunks m \<and>
    free_list m' = free_list m \<and> num_allocated_chunks m' = num_allocated_chunks m \<and>
    (counts m = None \<longrightarrow> ks = offered \<and> m' = m)"
proof (cases "counts m")
  case None
  then show ?thesis using ok
    by (intro exI [of _ offered] exI [of _ m]) (simp add: admit_keys_def exI [of _ "\<lambda>_. True"])
next
  case (Some cs)
  have "distinct (keys cs)" "int (length cs) \<le> max (max_tracker_size m) 0"
    using om_okD(3) [OF ok] Some by (simp_all add: counts_ok_def)
  from record_counts_spec [OF this, of offered] obtain cs' where
    cs': "record_counts (max_tracker_size m) offered cs = Inr cs'" "distinct (keys cs')"
      "int (length cs') \<le> max (max_tracker_size m) 0" by blast
  define P where "P k \<longleftrightarrow> (case map_of cs' k of None \<Rightarrow> 0 | Some n \<Rightarrow> n) \<ge> store_threshold m" for k
  let ?m' = "m\<lparr>counts := Some cs', stores_skipped_in_current_batch := stores_skipped_in_current_batch m +
               (int (length offered) - int (length (filter P offered)))\<rparr>"
  have "admit_keys offered m = Inr (filter P offered, ?m')"
    using Some cs'(1) by (simp add: admit_keys_def record_accesses_def Let_def P_def [abs_def])
  moreover have "om_ok ops inv ?m'" using ok cs' by (simp add: om_ok_def counts_ok_def)
  ultimately show ?thesis using Some by (intro exI [of _ "filter P offered"] exI [of _ ?m']) auto
qed

lemma fold_free_chunk:
  "fold (free_chunk \<circ> snd) es m = m\<lparr>free_list := free_list m @ map (chunk_id \<circ> snd) es\<rparr>"
  by (induction es arbitrary: m) (simp_all add: free_chunk_def)

lemma idle_card_le:
  assumes "om_ok ops inv m"
  shows "int (card (idle ops prot (policy m))) \<le> num_evictable_cache_chunks m"
proof -
  note d = chunk_tableD [OF om_okD(4) [OF assms]]
  have "idle ops prot (policy m) \<subseteq> idle_keys (chunks_of m)" by (auto simp: idle_def idle_keys_def)
  then show ?thesis using card_mono [OF d(10)] d(7) by simp
qed

lemma make_room_none:
  assumes ok: "om_ok ops inv m" and "int (card (idle ops (set ks) (policy m))) < n" and "0 < n"
  shows "make_room ops ks n m = Inr (None, m)"
proof (cases "n > num_evictable_cache_chunks m")
  case True
  then show ?thesis using assms(3) by (simp add: make_room_def)
next
  case False
  have "card (idle ops (set ks) (policy m)) < nat n" using assms(2) by linarith
  from evict_none [OF om_okD(1) [OF ok] this] show ?thesis
    using False assms(3) by (simp add: make_room_def)
qed

lemma make_room_some:
  assumes ok: "om_ok ops inv m" and n: "n \<le> int (card (idle ops (set ks) (policy m)))"
  shows "\<exists>ek m'. make_room ops ks n m = Inr (Some ek, m') \<and> om_ok ops inv m' \<and>
    length ek = nat n \<and> distinct ek \<and>
    (\<forall>k\<in>set ek. k \<notin> set ks \<and> k \<in> idle_keys (chunks_of m)) \<and>
    chunks_of m' = chunks_of m |` (- set ek) \<and>
    num_chunks m' = num_chunks m \<and> num_allocated_chunks m' = num_allocated_chunks m \<and>
    length (free_list m') = length (free_list m) + length ek \<and> events m' = events m"
proof (cases "n > 0")
  case False
  then show ?thesis using ok
    by (intro exI [of _ "[]"] exI [of _ m]) (simp add: make_room_def restrict_map_def)
next
  case True
  note d = om_okD [OF ok]
  have "nat n \<le> card (idle ops (set ks) (policy m))" using n by linarith
  from evict_some [OF d(1) this] obtain es p' where
    e: "op_evict ops (nat n) (set ks) (policy m) = Inr (Some es, p')" "length es = nat n"
      "distinct (map fst es)" "op_get ops p' = chunks_of m |` (- fst ` set es)" "inv p'" and
    m: "\<forall>kc\<in>set es. chunks_of m (fst kc) = Some (snd kc) \<and> ref_cnt (snd kc) = 0 \<and> fst kc \<notin> set ks"
    by blast
  let ?m' = "m\<lparr>policy := p', num_evictable_cache_chunks := num_evictable_cache_chunks m - int (length es),
               free_list := free_list m @ map (chunk_id \<circ> snd) es\<rparr>"
  have le: "n \<le> num_evictable_cache_chunks m" using n idle_card_le [OF ok, of "set ks"] by linarith
  then have "make_room ops ks n m = Inr (Some (map fst es), ?m')"
    using True e(1,2) by (simp add: make_room_def fold_free_chunk Let_def)
  moreover have "chunk_table (chunks_of m |` (- fst ` set es)) (num_allocated_chunks m)
      (free_list m @ map (chunk_id \<circ> snd) es) (num_evictable_cache_chunks m - int (length es))
      (num_write_pending_chunks m)"
    using chunk_table_evict [OF d(4) e(3)] m by blast
  then have "om_ok ops inv ?m'" using d e(4,5) by (simp add: om_ok_def)
  moreover have "\<forall>k\<in>set (map fst es). k \<notin> set ks \<and> k \<in> idle_keys (chunks_of m)"
    using m by (auto simp: idle_keys_def)
  ultimately show ?thesis using e
    by (intro exI [of _ "map fst es"] exI [of _ ?m']) simp
qed

lemma insert_chunks_ok:
  assumes "inv p" and "distinct (map fst kcs)" and "\<forall>kc\<in>set kcs. op_get ops p (fst kc) = None"
    and "\<forall>kc\<in>set kcs. ref_cnt (snd kc) \<noteq> 0"
  shows "inv (fold (\<lambda>(k, c). op_insert ops k c) kcs p) \<and>
    op_get ops (fold (\<lambda>(k, c). op_insert ops k c) kcs p) = add_chunks kcs (op_get ops p)"
  using assms
proof (induction kcs arbitrary: p)
  case Nil
  then show ?case by simp
next
  case (Cons kc kcs)
  obtain k c where kc: "kc = (k, c)" by (cases kc)
  have i: "inv (op_insert ops k c p)" using insert_inv Cons.prems kc by simp
  have g: "op_get ops (op_insert ops k c p) = (op_get ops p)(k \<mapsto> c)" using insert_get Cons.prems(1) by simp
  have "\<forall>x\<in>set kcs. fst x \<noteq> k" using Cons.prems(2) kc by force
  then have n: "\<forall>x\<in>set kcs. op_get ops (op_insert ops k c p) (fst x) = None" using Cons.prems(3) g by simp
  have "inv (fold (\<lambda>(k, c). op_insert ops k c) kcs (op_insert ops k c p)) \<and>
    op_get ops (fold (\<lambda>(k, c). op_insert ops k c) kcs (op_insert ops k c p)) =
    add_chunks kcs (op_get ops (op_insert ops k c p))"
    using Cons.prems(2,4) by (intro Cons.IH [OF i _ n]) simp_all
  then show ?case unfolding kc g by (simp del: fun_upd_apply)
qed

lemma prepare_store_spec:
  assumes ok: "om_ok ops inv m" and ds: "distinct offered"
  shows "\<exists>ks out m'. om_prepare_store ops offered m = Inr (out, m') \<and> om_ok ops inv m' \<and>
    set ks \<subseteq> set offered \<and> distinct ks \<and> (counts m = None \<longrightarrow> ks = offered) \<and>
    (case out of
       None \<Rightarrow>
         get_num_free_chunks m + int (card (idle ops (set ks) (policy m)))
           < int (length (filter (\<lambda>k. chunks_of m k = None) ks)) \<and>
         chunks_of m' = chunks_of m \<and> free_list m' = free_list m \<and>
         num_allocated_chunks m' = num_allocated_chunks m
     | Some ps \<Rightarrow>
         int (length (keys_to_store ps))
           \<le> get_num_free_chunks m + int (card (idle ops (set ks) (policy m))) \<and>
         keys_to_store ps = filter (\<lambda>k. chunks_of m k = None) ks \<and>
         length (store_spec ps) = length (keys_to_store ps) \<and>
         distinct (evicted_keys ps) \<and>
         (\<forall>k\<in>set (evicted_keys ps). k \<notin> set ks \<and> k \<in> idle_keys (chunks_of m)) \<and>
         chunks_of m' = add_chunks (zip (keys_to_store ps) (map chunk_init (store_spec ps)))
           (chunks_of m |` (- set (evicted_keys ps))))"
proof -
  from admit_keys_ok [OF ok, of offered] obtain ks m1 P where
    adm: "admit_keys offered m = Inr (ks, m1)" and ok1: "om_ok ops inv m1" and
    ks: "ks = filter P offered" "counts m = None \<longrightarrow> ks = offered \<and> m1 = m" and
    fr: "policy m1 = policy m" "num_chunks m1 = num_chunks m" "free_list m1 = free_list m"
      "num_allocated_chunks m1 = num_allocated_chunks m" by (elim exE conjE) (rule that, assumption+)
  have sub: "set ks \<subseteq> set offered" and dk: "distinct ks" using ks(1) ds by auto
  define new where "new = filter (\<lambda>k. chunks_of m k = None) ks"
  define m2 where "m2 = m1\<lparr>allocation_sizes_in_current_batch :=
                    allocation_sizes_in_current_batch m1 @ [int (length new)]\<rparr>"
  have ok2: "om_ok ops inv m2" using ok1 by (simp add: m2_def om_ok_def)
  have fr2: "policy m2 = policy m" "num_chunks m2 = num_chunks m" "free_list m2 = free_list m"
    "num_allocated_chunks m2 = num_allocated_chunks m" using fr by (simp_all add: m2_def)
  have free: "get_num_free_chunks m2 = get_num_free_chunks m" using fr2 by (simp add: get_num_free_chunks_def)
  have free0: "0 \<le> get_num_free_chunks m" using om_okD(2) [OF ok] by (simp add: get_num_free_chunks_def)
  let ?n = "int (length new) - get_num_free_chunks m"
  have run: "om_prepare_store ops offered m =
    (if new = [] then Inr (Some \<lparr>keys_to_store = [], store_spec = [], evicted_keys = []\<rparr>, m1)
     else rbind (make_room ops ks ?n m2) (\<lambda>(room, m2).
            case room of
              None \<Rightarrow> Inr (None, m2)
            | Some to_evict \<Rightarrow>
                rbind (allocate_chunks new (add_event to_evict True m2)) (\<lambda>(cs, m3).
                rbind (ensure (length cs = length new) AssertionError) (\<lambda>_.
                  let m4 = insert_chunks ops (zip new cs) m3
                  in Inr (Some \<lparr>keys_to_store = new, store_spec = get_load_store_spec cs,
                                evicted_keys = to_evict\<rparr>,
                          m4\<lparr>num_write_pending_chunks :=
                               num_write_pending_chunks m4 + int (length new)\<rparr>)))))"
    unfolding om_prepare_store_def adm rbind_Inr prod.case Let_def fr(1) new_def [symmetric]
      m2_def [symmetric] free
    by (simp add: get_load_store_spec_def)
  consider "new = []" | "new \<noteq> []" "int (card (idle ops (set ks) (policy m))) < ?n"
    | "new \<noteq> []" "?n \<le> int (card (idle ops (set ks) (policy m)))" by linarith
  then show ?thesis
  proof cases
    case 1
    then have "om_prepare_store ops offered m =
      Inr (Some \<lparr>keys_to_store = [], store_spec = [], evicted_keys = []\<rparr>, m1)" using run by simp
    then show ?thesis using 1 ok1 sub dk ks(2) fr free0
      by (intro exI [of _ ks] exI [of _ "Some \<lparr>keys_to_store = [], store_spec = [], evicted_keys = []\<rparr>"]
          exI [of _ m1]) (simp add: new_def [symmetric] restrict_map_def)
  next
    case 2
    then have "make_room ops ks ?n m2 = Inr (None, m2)"
      using make_room_none [OF ok2, of ks ?n] fr2(1) by simp
    then have "om_prepare_store ops offered m = Inr (None, m2)" using 2(1) run by simp
    then show ?thesis using 2 ok2 sub dk ks(2) fr2
      by (intro exI [of _ ks] exI [of _ None] exI [of _ m2]) (simp add: new_def [symmetric])
  next
    case 3
    have "?n \<le> int (card (idle ops (set ks) (policy m2)))" using 3(2) fr2(1) by simp
    from make_room_some [OF ok2 this] obtain ek m3 where
      mr: "make_room ops ks ?n m2 = Inr (Some ek, m3)" "om_ok ops inv m3" "length ek = nat ?n"
        "distinct ek" "\<forall>k\<in>set ek. k \<notin> set ks \<and> k \<in> idle_keys (chunks_of m2)"
        "chunks_of m3 = chunks_of m2 |` (- set ek)" "num_chunks m3 = num_chunks m2"
        "num_allocated_chunks m3 = num_allocated_chunks m2"
        "length (free_list m3) = length (free_list m2) + length ek" by blast
    define m4 where "m4 = add_event ek True m3"
    have ok4: "om_ok ops inv m4" using mr(2) by (simp add: m4_def add_event_ok)
    have fr4: "policy m4 = policy m3" "get_num_free_chunks m4 = get_num_free_chunks m3"
      by (simp_all add: m4_def add_event_def get_num_free_chunks_def split: option.splits)
    have "get_num_free_chunks m3 = get_num_free_chunks m + int (length ek)"
      using mr(7-9) fr2 by (simp add: get_num_free_chunks_def)
    then have le: "int (length new) \<le> get_num_free_chunks m4" using fr4(2) mr(3) by simp
    have dn: "distinct new" using dk by (simp add: new_def)
    have nn: "\<forall>k\<in>set new. chunks_of m4 k = None"
      using fr4(1) mr(6) fr2(1) by (simp add: new_def restrict_map_def)
    note d4 = om_okD [OF ok4]
    from allocate_chunks_spec [OF d4(4) dn nn le d4(2)] obtain ids a' fl' where
      al: "allocate_chunks new m4 = Inr (map chunk_init ids, m4\<lparr>num_allocated_chunks := a', free_list := fl'\<rparr>)"
        "length ids = length new" "a' \<le> num_chunks m4"
        "chunk_table (add_chunks (zip new (map chunk_init ids)) (chunks_of m4)) a' fl'
          (num_evictable_cache_chunks m4) (num_write_pending_chunks m4 + int (length new))" by blast
    let ?kcs = "zip new (map chunk_init ids)"
    have "map fst ?kcs = new" using al(2) by simp
    then have dkc: "distinct (map fst ?kcs)" using dn by (simp only:)
    have nkc: "\<forall>kc\<in>set ?kcs. chunks_of m4 (fst kc) = None" using nn by (auto dest: set_zip_leftD)
    have rkc: "\<forall>kc\<in>set ?kcs. ref_cnt (snd kc) \<noteq> 0"
      by (auto dest!: set_zip_rightD simp: chunk_init_def)
    note ins = insert_chunks_ok [OF d4(1) dkc nkc rkc]
    define m5 where "m5 = m4\<lparr>num_allocated_chunks := a', free_list := fl',
        policy := fold (\<lambda>(k, c). op_insert ops k c) ?kcs (policy m4),
        num_write_pending_chunks := num_write_pending_chunks m4 + int (length new)\<rparr>"
    let ?o = "\<lparr>keys_to_store = new, store_spec = ids, evicted_keys = ek\<rparr>"
    have "get_load_store_spec (map chunk_init ids) = ids"
      by (simp add: get_load_store_spec_def chunk_init_def o_def)
    then have "om_prepare_store ops offered m = Inr (Some ?o, m5)"
      using 3(1) run mr(1) al(1,2) by (simp add: m4_def [symmetric] insert_chunks_def Let_def m5_def)
    moreover have "om_ok ops inv m5" using d4 ins al(3,4) by (simp add: om_ok_def m5_def)
    moreover have "chunks_of m5 = add_chunks ?kcs (chunks_of m |` (- set ek))"
      using ins fr4(1) mr(6) fr2(1) by (simp add: m5_def)
    moreover have "\<forall>k\<in>set ek. k \<notin> set ks \<and> k \<in> idle_keys (chunks_of m)" using mr(5) fr2(1) by simp
    ultimately show ?thesis using sub dk ks(2) al(2) mr(4) 3(2)
      by (intro exI [of _ ks] exI [of _ "Some ?o"] exI [of _ m5]) (simp add: new_def [symmetric])
  qed
qed

end

end
