(* ===== verification/Offload_Machine.thy ===== *)
theory Offload_Machine
  imports Offload_Manager
begin

text \<open>
  Histories of the CPU offloading manager: the calls the offloading connector makes, in any order,
  for either policy, and the properties that hold in every state such a history can reach.
\<close>

section \<open>Steps\<close>

text \<open>
  The keys of one store are distinct, and no call takes so many references that a 32 bit reference
  count overflows.
\<close>

inductive om_step :: "'p policy_ops \<Rightarrow> 'p offload_manager \<Rightarrow> 'p offload_manager \<Rightarrow> bool" for ops where
  load: "head_room (length ks) (op_get ops (policy m)) \<Longrightarrow> om_prepare_load ops ks m = Inr (ids, m') \<Longrightarrow>
    om_step ops m m'"
| reserve: "head_room (length ks) (op_get ops (policy m)) \<Longrightarrow> om_reserve_hits ops ks m = Inr (hits, m') \<Longrightarrow>
    om_step ops m m'"
| release: "om_release_reservation ops ks m = Inr m' \<Longrightarrow> om_step ops m m'"
| loaded: "om_complete_load ops ks m = Inr m' \<Longrightarrow> om_step ops m m'"
| touch: "om_step ops m (om_touch ops ks m)"
| store: "distinct ks \<Longrightarrow> om_prepare_store ops ks m = Inr (out, m') \<Longrightarrow> om_step ops m m'"
| stored: "om_complete_store ops ks success m = Inr m' \<Longrightarrow> om_step ops m m'"
| reset: "om_step ops m (om_reset_cache ops m)"
| take_events: "om_take_events m = (es, m') \<Longrightarrow> om_step ops m m'"
| get_stats: "om_get_stats m = (st, m') \<Longrightarrow> om_step ops m m'"

definition om_reachable :: "'p policy_ops \<Rightarrow> 'p offload_manager \<Rightarrow> 'p offload_manager \<Rightarrow> bool" where
  "om_reachable ops m0 m \<longleftrightarrow> (om_step ops)\<^sup>*\<^sup>* m0 m"

definition lru_manager :: "int \<Rightarrow> bool \<Rightarrow> int \<Rightarrow> int \<Rightarrow> lru_policy offload_manager" where
  "lru_manager n enable threshold tracker = om_init n (lru_init n) enable threshold tracker"

definition arc_manager :: "int \<Rightarrow> bool \<Rightarrow> int \<Rightarrow> int \<Rightarrow> arc_policy offload_manager" where
  "arc_manager n enable threshold tracker = om_init n (arc_init n) enable threshold tracker"

context cache_policy
begin

lemma om_step_ok:
  assumes "om_step ops m m'" and "om_ok ops inv m"
  shows "om_ok ops inv m'"
  using assms
proof (induction rule: om_step.induct)
  case (load ks m ids m')
  then show ?case using prepare_load_spec [OF load(3,1)] by (auto split: if_splits)
next
  case (reserve ks m hits m')
  then show ?case using reserve_hits_eq [OF reserve(3,1)] by auto
next
  case (release ks m m')
  then show ?case using unpin_all_ok by (simp add: om_release_reservation_def)
next
  case (loaded ks m m')
  then show ?case using unpin_all_ok by (simp add: om_complete_load_def)
next
  case (touch m ks)
  then show ?case by (rule touch_ok)
next
  case (store ks m out m')
  then show ?case using prepare_store_spec [OF store(3,1)] by auto
next
  case (stored ks success m m')
  then show ?case using complete_store_ok [OF stored(2), of ks success] by auto
next
  case (reset m)
  then show ?case by (rule reset_ok)
next
  case (take_events m es m')
  then show ?case by (auto simp: om_take_events_def om_ok_def split: option.splits)
next
  case (get_stats m st m')
  then show ?case by (auto simp: om_get_stats_def om_ok_def Let_def)
qed

lemma om_init_ok:
  assumes "inv p" and "op_get ops p = (\<lambda>_. None)" and "0 \<le> n"
  shows "om_ok ops inv (om_init n p e th tr)"
  using assms by (simp add: om_ok_def om_init_def counts_ok_def chunk_table_def idle_keys_def writing_keys_def)

lemma om_reachable_ok:
  assumes "om_reachable ops m0 m" and "om_ok ops inv m0"
  shows "om_ok ops inv m"
  using assms(1) unfolding om_reachable_def
  by (induction rule: rtranclp_induct) (use assms(2) om_step_ok in auto)

end

lemma lru_reachable_ok:
  assumes "0 \<le> n" and "om_reachable lru_ops (lru_manager n e th tr) m"
  shows "om_ok lru_ops lru_inv m"
proof (rule lru.om_reachable_ok [OF assms(2)])
  have "op_get lru_ops (lru_init n) = (\<lambda>_. None)"
    by (rule ext) (simp add: lru_ops_def lru_get_def lru_init_def)
  then show "om_ok lru_ops lru_inv (lru_manager n e th tr)"
    unfolding lru_manager_def using lru.om_init_ok lru_init_inv assms(1) by blast
qed

lemma arc_reachable_ok:
  assumes "0 \<le> n" and "om_reachable arc_ops (arc_manager n e th tr) m"
  shows "om_ok arc_ops arc_inv m"
proof (rule arc.om_reachable_ok [OF assms(2)])
  have "op_get arc_ops (arc_init n) = (\<lambda>_. None)"
    by (rule ext) (simp add: arc_ops_def arc_get_def arc_init_def)
  then show "om_ok arc_ops arc_inv (arc_manager n e th tr)"
    unfolding arc_manager_def using arc.om_init_ok arc_init_inv assms(1) by blast
qed

section \<open>What the invariant says\<close>

definition pool_sound :: "'p policy_ops \<Rightarrow> 'p offload_manager \<Rightarrow> bool" where
  "pool_sound ops m \<longleftrightarrow>
     (let g = op_get ops (policy m) in
      (\<forall>k k' c c'. g k = Some c \<longrightarrow> g k' = Some c' \<longrightarrow> chunk_id c = chunk_id c' \<longrightarrow> k = k') \<and>
      (\<forall>k c. g k = Some c \<longrightarrow> 0 \<le> chunk_id c \<and> chunk_id c < num_chunks m \<and> chunk_id c \<notin> set (free_list m)) \<and>
      int (card (dom g)) + get_num_free_chunks m = num_chunks m \<and>
      num_evictable_cache_chunks m = int (card {k. \<exists>c. g k = Some c \<and> sint (ref_cnt c) = 0}) \<and>
      num_write_pending_chunks m = int (card {k. \<exists>c. g k = Some c \<and> sint (ref_cnt c) = - 1}))"

lemma table_size:
  assumes "chunk_table g a fl ev wp"
  shows "int (card (dom g)) + int (length fl) = a"
proof -
  note d = chunk_tableD [OF assms]
  have "card (id_of g ` dom g \<union> set fl) = card (dom g) + length fl"
    using d(1,3,4,5) by (simp add: card_Un_disjoint card_image distinct_card)
  then show ?thesis using d(2,6) by simp
qed

lemma om_ok_sound:
  assumes "om_ok ops pinv m"
  shows "pool_sound ops m"
proof -
  let ?g = "op_get ops (policy m)"
  have cap: "num_allocated_chunks m \<le> num_chunks m" and
    tab: "chunk_table ?g (num_allocated_chunks m) (free_list m) (num_evictable_cache_chunks m)
      (num_write_pending_chunks m)" using assms by (simp_all add: om_ok_def)
  note d = chunk_tableD [OF tab]
  have inj: "k = k'" if "?g k = Some c" "?g k' = Some c'" "chunk_id c = chunk_id c'" for k k' c c'
  proof (rule inj_onD [OF d(4)])
    show "id_of ?g k = id_of ?g k'" using that by (simp add: id_of_def)
    show "k \<in> dom ?g" "k' \<in> dom ?g" using that by auto
  qed
  have rng: "0 \<le> chunk_id c \<and> chunk_id c < num_chunks m \<and> chunk_id c \<notin> set (free_list m)"
    if "?g k = Some c" for k c
  proof -
    have "chunk_id c \<in> id_of ?g ` dom ?g" using that by (force simp: id_of_def image_iff)
    then have "chunk_id c \<in> {0..<num_allocated_chunks m}" "chunk_id c \<notin> set (free_list m)"
      using d(5,6) by blast+
    then show ?thesis using cap by auto
  qed
  have sz: "int (card (dom ?g)) + get_num_free_chunks m = num_chunks m"
    using table_size [OF tab] by (simp add: get_num_free_chunks_def)
  have i: "{k. \<exists>c. ?g k = Some c \<and> sint (ref_cnt c) = 0} = idle_keys ?g"
    by (auto simp: idle_keys_def sint_zero_iff)
  have "sint (ref_cnt c) = - 1 \<longleftrightarrow> \<not> is_ready c" if "?g k = Some c" for k c
    using d(9) [OF that] by (auto simp: is_ready_def)
  then have w: "{k. \<exists>c. ?g k = Some c \<and> sint (ref_cnt c) = - 1} = writing_keys ?g"
    by (auto simp: writing_keys_def)
  show ?thesis
    unfolding pool_sound_def Let_def i w using inj rng sz d(7,8) by blast
qed


definition store_outcome :: "'p policy_ops \<Rightarrow> bytes list \<Rightarrow> 'p offload_manager \<Rightarrow> bool" where
  \<comment> \<open>what a call of \<^verbatim>\<open>prepare_store\<close> does, for the keys \<open>ks\<close> that pass the access count filter\<close>
  "store_outcome ops offered m \<longleftrightarrow>
     (\<exists>ks out m'. om_prepare_store ops offered m = Inr (out, m') \<and> set ks \<subseteq> set offered \<and>
        (counts m = None \<longrightarrow> ks = offered) \<and>
        (let g = op_get ops (policy m); g' = op_get ops (policy m');
             new = filter (\<lambda>k. g k = None) ks;
             available = get_num_free_chunks m +
               int (card {k. \<exists>c. g k = Some c \<and> ref_cnt c = 0 \<and> k \<notin> set ks})
         in case out of
              None \<Rightarrow> available < int (length new) \<and> g' = g \<and> free_list m' = free_list m \<and>
                num_allocated_chunks m' = num_allocated_chunks m
            | Some ps \<Rightarrow>
                int (length new) \<le> available \<and> keys_to_store ps = new \<and>
                length (store_spec ps) = length new \<and>
                (\<forall>i<length new. g' (new ! i) = Some (chunk_init (store_spec ps ! i))) \<and>
                (\<forall>k\<in>set (evicted_keys ps). g' k = None \<and> k \<notin> set ks \<and>
                   (\<exists>c. g k = Some c \<and> ref_cnt c = 0)) \<and>
                (\<forall>k. k \<notin> set new \<longrightarrow> k \<notin> set (evicted_keys ps) \<longrightarrow> g' k = g k)))"

context cache_policy
begin

lemma store_outcomeI:
  assumes ok: "om_ok ops inv m" and ds: "distinct offered"
  shows "store_outcome ops offered m"
proof -
  from prepare_store_spec [OF ok ds] obtain ks out m' where
    run: "om_prepare_store ops offered m = Inr (out, m')" and ok': "om_ok ops inv m'" and
    ks: "set ks \<subseteq> set offered" "distinct ks" "counts m = None \<longrightarrow> ks = offered" and
    sp: "case out of
       None \<Rightarrow>
         get_num_free_chunks m + int (card (idle ops (set ks) (policy m)))
           < int (length (filter (\<lambda>k. chunks_of m k = None) ks)) \<and>
         chunks_of m' = chunks_of m \<and> free_list m' = free_list m \<and>
         num_allocated_chunks m' = num_allocated_chunks m
     | Some ps \<Rightarrow>
         int (length (keys_to_store ps))
           \<le> get_num_free_chunks m + int (card (idle ops (set ks) (policy m))) \<and>
         keys_to_store ps = filter (\<lambda>k. chunks_of m k = None) ks \<and>
         length (store_spec ps) = length (keys_to_store ps) \<and>
         distinct (evicted_keys ps) \<and>
         (\<forall>k\<in>set (evicted_keys ps). k \<notin> set ks \<and> k \<in> idle_keys (chunks_of m)) \<and>
         chunks_of m' = add_chunks (zip (keys_to_store ps) (map chunk_init (store_spec ps)))
           (chunks_of m |` (- set (evicted_keys ps)))"
    by (elim exE conjE) (rule that, assumption+)
  have idl: "{k. \<exists>c. chunks_of m k = Some c \<and> ref_cnt c = 0 \<and> k \<notin> set ks} = idle ops (set ks) (policy m)"
    by (simp add: idle_def)
  show ?thesis
  proof (cases out)
    case None
    then show ?thesis unfolding store_outcome_def Let_def
      using run ks sp by (intro exI [of _ ks] exI [of _ out] exI [of _ m']) (simp add: idl)
  next
    case (Some ps)
    let ?new = "filter (\<lambda>k. chunks_of m k = None) ks" and ?ek = "evicted_keys ps"
    let ?kcs = "zip ?new (map chunk_init (store_spec ps))"
    have ns: "keys_to_store ps = ?new" using sp Some by simp
    have f: "int (length ?new) \<le> get_num_free_chunks m + int (card (idle ops (set ks) (policy m)))"
      "keys_to_store ps = ?new" "length (store_spec ps) = length ?new"
      "\<forall>k\<in>set ?ek. k \<notin> set ks \<and> k \<in> idle_keys (chunks_of m)"
      "chunks_of m' = add_chunks ?kcs (chunks_of m |` (- set ?ek))"
      using sp unfolding Some option.case ns by simp_all
    have mf: "map fst ?kcs = ?new" using f(3) by simp
    then have d: "distinct (map fst ?kcs)" using ks(2) by (simp only: distinct_filter)
    have fs: "fst ` set ?kcs = set ?new" using mf by (metis set_map)
    have "chunks_of m' (?new ! i) = Some (chunk_init (store_spec ps ! i))" if i: "i < length ?new" for i
    proof -
      have "(?new ! i, chunk_init (store_spec ps ! i)) \<in> set ?kcs"
        using i f(3) by (auto simp: set_zip intro!: exI [of _ i])
      then show ?thesis unfolding f(5) by (rule add_chunks_in [OF d])
    qed
    moreover have other: "chunks_of m' k = (chunks_of m |` (- set ?ek)) k" if "k \<notin> set ?new" for k
      using that add_chunks_other [of k ?kcs] unfolding f(5) fs by blast
    moreover have "chunks_of m' k = None \<and> k \<notin> set ks \<and> (\<exists>c. chunks_of m k = Some c \<and> ref_cnt c = 0)"
      if k: "k \<in> set ?ek" for k
    proof -
      have "k \<notin> set ks" "k \<in> idle_keys (chunks_of m)" using f(4) k by auto
      moreover from this have "k \<notin> set ?new" by simp
      ultimately show ?thesis using other k by (simp add: idle_keys_def)
    qed
    ultimately show ?thesis unfolding store_outcome_def Let_def
      using run ks f(1-3) Some
      by (intro exI [of _ ks] exI [of _ out] exI [of _ m']) (simp add: restrict_map_def idl)
  qed
qed

end


definition load_round_trip :: "'p policy_ops \<Rightarrow> bytes list \<Rightarrow> 'p offload_manager \<Rightarrow> bool" where
  \<comment> \<open>a load of the keys \<open>ks\<close>, with any store between its start and its end\<close>
  "load_round_trip ops ks m \<longleftrightarrow>
     (\<exists>m1. om_prepare_load ops ks m = Inr (map (\<lambda>k. chunk_id (the (op_get ops (policy m) k))) ks, m1) \<and>
        (\<forall>offered ps m2. distinct offered \<longrightarrow> om_prepare_store ops offered m1 = Inr (Some ps, m2) \<longrightarrow>
           (\<forall>k\<in>set ks. k \<notin> set (evicted_keys ps) \<and>
              op_get ops (policy m2) k = op_get ops (policy m1) k)) \<and>
        (\<exists>m2. om_complete_load ops ks m1 = Inr m2 \<and> op_get ops (policy m2) = op_get ops (policy m) \<and>
           num_evictable_cache_chunks m2 = num_evictable_cache_chunks m))"

lemma pinned_not_idle:
  assumes "k \<in> set ks" and "k \<in> ready_keys g" and "head_room (length ks) g"
  shows "pinned ks g k \<noteq> None" and "k \<notin> idle_keys (pinned ks g)"
proof -
  obtain c where c: "g k = Some c" "0 \<le> sint (ref_cnt c)"
    using assms(2) by (auto simp: ready_keys_def is_ready_def)
  let ?n = "count_list ks k"
  have n: "0 < ?n" using assms(1) by (simp add: count_list_0_iff flip: neq0_conv)
  have "?n \<le> length ks" by (rule count_le_length)
  moreover have "sint (ref_cnt c) + int (length ks) < 2 ^ 31"
    using assms(3) c(1) unfolding head_room_def by blast
  ultimately have "sint (ref_cnt c + of_nat ?n) = sint (ref_cnt c) + int ?n"
    using c(2) by (intro sint_add_nat) simp_all
  then have "ref_cnt c + of_nat ?n \<noteq> 0" using c(2) n by auto
  then show "pinned ks g k \<noteq> None" "k \<notin> idle_keys (pinned ks g)"
    using c(1) by (auto simp: pinned_def idle_keys_def)
qed

lemma lookup_hit: "om_lookup ops k m = HIT \<longleftrightarrow> k \<in> ready_keys (op_get ops (policy m))"
  by (auto simp: om_lookup_def ready_keys_def split: option.splits)

context cache_policy
begin

lemma load_round_tripI:
  assumes ok: "om_ok ops inv m" and room: "head_room (length ks) (chunks_of m)"
    and rdy: "set ks \<subseteq> ready_keys (chunks_of m)"
  shows "load_round_trip ops ks m"
proof -
  from prepare_load_spec [OF ok room] rdy obtain m1 where
    m1: "om_prepare_load ops ks m = Inr (map (id_of (chunks_of m)) ks, m1)" "om_ok ops inv m1"
      "chunks_of m1 = pinned ks (chunks_of m)" by auto
  from unpin_pinned [OF m1(2,3) room rdy] obtain m2 where
    m2: "rfold (unpin_chunk ops) ks m1 = Inr m2" "om_ok ops inv m2" "chunks_of m2 = chunks_of m" by blast
  have ev: "num_evictable_cache_chunks m2 = num_evictable_cache_chunks m"
    using chunk_tableD(7) [OF om_okD(4) [OF m2(2)]] chunk_tableD(7) [OF om_okD(4) [OF ok]] m2(3) by simp
  have keep: "k \<notin> set (evicted_keys ps) \<and> chunks_of m3 k = chunks_of m1 k"
    if ds: "distinct offered" and run: "om_prepare_store ops offered m1 = Inr (Some ps, m3)"
      and k: "k \<in> set ks" for offered ps m3 k
  proof -
    have k': "chunks_of m1 k \<noteq> None" "k \<notin> idle_keys (chunks_of m1)"
      using pinned_not_idle [OF k _ room] rdy k m1(3) by auto
    from store_outcomeI [OF m1(2) ds] obtain ks' where
      e: "\<forall>k\<in>set (evicted_keys ps). \<exists>c. chunks_of m1 k = Some c \<and> ref_cnt c = 0" and
      o: "\<forall>k. k \<notin> set (filter (\<lambda>k. chunks_of m1 k = None) ks') \<longrightarrow> k \<notin> set (evicted_keys ps) \<longrightarrow>
            chunks_of m3 k = chunks_of m1 k"
      unfolding store_outcome_def run Let_def by (auto simp del: set_filter)
    have "k \<notin> set (evicted_keys ps)" using e k'(2) by (auto simp: idle_keys_def)
    moreover have "k \<notin> set (filter (\<lambda>k. chunks_of m1 k = None) ks')" using k'(1) by simp
    ultimately show ?thesis using o by blast
  qed
  have "om_prepare_load ops ks m = Inr (map (\<lambda>k. chunk_id (the (chunks_of m k))) ks, m1)"
    using m1(1) by (simp add: id_of_def [abs_def])
  moreover have "om_complete_load ops ks m1 = Inr m2" using m2(1) by (simp add: om_complete_load_def)
  ultimately show ?thesis unfolding load_round_trip_def
    using keep m2(3) ev by (intro exI [of _ m1]) blast
qed

lemma prepare_load_error:
  assumes "om_ok ops inv m" and "head_room (length ks) (chunks_of m)"
  shows "if \<forall>k\<in>set ks. om_lookup ops k m = HIT then \<exists>r. om_prepare_load ops ks m = Inr r
    else om_prepare_load ops ks m = Inl AssertionError"
proof -
  have "(\<forall>k\<in>set ks. om_lookup ops k m = HIT) \<longleftrightarrow> set ks \<subseteq> ready_keys (chunks_of m)"
    using lookup_hit by blast
  then show ?thesis using prepare_load_spec [OF assms] by (auto split: if_splits)
qed

end

definition usage_sound :: "'p offload_manager \<Rightarrow> bool" where
  "usage_sound m \<longleftrightarrow>
     (let s = fst (om_get_stats m)
      in 0 \<le> cpu_cache_write_usage s \<and> 0 \<le> cpu_cache_read_usage s \<and> cpu_cache_usage s \<le> 1 \<and>
         cpu_cache_usage s = cpu_cache_read_usage s + cpu_cache_write_usage s)"

lemma usage_soundI:
  assumes "om_ok ops pinv m"
  shows "usage_sound m"
proof -
  let ?g = "op_get ops (policy m)"
  have cap: "num_allocated_chunks m \<le> num_chunks m" and
    tab: "chunk_table ?g (num_allocated_chunks m) (free_list m) (num_evictable_cache_chunks m)
      (num_write_pending_chunks m)" using assms by (simp_all add: om_ok_def)
  note d = chunk_tableD [OF tab]
  define used where "used = num_allocated_chunks m - int (length (free_list m)) - num_evictable_cache_chunks m"
  have "idle_keys ?g \<inter> writing_keys ?g = {}"
    by (auto simp: idle_keys_def writing_keys_def is_ready_def)
  then have "card (idle_keys ?g) + card (writing_keys ?g) = card (idle_keys ?g \<union> writing_keys ?g)"
    using d(10,11) by (simp add: card_Un_disjoint)
  also have "... \<le> card (dom ?g)"
    using d(1) by (intro card_mono) (auto simp: idle_keys_def writing_keys_def)
  finally have "num_write_pending_chunks m \<le> used"
    using table_size [OF tab] d(7,8) by (simp add: used_def)
  moreover have "0 \<le> num_write_pending_chunks m" "used \<le> num_chunks m"
    using d(7,8) cap by (simp_all add: used_def)
  ultimately have b: "0 \<le> num_write_pending_chunks m" "num_write_pending_chunks m \<le> used" "used \<le> num_chunks m"
    by simp_all
  show ?thesis
  proof (cases "num_chunks m > 0")
    case False
    then show ?thesis by (simp add: usage_sound_def om_get_stats_def Let_def)
  next
    case True
    let ?n = "rat_of_int (num_chunks m)"
    have "rat_of_int (num_write_pending_chunks m) / ?n \<le> rat_of_int used / ?n"
      using b(2) True by (intro divide_right_mono) simp_all
    moreover have "rat_of_int used / ?n \<le> 1" using b(3) True by (simp add: divide_le_eq)
    moreover have "0 \<le> rat_of_int (num_write_pending_chunks m) / ?n" using b(1) True by simp
    ultimately show ?thesis using True
      unfolding usage_sound_def om_get_stats_def Let_def used_def [symmetric] by simp
  qed
qed


section \<open>Concrete histories\<close>

lemma four_steps: "r a b \<Longrightarrow> r b c \<Longrightarrow> r c d \<Longrightarrow> r d e \<Longrightarrow> r\<^sup>*\<^sup>* a e"
  by (meson converse_rtranclp_into_rtranclp rtranclp.rtrancl_refl)

definition lru_stored :: "lru_policy offload_manager" where
  \<comment> \<open>one chunk of memory, after the key \<open>[1]\<close> has been stored\<close>
  "lru_stored = (lru_manager 1 False 1 0)
     \<lparr>num_allocated_chunks := 1, num_evictable_cache_chunks := 1, allocation_sizes_in_current_batch := [1],
      policy := \<lparr>lru_capacity = 1, evictable_chunks = [[1]],
                 chunks = [[1] \<mapsto> \<lparr>ref_cnt = 0, chunk_id = 0\<rparr>]\<rparr>\<rparr>"

definition arc_stored :: "arc_policy offload_manager" where
  "arc_stored = (arc_manager 1 False 1 0)
     \<lparr>num_allocated_chunks := 1, num_evictable_cache_chunks := 1, allocation_sizes_in_current_batch := [1],
      policy := \<lparr>arc_capacity = 1, target_t1_size = 0, t1 = [([1], \<lparr>ref_cnt = 0, chunk_id = 0\<rparr>)],
                 t2 = [], b1 = [], b2 = []\<rparr>\<rparr>"

lemmas om_eval = om_prepare_store_def admit_keys_def make_room_def allocate_chunks_def add_event_def
  insert_chunks_def get_load_store_spec_def get_num_free_chunks_def chunk_init_def om_complete_store_def
  store_ok_def is_ready_def Let_def om_init_def record_accesses_def record_counts_def count_again_def
  track_new_def od_move_to_end_def free_chunk_def

lemmas lru_eval = lru_ops_def lru_get_def lru_insert_def lru_put_def lru_mark_evictable_def
  lru_evict_def lru_drop_def od_add_def od_del_def lru_init_def lru_manager_def

lemmas arc_eval = arc_ops_def arc_get_def arc_insert_def arc_put_def od_del_def arc_init_def arc_manager_def

lemma lru_stored_reachable: "om_reachable lru_ops (lru_manager 1 False 1 0) lru_stored"
proof -
  let ?m = "lru_manager 1 False 1 0"
  let ?p = "\<lparr>lru_capacity = 1, evictable_chunks = [], chunks = [[1] \<mapsto> chunk_init 0]\<rparr>"
  let ?m1 = "?m\<lparr>num_allocated_chunks := 1, num_write_pending_chunks := 1,
               allocation_sizes_in_current_batch := [1], policy := ?p\<rparr>"
  have s: "om_prepare_store lru_ops [[1]] ?m =
    Inr (Some \<lparr>keys_to_store = [[1]], store_spec = [0], evicted_keys = []\<rparr>, ?m1)"
    by (simp add: om_eval lru_eval)
  have c: "om_complete_store lru_ops [[1]] True ?m1 = Inr lru_stored"
    by (simp add: om_eval lru_eval lru_stored_def)
  show ?thesis unfolding om_reachable_def
    using om_step.store [OF _ s] om_step.stored [OF c]
    by (rule_tac rtranclp.rtrancl_into_rtrancl [OF r_into_rtranclp]) simp_all
qed

lemma arc_stored_reachable: "om_reachable arc_ops (arc_manager 1 False 1 0) arc_stored"
proof -
  let ?m = "arc_manager 1 False 1 0"
  let ?p = "\<lparr>arc_capacity = 1, target_t1_size = 0, t1 = [([1], chunk_init 0)], t2 = [], b1 = [], b2 = []\<rparr>"
  let ?m1 = "?m\<lparr>num_allocated_chunks := 1, num_write_pending_chunks := 1,
               allocation_sizes_in_current_batch := [1], policy := ?p\<rparr>"
  have s: "om_prepare_store arc_ops [[1]] ?m =
    Inr (Some \<lparr>keys_to_store = [[1]], store_spec = [0], evicted_keys = []\<rparr>, ?m1)"
    by (simp add: om_eval arc_eval)
  have c: "om_complete_store arc_ops [[1]] True ?m1 = Inr arc_stored"
    by (simp add: om_eval arc_eval arc_stored_def)
  show ?thesis unfolding om_reachable_def
    using om_step.store [OF _ s] om_step.stored [OF c]
    by (rule_tac rtranclp.rtrancl_into_rtrancl [OF r_into_rtranclp]) simp_all
qed

section \<open>Properties\<close>

text \<open>
  C10: soundness of the chunk pool, for LRU and for ARC: in every reachable state of the offloading
  manager two keys never share a CPU chunk, every chunk in use has an id inside the pool that is not
  on the free list, resident and free chunks add up to the pool size, and the two counters are the
  numbers of idle chunks and of chunks being written.
\<close>
theorem offload_pool_sound:
  assumes "0 \<le> n"
  shows "(\<forall>m. om_reachable lru_ops (lru_manager n e th tr) m \<longrightarrow> pool_sound lru_ops m) \<and>
    (\<forall>m. om_reachable arc_ops (arc_manager n e th tr) m \<longrightarrow> pool_sound arc_ops m)"
  using om_ok_sound [OF lru_reachable_ok [OF assms]] om_ok_sound [OF arc_reachable_ok [OF assms]] by blast

theorem offload_pool_sound_witness:
  "om_reachable lru_ops (lru_manager 1 False 1 0) lru_stored \<and> pool_sound lru_ops lru_stored \<and>
   om_reachable arc_ops (arc_manager 1 False 1 0) arc_stored \<and> pool_sound arc_ops arc_stored"
  using offload_pool_sound [of 1 False 1 0] lru_stored_reachable arc_stored_reachable by simp



text \<open>
  C32: a load is a round trip, for LRU and for ARC: when all its keys are readable, \<^verbatim>\<open>prepare_load\<close>
  returns their chunks in order; no store that happens during the load evicts or overwrites one of
  them; and \<^verbatim>\<open>complete_load\<close> succeeds and restores every reference count and the number of
  evictable chunks.
\<close>
theorem load_is_round_trip:
  assumes "0 \<le> n"
  shows "(\<forall>m ks. om_reachable lru_ops (lru_manager n e th tr) m \<longrightarrow>
      head_room (length ks) (op_get lru_ops (policy m)) \<longrightarrow> (\<forall>k\<in>set ks. om_lookup lru_ops k m = HIT) \<longrightarrow>
      load_round_trip lru_ops ks m) \<and>
    (\<forall>m ks. om_reachable arc_ops (arc_manager n e th tr) m \<longrightarrow>
      head_room (length ks) (op_get arc_ops (policy m)) \<longrightarrow> (\<forall>k\<in>set ks. om_lookup arc_ops k m = HIT) \<longrightarrow>
      load_round_trip arc_ops ks m)"
  using lru_reachable_ok [OF assms] arc_reachable_ok [OF assms]
  by (intro conjI allI impI lru.load_round_tripI arc.load_round_tripI) (auto simp: lookup_hit)

theorem load_is_round_trip_witness:
  "om_reachable lru_ops (lru_manager 1 False 1 0) lru_stored \<and>
   head_room (length [[1 :: 8 word]]) (op_get lru_ops (policy lru_stored)) \<and>
   om_lookup lru_ops [1] lru_stored = HIT \<and> load_round_trip lru_ops [[1]] lru_stored \<and>
   om_reachable arc_ops (arc_manager 1 False 1 0) arc_stored \<and>
   om_lookup arc_ops [1] arc_stored = HIT \<and> load_round_trip arc_ops [[1]] arc_stored"
proof -
  have l: "head_room (length [[1 :: 8 word]]) (op_get lru_ops (policy lru_stored))"
    "om_lookup lru_ops [1] lru_stored = HIT"
    by (simp_all add: head_room_def om_lookup_def is_ready_def lru_stored_def lru_eval)
  have a: "head_room (length [[1 :: 8 word]]) (op_get arc_ops (policy arc_stored))"
    "om_lookup arc_ops [1] arc_stored = HIT"
    by (simp_all add: head_room_def om_lookup_def is_ready_def arc_stored_def arc_eval split: if_splits)
  show ?thesis
    using load_is_round_trip [of 1 False 1 0] lru_stored_reachable arc_stored_reachable l a by simp
qed


text \<open>
  C33: when a load raises, for LRU and for ARC: \<^verbatim>\<open>prepare_load\<close> succeeds exactly when \<^verbatim>\<open>lookup\<close>
  answers \<^verbatim>\<open>HIT\<close> for each of its keys; a missing key or one still being written makes it fail
  with an assertion and no other exception, so a connector that loads only hits never stops the engine.
\<close>
theorem prepare_load_raises_iff:
  assumes "0 \<le> n"
  shows "(\<forall>m ks. om_reachable lru_ops (lru_manager n e th tr) m \<longrightarrow>
      head_room (length ks) (op_get lru_ops (policy m)) \<longrightarrow>
      (if \<forall>k\<in>set ks. om_lookup lru_ops k m = HIT then \<exists>r. om_prepare_load lru_ops ks m = Inr r
       else om_prepare_load lru_ops ks m = Inl AssertionError)) \<and>
    (\<forall>m ks. om_reachable arc_ops (arc_manager n e th tr) m \<longrightarrow>
      head_room (length ks) (op_get arc_ops (policy m)) \<longrightarrow>
      (if \<forall>k\<in>set ks. om_lookup arc_ops k m = HIT then \<exists>r. om_prepare_load arc_ops ks m = Inr r
       else om_prepare_load arc_ops ks m = Inl AssertionError))"
  using lru.prepare_load_error [OF lru_reachable_ok [OF assms]]
    arc.prepare_load_error [OF arc_reachable_ok [OF assms]]
  by blast

theorem prepare_load_raises_iff_witness:
  "om_reachable lru_ops (lru_manager 1 False 1 0) lru_stored \<and>
   head_room (length [[1 :: 8 word], [2]]) (op_get lru_ops (policy lru_stored)) \<and>
   om_lookup lru_ops [2] lru_stored = MISS \<and>
   om_prepare_load lru_ops [[1], [2]] lru_stored = Inl AssertionError"
proof -
  have l: "head_room (length [[1 :: 8 word], [2]]) (op_get lru_ops (policy lru_stored))"
    "om_lookup lru_ops [2] lru_stored = MISS"
    by (simp_all add: head_room_def om_lookup_def is_ready_def lru_stored_def lru_eval)
  show ?thesis
    using prepare_load_raises_iff [of 1 False 1 0] lru_stored_reachable l
    by (auto dest!: spec [of _ lru_stored] spec [of _ "[[1], [2]]"])
qed

text \<open>
  The reported cache usage, for LRU and for ARC: the usage gauges lie between 0 and 1, and the
  usage is the sum of the share being written and the share being read.
\<close>
theorem offload_usage_bounds:
  assumes "0 \<le> n"
  shows "(\<forall>m. om_reachable lru_ops (lru_manager n e th tr) m \<longrightarrow> usage_sound m) \<and>
    (\<forall>m. om_reachable arc_ops (arc_manager n e th tr) m \<longrightarrow> usage_sound m)"
  using usage_soundI [OF lru_reachable_ok [OF assms]] usage_soundI [OF arc_reachable_ok [OF assms]] by blast

theorem offload_usage_bounds_witness:
  "om_reachable lru_ops (lru_manager 1 False 1 0) lru_stored \<and> usage_sound lru_stored \<and>
   om_reachable arc_ops (arc_manager 1 False 1 0) arc_stored \<and> usage_sound arc_stored"
  using offload_usage_bounds [of 1 False 1 0] lru_stored_reachable arc_stored_reachable by simp

text \<open>
  C34: the ARC lists: in every reachable state a key is in at most one of T1, T2, B1 and B2, the ghost
  lists hold at most as many keys as the cache has chunks, and the target size of T1 stays between 0
  and the capacity.
\<close>
theorem arc_lists_bounded:
  assumes "0 \<le> n" and "om_reachable arc_ops (arc_manager n e th tr) m"
  defines "p \<equiv> policy m"
  shows "distinct (keys (t1 p) @ keys (t2 p) @ b1 p @ b2 p) \<and>
    0 \<le> target_t1_size p \<and> target_t1_size p \<le> rat_of_int (arc_capacity p) \<and>
    int (length (b1 p)) \<le> arc_capacity p \<and> int (length (b2 p)) \<le> arc_capacity p"
  using arc_reachable_ok [OF assms(1,2)] by (simp add: p_def om_ok_def arc_inv_def arc_lists_def)

theorem arc_lists_bounded_witness:
  "om_reachable arc_ops (arc_manager 1 False 1 0) arc_stored \<and>
   0 \<le> target_t1_size (policy arc_stored) \<and> int (length (b1 (policy arc_stored))) \<le> 1"
  using arc_lists_bounded [OF _ arc_stored_reachable] arc_stored_reachable
  by (simp add: arc_stored_def)

text \<open>
  LRU eviction: asked for \<open>n\<close> chunks, the LRU policy of a reachable manager evicts the \<open>n\<close> least
  recently used idle chunks that are not protected, oldest first, or nothing at all when there are
  fewer, and keeps the order of the others.
\<close>
theorem lru_evicts_oldest:
  assumes "0 \<le> cap" and "om_reachable lru_ops (lru_manager cap e th tr) m"
  defines "p \<equiv> policy m"
  shows "lru_evict n prot p =
    (let old = filter (\<lambda>k. k \<notin> prot) (evictable_chunks p); ks = take n old
     in if length old < n then Inr (None, p)
        else Inr (Some (map (\<lambda>k. (k, the (chunks p k))) ks),
                  p\<lparr>evictable_chunks := filter (\<lambda>k. k \<notin> set ks) (evictable_chunks p),
                    chunks := (chunks p) |` (- set ks)\<rparr>))"
  using lru_evict_eq [of p] lru_reachable_ok [OF assms(1,2)] by (simp add: p_def om_ok_def Let_def)

theorem lru_evicts_oldest_witness:
  "om_reachable lru_ops (lru_manager 1 False 1 0) lru_stored \<and>
   (\<exists>p. lru_evict 1 {} (policy lru_stored) = Inr (Some [([1], \<lparr>ref_cnt = 0, chunk_id = 0\<rparr>)], p))"
  using lru_evicts_oldest [OF _ lru_stored_reachable, of 1 "{}"] lru_stored_reachable
  by (simp add: lru_stored_def Let_def)

text \<open>
  Access counts: recording an offer never raises, keeps the tracker within its size, and for
  every offered key that is already tracked keeps the entry and raises its count by the number of
  times the key was offered.
\<close>
theorem record_counts_keeps_offered:
  assumes "distinct (keys cs)" and "int (length cs) \<le> max tracker 0"
  shows "\<exists>cs'. record_counts tracker ks cs = Inr cs' \<and> distinct (keys cs') \<and>
    int (length cs') \<le> max tracker 0 \<and>
    (\<forall>k\<in>set ks. \<forall>n. map_of cs k = Some n \<longrightarrow> map_of cs' k = Some (n + int (count_list ks k)))"
  using assms by (rule record_counts_spec)

theorem record_counts_keeps_offered_witness:
  "distinct (keys [([1 :: 8 word], 1 :: int), ([2], 1)]) \<and>
   int (length [([1 :: 8 word], 1 :: int), ([2], 1)]) \<le> max 2 0 \<and>
   (\<exists>cs'. record_counts 2 [[1], [3]] [([1], 1), ([2], 1)] = Inr cs' \<and> map_of cs' [1] = Some 2)"
  using record_counts_keeps_offered [of "[([1 :: 8 word], 1 :: int), ([2], 1)]" 2 "[[1], [3]]"] by auto

text \<open>
  C35: an offered chunk that is already stored can be evicted by the same call when stores are
  filtered by access counts: the protected keys are those that pass the filter, and not all offered
  keys. The history stores the key \<open>[1]\<close>, forgets its count, and offers it again together with a key
  that has become frequent enough.
\<close>
theorem offered_chunk_evicted:
  "\<exists>m ps m'. om_reachable lru_ops (lru_manager 1 False 2 1) m \<and>
     op_get lru_ops (policy m) [1] \<noteq> None \<and>
     om_prepare_store lru_ops [[2], [1]] m = Inr (Some ps, m') \<and> evicted_keys ps = [[1]]"
proof -
  let ?m0 = "lru_manager 1 False 2 1"
  let ?p = "\<lparr>lru_capacity = 1, evictable_chunks = [], chunks = [[1] \<mapsto> chunk_init 0]\<rparr>"
  let ?q = "\<lparr>lru_capacity = 1, evictable_chunks = [[1]], chunks = [[1] \<mapsto> \<lparr>ref_cnt = 0, chunk_id = 0\<rparr>]\<rparr>"
  let ?none = "Some \<lparr>keys_to_store = [], store_spec = [], evicted_keys = []\<rparr>"
  let ?m1 = "?m0\<lparr>counts := Some [([1], 1)], stores_skipped_in_current_batch := 1\<rparr>"
  let ?m2 = "?m1\<lparr>counts := Some [([1], 2)], num_allocated_chunks := 1, num_write_pending_chunks := 1,
               allocation_sizes_in_current_batch := [1], policy := ?p\<rparr>"
  let ?m3 = "?m2\<lparr>num_write_pending_chunks := 0, num_evictable_cache_chunks := 1, policy := ?q\<rparr>"
  let ?m4 = "?m3\<lparr>counts := Some [([2], 1)], stores_skipped_in_current_batch := 2\<rparr>"
  have 1: "om_prepare_store lru_ops [[1]] ?m0 = Inr (?none, ?m1)"
    by (simp add: om_eval lru_eval)
  have 2: "om_prepare_store lru_ops [[1]] ?m1 =
      Inr (Some \<lparr>keys_to_store = [[1]], store_spec = [0], evicted_keys = []\<rparr>, ?m2)"
    by (simp add: om_eval lru_eval)
  have 3: "om_complete_store lru_ops [[1]] True ?m2 = Inr ?m3"
    by (simp add: om_eval lru_eval)
  have 4: "om_prepare_store lru_ops [[2]] ?m3 = Inr (?none, ?m4)"
    by (simp add: om_eval lru_eval)
  have 5: "\<exists>ps m'. om_prepare_store lru_ops [[2], [1]] ?m4 = Inr (Some ps, m') \<and> evicted_keys ps = [[1]]"
    by (simp add: om_eval lru_eval)
  have "om_step lru_ops ?m0 ?m1" "om_step lru_ops ?m1 ?m2" "om_step lru_ops ?m3 ?m4"
    by (rule om_step.store [OF _ 1] om_step.store [OF _ 2] om_step.store [OF _ 4], simp)+
  then have "om_reachable lru_ops ?m0 ?m4"
    unfolding om_reachable_def using om_step.stored [OF 3] by (intro four_steps)
  moreover have "op_get lru_ops (policy ?m4) [1] \<noteq> None" by (simp add: lru_eval)
  ultimately show ?thesis using 5 by blast
qed

end
