(* ===== verification/Prefix_Hit.thy ===== *)
theory Prefix_Hit
  imports Pool_Machine
begin

text \<open>
  Prefix cache lookup of the attention managers (\<^verbatim>\<open>find_longest_cache_hit\<close> and its helpers in
  \<^verbatim>\<open>vllm/v1/core/single_type_kv_cache_manager.py\<close>): full attention with coarse and with fine grained
  hashes, sliding window attention and chunked local attention. The lists of computed blocks of all
  groups have the same length at every moment, so they are kept as one list with a row of blocks, one
  per group, for each position; the results are the columns.
\<close>

section \<open>Lookup of one position\<close>

definition lookup_row :: "pool \<Rightarrow> int list \<Rightarrow> bytes \<Rightarrow> block_ref list option res" where
  \<comment> \<open>\<^verbatim>\<open>get_cached_block\<close> and the truth value of its result: an empty list counts as a miss\<close>
  "lookup_row p gs h =
     rbind (get_cached_block p h gs) (\<lambda>r.
       Inr (case r of None \<Rightarrow> None | Some row \<Rightarrow> if row = [] then None else Some row))"

definition hashes_upto :: "block_hash_list \<Rightarrow> nat \<Rightarrow> bytes list res" where
  \<comment> \<open>\<^verbatim>\<open>itertools.islice(block_hashes, n)\<close>\<close>
  "hashes_upto hs n = (case hs of Raw l \<Rightarrow> Inr (take n l) | View v \<Rightarrow> view_slice v 0 n)"

definition columns :: "nat \<Rightarrow> block_ref list list \<Rightarrow> block_ref list list" where
  "columns n rows = map (\<lambda>j. map (\<lambda>row. row ! j) rows) [0..<n]"

fun hit_run :: "(bytes \<Rightarrow> block_ref list option res) \<Rightarrow> bytes list \<Rightarrow> block_ref list list res" where
  \<comment> \<open>the rows of the hashes up to the first miss\<close>
  "hit_run lk [] = Inr []"
| "hit_run lk (h # hs) =
     rbind (lk h) (\<lambda>r.
       case r of
         None \<Rightarrow> Inr []
       | Some row \<Rightarrow> rbind (hit_run lk hs) (\<lambda>rows. Inr (row # rows)))"

section \<open>Full attention\<close>

fun probe_tail ::
  "(bytes \<Rightarrow> block_ref list option res) \<Rightarrow> bytes list \<Rightarrow> nat list \<Rightarrow> (block_ref list \<times> nat) option res"
where
  \<comment> \<open>the first of the given positions that is cached\<close>
  "probe_tail lk raw [] = Inr None"
| "probe_tail lk raw (i # is) =
     rbind (py_get raw (int i)) (\<lambda>h.
     rbind (lk h) (\<lambda>r.
       case r of None \<Rightarrow> probe_tail lk raw is | Some row \<Rightarrow> Inr (Some (row, i))))"

definition extend_hit ::
  "(bytes \<Rightarrow> block_ref list option res) \<Rightarrow> bytes list \<Rightarrow> nat \<Rightarrow> nat \<Rightarrow> nat \<Rightarrow> block_ref list list \<Rightarrow>
   (block_ref list list \<times> int) res"
where
  \<comment> \<open>phase 2: probe the interior hash boundaries of the first block that is not full, longest first\<close>
  "extend_hit lk raw max_length bs align rows =
     (let scale = bs div align; first_partial = length rows * scale;
          max_partial = min (min (first_partial + scale - 1) (max_length div align)) (length raw)
      in rbind (probe_tail lk raw (rev [first_partial..<max_partial])) (\<lambda>r.
           Inr (case r of
                  None \<Rightarrow> (rows, int (length rows * bs))
                | Some (row, i) \<Rightarrow> (rows @ [row], int ((i + 1) * align)))))"

definition finish_hit ::
  "nat \<Rightarrow> nat \<Rightarrow> bool \<Rightarrow> block_ref list list \<times> int \<Rightarrow> block_ref list list \<times> int"
where
  \<comment> \<open>the EAGLE drop, the alignment of the hit length and the deletion of the blocks past it\<close>
  "finish_hit bs align drop_eagle r =
     (let hit2 = (if drop_eagle \<and> snd r > 0 then snd r - int (min align bs) else snd r);
          hit3 = hit2 - hit2 mod int align
      in (take (nat (cdiv hit3 (int bs))) (fst r), hit3))"

definition full_hit_rows ::
  "pool \<Rightarrow> block_hash_list \<Rightarrow> nat \<Rightarrow> int list \<Rightarrow> nat \<Rightarrow> bool \<Rightarrow> nat \<Rightarrow> nat \<Rightarrow> (block_ref list list \<times> int) res"
where
  "full_hit_rows p hs max_length gs spec_bs drop_eagle align dcp =
     (let bs = (if dcp > 1 then spec_bs * dcp else spec_bs) in
      rbind (resolve_block_hashes hs (hash_block_size p) bs True (Some align)) (\<lambda>rhs.
      rbind (ensure (align \<noteq> 0) ZeroDivisionError) (\<lambda>_.
      let fine = (align < bs \<and> bs mod align = 0) in
      rbind (if fine
             then (case rhs of
                     Raw l \<Rightarrow> rbind (view_init l align bs) (\<lambda>v. Inr (View v))
                   | View v \<Rightarrow> Inl AssertionError)
             else Inr rhs) (\<lambda>full.
      rbind (ensure (bs \<noteq> 0) ZeroDivisionError) (\<lambda>_.
      rbind (hashes_upto full (max_length div bs)) (\<lambda>hl.
      rbind (hit_run (lookup_row p gs) hl) (\<lambda>rows.
      rbind (ensure (gs \<noteq> []) IndexError) (\<lambda>_.
      rbind (case rhs of
               Raw l \<Rightarrow> if fine then extend_hit (lookup_row p gs) l max_length bs align rows
                        else Inr (rows, int (length rows * bs))
             | View v \<Rightarrow> Inr (rows, int (length rows * bs))) (\<lambda>r.
        Inr (finish_hit bs align drop_eagle r))))))))))"

definition full_find_longest_cache_hit ::
  "pool \<Rightarrow> block_hash_list \<Rightarrow> nat \<Rightarrow> int list \<Rightarrow> nat \<Rightarrow> bool \<Rightarrow> nat \<Rightarrow> nat \<Rightarrow> (block_ref list list \<times> int) res"
where
  "full_find_longest_cache_hit p hs max_length gs spec_bs drop_eagle align dcp =
     rbind (full_hit_rows p hs max_length gs spec_bs drop_eagle align dcp) (\<lambda>(rows, hit).
       Inr (columns (length gs) rows, hit))"

section \<open>Sliding window attention\<close>

definition contiguous_blocks_for_hit :: "int \<Rightarrow> int \<Rightarrow> bool \<Rightarrow> int" where
  "contiguous_blocks_for_hit window bs use_eagle = cdiv (window - 1) bs + (if use_eagle then 1 else 0)"

fun sw_scan ::
  "(nat \<Rightarrow> block_ref list option res) \<Rightarrow> block_ref list \<Rightarrow> nat \<Rightarrow> nat \<Rightarrow> bool \<Rightarrow> int \<Rightarrow> nat \<Rightarrow> nat \<Rightarrow>
   block_ref list list \<Rightarrow> (bool \<times> nat \<times> block_ref list list) res"
where
  \<comment> \<open>the search from right to left: positions left, length of the current run, rows to the right;
      the result is whether a match was found, the length of the last run, and the rows\<close>
  "sw_scan lk nul bs align eagle need 0 cnt right = Inr (False, cnt, right)"
| "sw_scan lk nul bs align eagle need (Suc i) cnt right =
     rbind (lk i) (\<lambda>r.
       case r of
         None \<Rightarrow> sw_scan lk nul bs align eagle need i 0 (nul # right)
       | Some row \<Rightarrow>
           if cnt = 0 \<and> bs \<noteq> align \<and> ((if eagle then i else i + 1) * bs) mod align \<noteq> 0
           then sw_scan lk nul bs align eagle need i cnt (nul # right)
           else if int (cnt + 1) \<ge> need
           then Inr (True, cnt + 1, replicate i nul @ take (cnt + 1) (row # right))
           else sw_scan lk nul bs align eagle need i (cnt + 1) (row # right))"

fun aligned_len :: "nat \<Rightarrow> nat \<Rightarrow> nat \<Rightarrow> nat" where
  \<comment> \<open>the loop that pops blocks until the length is aligned\<close>
  "aligned_len bs align 0 = 0"
| "aligned_len bs align (Suc n) =
     (if bs \<noteq> align \<and> (Suc n * bs) mod align \<noteq> 0 then aligned_len bs align n else Suc n)"

definition sw_hit_rows ::
  "pool \<Rightarrow> block_hash_list \<Rightarrow> nat \<Rightarrow> int list \<Rightarrow> nat \<Rightarrow> int \<Rightarrow> bool \<Rightarrow> nat \<Rightarrow> (block_ref list list \<times> nat) res"
where
  "sw_hit_rows p hs max_length gs bs window drop_eagle align =
     rbind (resolve_block_hashes hs (hash_block_size p) bs False (Some align)) (\<lambda>rhs.
     rbind (ensure (bs \<noteq> 0 \<and> align \<noteq> 0) ZeroDivisionError) (\<lambda>_.
     let need = contiguous_blocks_for_hit window (int bs) drop_eagle;
         nul = replicate (length gs) (null_block p);
         lk = (\<lambda>i. rbind (hash_at rhs (int i)) (lookup_row p gs))
     in rbind (sw_scan lk nul bs align drop_eagle need (max_length div bs) 0 []) (\<lambda>(found, cnt, rows).
        rbind (ensure (gs \<noteq> []) IndexError) (\<lambda>_.
        let rows1 = (if found then rows else take (aligned_len bs align (length (take cnt rows))) (take cnt rows));
            rows2 = (if drop_eagle \<and> rows1 \<noteq> []
                     then take (aligned_len bs align (length rows1 - 1)) (butlast rows1) else rows1)
        in Inr (rows2, length rows2 * bs)))))"

definition sw_find_longest_cache_hit ::
  "pool \<Rightarrow> block_hash_list \<Rightarrow> nat \<Rightarrow> int list \<Rightarrow> nat \<Rightarrow> int \<Rightarrow> bool \<Rightarrow> nat \<Rightarrow> nat \<Rightarrow> nat \<Rightarrow>
   (block_ref list list \<times> nat) res"
where
  "sw_find_longest_cache_hit p hs max_length gs bs window drop_eagle align dcp pcp =
     rbind (ensure (dcp = 1) AssertionError) (\<lambda>_.
     rbind (ensure (pcp = 1) AssertionError) (\<lambda>_.
     rbind (sw_hit_rows p hs max_length gs bs window drop_eagle align) (\<lambda>(rows, hit).
       Inr (columns (length gs) rows, hit))))"

definition sw_get_num_skipped_tokens :: "int \<Rightarrow> int \<Rightarrow> int \<Rightarrow> int" where
  "sw_get_num_skipped_tokens window extra_retained n = max 0 (n - window + 1 - extra_retained)"

definition sw_reachable_block_mask ::
  "int \<Rightarrow> int \<Rightarrow> int option \<Rightarrow> int \<Rightarrow> int \<Rightarrow> bool \<Rightarrow> int option \<Rightarrow> int list \<Rightarrow> int \<Rightarrow> int option \<Rightarrow>
   bool list option res"
where
  "sw_reachable_block_mask start_block end_block alignment spec_bs window use_eagle retention boundaries
     dcp final_end =
     (case alignment of
        None \<Rightarrow> Inr None
      | Some align \<Rightarrow>
          let bs = spec_bs * dcp in
          rbind (ensure (bs \<noteq> 0) ZeroDivisionError) (\<lambda>_.
          if align mod bs \<noteq> 0 then Inr None
          else
            let need = contiguous_blocks_for_hit window bs use_eagle;
                shift = (if use_eagle then 1 else 0 :: int);
                segment = (case retention of
                             None \<Rightarrow> Some align
                           | Some r \<Rightarrow> if r = 0 then None else Some r);
                near_boundary = (\<lambda>i. retention \<noteq> None \<and>
                  (\<exists>b\<in>set boundaries.
                     let e = (b div align * align) div bs + shift in e - need \<le> i \<and> i < e))
            in case segment of
                 None \<Rightarrow>
                   rbind (ensure (boundaries = [] \<or> align \<noteq> 0) ZeroDivisionError) (\<lambda>_.
                     Inr (Some (map near_boundary [start_block..end_block - 1])))
               | Some seg \<Rightarrow>
                   let per_segment = seg div bs in
                   if need \<ge> per_segment then Inr None
                   else
                     let in_tail = (\<lambda>i. i \<ge> shift \<and> (i - shift) mod per_segment \<ge> per_segment - need);
                         in_final = (\<lambda>i. case final_end of
                           None \<Rightarrow> False
                         | Some fe \<Rightarrow>
                             \<not> use_eagle \<and> fe mod per_segment \<noteq> 0 \<and>
                             max (fe - fe mod per_segment) (fe - need) \<le> i \<and> i < fe)
                     in rbind (ensure (retention = None \<or> boundaries = [] \<or> align \<noteq> 0) ZeroDivisionError) (\<lambda>_.
                          Inr (Some (map (\<lambda>i. in_tail i \<or> in_final i \<or> near_boundary i)
                                         [start_block..end_block - 1])))))"

section \<open>Chunked local attention\<close>

fun cl_scan :: "(nat \<Rightarrow> block_ref list option res) \<Rightarrow> nat list \<Rightarrow> block_ref list list res" where
  \<comment> \<open>the rows of the given positions up to the first miss\<close>
  "cl_scan lk [] = Inr []"
| "cl_scan lk (i # is) =
     rbind (lk i) (\<lambda>r.
       case r of
         None \<Rightarrow> Inr []
       | Some row \<Rightarrow> rbind (cl_scan lk is) (\<lambda>rows. Inr (row # rows)))"

definition cl_find_longest_cache_hit ::
  "pool \<Rightarrow> block_hash_list \<Rightarrow> nat \<Rightarrow> int list \<Rightarrow> nat \<Rightarrow> nat \<Rightarrow> bool \<Rightarrow> nat \<Rightarrow> nat \<Rightarrow> nat \<Rightarrow>
   (block_ref list list \<times> nat) res"
where
  "cl_find_longest_cache_hit p hs max_length gs bs chunk drop_eagle align dcp pcp =
     rbind (ensure (\<not> drop_eagle) AssertionError) (\<lambda>_.
     rbind (ensure (dcp = 1) AssertionError) (\<lambda>_.
     rbind (ensure (pcp = 1) AssertionError) (\<lambda>_.
     rbind (ensure (bs = align) AssertionError) (\<lambda>_.
     rbind (resolve_block_hashes hs (hash_block_size p) bs False (Some align)) (\<lambda>rhs.
     rbind (ensure (bs \<noteq> 0 \<and> (max_length > 0 \<longrightarrow> chunk \<noteq> 0)) ZeroDivisionError) (\<lambda>_.
     let start = (if max_length > 0 then max_length div chunk * chunk else 0) div bs;
         nul = replicate (length gs) (null_block p)
     in rbind (cl_scan (\<lambda>i. rbind (hash_at rhs (int i)) (lookup_row p gs)) [start..<max_length div bs]) (\<lambda>rows.
        rbind (ensure (gs \<noteq> []) IndexError) (\<lambda>_.
        let all = replicate start nul @ rows
        in Inr (columns (length gs) all, length all * bs)))))))))"

definition cl_get_num_skipped_tokens :: "int \<Rightarrow> int \<Rightarrow> int res" where
  "cl_get_num_skipped_tokens chunk n =
     rbind (ensure (chunk \<noteq> 0) ZeroDivisionError) (\<lambda>_. Inr (n div chunk * chunk))"


section \<open>Lookups of a well formed pool\<close>

definition row_of :: "pool \<Rightarrow> int list \<Rightarrow> bytes \<Rightarrow> block_ref list option" where
  \<comment> \<open>the row of a hash, if it is cached in all groups\<close>
  "row_of p gs h = (case lookup_row p gs h of Inl _ \<Rightarrow> None | Inr r \<Rightarrow> r)"

definition valid_groups :: "int list \<Rightarrow> bool" where
  "valid_groups gs \<longleftrightarrow> gs \<noteq> [] \<and> (\<forall>g\<in>set gs. 0 \<le> g \<and> g < 2 ^ 32)"

lemma get_cached_block_total:
  assumes "cache_inv p" and "\<forall>g\<in>set gs. 0 \<le> g \<and> g < 2 ^ 32"
  shows "\<exists>r. get_cached_block p h gs = Inr r"
  using assms(2)
proof (induction gs)
  case Nil
  then show ?case by simp
next
  case (Cons g gs)
  obtain key where k: "make_block_hash_with_group_id h g = Inr key"
    using make_key_total [of g h] Cons.prems by auto
  obtain r where "get_one_block (cached_block_hash_to_block p) key = Inr r"
    using bc.get_hit [OF cache_invD(1) [OF assms(1)], of key]
      bc.get_miss [OF cache_invD(1) [OF assms(1)], of key] by fastforce
  moreover obtain rs where "get_cached_block p h gs = Inr rs" using Cons by auto
  ultimately show ?case using k by (cases r) auto
qed

lemma lookup_row_eq:
  assumes "cache_inv p" and "valid_groups gs"
  shows "lookup_row p gs h = Inr (row_of p gs h)"
proof -
  obtain r where "get_cached_block p h gs = Inr r"
    using get_cached_block_total [OF assms(1), of gs h] assms(2) unfolding valid_groups_def by blast
  then show ?thesis by (simp add: lookup_row_def row_of_def)
qed

lemma row_of_sound:
  assumes "cache_inv p" and "valid_groups gs" and "row_of p gs h = Some row"
  shows "length row = length gs" and "\<And>i. i < length gs \<Longrightarrow> pool_block (num_gpu_blocks p) (row ! i)"
proof -
  have "get_cached_block p h gs = Inr (Some row)"
    using assms(3) lookup_row_eq [OF assms(1,2), of h]
    by (auto simp: lookup_row_def split: option.splits if_splits)
  from get_cached_block_sound [OF assms(1) this] show "length row = length gs"
    "\<And>i. i < length gs \<Longrightarrow> pool_block (num_gpu_blocks p) (row ! i)" by auto
qed

text \<open>The hash of a full block at block size \<open>bs\<close>, in a list of hashes at the finer size \<open>hbs\<close>.\<close>

definition block_key :: "bytes list \<Rightarrow> nat \<Rightarrow> nat \<Rightarrow> nat \<Rightarrow> bytes" where
  "block_key l hbs bs j = l ! (Suc j * (bs div hbs) - 1)"

definition num_keys :: "bytes list \<Rightarrow> nat \<Rightarrow> nat \<Rightarrow> nat" where
  "num_keys l hbs bs = length l div (bs div hbs)"

lemma view_keys:
  fixes l :: "bytes list"
  assumes "0 < hbs" and "bs mod hbs = 0" and "0 < bs"
  defines "v \<equiv> \<lparr>view_hashes = l, scale_factor = bs div hbs\<rparr>"
  shows "view_init l hbs bs = Inr v" and "view_len v = num_keys l hbs bs"
    and "\<And>j. j < num_keys l hbs bs \<Longrightarrow> hash_at (View v) (int j) = Inr (block_key l hbs bs j)"
    and "hashes_upto (View v) n = Inr (map (block_key l hbs bs) [0..<min n (num_keys l hbs bs)])"
proof -
  have s: "0 < scale_factor v" using assms(1,2,3) by (auto simp: v_def div_greater_zero_iff dest: mod_less intro: leI)
  have v: "view_hashes v = l" "scale_factor v = bs div hbs" by (simp_all add: v_def)
  show "view_init l hbs bs = Inr v" using assms by (simp add: view_init_def)
  show len: "view_len v = num_keys l hbs bs" by (simp add: view_len_def v_def num_keys_def)
  show "hash_at (View v) (int j) = Inr (block_key l hbs bs j)" if "j < num_keys l hbs bs" for j
    using view_get_in_range(1) [OF s, of j] that len
    by (simp add: hash_at_def block_key_def v_def del: mult_Suc)
  have "\<forall>i\<in>set [0..<min n (num_keys l hbs bs)]. i < view_len v" using len by simp
  from view_values_in_range [OF s this]
  show "hashes_upto (View v) n = Inr (map (block_key l hbs bs) [0..<min n (num_keys l hbs bs)])"
    using v by (simp add: hashes_upto_def view_slice_def len block_key_def [abs_def] del: mult_Suc)
qed

lemma raw_keys:
  assumes "0 < hbs"
  shows "num_keys l hbs hbs = length l" and "j < length l \<Longrightarrow> hash_at (Raw l) (int j) = Inr (block_key l hbs hbs j)"
    and "hashes_upto (Raw l) n = Inr (map (block_key l hbs hbs) [0..<min n (num_keys l hbs hbs)])"
proof -
  have "map ((!) l) [0..<min n (length l)] = take n l"
    by (rule nth_equalityI) simp_all
  then show "hashes_upto (Raw l) n = Inr (map (block_key l hbs hbs) [0..<min n (num_keys l hbs hbs)])"
    using assms by (simp add: hashes_upto_def num_keys_def block_key_def [abs_def])
qed (use assms in \<open>simp_all add: num_keys_def block_key_def hash_at_def py_get_nonneg\<close>)

lemma resolve_coarse:
  assumes "0 < hbs" and "bs mod hbs = 0" and "0 < bs" and "\<not> (fine \<and> align < bs \<and> bs mod align = 0)"
    and "0 < align"
  shows "\<exists>rhs. resolve_block_hashes (Raw l) hbs bs fine (Some align) = Inr rhs \<and>
    (\<forall>j < num_keys l hbs bs. hash_at rhs (int j) = Inr (block_key l hbs bs j)) \<and>
    (\<forall>n. hashes_upto rhs n = Inr (map (block_key l hbs bs) [0..<min n (num_keys l hbs bs)]))"
proof (cases "bs = hbs")
  case True
  then show ?thesis using raw_keys [OF assms(1)]
    by (intro exI [of _ "Raw l"]) (simp add: resolve_block_hashes_def)
next
  case False
  let ?v = "\<lparr>view_hashes = l, scale_factor = bs div hbs\<rparr>"
  have "resolve_block_hashes (Raw l) hbs bs fine (Some align) = Inr (View ?v)"
    using False assms view_keys(1) [OF assms(1-3), of l] by (auto simp: resolve_block_hashes_def)
  then show ?thesis using view_keys(3,4) [OF assms(1-3)] by blast
qed


section \<open>The sliding window search\<close>

text \<open>
  A hit of \<open>k\<close> blocks can be served when its length is aligned and every block that the window of the
  next token meets is cached.
\<close>

definition aligned :: "nat \<Rightarrow> nat \<Rightarrow> nat \<Rightarrow> bool" where
  "aligned bs align k \<longleftrightarrow> bs = align \<or> (k * bs) mod align = 0"

definition sw_servable :: "(nat \<Rightarrow> 'a option) \<Rightarrow> nat \<Rightarrow> nat \<Rightarrow> nat \<Rightarrow> nat \<Rightarrow> bool" where
  "sw_servable c bs align need k \<longleftrightarrow> aligned bs align k \<and> (\<forall>j<k. k \<le> j + need \<longrightarrow> c j \<noteq> None)"

lemma aligned_len_aligned: "aligned bs align n \<Longrightarrow> aligned_len bs align n = n"
  by (cases n) (auto simp: aligned_def simp del: mult_Suc)

definition sw_state ::
  "(nat \<Rightarrow> 'a option) \<Rightarrow> nat \<Rightarrow> nat \<Rightarrow> nat \<Rightarrow> nat \<Rightarrow> nat \<Rightarrow> nat \<Rightarrow> 'a list \<Rightarrow> bool"
where
  \<comment> \<open>before position \<open>i\<close> is examined: a run of \<open>cnt\<close> cached positions starts at \<open>i\<close>, ends aligned and
      is still too short, and nothing to its right can be served\<close>
  "sw_state c bs align need n i cnt right \<longleftrightarrow>
     n = i + length right \<and> cnt < need \<and> cnt \<le> length right \<and>
     (0 < cnt \<longrightarrow> aligned bs align (i + cnt)) \<and>
     (\<forall>m<cnt. c (i + m) = Some (right ! m)) \<and>
     (\<forall>k. i + cnt < k \<longrightarrow> k \<le> n \<longrightarrow> \<not> sw_servable c bs align need k)"

definition sw_result ::
  "(nat \<Rightarrow> 'a option) \<Rightarrow> nat \<Rightarrow> nat \<Rightarrow> nat \<Rightarrow> nat \<Rightarrow> 'a \<Rightarrow> 'a list \<Rightarrow> bool"
where
  \<comment> \<open>the longest servable hit: null rows outside the window, cached rows inside\<close>
  "sw_result c bs align need n nul rows \<longleftrightarrow>
     length rows \<le> n \<and> sw_servable c bs align need (length rows) \<and>
     (\<forall>k\<le>n. sw_servable c bs align need k \<longrightarrow> k \<le> length rows) \<and>
     (\<forall>j<length rows. if length rows \<le> j + need then c j = Some (rows ! j) else rows ! j = nul)"

lemma sw_state_miss:
  assumes "sw_state c bs align need n (Suc i) cnt right" and "c i = None"
  shows "sw_state c bs align need n i 0 (nul # right)"
proof -
  have "\<not> sw_servable c bs align need k" if k: "i < k" "k \<le> n" for k
  proof (cases "Suc i + cnt < k")
    case True
    then show ?thesis using assms(1) k unfolding sw_state_def by blast
  next
    case False
    then have "k \<le> i + need" using assms(1) by (auto simp: sw_state_def)
    then show ?thesis using assms(2) k(1) by (auto simp: sw_servable_def)
  qed
  then show ?thesis using assms(1) by (auto simp: sw_state_def)
qed

lemma sw_state_unaligned:
  assumes "sw_state c bs align need n (Suc i) 0 right" and "\<not> aligned bs align (Suc i)"
  shows "sw_state c bs align need n i 0 (nul # right)"
proof -
  have "\<not> sw_servable c bs align need k" if k: "i < k" "k \<le> n" for k
  proof (cases "k = Suc i")
    case True
    then show ?thesis using assms(2) by (simp add: sw_servable_def)
  next
    case False
    then show ?thesis using assms(1) k unfolding sw_state_def by (metis Suc_lessI add_0_right)
  qed
  then show ?thesis using assms(1) by (auto simp: sw_state_def)
qed

lemma sw_state_hit:
  assumes "sw_state c bs align need n (Suc i) cnt right" and "c i = Some row"
    and "0 < cnt \<or> aligned bs align (Suc i)"
  shows "aligned bs align (i + Suc cnt)"
    and "\<forall>m<Suc cnt. c (i + m) = Some ((row # right) ! m)"
    and "\<forall>k. i + Suc cnt < k \<longrightarrow> k \<le> n \<longrightarrow> \<not> sw_servable c bs align need k"
proof -
  show "aligned bs align (i + Suc cnt)" using assms(1,3) by (cases "cnt = 0") (auto simp: sw_state_def)
  show "\<forall>m<Suc cnt. c (i + m) = Some ((row # right) ! m)"
    using assms(1,2) by (auto simp: sw_state_def nth_Cons split: nat.splits)
  show "\<forall>k. i + Suc cnt < k \<longrightarrow> k \<le> n \<longrightarrow> \<not> sw_servable c bs align need k"
    using assms(1) by (simp add: sw_state_def)
qed

lemma sw_found:
  assumes st: "sw_state c bs align need n (Suc i) cnt right" and row: "c i = Some row"
    and al: "0 < cnt \<or> aligned bs align (Suc i)" and enough: "need = Suc cnt"
  shows "sw_result c bs align need n nul (replicate i nul @ take (Suc cnt) (row # right))"
proof -
  note h = sw_state_hit [OF st row al]
  let ?rows = "replicate i nul @ take (Suc cnt) (row # right)"
  have n: "n = Suc i + length right" "cnt \<le> length right" using st by (auto simp: sw_state_def)
  then have len: "length ?rows = i + Suc cnt" by simp
  have c: "c j = Some ((row # right) ! (j - i))" if "i \<le> j" "j < i + Suc cnt" for j
    using h(2) that by (metis add_diff_inverse_nat less_diff_conv2 not_le add.commute)
  have nth: "?rows ! j = (row # right) ! (j - i)" if "i \<le> j" "j < i + Suc cnt" for j
    using that nth_take [of "j - i" "Suc cnt" "row # right"] by (simp add: nth_append del: take_Suc_Cons)
  have "sw_servable c bs align need (i + Suc cnt)"
    using h(1) c enough by (auto simp: sw_servable_def)
  moreover have "if i + Suc cnt \<le> j + need then c j = Some (?rows ! j) else ?rows ! j = nul"
    if "j < i + Suc cnt" for j
  proof (cases "i \<le> j")
    case True
    then show ?thesis using that enough c nth by simp
  next
    case False
    then show ?thesis using enough by (simp add: nth_append)
  qed
  moreover have "\<forall>k\<le>n. sw_servable c bs align need k \<longrightarrow> k \<le> i + Suc cnt" using h(3) by (meson not_le)
  moreover have "i + Suc cnt \<le> n" using n by simp
  ultimately show ?thesis unfolding sw_result_def len by blast
qed

lemma sw_scan_spec:
  assumes "\<forall>j<i. lk j = Inr (c j)" and "sw_state c bs align need n i cnt right"
    and "need = nat (max needed 1)"
  shows "\<exists>found cnt' rows. sw_scan lk nul bs align False needed i cnt right = Inr (found, cnt', rows) \<and>
    sw_result c bs align need n nul (if found then rows else take cnt' rows) \<and>
    (\<not> found \<longrightarrow> cnt' \<le> length rows)"
  using assms(1,2)
proof (induction i arbitrary: cnt right)
  case 0
  have st: "n = length right" "cnt < need" "cnt \<le> length right" "0 < cnt \<longrightarrow> aligned bs align cnt"
    "\<forall>m<cnt. c m = Some (right ! m)" "\<forall>k. cnt < k \<longrightarrow> k \<le> n \<longrightarrow> \<not> sw_servable c bs align need k"
    using 0 by (auto simp: sw_state_def)
  have "aligned bs align cnt" using st(4) by (cases "cnt = 0") (auto simp: aligned_def)
  then have "sw_servable c bs align need cnt" using st(5) by (auto simp: sw_servable_def)
  then have "sw_result c bs align need n nul (take cnt right)"
    using st by (auto simp: sw_result_def intro: leI)
  then show ?case using st(3) by (simp add: exI [of _ False])
next
  case (Suc i)
  have lk: "lk i = Inr (c i)" and lks: "\<forall>j<i. lk j = Inr (c j)" using Suc.prems(1) by auto
  have al: "aligned bs align (Suc i) \<longleftrightarrow> \<not> (bs \<noteq> align \<and> ((i + 1) * bs) mod align \<noteq> 0)"
    by (simp add: aligned_def)
  show ?case
  proof (cases "c i")
    case None
    then show ?thesis
      using Suc.IH [OF lks sw_state_miss [OF Suc.prems(2) None, of nul]] lk by simp
  next
    case (Some row)
    show ?thesis
    proof (cases "cnt = 0 \<and> \<not> aligned bs align (Suc i)")
      case True
      then have "sw_state c bs align need n i 0 (nul # right)"
        using sw_state_unaligned [of c bs align need n i right nul] Suc.prems(2) by simp
      from Suc.IH [OF lks this] show ?thesis using lk Some True al by simp
    next
      case False
      then have a: "0 < cnt \<or> aligned bs align (Suc i)" by simp
      have guard: "\<not> (cnt = 0 \<and> bs \<noteq> align \<and> ((i + 1) * bs) mod align \<noteq> 0)" using a al by auto
      have step: "sw_scan lk nul bs align False needed (Suc i) cnt right =
          (if int (cnt + 1) \<ge> needed then Inr (True, cnt + 1, replicate i nul @ take (cnt + 1) (row # right))
           else sw_scan lk nul bs align False needed i (cnt + 1) (row # right))"
        using lk Some guard by (simp only: sw_scan.simps rbind_Inr option.case if_False)
      have cn: "cnt < need" using Suc.prems(2) by (simp add: sw_state_def)
      show ?thesis
      proof (cases "int (cnt + 1) \<ge> needed")
        case True
        then have "need = Suc cnt" using cn assms(3) by auto
        from sw_found [OF Suc.prems(2) Some a this, of nul] show ?thesis
          unfolding step using True by (intro exI [of _ True]) simp
      next
        case less: False
        then have "Suc cnt < need" using assms(3) by auto
        then have "sw_state c bs align need n i (Suc cnt) (row # right)"
          using sw_state_hit [OF Suc.prems(2) Some a] Suc.prems(2) by (simp add: sw_state_def)
        from Suc.IH [OF lks this] show ?thesis unfolding step using less by simp
      qed
    qed
  qed
qed


lemma sw_hit_rows_spec:
  fixes l :: "bytes list" and max_length :: nat
  assumes inv: "cache_inv p" and gs: "valid_groups gs" and hbs: "0 < hash_block_size p"
    and bs: "bs mod hash_block_size p = 0" "0 < bs" and al: "0 < align"
    and len: "max_length div bs \<le> num_keys l (hash_block_size p) bs"
  shows "\<exists>rows. sw_hit_rows p (Raw l) max_length gs bs window False align = Inr (rows, length rows * bs) \<and>
    sw_result (\<lambda>j. row_of p gs (block_key l (hash_block_size p) bs j)) bs align
      (nat (max (cdiv (window - 1) (int bs)) 1)) (max_length div bs)
      (replicate (length gs) (null_block p)) rows"
proof -
  let ?hbs = "hash_block_size p" and ?n = "max_length div bs" and ?nul = "replicate (length gs) (null_block p)"
  let ?c = "\<lambda>j. row_of p gs (block_key l ?hbs bs j)"
  let ?need = "nat (max (cdiv (window - 1) (int bs)) 1)"
  obtain rhs where rhs: "resolve_block_hashes (Raw l) ?hbs bs False (Some align) = Inr rhs"
    "\<forall>j < num_keys l ?hbs bs. hash_at rhs (int j) = Inr (block_key l ?hbs bs j)"
    using resolve_coarse [OF hbs bs, of False align l] al by blast
  let ?lk = "\<lambda>i. rbind (hash_at rhs (int i)) (lookup_row p gs)"
  have lk: "\<forall>j<?n. ?lk j = Inr (?c j)" using rhs(2) len lookup_row_eq [OF inv gs] by simp
  have "sw_state ?c bs align ?need ?n ?n 0 []" by (simp add: sw_state_def)
  from sw_scan_spec [OF lk this refl, of ?nul] obtain found cnt rows where
    scan: "sw_scan ?lk ?nul bs align False (cdiv (window - 1) (int bs)) ?n 0 [] = Inr (found, cnt, rows)"
    and res: "sw_result ?c bs align ?need ?n ?nul (if found then rows else take cnt rows)" by blast
  let ?rows = "if found then rows else take cnt rows"
  have "aligned bs align (length ?rows)" using res by (simp add: sw_result_def sw_servable_def)
  then have "take (aligned_len bs align (length (take cnt rows))) (take cnt rows) = take cnt rows" if "\<not> found"
    using that aligned_len_aligned [of bs align "length (take cnt rows)"] by (simp add: min_def)
  then have "sw_hit_rows p (Raw l) max_length gs bs window False align = Inr (?rows, length ?rows * bs)"
    using rhs(1) scan bs(2) al gs
    by (simp add: sw_hit_rows_def contiguous_blocks_for_hit_def valid_groups_def Let_def)
  with res show ?thesis by blast
qed

section \<open>The full attention search\<close>

lemma hit_run_eq:
  "\<forall>h\<in>set hs. lk h = Inr (c h) \<Longrightarrow>
   hit_run lk hs = Inr (map (\<lambda>h. the (c h)) (takeWhile (\<lambda>h. c h \<noteq> None) hs))"
  by (induction hs) (auto split: option.splits)

lemma probe_tail_spec:
  assumes "\<forall>i\<in>set is. i < length raw \<and> lk (raw ! i) = Inr (c (raw ! i))"
  shows "probe_tail lk raw is = Inr None \<and> (\<forall>i\<in>set is. c (raw ! i) = None) \<or>
    (\<exists>xs i ys row. is = xs @ i # ys \<and> c (raw ! i) = Some row \<and> (\<forall>j\<in>set xs. c (raw ! j) = None) \<and>
       probe_tail lk raw is = Inr (Some (row, i)))"
  using assms
proof (induction "is")
  case Nil
  then show ?case by simp
next
  case (Cons i "is")
  have i: "py_get raw (int i) = Inr (raw ! i)" "lk (raw ! i) = Inr (c (raw ! i))"
    using Cons.prems by (simp_all add: py_get_nonneg)
  show ?case
  proof (cases "c (raw ! i)")
    case (Some row)
    then show ?thesis using i by (intro disjI2 exI [of _ "[]"]) simp
  next
    case None
    then have step: "probe_tail lk raw (i # is) = probe_tail lk raw is" using i by simp
    from Cons consider "probe_tail lk raw is = Inr None" "\<forall>i\<in>set is. c (raw ! i) = None"
      | xs j ys row where "is = xs @ j # ys" "c (raw ! j) = Some row" "\<forall>j\<in>set xs. c (raw ! j) = None"
        "probe_tail lk raw is = Inr (Some (row, j))" by auto
    then show ?thesis
    proof cases
      case 1
      then show ?thesis using None step by simp
    next
      case (2 xs j ys row)
      then show ?thesis unfolding step using None
        by (intro disjI2 exI [of _ "i # xs"] exI [of _ j] exI [of _ ys] exI [of _ row]) simp
    qed
  qed
qed

definition cached_run :: "(nat \<Rightarrow> 'a option) \<Rightarrow> nat \<Rightarrow> nat" where
  \<comment> \<open>the number of positions before the first miss\<close>
  "cached_run c n = length (takeWhile (\<lambda>j. c j \<noteq> None) [0..<n])"

lemma cached_run_props:
  "cached_run c n \<le> n" "j < cached_run c n \<Longrightarrow> c j \<noteq> None" "cached_run c n < n \<Longrightarrow> c (cached_run c n) = None"
proof -
  let ?t = "takeWhile (\<lambda>j. c j \<noteq> None) [0..<n]"
  show le: "cached_run c n \<le> n"
    unfolding cached_run_def using length_takeWhile_le [of "\<lambda>j. c j \<noteq> None" "[0..<n]"] by simp
  show "c j \<noteq> None" if "j < cached_run c n"
  proof -
    have "?t ! j = [0..<n] ! j" using that by (simp add: cached_run_def takeWhile_nth)
    then have "?t ! j = j" using that le by simp
    moreover have "?t ! j \<in> set ?t" using that by (simp add: cached_run_def)
    ultimately show ?thesis by (metis (mono_tags) set_takeWhileD)
  qed
  show "c (cached_run c n) = None" if "cached_run c n < n"
    using nth_length_takeWhile [of "\<lambda>j. c j \<noteq> None" "[0..<n]"] that by (simp add: cached_run_def)
qed

lemma takeWhile_run: "takeWhile (\<lambda>j. c j \<noteq> None) [0..<n] = [0..<cached_run c n]"
proof -
  have "takeWhile (\<lambda>j. c j \<noteq> None) [0..<n] = take (cached_run c n) [0..<n]"
    unfolding cached_run_def by (rule takeWhile_eq_take)
  then show ?thesis using cached_run_props(1) [of c n] by (simp add: take_upt)
qed


definition full_match :: "pool \<Rightarrow> int list \<Rightarrow> bytes list \<Rightarrow> nat \<Rightarrow> nat \<Rightarrow> nat \<Rightarrow> nat \<Rightarrow> bool" where
  \<comment> \<open>a prefix of \<open>m\<close> tokens, a multiple of the unit \<open>u\<close>, that is cached: its full blocks are, and so is
      the tail that ends inside a block\<close>
  "full_match p gs l bs u max_length m \<longleftrightarrow>
     u dvd m \<and> m \<le> max_length \<and> m div bs \<le> num_keys l (hash_block_size p) bs \<and>
     (\<forall>j < m div bs. row_of p gs (block_key l (hash_block_size p) bs j) \<noteq> None) \<and>
     (m mod bs \<noteq> 0 \<longrightarrow> m div hash_block_size p \<le> length l \<and>
        row_of p gs (l ! (m div hash_block_size p - 1)) \<noteq> None)"

definition full_run :: "pool \<Rightarrow> int list \<Rightarrow> bytes list \<Rightarrow> nat \<Rightarrow> nat \<Rightarrow> nat" where
  \<comment> \<open>the number of leading full blocks that are cached\<close>
  "full_run p gs l bs max_length =
     cached_run (\<lambda>j. row_of p gs (block_key l (hash_block_size p) bs j))
       (min (max_length div bs) (num_keys l (hash_block_size p) bs))"

lemma full_run_le: "full_run p gs l bs max_length \<le> max_length div bs"
    "full_run p gs l bs max_length \<le> num_keys l (hash_block_size p) bs"
  using cached_run_props(1) [of "\<lambda>j. row_of p gs (block_key l (hash_block_size p) bs j)"
      "min (max_length div bs) (num_keys l (hash_block_size p) bs)"] by (simp_all add: full_run_def)

lemma full_run_cached:
  "\<forall>j<full_run p gs l bs max_length. row_of p gs (block_key l (hash_block_size p) bs j) \<noteq> None"
  unfolding full_run_def using cached_run_props(2) by blast

lemma full_match_blocks:
  assumes "full_match p gs l bs u max_length m"
  shows "m div bs \<le> full_run p gs l bs max_length"
proof (rule ccontr)
  let ?c = "\<lambda>j. row_of p gs (block_key l (hash_block_size p) bs j)"
  let ?n = "min (max_length div bs) (num_keys l (hash_block_size p) bs)"
  define k where "k = full_run p gs l bs max_length"
  assume "\<not> m div bs \<le> full_run p gs l bs max_length"
  then have k: "k < m div bs" by (simp add: k_def)
  have "m div bs \<le> max_length div bs" using assms by (simp add: full_match_def div_le_mono)
  then have "k < ?n" using k assms by (simp add: full_match_def)
  then have "?c k = None" using cached_run_props(3) [of ?c ?n] by (simp add: k_def full_run_def)
  moreover have "?c k \<noteq> None" using assms k by (simp add: full_match_def)
  ultimately show False by simp
qed

lemma full_run_match:
  assumes "0 < bs" and "u dvd full_run p gs l bs max_length * bs"
  shows "full_match p gs l bs u max_length (full_run p gs l bs max_length * bs)"
proof -
  let ?k = "full_run p gs l bs max_length"
  have "?k * bs \<le> max_length"
    using full_run_le(1) [of p gs l bs max_length]
    by (meson div_times_less_eq_dividend le_trans mult_le_mono1)
  then show ?thesis using assms full_run_le(2) [of p gs l bs max_length]
      full_run_cached [of p gs l bs max_length] by (simp add: full_match_def)
qed

lemma coarse_match_le:
  assumes "full_match p gs l bs bs max_length m"
  shows "m \<le> full_run p gs l bs max_length * bs"
proof -
  have "m = m div bs * bs" using assms by (simp add: full_match_def)
  also have "... \<le> full_run p gs l bs max_length * bs"
    using full_match_blocks [OF assms] by (rule mult_le_mono1)
  finally show ?thesis .
qed

lemma rev_upt_split:
  assumes "rev [a..<b] = xs @ i # ys" and "i < j" and "j < b" and "a \<le> j"
  shows "j \<in> set xs"
proof -
  have "j \<in> set (rev [a..<b])" using assms(3,4) by simp
  then have "j \<in> set (xs @ i # ys)" by (simp only: assms(1))
  moreover have "[a..<b] = rev ys @ i # rev xs"
    using arg_cong [OF assms(1), of rev] by simp
  then have "sorted_wrt (<) (rev ys @ i # rev xs)" by (metis sorted_wrt_upt)
  then have "j \<notin> set ys" using assms(2) by (auto simp: sorted_wrt_append)
  ultimately show ?thesis using assms(2) by auto
qed

text \<open>The tail positions of a match: with \<open>s\<close> hashes per block, token counts are multiples \<open>q\<close> of the
  hash block size.\<close>

lemma fine_match_le:
  fixes p :: pool and gs :: "int list" and l :: "bytes list" and bs s max_length :: nat
  assumes hbs: "0 < hash_block_size p" and s: "bs = s * hash_block_size p" "2 \<le> s"
    and m: "full_match p gs l bs (hash_block_size p) max_length m"
  defines "k \<equiv> full_run p gs l bs max_length"
  defines "hi \<equiv> min (min (k * s + s - 1) (max_length div hash_block_size p)) (length l)"
  shows "m \<le> k * bs \<or> (\<exists>i. k * s \<le> i \<and> i < hi \<and> m = (i + 1) * hash_block_size p \<and> row_of p gs (l ! i) \<noteq> None)"
proof -
  let ?h = "hash_block_size p"
  obtain q where q: "m = q * ?h" using m by (auto simp: full_match_def dvd_def mult.commute)
  have md: "m div bs = q div s" "m mod bs = q mod s * ?h" "m div ?h = q"
    using hbs s(2) unfolding q s(1) by (simp_all add: mult_mod_left)
  have le: "q div s \<le> k" using full_match_blocks [OF m] md(1) by (simp add: k_def)
  show ?thesis
  proof (cases "q \<le> k * s")
    case True
    then have "m \<le> k * s * ?h" unfolding q by (rule mult_le_mono1)
    then show ?thesis by (simp add: s(1) mult.assoc)
  next
    case False
    then have "q div s = k" using le s(2)
      by (metis div_le_mono le_antisym less_imp_le nonzero_mult_div_cancel_right not_le not_numeral_le_zero)
    then have r: "q = k * s + q mod s" by (metis div_mult_mod_eq)
    have r1: "0 < q mod s" "q mod s < s" using False r s(2) by auto
    then have tail: "q \<le> length l" "row_of p gs (l ! (q - 1)) \<noteq> None"
      using m hbs md(2,3) by (auto simp: full_match_def)
    have "q \<le> max_length div ?h" using m hbs unfolding q
      by (simp add: full_match_def less_eq_div_iff_mult_less_eq)
    then have "k * s \<le> q - 1 \<and> q - 1 < hi \<and> m = (q - 1 + 1) * ?h"
      using r r1 tail(1) q by (auto simp: hi_def)
    then show ?thesis using tail(2) by blast
  qed
qed

lemma fine_tail_match:
  fixes p :: pool and gs :: "int list" and l :: "bytes list" and bs s max_length :: nat
  assumes hbs: "0 < hash_block_size p" and s: "bs = s * hash_block_size p" "2 \<le> s"
  defines "k \<equiv> full_run p gs l bs max_length"
  defines "hi \<equiv> min (min (k * s + s - 1) (max_length div hash_block_size p)) (length l)"
  assumes i: "k * s \<le> i" "i < hi" "row_of p gs (l ! i) \<noteq> None"
  shows "full_match p gs l bs (hash_block_size p) max_length ((i + 1) * hash_block_size p)"
    and "k * bs < (i + 1) * hash_block_size p" and "(i + 1) * hash_block_size p < (k + 1) * bs"
proof -
  let ?h = "hash_block_size p"
  let ?m = "(i + 1) * ?h"
  have up: "i + 1 < k * s + s" "i + 1 \<le> max_length div ?h" "i < length l" using i(2) by (auto simp: hi_def)
  have q: "(i + 1) div s = k" using i(1) up(1) s(2)
    by (intro div_nat_eqI) (simp_all add: mult.commute)
  have md: "?m div bs = k" "?m div ?h = i + 1"
    using hbs q div_mult_mult2 [of ?h "i + 1" s] nonzero_mult_div_cancel_right [of ?h "i + 1"]
    unfolding s(1) by simp_all
  have "?m \<le> max_length" using up(2) hbs by (simp add: less_eq_div_iff_mult_less_eq del: mult_Suc)
  then show "full_match p gs l bs ?h max_length ?m"
    unfolding full_match_def md using i(3) up(3) full_run_le(2) [of p gs l bs max_length]
      full_run_cached [of p gs l bs max_length]
    by (simp add: k_def del: mult_Suc)
  have "k * s < i + 1" using i(1) by simp
  then have "k * s * ?h < ?m" using hbs by (simp only: mult_less_cancel2)
  then show "k * bs < ?m" by (simp add: s(1) mult.assoc)
  have "i + 1 < (k + 1) * s" using up(1) by simp
  then have "?m < (k + 1) * s * ?h" using hbs by (simp only: mult_less_cancel2)
  then show "?m < (k + 1) * bs" by (simp only: s(1) mult.assoc)
qed

text \<open>The longest cached prefix and its rows: the full blocks, then the tail if it ends inside a block.\<close>

definition longest_match ::
  "pool \<Rightarrow> int list \<Rightarrow> bytes list \<Rightarrow> nat \<Rightarrow> nat \<Rightarrow> nat \<Rightarrow> nat \<Rightarrow> bool"
where
  "longest_match p gs l bs u max_length m \<longleftrightarrow>
     full_match p gs l bs u max_length m \<and> (\<forall>m'. full_match p gs l bs u max_length m' \<longrightarrow> m' \<le> m)"

definition match_row :: "pool \<Rightarrow> int list \<Rightarrow> bytes list \<Rightarrow> nat \<Rightarrow> nat \<Rightarrow> nat \<Rightarrow> block_ref list option" where
  "match_row p gs l bs m j =
     (if j < m div bs then row_of p gs (block_key l (hash_block_size p) bs j)
      else row_of p gs (l ! (m div hash_block_size p - 1)))"

definition match_rows :: "pool \<Rightarrow> int list \<Rightarrow> bytes list \<Rightarrow> nat \<Rightarrow> nat \<Rightarrow> block_ref list list \<Rightarrow> bool" where
  "match_rows p gs l bs m rows \<longleftrightarrow>
     int (length rows) = cdiv (int m) (int bs) \<and>
     (\<forall>j<length rows. match_row p gs l bs m j = Some (rows ! j))"

definition run_rows :: "pool \<Rightarrow> int list \<Rightarrow> bytes list \<Rightarrow> nat \<Rightarrow> nat \<Rightarrow> block_ref list list" where
  "run_rows p gs l bs n = map (\<lambda>j. the (row_of p gs (block_key l (hash_block_size p) bs j))) [0..<n]"

lemma hit_run_keys:
  assumes "cache_inv p" and "valid_groups gs"
  shows "hit_run (lookup_row p gs)
      (map (block_key l (hash_block_size p) bs) [0..<min (max_length div bs) (num_keys l (hash_block_size p) bs)]) =
    Inr (run_rows p gs l bs (full_run p gs l bs max_length))"
proof -
  let ?c = "\<lambda>j. row_of p gs (block_key l (hash_block_size p) bs j)"
  let ?n = "min (max_length div bs) (num_keys l (hash_block_size p) bs)"
  have "hit_run (lookup_row p gs) (map (block_key l (hash_block_size p) bs) [0..<?n]) =
      Inr (map (\<lambda>j. the (?c j)) (takeWhile (\<lambda>j. ?c j \<noteq> None) [0..<?n]))"
    using hit_run_eq [of _ "lookup_row p gs" "row_of p gs"] lookup_row_eq [OF assms]
    by (simp add: takeWhile_map comp_def)
  then show ?thesis unfolding takeWhile_run run_rows_def full_run_def .
qed

lemma cdiv_nat:
  assumes "0 < b"
  shows "cdiv (int a) (int b) = int (a div b + (if a mod b = 0 then 0 else 1))"
  using assms zdiv_zminus1_eq_if [of "int b" "int a"]
  by (simp add: cdiv_def div_minus_right flip: of_nat_mod of_nat_div)

lemma run_rows_match:
  assumes "0 < bs"
  shows "match_rows p gs l bs (full_run p gs l bs max_length * bs)
    (run_rows p gs l bs (full_run p gs l bs max_length))"
  using assms full_run_cached [of p gs l bs max_length]
  by (auto simp: match_rows_def match_row_def run_rows_def cdiv_nat simp del: of_nat_mult)

text \<open>Both phases find the longest match: whole blocks only, or with the tail.\<close>

lemma coarse_longest:
  "0 < bs \<Longrightarrow> longest_match p gs l bs bs max_length (full_run p gs l bs max_length * bs)"
  unfolding longest_match_def using full_run_match [of bs bs p gs l max_length] coarse_match_le by auto

lemma match_rows_snoc:
  fixes i :: nat
  assumes R: "match_rows p gs l bs (k * bs) R" and bs: "0 < bs" and h: "0 < hash_block_size p"
    and m: "k * bs < (i + 1) * hash_block_size p" "(i + 1) * hash_block_size p < (k + 1) * bs"
    and row: "row_of p gs (l ! i) = Some row"
  shows "match_rows p gs l bs ((i + 1) * hash_block_size p) (R @ [row])"
proof -
  define m where "m = (i + 1) * hash_block_size p"
  have d: "m div bs = k" using m bs unfolding m_def [symmetric] by (intro div_nat_eqI) (simp_all add: mult.commute)
  then have "m mod bs \<noteq> 0" using m(1) unfolding m_def [symmetric]
    by (metis add_0_right div_mult_mod_eq less_irrefl)
  then have c: "cdiv (int m) (int bs) = int k + 1" using d cdiv_nat [OF bs, of m] by simp
  have l: "length R = k" using R cdiv_nat [OF bs, of "k * bs"] bs by (simp add: match_rows_def)
  have "m div hash_block_size p - 1 = i" using h by (simp add: m_def del: mult_Suc)
  then show ?thesis unfolding m_def [symmetric] using R row c l d bs
    by (auto simp: match_rows_def match_row_def nth_append)
qed

lemma extend_hit_longest:
  assumes inv: "cache_inv p" and gs: "valid_groups gs" and hbs: "0 < hash_block_size p"
    and s: "bs = s * hash_block_size p" "2 \<le> s"
  shows "\<exists>rows m. extend_hit (lookup_row p gs) l max_length bs (hash_block_size p)
      (run_rows p gs l bs (full_run p gs l bs max_length)) = Inr (rows, int m) \<and>
    longest_match p gs l bs (hash_block_size p) max_length m \<and> match_rows p gs l bs m rows"
proof -
  let ?h = "hash_block_size p"
  define k where "k = full_run p gs l bs max_length"
  define hi where "hi = min (min (k * s + s - 1) (max_length div ?h)) (length l)"
  define R where "R = run_rows p gs l bs k"
  have bs: "0 < bs" "bs div ?h = s" using hbs s by auto
  have R: "length R = k" "match_rows p gs l bs (k * bs) R"
    using run_rows_match [OF bs(1), of p gs l max_length] by (simp_all add: R_def run_rows_def k_def)
  have ext: "extend_hit (lookup_row p gs) l max_length bs ?h R =
      rbind (probe_tail (lookup_row p gs) l (rev [k * s..<hi])) (\<lambda>r.
        Inr (case r of None \<Rightarrow> (R, int (k * bs)) | Some (row, i) \<Rightarrow> (R @ [row], int ((i + 1) * ?h))))"
    unfolding extend_hit_def Let_def R(1) bs(2) hi_def ..
  note up = fine_match_le [OF hbs s, of gs l max_length, folded k_def, folded hi_def]
  note tail = fine_tail_match [OF hbs s, of gs l max_length, folded k_def, folded hi_def]
  have "\<forall>i\<in>set (rev [k * s..<hi]). i < length l \<and> lookup_row p gs (l ! i) = Inr (row_of p gs (l ! i))"
    using lookup_row_eq [OF inv gs] by (simp add: hi_def)
  from probe_tail_spec [of "rev [k * s..<hi]" l "lookup_row p gs" "row_of p gs", OF this]
  consider (none) "probe_tail (lookup_row p gs) l (rev [k * s..<hi]) = Inr None"
      "\<forall>i\<in>set (rev [k * s..<hi]). row_of p gs (l ! i) = None"
    | (some) xs i ys row where "rev [k * s..<hi] = xs @ i # ys" "row_of p gs (l ! i) = Some row"
      "\<forall>j\<in>set xs. row_of p gs (l ! j) = None"
      "probe_tail (lookup_row p gs) l (rev [k * s..<hi]) = Inr (Some (row, i))" by blast
  then show ?thesis unfolding R_def [symmetric] k_def [symmetric]
  proof cases
    case none
    have "?h dvd k * bs" by (simp add: s(1))
    then have "full_match p gs l bs ?h max_length (k * bs)"
      using full_run_match [OF bs(1), of ?h p gs l max_length] by (simp add: k_def)
    moreover have "m \<le> k * bs" if m: "full_match p gs l bs ?h max_length m" for m
      using up [OF m] none(2) by auto
    ultimately have "longest_match p gs l bs ?h max_length (k * bs)" by (simp add: longest_match_def)
    then show "\<exists>rows m. extend_hit (lookup_row p gs) l max_length bs ?h R = Inr (rows, int m) \<and>
        longest_match p gs l bs ?h max_length m \<and> match_rows p gs l bs m rows"
      unfolding ext none(1) using R(2) by (intro exI [of _ R] exI [of _ "k * bs"]) simp
  next
    case (some xs i ys row)
    let ?m = "(i + 1) * ?h"
    have "i \<in> set (rev [k * s..<hi])" by (simp add: some(1))
    then have i: "k * s \<le> i" "i < hi" by simp_all
    have "row_of p gs (l ! i) \<noteq> None" using some(2) by simp
    note t = tail [OF i this]
    have "m \<le> ?m" if m: "full_match p gs l bs ?h max_length m" for m
    proof -
      from up [OF m] consider "m \<le> k * bs"
        | j where "k * s \<le> j" "j < hi" "m = (j + 1) * ?h" "row_of p gs (l ! j) \<noteq> None" by blast
      then show ?thesis
      proof cases
        case 1
        then show ?thesis using t(2) by simp
      next
        case (2 j)
        then have "\<not> i < j" using rev_upt_split [OF some(1), of j] some(3) by auto
        then show ?thesis unfolding 2(3) by (intro mult_le_mono1) simp
      qed
    qed
    then have "longest_match p gs l bs ?h max_length ?m" using t(1) by (simp add: longest_match_def)
    moreover have "match_rows p gs l bs ?m (R @ [row])"
      by (rule match_rows_snoc [OF R(2) bs(1) hbs t(2,3) some(2)])
    ultimately show "\<exists>rows m. extend_hit (lookup_row p gs) l max_length bs ?h R = Inr (rows, int m) \<and>
        longest_match p gs l bs ?h max_length m \<and> match_rows p gs l bs m rows"
      unfolding ext some(4) by (intro exI [of _ "R @ [row]"] exI [of _ ?m]) simp
  qed
qed

text \<open>The rows after both phases, before the EAGLE drop and the final alignment.\<close>

definition hit_tokens :: "bool \<Rightarrow> nat \<Rightarrow> nat \<Rightarrow> nat \<Rightarrow> nat" where
  \<comment> \<open>the longest match, without the last unit under EAGLE, rounded down to the alignment\<close>
  "hit_tokens drop_eagle u align m =
     (let m1 = (if drop_eagle then m - u else m) in m1 - m1 mod align)"

lemma match_rows_take:
  assumes "match_rows p gs l bs m rows" and "0 < bs" and "n \<le> m"
  shows "int (length (take (nat (cdiv (int n) (int bs))) rows)) = cdiv (int n) (int bs)"
    and "j < length (take (nat (cdiv (int n) (int bs))) rows) \<Longrightarrow>
      match_row p gs l bs m j = Some (take (nat (cdiv (int n) (int bs))) rows ! j)"
proof -
  have "cdiv (int n) (int bs) \<le> cdiv (int m) (int bs)"
    using cdiv_le_iff [of "int bs" "int n"] cdiv_bounds(1) [of "int bs" "int m"] assms(2,3) by simp
  then show "int (length (take (nat (cdiv (int n) (int bs))) rows)) = cdiv (int n) (int bs)"
    using assms(1) cdiv_nonneg [of "int bs" "int n"] assms(2) by (auto simp: match_rows_def min_def)
  show "match_row p gs l bs m j = Some (take (nat (cdiv (int n) (int bs))) rows ! j)"
    if "j < length (take (nat (cdiv (int n) (int bs))) rows)"
    using that assms(1) by (simp add: match_rows_def)
qed

lemma hit_tokens_int:
  fixes drop_eagle :: bool
  assumes "0 < align" and "u dvd m"
  defines "h2 \<equiv> if drop_eagle \<and> int m > 0 then int m - int u else int m"
  shows "h2 - h2 mod int align = int (hit_tokens drop_eagle u align m)"
proof -
  define m1 where "m1 = (if drop_eagle then m - u else m)"
  have "u \<le> m \<or> m = 0" using assms(2) by (auto dest: dvd_imp_le)
  then have "h2 = int m1" by (auto simp: h2_def m1_def)
  then show ?thesis using mod_less_eq_dividend [of m1 align]
    by (simp add: hit_tokens_def Let_def m1_def [symmetric] zmod_int of_nat_diff)
qed

lemma finish_hit_eq:
  assumes "0 < align" and "min align bs dvd m"
  shows "finish_hit bs align drop_eagle (rows, int m) =
    (take (nat (cdiv (int (hit_tokens drop_eagle (min align bs) align m)) (int bs))) rows,
     int (hit_tokens drop_eagle (min align bs) align m))"
  unfolding finish_hit_def Let_def fst_conv snd_conv hit_tokens_int [OF assms] ..

lemma full_hit_rows_coarse:
  assumes inv: "cache_inv p" and gs: "valid_groups gs" and hbs: "0 < hash_block_size p"
    and bs: "bs mod hash_block_size p = 0" "0 < bs" and al: "0 < align" "bs dvd align"
  shows "\<exists>rows m. full_hit_rows p (Raw l) max_length gs bs drop_eagle align 1 =
      Inr (finish_hit bs align drop_eagle (rows, int m)) \<and>
    longest_match p gs l bs (min align bs) max_length m \<and> match_rows p gs l bs m rows"
proof -
  let ?h = "hash_block_size p"
  define k where "k = full_run p gs l bs max_length"
  define R where "R = run_rows p gs l bs k"
  have mn: "min align bs = bs" using al by (simp add: dvd_imp_le)
  then have nf: "(align < bs \<and> bs mod align = 0) = False" by auto
  obtain rhs where rhs: "resolve_block_hashes (Raw l) ?h bs True (Some align) = Inr rhs"
    "\<forall>n. hashes_upto rhs n = Inr (map (block_key l ?h bs) [0..<min n (num_keys l ?h bs)])"
    using resolve_coarse [OF hbs bs, of True align l] al(1) nf by auto
  note run = hit_run_keys [OF inv gs, of l bs max_length, folded k_def, folded R_def]
  have len: "length R = k" by (simp add: R_def run_rows_def)
  have "full_hit_rows p (Raw l) max_length gs bs drop_eagle align 1 =
      Inr (finish_hit bs align drop_eagle (R, int (k * bs)))"
    unfolding full_hit_rows_def Let_def using rhs run gs bs al len
    by (cases rhs) (simp_all add: nf valid_groups_def)
  then show ?thesis using coarse_longest [OF bs(2), of p gs l max_length]
      run_rows_match [OF bs(2), of p gs l max_length] unfolding mn R_def k_def by blast
qed

lemma full_hit_rows_fine:
  assumes inv: "cache_inv p" and gs: "valid_groups gs" and hbs: "0 < hash_block_size p"
    and bs: "bs mod hash_block_size p = 0" "hash_block_size p < bs"
  shows "\<exists>rows m. full_hit_rows p (Raw l) max_length gs bs drop_eagle (hash_block_size p) 1 =
      Inr (finish_hit bs (hash_block_size p) drop_eagle (rows, int m)) \<and>
    longest_match p gs l bs (min (hash_block_size p) bs) max_length m \<and> match_rows p gs l bs m rows"
proof -
  let ?h = "hash_block_size p"
  define k where "k = full_run p gs l bs max_length"
  define R where "R = run_rows p gs l bs k"
  obtain s where s: "bs = s * ?h" using bs(1) by (metis mod_0_imp_dvd dvd_div_mult_self)
  then have "\<not> s < 2" using bs(2) by (cases "s = 0"; cases "s = 1") auto
  then have s2: "2 \<le> s" by simp
  have b0: "0 < bs" using bs(2) by simp
  have res: "resolve_block_hashes (Raw l) ?h bs True (Some ?h) = Inr (Raw l)"
    using bs hbs by (simp add: resolve_block_hashes_def)
  note v = view_keys [where l = l, OF hbs bs(1) b0]
  note run = hit_run_keys [OF inv gs, of l bs max_length, folded k_def, folded R_def]
  obtain rows m where ext: "extend_hit (lookup_row p gs) l max_length bs ?h R = Inr (rows, int m)"
    and m: "longest_match p gs l bs ?h max_length m" "match_rows p gs l bs m rows"
    using extend_hit_longest [OF inv gs hbs s s2, of l max_length, folded k_def, folded R_def] by blast
  have mn: "min ?h bs = ?h" using bs(2) by simp
  have "full_hit_rows p (Raw l) max_length gs bs drop_eagle ?h 1 =
      Inr (finish_hit bs ?h drop_eagle (rows, int m))"
    unfolding full_hit_rows_def Let_def using res v(1,4) run ext gs bs b0 hbs
    by (simp add: valid_groups_def)
  with m show ?thesis unfolding mn by blast
qed

definition supported_sizes :: "nat \<Rightarrow> nat \<Rightarrow> nat \<Rightarrow> bool" where
  \<comment> \<open>block size and alignment as the coordinators pass them: the alignment is the hash block size inside
      a coarser block, or a multiple of the block size\<close>
  "supported_sizes hbs bs align \<longleftrightarrow>
     0 < hbs \<and> bs mod hbs = 0 \<and> 0 < bs \<and> (align = hbs \<and> hbs < bs \<or> 0 < align \<and> bs dvd align)"

lemma full_hit_rows_spec:
  assumes "cache_inv p" and "valid_groups gs" and "supported_sizes (hash_block_size p) bs align"
  shows "\<exists>rows m. full_hit_rows p (Raw l) max_length gs bs drop_eagle align 1 =
      Inr (finish_hit bs align drop_eagle (rows, int m)) \<and>
    longest_match p gs l bs (min align bs) max_length m \<and> match_rows p gs l bs m rows"
proof (cases "align = hash_block_size p \<and> hash_block_size p < bs")
  case True
  then show ?thesis using full_hit_rows_fine [OF assms(1,2)] assms(3) by (simp add: supported_sizes_def)
next
  case False
  then have "0 < hash_block_size p" "bs mod hash_block_size p = 0" "0 < bs" "0 < align" "bs dvd align"
    using assms(3) by (auto simp: supported_sizes_def)
  from full_hit_rows_coarse [OF assms(1,2) this] show ?thesis .
qed

section \<open>A pool with three cached blocks\<close>

lemma example_pool:
  "\<exists>p xs. pool_inv p xs \<and> cache_inv p \<and> hash_block_size p = 2 \<and>
     (\<forall>j<3. row_of p [0] (block_key [[1], [2], [3]] 2 2 j) \<noteq> None)"
proof -
  obtain p where p: "pool_init 5 True 2 False False = Inr p" "pool_inv p (map Block [1..<5])"
    "num_gpu_blocks p = 5" "hash_block_size p = 2"
    using pool_init_spec [of 5 True 2 False False] by auto
  have e: "\<not> enable_kv_cache_events p" "enable_caching p" using p(1) by (auto simp: pool_init_def)
  have l: "map Block [1..<5] = [Block 1, Block 2, Block 3, Block 4]" by (simp add: upt_rec)
  let ?bl = "[Block 1, Block 2, Block 3]"
  obtain q where q: "get_new_blocks 3 p = Inr (?bl, q)" "pool_inv q [Block 4]" "same_config p q"
    "\<forall>b \<in> set ?bl. block_keys q b = []"
    using get_new_blocks_spec [OF p(2) [unfolded l], of 3] e(2) by (auto simp: numeral_3_eq_3)
  have c: "num_gpu_blocks q = 5" "hash_block_size q = 2" "\<not> enable_kv_cache_events q"
    using q(3) p(3,4) e(1) by (simp_all add: same_config_def)
  let ?r = "(sample_request ''r'' [5, 6, 7, 8, 9, 10])\<lparr>block_hashes := [[1], [2], [3]]\<rparr>"
  have cl: "client_blocks q ?bl" "\<forall>b \<in> set ?bl. b = Block 0 \<or> pool_block (num_gpu_blocks q) b"
    using c(1) by (simp_all add: client_blocks_def pool_block_def)
  obtain p' where p': "cache_full_blocks ?r ?bl 0 3 2 0 None q = Inr p'"
    using cache_full_blocks_total [OF q(2) cl(1) _ c(2), of 3 ?r 0 0] q(4) c(3) by auto
  from cache_full_blocks_spec [OF q(2) cl(2) _ p'] have S: "pool_inv p' [Block 4]" "hash_only q p'"
    "\<forall>j < 3. \<not> skip_block q None j (?bl ! j) \<longrightarrow> j < 3 \<and>
       (\<exists>key. make_block_hash_with_group_id ([[1], [2], [3]] ! j) 0 = Inr key \<and>
          set (block_keys p' (?bl ! j)) = {key})"
    using c(2) by (auto simp: resolve_block_hashes_def hashes_from_def)
  have f: "num_gpu_blocks p' = 5" "hash_block_size p' = 2"
    using hash_only_fields(6) [OF S(2)] c(1,2) by (simp_all add: same_config_def)
  have C: "cache_inv p'" by (rule pool_invD(4) [OF S(1)])
  have "row_of p' [0] ([[1], [2], [3]] ! j) \<noteq> None" if j: "j < 3" for j
  proof -
    have pb: "pool_block 5 (?bl ! j)" using j by (auto simp: pool_block_def less_Suc_eq numeral_3_eq_3)
    have "\<not> skip_block q None j (?bl ! j)"
      using pool_invD(3) [OF q(2)] pb c(1) by (auto simp: skip_block_def free_inv_def pool_block_def)
    then obtain key where k: "make_block_hash_with_group_id ([[1], [2], [3]] ! j) 0 = Inr key"
      "set (block_keys p' (?bl ! j)) = {key}" using S(3) j by blast
    then have "\<exists>bs. get_cached_block p' ([[1], [2], [3]] ! j) [0] = Inr (Some bs)"
      using get_cached_block_complete [OF C, of "[0]" "[[1], [2], [3]] ! j"] pb f(1) by auto
    then obtain bs where b: "get_cached_block p' ([[1], [2], [3]] ! j) [0] = Inr (Some bs)" by blast
    have "length bs = 1" using get_cached_block_sound [OF C b] by simp
    then show ?thesis using b by (auto simp: row_of_def lookup_row_def)
  qed
  then show ?thesis using S(1) C f(2) by (intro exI [of _ p'] exI [of _ "[Block 4]"]) (simp add: block_key_def)
qed

lemma example_pool_facts:
  assumes "\<forall>j<3. row_of p [0] (block_key [[1], [2], [3]] 2 2 j) \<noteq> None"
  shows "valid_groups [0]" and "num_keys [[1 :: 8 word], [2], [3]] 2 2 = 3"
    and "\<And>j. j < 3 \<Longrightarrow> \<exists>row. row_of p [0] (block_key [[1], [2], [3]] 2 2 j) = Some row"
  using assms by (auto simp: valid_groups_def num_keys_def)

text \<open>
  C11: for full attention the prefix cache lookup never raises on a well formed pool and returns exactly
  the longest cached prefix of the request: the prefix \<open>m\<close> is cached, no longer one is, the hit is \<open>m\<close>
  less the unit that EAGLE recomputes and rounded down to the alignment, and the returned blocks are the
  cached blocks of that prefix, one per started block and group. This covers lookups by whole blocks and
  lookups that end inside a block at a hash boundary.
\<close>
theorem full_hit_exact:
  assumes "cache_inv p" and "valid_groups gs" and "supported_sizes (hash_block_size p) bs align"
  shows "\<exists>rows m.
    full_find_longest_cache_hit p (Raw l) max_length gs bs drop_eagle align 1 =
      Inr (columns (length gs) rows, int (hit_tokens drop_eagle (min align bs) align m)) \<and>
    full_match p gs l bs (min align bs) max_length m \<and>
    (\<forall>m'. full_match p gs l bs (min align bs) max_length m' \<longrightarrow> m' \<le> m) \<and>
    int (length rows) = cdiv (int (hit_tokens drop_eagle (min align bs) align m)) (int bs) \<and>
    (\<forall>j<length rows. match_row p gs l bs m j = Some (rows ! j))"
proof -
  obtain rows m where r: "full_hit_rows p (Raw l) max_length gs bs drop_eagle align 1 =
      Inr (finish_hit bs align drop_eagle (rows, int m))"
    and m: "longest_match p gs l bs (min align bs) max_length m" "match_rows p gs l bs m rows"
    using full_hit_rows_spec [OF assms] by blast
  let ?hit = "hit_tokens drop_eagle (min align bs) align m"
  have s: "0 < align" "0 < bs" using assms(3) by (auto simp: supported_sizes_def)
  have dv: "min align bs dvd m" using m(1) by (simp add: longest_match_def full_match_def)
  have "?hit \<le> m" by (simp add: hit_tokens_def Let_def)
  note t = match_rows_take [OF m(2) s(2) this]
  have "full_find_longest_cache_hit p (Raw l) max_length gs bs drop_eagle align 1 =
      Inr (columns (length gs) (take (nat (cdiv (int ?hit) (int bs))) rows), int ?hit)"
    by (simp only: full_find_longest_cache_hit_def r finish_hit_eq [OF s(1) dv] rbind_Inr prod.case)
  then show ?thesis using t m(1) unfolding longest_match_def
    by (intro exI [of _ "take (nat (cdiv (int ?hit) (int bs))) rows"] exI [of _ m]) blast
qed

theorem full_hit_exact_witness:
  "\<exists>p cols. cache_inv p \<and> full_match p [0] [[1], [2], [3]] 2 2 7 6 \<and>
     full_find_longest_cache_hit p (Raw [[1], [2], [3]]) 7 [0] 2 True 2 1 = Inr (cols, 4)"
proof -
  obtain p xs where p: "cache_inv p" "hash_block_size p = 2"
    "\<forall>j<3. row_of p [0] (block_key [[1], [2], [3]] 2 2 j) \<noteq> None" using example_pool by blast
  note f = example_pool_facts [OF p(3)]
  have s: "supported_sizes (hash_block_size p) 2 2" using p(2) by (simp add: supported_sizes_def)
  from full_hit_exact [OF p(1) f(1) s, of "[[1], [2], [3]]" 7 True] obtain rows m where
    r: "full_find_longest_cache_hit p (Raw [[1], [2], [3]]) 7 [0] 2 True 2 1 =
        Inr (columns 1 rows, int (hit_tokens True 2 2 m))"
    and m: "full_match p [0] [[1], [2], [3]] 2 2 7 m"
      "\<forall>m'. full_match p [0] [[1], [2], [3]] 2 2 7 m' \<longrightarrow> m' \<le> m" by auto
  have six: "full_match p [0] [[1], [2], [3]] 2 2 7 6" using p(2,3) f(2) by (simp add: full_match_def)
  moreover have "m \<le> 7" "2 dvd m" using m(1) by (simp_all add: full_match_def)
  ultimately have "m = 6" using m(2) by (auto elim!: dvdE)
  then have "hit_tokens True 2 2 m = 4" by (simp add: hit_tokens_def)
  then show ?thesis using p(1) six r by auto
qed

text \<open>
  C36: for sliding window attention (without EAGLE) the lookup returns the longest aligned prefix whose
  last blocks, as many as the window of the next token meets, are all cached; these blocks are returned,
  and the positions before them hold the null block.
\<close>
theorem sw_hit_exact:
  fixes l :: "bytes list" and max_length :: nat
  assumes "cache_inv p" and "valid_groups gs" and "0 < hash_block_size p"
    and "bs mod hash_block_size p = 0" and "0 < bs" and "0 < align"
    and "max_length div bs \<le> num_keys l (hash_block_size p) bs"
  shows "\<exists>rows. sw_find_longest_cache_hit p (Raw l) max_length gs bs window False align 1 1 =
      Inr (columns (length gs) rows, length rows * bs) \<and>
    sw_result (\<lambda>j. row_of p gs (block_key l (hash_block_size p) bs j)) bs align
      (nat (max (cdiv (window - 1) (int bs)) 1)) (max_length div bs)
      (replicate (length gs) (null_block p)) rows"
  using sw_hit_rows_spec [OF assms, of window] by (auto simp: sw_find_longest_cache_hit_def)

theorem sw_hit_exact_witness:
  "\<exists>p rows. cache_inv p \<and>
     sw_find_longest_cache_hit p (Raw [[1], [2], [3]]) 7 [0] 2 4 False 2 1 1 = Inr (columns 1 rows, 6) \<and>
     rows ! 0 = [null_block p]"
proof -
  obtain p xs where p: "cache_inv p" "hash_block_size p = 2"
    "\<forall>j<3. row_of p [0] (block_key [[1], [2], [3]] 2 2 j) \<noteq> None" using example_pool by blast
  note f = example_pool_facts [OF p(3)]
  have need: "cdiv 3 2 = 2" by (simp add: cdiv_def)
  obtain rows where r: "sw_find_longest_cache_hit p (Raw [[1], [2], [3]]) 7 [0] 2 4 False 2 1 1 =
      Inr (columns 1 rows, length rows * 2)"
    and s: "sw_result (\<lambda>j. row_of p [0] (block_key [[1], [2], [3]] 2 2 j)) 2 2 2 3 [null_block p] rows"
    using sw_hit_exact [OF p(1) f(1), of 2 2 7 "[[1], [2], [3]]" 4] p(2) f(2) need by auto
  have "sw_servable (\<lambda>j. row_of p [0] (block_key [[1], [2], [3]] 2 2 j)) 2 2 2 3"
    using p(3) by (simp add: sw_servable_def aligned_def)
  then have "length rows = 3" using s by (auto simp: sw_result_def intro: le_antisym)
  then show ?thesis using p(1) r s by (intro exI [of _ p] exI [of _ rows]) (auto simp: sw_result_def)
qed

section \<open>EAGLE and alignment in the sliding window search\<close>

lemma sw_scan_skip:
  assumes "\<forall>j. lo \<le> j \<and> j < hi \<longrightarrow> (\<exists>row. lk j = Inr (Some row)) \<and> (j * bs) mod align \<noteq> 0"
    and "lo \<le> hi" and "bs \<noteq> align"
  shows "sw_scan lk nul bs align True need hi 0 right =
    sw_scan lk nul bs align True need lo 0 (replicate (hi - lo) nul @ right)"
  using assms(2,1)
proof (induction hi arbitrary: right rule: dec_induct)
  case base
  then show ?case by simp
next
  case (step n)
  obtain row where "lk n = Inr (Some row)" "(n * bs) mod align \<noteq> 0" using step.prems step.hyps by auto
  then have "sw_scan lk nul bs align True need (Suc n) 0 right =
      sw_scan lk nul bs align True need n 0 (nul # right)" using assms(3) by simp
  moreover have "Suc n - lo = Suc (n - lo)" using step.hyps by simp
  ultimately show ?case using step.IH [of "nul # right"] step.prems
    by (simp add: replicate_append_same [symmetric])
qed

lemma sw_scan_enter:
  "lk i = Inr (Some row) \<Longrightarrow> (i * bs) mod align = 0 \<Longrightarrow> 1 < need \<Longrightarrow>
   sw_scan lk nul bs align True need (Suc i) 0 right = sw_scan lk nul bs align True need i 1 (row # right)"
  by simp

lemma sw_scan_all:
  assumes "\<forall>j<k. lk j = Inr (Some (f j))" and "0 < cnt" and "int (cnt + k) < need"
  shows "sw_scan lk nul bs align eagle need k cnt right = Inr (False, cnt + k, map f [0..<k] @ right)"
  using assms
proof (induction k arbitrary: cnt right)
  case (Suc k)
  then have "sw_scan lk nul bs align eagle need (Suc k) cnt right =
      sw_scan lk nul bs align eagle need k (cnt + 1) (f k # right)" by simp
  then show ?case using Suc.IH [of "cnt + 1" "f k # right"] Suc.prems by simp
qed simp

lemma aligned_len_multiple:
  assumes "1 < a" and "0 < bs"
  shows "aligned_len bs (a * bs) n = n div a * a"
proof (induction n)
  case (Suc n)
  have "(Suc n * bs) mod (a * bs) = (Suc n mod a) * bs" by (rule mult_mod_left [symmetric])
  then have "bs \<noteq> a * bs \<and> (Suc n * bs) mod (a * bs) \<noteq> 0 \<longleftrightarrow> Suc n mod a \<noteq> 0" using assms by simp
  moreover have "Suc n mod a \<noteq> 0 \<Longrightarrow> Suc n div a = n div a" by (metis div_Suc)
  moreover have "Suc n mod a = 0 \<Longrightarrow> Suc n div a * a = Suc n" by (metis div_mult_mod_eq add_0_right)
  ultimately show ?case using Suc.IH by (simp del: mult_Suc)
qed simp

lemma sw_hit_rows_eagle_prefix:
  assumes inv: "cache_inv p" and gs: "valid_groups gs" and hbs: "0 < hash_block_size p"
    and bs: "bs mod hash_block_size p = 0" "0 < bs" and q: "0 < q" "0 < r" "r < a"
    and n: "max_length div bs = q * a + r" "q * a + r \<le> num_keys l (hash_block_size p) bs"
    and cached: "\<forall>j<q * a + r. row_of p gs (block_key l (hash_block_size p) bs j) \<noteq> None"
    and win: "int ((q * a + r) * bs) < window"
  shows "\<exists>rows. sw_hit_rows p (Raw l) max_length gs bs window True (a * bs) =
    Inr (rows, (q - 1) * a * bs)"
proof -
  let ?h = "hash_block_size p" and ?n = "q * a + r" and ?nul = "replicate (length gs) (null_block p)"
  let ?f = "\<lambda>j. the (row_of p gs (block_key l ?h bs j))"
  let ?need = "cdiv (window - 1) (int bs) + 1"
  have a: "1 < a" "bs \<noteq> a * bs" using q bs(2) by auto
  obtain rhs where rhs: "resolve_block_hashes (Raw l) ?h bs False (Some (a * bs)) = Inr rhs"
    "\<forall>j < num_keys l ?h bs. hash_at rhs (int j) = Inr (block_key l ?h bs j)"
    using resolve_coarse [OF hbs bs, of False "a * bs" l] a(1) bs(2) by auto
  let ?lk = "\<lambda>i. rbind (hash_at rhs (int i)) (lookup_row p gs)"
  have lk: "\<forall>j<?n. ?lk j = Inr (Some (?f j))"
    using rhs(2) n(2) cached lookup_row_eq [OF inv gs] by fastforce
  have "int ?n * int bs < window" using win by (simp only: of_nat_mult)
  moreover have "window - 1 \<le> cdiv (window - 1) (int bs) * int bs" using cdiv_bounds(1) bs(2) by simp
  ultimately have "int ?n * int bs \<le> cdiv (window - 1) (int bs) * int bs" by linarith
  then have "int ?n \<le> cdiv (window - 1) (int bs)" using bs(2) by simp
  then have need: "int ?n < ?need" by simp
  have un: "(j * bs) mod (a * bs) \<noteq> 0" if "Suc (q * a) \<le> j" "j < ?n" for j
  proof -
    have "j mod a = j - q * a" using that q(3) by (intro mod_nat_eqI) (auto simp: mult.commute)
    then show ?thesis using that bs(2) by (simp add: mult_mod_left [symmetric])
  qed
  have "sw_scan ?lk ?nul bs (a * bs) True ?need ?n 0 [] =
      sw_scan ?lk ?nul bs (a * bs) True ?need (Suc (q * a)) 0 (replicate (?n - Suc (q * a)) ?nul)"
    using sw_scan_skip [of "Suc (q * a)" ?n ?lk bs "a * bs" ?nul ?need "[]"] lk un q(2) a(2) by simp
  also have "... = sw_scan ?lk ?nul bs (a * bs) True ?need (q * a) 1
      (?f (q * a) # replicate (?n - Suc (q * a)) ?nul)"
  proof (rule sw_scan_enter)
    show "?lk (q * a) = Inr (Some (?f (q * a)))" using lk q(2) by (metis less_add_same_cancel1)
    show "1 < ?need" using need q(2) by linarith
  qed (simp add: mult.assoc)
  also have "... = Inr (False, Suc (q * a), map ?f [0..<q * a] @ ?f (q * a) # replicate (?n - Suc (q * a)) ?nul)"
    using sw_scan_all [of "q * a" ?lk ?f 1 ?need] lk q(2) need by simp
  finally have scan: "sw_scan ?lk ?nul bs (a * bs) True ?need ?n 0 [] =
      Inr (False, Suc (q * a), map ?f [0..<Suc (q * a)] @ replicate (?n - Suc (q * a)) ?nul)" by simp
  have len: "aligned_len bs (a * bs) (Suc (q * a)) = q * a"
  proof -
    have "Suc (q * a) div a = q" using a(1) by (intro div_nat_eqI) (simp_all add: mult.commute)
    then show ?thesis by (simp add: aligned_len_multiple [OF a(1) bs(2)] del: aligned_len.simps)
  qed
  obtain q' where q': "q = Suc q'" using q(1) by (cases q) auto
  have len2: "aligned_len bs (a * bs) (q * a - 1) = q' * a"
  proof -
    have "(q * a - 1) div a = q'" using a(1) q' by (intro div_nat_eqI) (auto simp: mult.commute)
    then show ?thesis by (simp add: aligned_len_multiple [OF a(1) bs(2)])
  qed
  let ?R = "map ?f [0..<Suc (q * a)] @ replicate (?n - Suc (q * a)) ?nul"
  have tk: "take (aligned_len bs (a * bs) (length (take (Suc (q * a)) ?R))) (take (Suc (q * a)) ?R) = map ?f [0..<q * a]"
    using q(2) by (simp add: len del: aligned_len.simps)
  show ?thesis
    unfolding sw_hit_rows_def using rhs(1) scan bs(2) a(1) gs n(1) tk len len2 q q'
    by (simp add: contiguous_blocks_for_hit_def valid_groups_def Let_def del: aligned_len.simps upt_Suc)
qed

text \<open>
  C37: with EAGLE and an alignment of several blocks the sliding window lookup loses a whole alignment
  segment that is cached: the search itself looks for a run that is aligned once the EAGLE block is
  dropped, but when the run is shorter than the window the result is first rounded down to the
  alignment, then loses the EAGLE block, and is rounded down again. For a prompt whose first \<open>q * a + r\<close>
  blocks are all cached the full attention lookup reports \<open>q\<close> segments of \<open>a\<close> blocks, the sliding
  window lookup only \<open>q - 1\<close>.
\<close>
theorem sw_eagle_loses_segment:
  assumes "cache_inv p" and "valid_groups gs" and "0 < hash_block_size p"
    and "bs mod hash_block_size p = 0" and "0 < bs" and "0 < q" and "0 < r" and "r < a"
    and "max_length div bs = q * a + r" and "q * a + r \<le> num_keys l (hash_block_size p) bs"
    and "\<forall>j<q * a + r. row_of p gs (block_key l (hash_block_size p) bs j) \<noteq> None"
    and "int ((q * a + r) * bs) < window"
  shows "(\<exists>cols. sw_find_longest_cache_hit p (Raw l) max_length gs bs window True (a * bs) 1 1 =
      Inr (cols, (q - 1) * a * bs)) \<and>
    (\<exists>cols. full_find_longest_cache_hit p (Raw l) max_length gs bs True (a * bs) 1 =
      Inr (cols, int (q * a * bs)))"
proof (rule conjI)
  show "\<exists>cols. sw_find_longest_cache_hit p (Raw l) max_length gs bs window True (a * bs) 1 1 =
      Inr (cols, (q - 1) * a * bs)"
    using sw_hit_rows_eagle_prefix [OF assms] by (auto simp: sw_find_longest_cache_hit_def)
  let ?n = "q * a + r"
  have a: "1 < a" using assms(7,8) by simp
  then have mn: "min (a * bs) bs = bs" by simp
  have "supported_sizes (hash_block_size p) bs (a * bs)" using assms(3-5) a by (simp add: supported_sizes_def)
  from full_hit_rows_spec [OF assms(1,2) this, of l max_length True] obtain rows m where
    r: "full_hit_rows p (Raw l) max_length gs bs True (a * bs) 1 = Inr (finish_hit bs (a * bs) True (rows, int m))"
    and m: "longest_match p gs l bs bs max_length m" unfolding mn by blast
  have k: "full_run p gs l bs max_length = ?n"
    using assms(9-11) by (simp add: full_run_def cached_run_def takeWhile_eq_all_conv [THEN iffD2])
  have "m = ?n * bs"
    using m coarse_longest [OF assms(5), of p gs l max_length] k by (auto simp: longest_match_def intro: le_antisym)
  moreover have "hit_tokens True bs (a * bs) (?n * bs) = q * a * bs"
  proof -
    have "?n * bs - bs = (q * a + (r - 1)) * bs" using assms(7) by (cases r) simp_all
    moreover have "(q * a + (r - 1)) * bs mod (a * bs) = (r - 1) * bs"
      using assms(8) mult_mod_left [of "q * a + (r - 1)" a bs] by simp
    ultimately show ?thesis by (simp only: hit_tokens_def Let_def if_True) (simp add: add_mult_distrib)
  qed
  moreover have "min (a * bs) bs dvd m" using m by (simp add: mn longest_match_def full_match_def)
  ultimately show "\<exists>cols. full_find_longest_cache_hit p (Raw l) max_length gs bs True (a * bs) 1 =
      Inr (cols, int (q * a * bs))"
    using finish_hit_eq [of "a * bs" bs m True rows] a assms(5) r mn
    by (simp add: full_find_longest_cache_hit_def)
qed

theorem sw_eagle_loses_segment_witness:
  "\<exists>p. cache_inv p \<and>
     (\<exists>cols. sw_find_longest_cache_hit p (Raw [[1], [2], [3]]) 7 [0] 2 100 True 4 1 1 = Inr (cols, 0)) \<and>
     (\<exists>cols. full_find_longest_cache_hit p (Raw [[1], [2], [3]]) 7 [0] 2 True 4 1 = Inr (cols, 4))"
proof -
  obtain p xs where p: "cache_inv p" "hash_block_size p = 2"
    "\<forall>j<3. row_of p [0] (block_key [[1], [2], [3]] 2 2 j) \<noteq> None" using example_pool by blast
  note f = example_pool_facts [OF p(3)]
  from sw_eagle_loses_segment [OF p(1) f(1), of 2 1 1 2 7 "[[1], [2], [3]]" 100] show ?thesis
    using p f(2) by auto
qed

end
