(* ===== verification/Group_Manager.thy ===== *)
theory Group_Manager
  imports Prefix_Hit
begin

text \<open>
  The managers of one KV cache group (\<^verbatim>\<open>SingleTypeKVCacheManager\<close> and its subclasses in
  \<^verbatim>\<open>vllm/v1/core/single_type_kv_cache_manager.py\<close>) for full attention, reference sliding window, sliding
  window, chunked local attention, one-block ring buffers and cross attention. The block pool is shared
  by all managers, so every operation takes the manager and the pool and returns both. A
  \<^verbatim>\<open>defaultdict\<close> is an association list; reading an absent key adds an empty entry, as in the code.
  The reference count of every block is shown to follow the block tables exactly.
\<close>

section \<open>State\<close>

datatype attn_kind =
    FullAttn
  | RSWA int
  | SlidingWindow int int
  | ChunkedLocal int
  | CircularBuffer
  | KpoolTail
  | CrossAttn

record group_manager =
  gm_kind :: attn_kind
  spec_block_size :: nat
  gm_block_size :: nat
  dcp_world_size :: nat
  pcp_world_size :: nat
  gm_enable_caching :: bool
  max_admission_blocks :: "int option"
  record_new_block_ids :: bool
  new_block_ids :: "int list"
  req_to_blocks :: "(string \<times> block_ref list) list"
  num_cached_block :: "string \<Rightarrow> nat option"
  kv_cache_group_id :: int
  gm_null_block :: block_ref
  scheduler_block_size :: nat
  cache_hit_alignment_tokens :: nat
  gm_use_eagle :: bool
  partial_hit_reqs :: "string \<Rightarrow> (nat \<times> block_ref) option"
  pending_cow_copies :: "(block_ref \<times> block_ref) list"

definition is_ring :: "attn_kind \<Rightarrow> bool" where
  "is_ring k \<longleftrightarrow> k = CircularBuffer \<or> k = KpoolTail"

fun max_admission_blocks_per_request :: "attn_kind \<Rightarrow> int \<Rightarrow> int \<Rightarrow> int \<Rightarrow> int option" where
  "max_admission_blocks_per_request (SlidingWindow w extra) bs in_flight max_len =
     Some (cdiv (min (w - 1 + extra + in_flight) max_len) bs + 1)"
| "max_admission_blocks_per_request (ChunkedLocal c) bs in_flight max_len =
     Some (cdiv (min (c + in_flight) max_len) bs)"
| "max_admission_blocks_per_request KpoolTail bs in_flight max_len = Some 1"
| "max_admission_blocks_per_request k bs in_flight max_len = None"

definition gm_init ::
  "attn_kind \<Rightarrow> nat \<Rightarrow> pool \<Rightarrow> bool \<Rightarrow> int \<Rightarrow> nat \<Rightarrow> nat \<Rightarrow> nat \<Rightarrow> bool \<Rightarrow> int option \<Rightarrow> group_manager"
where
  "gm_init k spec_bs p caching g sched_bs dcp pcp zeroing cap =
     \<lparr>gm_kind = k, spec_block_size = spec_bs, gm_block_size = (if dcp > 1 then spec_bs * dcp else spec_bs),
      dcp_world_size = dcp, pcp_world_size = pcp, gm_enable_caching = caching, max_admission_blocks = cap,
      record_new_block_ids = (zeroing \<and> k \<noteq> CircularBuffer), new_block_ids = [], req_to_blocks = [],
      num_cached_block = (\<lambda>_. None), kv_cache_group_id = g, gm_null_block = null_block p,
      scheduler_block_size = sched_bs, cache_hit_alignment_tokens = sched_bs, gm_use_eagle = False,
      partial_hit_reqs = (\<lambda>_. None), pending_cow_copies = []\<rparr>"

definition get_manager_for_kv_cache_spec ::
  "attn_kind \<Rightarrow> nat \<Rightarrow> int \<Rightarrow> int \<Rightarrow> pool \<Rightarrow> bool \<Rightarrow> int \<Rightarrow> nat \<Rightarrow> nat \<Rightarrow> nat \<Rightarrow> bool \<Rightarrow> group_manager"
where
  "get_manager_for_kv_cache_spec k spec_bs in_flight max_len p caching g sched_bs dcp pcp zeroing =
     gm_init k spec_bs p caching g sched_bs dcp pcp zeroing
       (max_admission_blocks_per_request k (int spec_bs) in_flight max_len)"

section \<open>Block tables\<close>

definition blocks_of :: "group_manager \<Rightarrow> string \<Rightarrow> block_ref list" where
  "blocks_of m rid = (case map_of (req_to_blocks m) rid of None \<Rightarrow> [] | Some bl \<Rightarrow> bl)"

definition set_blocks :: "string \<Rightarrow> block_ref list \<Rightarrow> group_manager \<Rightarrow> group_manager" where
  "set_blocks rid bl m = m\<lparr>req_to_blocks := AList.update rid bl (req_to_blocks m)\<rparr>"

definition read_blocks :: "string \<Rightarrow> group_manager \<Rightarrow> group_manager" where
  \<comment> \<open>\<^verbatim>\<open>req_to_blocks[request_id]\<close> on a \<^verbatim>\<open>defaultdict\<close>\<close>
  "read_blocks rid m = set_blocks rid (blocks_of m rid) m"

definition record_ids :: "block_ref list \<Rightarrow> group_manager \<Rightarrow> group_manager" where
  "record_ids bl m =
     (if record_new_block_ids m then m\<lparr>new_block_ids := new_block_ids m @ map block_id bl\<rparr> else m)"

section \<open>Sizes\<close>

definition get_num_skipped_tokens :: "group_manager \<Rightarrow> nat \<Rightarrow> int res" where
  "get_num_skipped_tokens m n =
     (case gm_kind m of
        SlidingWindow w extra \<Rightarrow> Inr (sw_get_num_skipped_tokens w extra (int n))
      | ChunkedLocal c \<Rightarrow> cl_get_num_skipped_tokens c (int n)
      | _ \<Rightarrow> Inr 0)"

definition get_num_evictable_blocks :: "pool \<Rightarrow> block_ref list \<Rightarrow> int" where
  "get_num_evictable_blocks p bl =
     int (length (filter (\<lambda>b. ref_cnt (blk p b) = 0 \<and> \<not> is_null (blk p b)) bl))"

definition has_partial_local_hit :: "group_manager \<Rightarrow> block_ref list \<Rightarrow> nat \<Rightarrow> bool" where
  "has_partial_local_hit m newc local \<longleftrightarrow> newc \<noteq> [] \<and> local mod gm_block_size m \<noteq> 0"

definition gm_num_blocks_to_allocate ::
  "group_manager \<Rightarrow> pool \<Rightarrow> string \<Rightarrow> nat \<Rightarrow> block_ref list \<Rightarrow> nat \<Rightarrow> nat \<Rightarrow> bool \<Rightarrow> int res"
where
  "gm_num_blocks_to_allocate m p rid nt newc computed local cap =
     (if is_ring (gm_kind m) then Inr (if blocks_of m rid \<noteq> [] then 0 else 1)
      else
        rbind (ensure (gm_block_size m \<noteq> 0) ZeroDivisionError) (\<lambda>_.
        let bs = int (gm_block_size m);
            req0 = cdiv (int nt) bs;
            required = (case max_admission_blocks m of
                          None \<Rightarrow> req0 | Some c \<Rightarrow> if cap then min req0 c else req0);
            num_req = int (length (blocks_of m rid))
        in if num_cached_block m rid \<noteq> None
           then rbind (ensure (newc = []) AssertionError) (\<lambda>_. Inr (max (required - num_req) 0))
           else
             rbind (get_num_skipped_tokens m computed) (\<lambda>skipped.
             let num_local = int (length newc) + num_req;
                 skipped_blocks = skipped div bs;
                 num_new = max (required - max skipped_blocks num_local) 0;
                 skipped_new = max 0 (skipped_blocks - num_req);
                 evictable = get_num_evictable_blocks p (drop (nat skipped_new) newc)
             in Inr ((if has_partial_local_hit m newc local then num_new + 1 else num_new) + evictable))))"

section \<open>Allocation\<close>

definition add_local_computed_blocks ::
  "string \<Rightarrow> block_ref list \<Rightarrow> nat \<Rightarrow> nat \<Rightarrow> group_manager \<Rightarrow> pool \<Rightarrow> (group_manager \<times> pool) res"
where
  "add_local_computed_blocks rid newc local ext m p =
     (if is_ring (gm_kind m) then Inr (m, p)
      else if gm_kind m = CrossAttn then rbind (ensure (newc = []) AssertionError) (\<lambda>_. Inr (m, p))
      else
        rbind (ensure (blocks_of m rid = []) AssertionError) (\<lambda>_.
        rbind (get_num_skipped_tokens m (local + ext)) (\<lambda>skipped.
        rbind (ensure (gm_block_size m \<noteq> 0) ZeroDivisionError) (\<lambda>_.
        let skipped_blocks = nat (skipped div int (gm_block_size m));
            newc1 = drop skipped_blocks newc
        in rbind (if gm_enable_caching m then touch newc1 p
                  else rbind (ensure (newc1 = []) AssertionError) (\<lambda>_. Inr p)) (\<lambda>p1.
           let bl = replicate skipped_blocks (gm_null_block m) @ newc1;
               m1 = (set_blocks rid bl m)\<lparr>num_cached_block := (num_cached_block m)(rid \<mapsto> length bl)\<rparr>;
               idx = local div gm_block_size m
           in Inr (if has_partial_local_hit m newc1 local
                   then m1\<lparr>partial_hit_reqs := (partial_hit_reqs m)(rid \<mapsto> (idx, last newc1)),
                           num_cached_block := (num_cached_block m)(rid \<mapsto> idx)\<rparr>
                   else m1, p1))))))"

definition extend_blocks ::
  "string \<Rightarrow> int \<Rightarrow> group_manager \<Rightarrow> pool \<Rightarrow> (block_ref list \<times> group_manager \<times> pool) res"
where
  \<comment> \<open>\<^verbatim>\<open>get_new_blocks(n)\<close>, appended to the request and recorded for zeroing\<close>
  "extend_blocks rid n m p =
     rbind (get_new_blocks n p) (\<lambda>(nb, p1).
       Inr (nb, record_ids nb (set_blocks rid (blocks_of m rid @ nb) m), p1))"

definition claim_ring_block ::
  "string \<Rightarrow> group_manager \<Rightarrow> pool \<Rightarrow> (block_ref list \<times> group_manager \<times> pool) res"
where
  "claim_ring_block rid m p =
     (if blocks_of m rid \<noteq> [] then Inr ([], m, p) else extend_blocks rid 1 m p)"

definition allocate_external_computed_blocks ::
  "string \<Rightarrow> nat \<Rightarrow> nat \<Rightarrow> group_manager \<Rightarrow> pool \<Rightarrow> (group_manager \<times> pool) res"
where
  "allocate_external_computed_blocks rid local ext m p =
     (if is_ring (gm_kind m) then rbind (claim_ring_block rid m p) (\<lambda>(_, m1, p1). Inr (m1, p1))
      else if gm_kind m = CrossAttn then Inr (m, p)
      else
        rbind (get_num_skipped_tokens m (local + ext)) (\<lambda>skipped.
        let computed = int (local + ext);
            ext1 = (if skipped > 0 then min (computed - skipped) (int ext) else int ext)
        in if ext1 \<le> 0 then Inr (m, p)
           else
             rbind (ensure (gm_block_size m \<noteq> 0) ZeroDivisionError) (\<lambda>_.
             rbind (extend_blocks rid
                      (max 0 (cdiv computed (int (gm_block_size m)) - int (length (blocks_of m rid)))) m p)
               (\<lambda>(_, m1, p1). Inr (m1, p1)))))"

definition apply_cow ::
  "string \<Rightarrow> nat \<Rightarrow> block_ref \<Rightarrow> block_ref \<Rightarrow> group_manager \<Rightarrow> pool \<Rightarrow> (group_manager \<times> pool) res"
where
  "apply_cow rid idx src cow m p =
     (let bl = blocks_of m rid in
      rbind (ensure (idx < length bl) AssertionError) (\<lambda>_.
      rbind (ensure (bl ! idx = src) AssertionError) (\<lambda>_.
      rbind (ensure (\<not> is_null (blk p src) \<and> ref_cnt (blk p src) > 0) AssertionError) (\<lambda>_.
        Inr ((set_blocks rid (bl[idx := cow]) m)
               \<lparr>pending_cow_copies := pending_cow_copies m @ [(src, cow)]\<rparr>,
             upd_block cow (\<lambda>k. k\<lparr>ref_cnt := ref_cnt k + 1\<rparr>) p)))))"

definition redirect_partial_hit ::
  "string \<Rightarrow> group_manager \<Rightarrow> pool \<Rightarrow> (block_ref list \<times> group_manager \<times> pool) res"
where
  \<comment> \<open>the first part of \<^verbatim>\<open>allocate_new_blocks\<close>\<close>
  "redirect_partial_hit rid m p =
     (case partial_hit_reqs m rid of
        None \<Rightarrow> Inr ([], m, p)
      | Some (idx, src) \<Rightarrow>
          let m0 = m\<lparr>partial_hit_reqs := (partial_hit_reqs m)(rid := None)\<rparr> in
          rbind (get_new_blocks 1 p) (\<lambda>(nb, p1).
          rbind (py_get nb 0) (\<lambda>cow.
          rbind (apply_cow rid idx src cow m0 p1) (\<lambda>(m1, p2).
            Inr ([cow], m1\<lparr>new_block_ids := new_block_ids m1 @ [block_id cow]\<rparr>, p2)))))"

definition gm_allocate_new_blocks ::
  "string \<Rightarrow> nat \<Rightarrow> group_manager \<Rightarrow> pool \<Rightarrow> (block_ref list \<times> group_manager \<times> pool) res"
where
  "gm_allocate_new_blocks rid nt m p =
     (if is_ring (gm_kind m) then claim_ring_block rid m p
      else
        rbind (redirect_partial_hit rid m p) (\<lambda>(cows, m1, p1).
        rbind (ensure (gm_block_size m1 \<noteq> 0) ZeroDivisionError) (\<lambda>_.
        let n = cdiv (int nt) (int (gm_block_size m1)) - int (length (blocks_of m1 rid))
        in if n \<le> 0 then Inr (cows, read_blocks rid m1, p1)
           else rbind (extend_blocks rid n m1 p1) (\<lambda>(nb, m2, p2). Inr (cows @ nb, m2, p2)))))"

definition gm_take_new_block_ids :: "group_manager \<Rightarrow> int list \<times> group_manager" where
  "gm_take_new_block_ids m = (new_block_ids m, m\<lparr>new_block_ids := []\<rparr>)"

definition take_pending_cow_copies :: "group_manager \<Rightarrow> (block_ref \<times> block_ref) list \<times> group_manager" where
  "take_pending_cow_copies m = (pending_cow_copies m, m\<lparr>pending_cow_copies := []\<rparr>)"

section \<open>Caching\<close>

definition reachable_block_mask ::
  "group_manager \<Rightarrow> nat \<Rightarrow> nat \<Rightarrow> int option \<Rightarrow> int list \<Rightarrow> bool list option res"
where
  "reachable_block_mask m start_block end_block retention boundaries =
     (case gm_kind m of
        SlidingWindow w extra \<Rightarrow>
          sw_reachable_block_mask (int start_block) (int end_block)
            (Some (int (cache_hit_alignment_tokens m))) (int (spec_block_size m)) w (gm_use_eagle m)
            retention boundaries (int (dcp_world_size m)) None
      | _ \<Rightarrow> Inr None)"

definition cache_full_part ::
  "request \<Rightarrow> nat \<Rightarrow> int option \<Rightarrow> int list \<Rightarrow> group_manager \<Rightarrow> pool \<Rightarrow> (group_manager \<times> pool) res"
where
  \<comment> \<open>\<^verbatim>\<open>SingleTypeKVCacheManager.cache_blocks\<close>\<close>
  "cache_full_part r nt retention replay m p =
     rbind (ensure (gm_block_size m \<noteq> 0) ZeroDivisionError) (\<lambda>_.
     let rid = request_id r;
         num_cached = (case num_cached_block m rid of None \<Rightarrow> 0 | Some n \<Rightarrow> n);
         num_full = nt div gm_block_size m
     in if num_cached \<ge> num_full then Inr (m, p)
        else
          let boundaries = replay @
                (if shared_prefix_boundary r \<noteq> 0 then [shared_prefix_boundary r] else [])
          in rbind (reachable_block_mask m num_cached num_full retention boundaries) (\<lambda>msk.
             rbind (cache_full_blocks r (blocks_of m rid) num_cached num_full (gm_block_size m)
                      (kv_cache_group_id m) msk p) (\<lambda>p1.
               Inr ((read_blocks rid m)\<lparr>num_cached_block := (num_cached_block m)(rid \<mapsto> num_full)\<rparr>, p1))))"

definition cache_partial_tail_block ::
  "request \<Rightarrow> nat \<Rightarrow> group_manager \<Rightarrow> pool \<Rightarrow> (group_manager \<times> pool) res"
where
  "cache_partial_tail_block r nt m p =
     rbind (ensure (hash_block_size p \<noteq> 0 \<and> gm_block_size m \<noteq> 0) ZeroDivisionError) (\<lambda>_.
     let rid = request_id r;
         boundary = nat (num_prompt_tokens r) div hash_block_size p * hash_block_size p;
         idx = boundary div gm_block_size m
     in if boundary = 0 \<or> boundary > nt then Inr (m, p)
        else if boundary mod gm_block_size m = 0 then Inr (m, p)
        else if idx \<ge> length (blocks_of m rid) then Inr (read_blocks rid m, p)
        else rbind (cache_partial_block r (blocks_of m rid ! idx) boundary (kv_cache_group_id m)
                      (gm_block_size m) False p) (\<lambda>(_, p1). Inr (read_blocks rid m, p1)))"

definition gm_cache_blocks ::
  "request \<Rightarrow> nat \<Rightarrow> int option \<Rightarrow> int list \<Rightarrow> group_manager \<Rightarrow> pool \<Rightarrow> (group_manager \<times> pool) res"
where
  "gm_cache_blocks r nt retention replay m p =
     (if is_ring (gm_kind m) then Inr (m, p)
      else case gm_kind m of
        CrossAttn \<Rightarrow> Inl ValueError
      | SlidingWindow _ _ \<Rightarrow> cache_full_part r nt retention replay m p
      | ChunkedLocal _ \<Rightarrow> cache_full_part r nt retention replay m p
      | _ \<Rightarrow>
          rbind (cache_full_part r nt retention replay m p) (\<lambda>(m1, p1).
            if gm_block_size m1 = hash_block_size p1 then Inr (m1, p1)
            else cache_partial_tail_block r nt m1 p1))"

section \<open>Release\<close>

definition gm_pop_blocks_for_free :: "string \<Rightarrow> group_manager \<Rightarrow> block_ref list \<times> group_manager" where
  "gm_pop_blocks_for_free rid m =
     (blocks_of m rid,
      m\<lparr>req_to_blocks := AList.delete rid (req_to_blocks m),
        num_cached_block := (num_cached_block m)(rid := None),
        partial_hit_reqs := (partial_hit_reqs m)(rid := None)\<rparr>)"

definition gm_free :: "string \<Rightarrow> group_manager \<Rightarrow> pool \<Rightarrow> (group_manager \<times> pool) res" where
  "gm_free rid m p =
     (let (bl, m1) = gm_pop_blocks_for_free rid m
      in rbind (free_blocks (rev bl) p) (\<lambda>p1. Inr (m1, p1)))"

definition gm_num_common_prefix_blocks :: "string \<Rightarrow> group_manager \<Rightarrow> pool \<Rightarrow> nat \<times> group_manager" where
  "gm_num_common_prefix_blocks rid m p =
     (case gm_kind m of
        FullAttn \<Rightarrow>
          let m1 = read_blocks rid m
          in (length (takeWhile (\<lambda>b. ref_cnt (blk p b) = int (length (req_to_blocks m1))) (blocks_of m1 rid)), m1)
      | RSWA _ \<Rightarrow>
          let m1 = read_blocks rid m
          in (length (takeWhile (\<lambda>b. ref_cnt (blk p b) = int (length (req_to_blocks m1))) (blocks_of m1 rid)), m1)
      | _ \<Rightarrow> (0, m))"

fun null_range :: "block_ref \<Rightarrow> nat \<Rightarrow> nat \<Rightarrow> block_ref list \<Rightarrow> block_ref list \<times> block_ref list" where
  \<comment> \<open>the backward loop over \<open>k\<close> positions from \<open>first\<close>: the blocks to free and the new table\<close>
  "null_range nul first 0 bl = ([], bl)"
| "null_range nul first (Suc k) bl =
     (if bl ! (first + k) = nul then ([], bl)
      else let (freed, bl') = null_range nul first k (bl[first + k := nul])
           in (bl ! (first + k) # freed, bl'))"

definition remove_blocks_in_range ::
  "string \<Rightarrow> nat \<Rightarrow> nat \<Rightarrow> group_manager \<Rightarrow> pool \<Rightarrow> (group_manager \<times> pool) res"
where
  "remove_blocks_in_range rid first last_block m p =
     (if rid \<notin> set (keys (req_to_blocks m)) then Inr (m, p)
      else if first \<ge> last_block then Inr (m, p)
      else
        let bl = blocks_of m rid;
            (freed, bl') = null_range (gm_null_block m) first (min last_block (length bl) - first) bl;
            m1 = set_blocks rid bl' m
        in if freed = [] then Inr (m1, p) else rbind (free_blocks freed p) (\<lambda>p1. Inr (m1, p1)))"

definition gm_remove_skipped_blocks ::
  "string \<Rightarrow> nat \<Rightarrow> nat option \<Rightarrow> group_manager \<Rightarrow> pool \<Rightarrow> (group_manager \<times> pool) res"
where
  "gm_remove_skipped_blocks rid processed num_prompt m p =
     (if is_ring (gm_kind m) then Inr (m, p)
      else case (gm_kind m, num_prompt) of
        (RSWA w, Some np) \<Rightarrow>
          rbind (ensure (gm_block_size m \<noteq> 0) ZeroDivisionError) (\<lambda>_.
          let bs = int (gm_block_size m);
              window_start = max (int np) (int processed - w)
          in remove_blocks_in_range rid (nat (cdiv (int np) bs)) (nat (window_start div bs)) m p)
      | _ \<Rightarrow>
          rbind (get_num_skipped_tokens m processed) (\<lambda>skipped.
          if skipped \<le> 0 then Inr (m, p)
          else
            rbind (ensure (gm_block_size m \<noteq> 0) ZeroDivisionError) (\<lambda>_.
            let m1 = read_blocks rid m;
                n = min (skipped div int (gm_block_size m)) (int (length (blocks_of m1 rid)))
            in remove_blocks_in_range rid 0 (nat n) m1 p)))"

section \<open>The pool as its clients see it\<close>

text \<open>
  What the managers rely on: a state with a free list and the multiset of references that clients
  hold. Allocation takes from the front of the free list and adds one reference to each block, touching
  adds references, and releasing takes them back.
\<close>

locale ref_pool =
  fixes st :: "'p \<Rightarrow> 'b list \<Rightarrow> 'b multiset \<Rightarrow> bool"
    and valid :: "'p \<Rightarrow> 'b \<Rightarrow> bool"
    and kept :: "'p \<Rightarrow> 'p \<Rightarrow> bool"
    and alloc :: "int \<Rightarrow> 'p \<Rightarrow> ('b list \<times> 'p) res"
    and share :: "'b list \<Rightarrow> 'p \<Rightarrow> 'p res"
    and release :: "'b list \<Rightarrow> 'p \<Rightarrow> 'p res"
  assumes alloc_ok: "st p xs M \<Longrightarrow> 0 \<le> k \<Longrightarrow> nat k \<le> length xs \<Longrightarrow>
      \<exists>p'. alloc k p = Inr (take (nat k) xs, p') \<and> st p' (drop (nat k) xs) (M + mset (take (nat k) xs)) \<and> kept p p'"
    and alloc_valid: "st p xs M \<Longrightarrow> b \<in> set xs \<Longrightarrow> valid p b"
    and share_ok: "st p xs M \<Longrightarrow> \<forall>b\<in>set bl. valid p b \<Longrightarrow>
      \<exists>p'. share bl p = Inr p' \<and> st p' (filter (\<lambda>b. b \<notin> set bl) xs) (M + mset bl) \<and> kept p p'"
    and release_ok: "st p xs M \<Longrightarrow> \<forall>b\<in>set bl. valid p b \<Longrightarrow> mset bl \<subseteq># M \<Longrightarrow>
      \<exists>p' ys. release bl p = Inr p' \<and> st p' ys (M - mset bl) \<and> set xs \<subseteq> set ys \<and> kept p p'"
    and free_distinct: "st p xs M \<Longrightarrow> distinct xs"
    and kept_valid: "kept p p' \<Longrightarrow> valid p' b = valid p b"
begin

lemma release_room:
  assumes "st p xs M" and "\<forall>b\<in>set bl. valid p b" and "mset bl \<subseteq># M"
  shows "\<exists>p' ys. release bl p = Inr p' \<and> st p' ys (M - mset bl) \<and> length xs \<le> length ys \<and> kept p p'"
proof -
  obtain p' ys where r: "release bl p = Inr p'" "st p' ys (M - mset bl)" "set xs \<subseteq> set ys" "kept p p'"
    using release_ok [OF assms] by blast
  then have "length xs \<le> length ys"
    using card_mono [OF finite_set r(3)] free_distinct [OF assms(1)] free_distinct [OF r(2)]
    by (simp add: distinct_card)
  with r show ?thesis by blast
qed

lemma share_room:
  assumes "st p xs M" and "\<forall>b\<in>set bl. valid p b"
  shows "\<exists>p' ys. share bl p = Inr p' \<and> st p' ys (M + mset bl) \<and> kept p p' \<and> set ys \<subseteq> set xs \<and>
    length xs \<le> length ys + length (filter (\<lambda>b. b \<in> set xs) bl)"
proof -
  have "length xs = length (filter (\<lambda>b. b \<notin> set bl) xs) + length (filter (\<lambda>b. b \<in> set bl) xs)"
    using sum_length_filter_compl [of "\<lambda>b. b \<in> set bl" xs] by simp
  moreover have "length (filter (\<lambda>b. b \<in> set bl) xs) \<le> length (filter (\<lambda>b. b \<in> set xs) bl)"
  proof -
    have "length (filter (\<lambda>b. b \<in> set bl) xs) = card (set xs \<inter> set bl)"
      using free_distinct [OF assms(1)] by (simp add: distinct_card [symmetric] Int_def)
    also have "... = card (set (filter (\<lambda>b. b \<in> set xs) bl))" by (simp add: Int_def conj_commute)
    also have "... \<le> length (filter (\<lambda>b. b \<in> set xs) bl)" by (rule card_length)
    finally show ?thesis .
  qed
  ultimately have "length xs \<le> length (filter (\<lambda>b. b \<notin> set bl) xs) + length (filter (\<lambda>b. b \<in> set xs) bl)" by simp
  moreover have "set (filter (\<lambda>b. b \<notin> set bl) xs) \<subseteq> set xs" by auto
  ultimately show ?thesis using share_ok [OF assms] by blast
qed

text \<open>Blocks that are allocated and released again leave the references and the room as they were.\<close>

lemma alloc_release:
  assumes "st p xs M" and "0 \<le> k" and "nat k \<le> length xs"
  shows "\<exists>bl p1 p2 ys. alloc k p = Inr (bl, p1) \<and> release bl p1 = Inr p2 \<and> st p2 ys M \<and>
    length xs - nat k \<le> length ys"
proof -
  obtain p1 where a: "alloc k p = Inr (take (nat k) xs, p1)"
    "st p1 (drop (nat k) xs) (M + mset (take (nat k) xs))" "kept p p1" using alloc_ok [OF assms] by blast
  have "\<forall>b\<in>set (take (nat k) xs). valid p1 b"
    using alloc_valid [OF assms(1)] kept_valid [OF a(3)] by (auto dest: in_set_takeD)
  from release_room [OF a(2) this] show ?thesis using a(1) by fastforce
qed

end

definition valid_block :: "nat \<Rightarrow> block_ref \<Rightarrow> bool" where
  "valid_block n b \<longleftrightarrow> pool_block n b \<or> b = Block 0"

definition acct :: "pool \<Rightarrow> block_ref list \<Rightarrow> block_ref multiset \<Rightarrow> bool" where
  \<comment> \<open>a well formed pool whose reference counts are exactly the references in \<open>M\<close>\<close>
  "acct p xs M \<longleftrightarrow> pool_inv p xs \<and>
     (\<forall>b. pool_block (num_gpu_blocks p) b \<longrightarrow> ref_cnt (blk p b) = int (count M b))"

lemma count_mset_list: "count (mset xs) b = count_list xs b"
  by (induction xs) auto

lemma acct_alloc:
  assumes "acct p xs M" and "0 \<le> k" and "nat k \<le> length xs"
  shows "\<exists>p'. get_new_blocks k p = Inr (take (nat k) xs, p') \<and>
    acct p' (drop (nat k) xs) (M + mset (take (nat k) xs)) \<and> same_config p p'"
proof -
  have I: "pool_inv p xs" using assms(1) by (simp add: acct_def)
  obtain p' where p': "get_new_blocks k p = Inr (take (nat k) xs, p')" "pool_inv p' (drop (nat k) xs)"
    "same_config p p'" "\<forall>b. ref_cnt (blk p' b) = (if b \<in> set (take (nat k) xs) then 1 else ref_cnt (blk p b))"
    using get_new_blocks_spec [OF I assms(3)] assms(2) by auto
  have d: "distinct (take (nat k) xs)" using pool_invD(6) [OF I] by simp
  have "ref_cnt (blk p' b) = int (count (M + mset (take (nat k) xs)) b)"
    if b: "pool_block (num_gpu_blocks p) b" for b
  proof (cases "b \<in> set (take (nat k) xs)")
    case True
    then have "ref_cnt (blk p b) = 0" using pool_invD(8) [OF I, of b] by (auto dest: in_set_takeD)
    then have "count M b = 0" using assms(1) b by (simp add: acct_def)
    then show ?thesis using True p'(4) d by (simp add: distinct_count_atmost_1)
  next
    case False
    then show ?thesis using p'(4) assms(1) b by (simp add: acct_def count_mset_list)
  qed
  then show ?thesis using p' by (auto simp: acct_def same_config_def)
qed

lemma acct_share:
  assumes "acct p xs M" and "\<forall>b\<in>set bl. valid_block (num_gpu_blocks p) b"
  shows "\<exists>p'. touch bl p = Inr p' \<and> acct p' (filter (\<lambda>b. b \<notin> set bl) xs) (M + mset bl) \<and> same_config p p'"
proof -
  have I: "pool_inv p xs" using assms(1) by (simp add: acct_def)
  obtain p' where "touch bl p = Inr p'" "pool_inv p' (filter (\<lambda>b. b \<notin> set bl) xs)" "same_config p p'"
    "\<forall>b. ref_cnt (blk p' b) = ref_cnt (blk p b) + int (count_list bl b)"
    using touch_spec [OF I] assms(2) unfolding valid_block_def by blast
  then show ?thesis using assms(1) by (auto simp: acct_def same_config_def count_mset_list)
qed

lemma acct_release:
  assumes "acct p xs M" and "\<forall>b\<in>set bl. valid_block (num_gpu_blocks p) b" and "mset bl \<subseteq># M"
  shows "\<exists>p' ys. free_blocks bl p = Inr p' \<and> acct p' ys (M - mset bl) \<and> set xs \<subseteq> set ys \<and> same_config p p'"
proof -
  have I: "pool_inv p xs" using assms(1) by (simp add: acct_def)
  have le: "count_list bl b \<le> count M b" for b
    using mset_subset_eq_count [OF assms(3), of b] by (simp add: count_mset_list)
  then have "\<forall>b. pool_block (num_gpu_blocks p) b \<longrightarrow> int (count_list bl b) \<le> ref_cnt (blk p b)"
    using assms(1) by (simp add: acct_def)
  then obtain p' fr la where "free_blocks bl p = Inr p'" "pool_inv p' (fr @ xs @ la)" "same_config p p'"
    "\<forall>b. ref_cnt (blk p' b) = ref_cnt (blk p b) - int (count_list bl b)"
    using free_blocks_spec [OF I] assms(2) unfolding valid_block_def by blast
  then show ?thesis using assms(1) le
    by (intro exI [of _ p'] exI [of _ "fr @ xs @ la"])
      (auto simp: acct_def same_config_def count_mset_list of_nat_diff)
qed

interpretation rp: ref_pool acct "\<lambda>p. valid_block (num_gpu_blocks p)" same_config get_new_blocks touch free_blocks
proof unfold_locales
  show "valid_block (num_gpu_blocks p) b" if "acct p xs M" "b \<in> set xs" for p xs M b
    using pool_invD(8) [of p xs b] that by (simp add: acct_def valid_block_def)
  show "distinct xs" if "acct p xs M" for p xs M using pool_invD(6) that by (auto simp: acct_def)
  show "valid_block (num_gpu_blocks p') b = valid_block (num_gpu_blocks p) b" if "same_config p p'" for p p' b
    using that by (simp add: same_config_def)
qed (fact acct_alloc acct_share acct_release)+

text \<open>The extra reference of a copy target: the block is in use, so only its count changes.\<close>

lemma acct_bump:
  assumes "acct p xs M" and "pool_block (num_gpu_blocks p) b" and "b \<in># M"
  shows "acct (upd_block b (\<lambda>k. k\<lparr>ref_cnt := ref_cnt k + 1\<rparr>) p) xs (add_mset b M) \<and>
    same_config p (upd_block b (\<lambda>k. k\<lparr>ref_cnt := ref_cnt k + 1\<rparr>) p)"
proof -
  have r: "ref_cnt (blk p b) \<noteq> 0" using assms by (simp add: acct_def)
  have t: "touch [b] p = Inr (upd_block b (\<lambda>k. k\<lparr>ref_cnt := ref_cnt k + 1\<rparr>) p)"
    using r by (simp add: touch_def touch_block_def)
  have "b \<notin> set xs" using pool_invD(8) [of p xs b] assms(1) r by (auto simp: acct_def)
  then have "filter (\<lambda>b'. b' \<notin> set [b]) xs = xs" by (auto simp: filter_id_conv)
  then show ?thesis using acct_share [OF assms(1), of "[b]"] assms(2) t by (auto simp: valid_block_def)
qed

section \<open>References of a manager\<close>

definition table_refs :: "(string \<times> block_ref list) list \<Rightarrow> block_ref multiset" where
  "table_refs d = mset (concat (map snd d))"

definition gm_refs :: "group_manager \<Rightarrow> block_ref multiset" where
  \<comment> \<open>one reference for each table entry and for each end of a pending copy\<close>
  "gm_refs m = table_refs (req_to_blocks m) + mset (concat (map (\<lambda>(s, d). [s, d]) (pending_cow_copies m)))"

definition kind_ok :: "attn_kind \<Rightarrow> bool" where
  \<comment> \<open>a window or chunk is not empty\<close>
  "kind_ok k = (case k of SlidingWindow w extra \<Rightarrow> 1 \<le> w \<and> 0 \<le> extra | ChunkedLocal c \<Rightarrow> 0 < c | _ \<Rightarrow> True)"

definition gm_wf :: "nat \<Rightarrow> group_manager \<Rightarrow> bool" where
  "gm_wf n m \<longleftrightarrow>
     distinct (keys (req_to_blocks m)) \<and> gm_null_block m = Block 0 \<and> 0 < gm_block_size m \<and>
     kind_ok (gm_kind m) \<and>
     (\<forall>b. b \<in># gm_refs m \<longrightarrow> valid_block n b) \<and>
     (\<forall>rid idx src. partial_hit_reqs m rid = Some (idx, src) \<longrightarrow>
        idx < length (blocks_of m rid) \<and> blocks_of m rid ! idx = src \<and> pool_block n src)"

lemma table_refs_update:
  "distinct (keys d) \<Longrightarrow>
   table_refs (AList.update k v d) + mset (case map_of d k of None \<Rightarrow> [] | Some l \<Rightarrow> l) = table_refs d + mset v"
  by (induction d) (auto simp: table_refs_def keys_def split: option.splits dest: map_of_SomeD)

lemma table_refs_delete:
  "distinct (keys d) \<Longrightarrow>
   table_refs (AList.delete k d) + mset (case map_of d k of None \<Rightarrow> [] | Some l \<Rightarrow> l) = table_refs d"
proof (induction d)
  case (Cons kv d)
  then show ?case
    by (cases "fst kv = k") (auto simp: table_refs_def keys_def delete_notin_dom split: option.splits)
qed (simp add: table_refs_def)

lemma blocks_of_set_blocks [simp]:
  "blocks_of (set_blocks rid bl m) r = (if r = rid then bl else blocks_of m r)"
  by (simp add: blocks_of_def set_blocks_def map_of_AList_update)

lemma blocks_of_fields [simp]:
  "blocks_of (m\<lparr>num_cached_block := a\<rparr>) = blocks_of m" "blocks_of (m\<lparr>partial_hit_reqs := c\<rparr>) = blocks_of m"
  "blocks_of (m\<lparr>new_block_ids := d\<rparr>) = blocks_of m" "blocks_of (m\<lparr>pending_cow_copies := e\<rparr>) = blocks_of m"
  "blocks_of (record_ids bl m) = blocks_of m"
  by (auto simp: blocks_of_def record_ids_def fun_eq_iff)

lemma gm_refs_fields [simp]:
  "gm_refs (m\<lparr>num_cached_block := a\<rparr>) = gm_refs m" "gm_refs (m\<lparr>partial_hit_reqs := c\<rparr>) = gm_refs m"
  "gm_refs (m\<lparr>new_block_ids := d\<rparr>) = gm_refs m" "gm_refs (record_ids bl m) = gm_refs m"
  by (simp_all add: gm_refs_def record_ids_def)

lemma set_blocks_fields [simp]:
  "partial_hit_reqs (set_blocks rid bl m) = partial_hit_reqs m"
  "num_cached_block (set_blocks rid bl m) = num_cached_block m"
  "pending_cow_copies (set_blocks rid bl m) = pending_cow_copies m"
  "keys (req_to_blocks (set_blocks rid bl m)) =
     (if rid \<in> set (keys (req_to_blocks m)) then keys (req_to_blocks m) else keys (req_to_blocks m) @ [rid])"
  by (simp_all add: set_blocks_def keys_update)

definition same_mgr :: "group_manager \<Rightarrow> group_manager \<Rightarrow> bool" where
  "same_mgr m m' \<longleftrightarrow>
     gm_kind m' = gm_kind m \<and> spec_block_size m' = spec_block_size m \<and> gm_block_size m' = gm_block_size m \<and>
     gm_enable_caching m' = gm_enable_caching m \<and> max_admission_blocks m' = max_admission_blocks m \<and>
     kv_cache_group_id m' = kv_cache_group_id m \<and> gm_null_block m' = gm_null_block m"

lemma same_mgr_fields [simp]:
  "same_mgr m m" "same_mgr m (set_blocks rid bl m)" "same_mgr m (record_ids bl m)" "same_mgr m (read_blocks rid m)"
  "same_mgr m (m\<lparr>num_cached_block := a\<rparr>)" "same_mgr m (m\<lparr>partial_hit_reqs := c\<rparr>)"
  "same_mgr m (m\<lparr>new_block_ids := d\<rparr>)" "same_mgr m (m\<lparr>pending_cow_copies := e\<rparr>)"
  by (simp_all add: same_mgr_def set_blocks_def record_ids_def read_blocks_def)

lemma same_mgr_trans: "same_mgr a b \<Longrightarrow> same_mgr b c \<Longrightarrow> same_mgr a c"
  by (simp add: same_mgr_def)

lemma gm_refs_set_blocks:
  "distinct (keys (req_to_blocks m)) \<Longrightarrow>
   gm_refs (set_blocks rid bl m) + mset (blocks_of m rid) = gm_refs m + mset bl"
  using table_refs_update [of "req_to_blocks m" rid bl]
  by (simp add: gm_refs_def set_blocks_def blocks_of_def add_ac)

lemma table_in_refs:
  assumes "distinct (keys (req_to_blocks m))"
  shows "mset (blocks_of m rid) \<subseteq># gm_refs m"
proof -
  have "table_refs (req_to_blocks m) = table_refs (AList.delete rid (req_to_blocks m)) + mset (blocks_of m rid)"
    using table_refs_delete [OF assms, of rid] by (simp add: blocks_of_def)
  then show ?thesis unfolding gm_refs_def by (simp add: subset_mset.add_increasing2)
qed

lemma gm_wfD:
  assumes "gm_wf n m"
  shows "distinct (keys (req_to_blocks m))" and "gm_null_block m = Block 0" and "0 < gm_block_size m"
    and "\<And>b. b \<in># gm_refs m \<Longrightarrow> valid_block n b" and "\<And>b. b \<in> set (blocks_of m rid) \<Longrightarrow> valid_block n b"
    and "partial_hit_reqs m rid = Some (idx, src) \<Longrightarrow>
      idx < length (blocks_of m rid) \<and> blocks_of m rid ! idx = src \<and> pool_block n src"
proof -
  show d: "distinct (keys (req_to_blocks m))" using assms by (simp add: gm_wf_def)
  show v: "\<And>b. b \<in># gm_refs m \<Longrightarrow> valid_block n b" using assms by (simp add: gm_wf_def)
  show "\<And>b. b \<in> set (blocks_of m rid) \<Longrightarrow> valid_block n b"
    using v mset_subset_eqD [OF table_in_refs [OF d]] by auto
qed (use assms in \<open>auto simp: gm_wf_def\<close>)

lemma gm_wf_set_blocks:
  assumes wf: "gm_wf n m" and bl: "\<forall>b\<in>set bl. valid_block n b"
    and part: "\<And>idx src. partial_hit_reqs m rid = Some (idx, src) \<Longrightarrow> idx < length bl \<and> bl ! idx = src"
  shows "gm_wf n (set_blocks rid bl m)"
proof -
  note D = gm_wfD [OF wf]
  have "valid_block n b" if "b \<in># gm_refs (set_blocks rid bl m)" for b
  proof -
    have "b \<in># gm_refs m + mset bl"
      unfolding gm_refs_set_blocks [OF D(1), of rid bl, symmetric] using that by simp
    then show ?thesis using D(4) bl by auto
  qed
  moreover have "gm_null_block (set_blocks rid bl m) = gm_null_block m"
    "gm_block_size (set_blocks rid bl m) = gm_block_size m" "gm_kind (set_blocks rid bl m) = gm_kind m"
    by (simp_all add: set_blocks_def)
  ultimately show ?thesis using wf part D(6) by (auto simp: gm_wf_def)
qed

lemma gm_wf_fields [simp]:
  "gm_wf n (m\<lparr>num_cached_block := a\<rparr>) = gm_wf n m" "gm_wf n (m\<lparr>new_block_ids := d\<rparr>) = gm_wf n m"
  "gm_wf n (record_ids bl m) = gm_wf n m"
  by (simp_all add: gm_wf_def record_ids_def)

lemma gm_wf_partial:
  assumes "gm_wf n m"
  shows "gm_wf n (m\<lparr>partial_hit_reqs := (partial_hit_reqs m)(rid := None)\<rparr>)"
    and "idx < length (blocks_of m rid) \<Longrightarrow> blocks_of m rid ! idx = src \<Longrightarrow> pool_block n src \<Longrightarrow>
      gm_wf n (m\<lparr>partial_hit_reqs := (partial_hit_reqs m)(rid \<mapsto> (idx, src))\<rparr>)"
  using assms by (simp_all add: gm_wf_def)

lemma acct_cong:
  "acct p xs M \<Longrightarrow> (\<And>b. pool_block (num_gpu_blocks p) b \<Longrightarrow> count M' b = count M b) \<Longrightarrow> acct p xs M'"
  by (simp add: acct_def)

section \<open>Every operation keeps the references exact\<close>

definition held_by :: "pool \<Rightarrow> block_ref list \<Rightarrow> group_manager \<Rightarrow> block_ref multiset \<Rightarrow> bool" where
  \<comment> \<open>the references of the manager and those of everybody else make up the reference counts\<close>
  "held_by p xs m R \<longleftrightarrow> acct p xs (gm_refs m + R) \<and> gm_wf (num_gpu_blocks p) m"

lemma read_blocks_held: "held_by p xs m R \<Longrightarrow> held_by p xs (read_blocks rid m) R"
proof -
  assume h: "held_by p xs m R"
  then have wf: "gm_wf (num_gpu_blocks p) m" by (simp add: held_by_def)
  note D = gm_wfD [OF wf]
  have "gm_refs (read_blocks rid m) = gm_refs m"
    using gm_refs_set_blocks [OF D(1), of rid "blocks_of m rid"] by (simp add: read_blocks_def)
  moreover have "gm_wf (num_gpu_blocks p) (read_blocks rid m)"
    unfolding read_blocks_def by (rule gm_wf_set_blocks [OF wf]) (use D(5,6) in auto)
  ultimately show "held_by p xs (read_blocks rid m) R" using h by (simp add: held_by_def)
qed

lemma extend_blocks_spec:
  assumes "held_by p xs m R" and "0 \<le> k" and "nat k \<le> length xs"
  shows "\<exists>m' p'. extend_blocks rid k m p = Inr (take (nat k) xs, m', p') \<and>
    held_by p' (drop (nat k) xs) m' R \<and> same_config p p' \<and> same_mgr m m' \<and>
    (\<forall>r. blocks_of m' r = (if r = rid then blocks_of m rid @ take (nat k) xs else blocks_of m r)) \<and>
    partial_hit_reqs m' = partial_hit_reqs m \<and> num_cached_block m' = num_cached_block m"
proof -
  have a: "acct p xs (gm_refs m + R)" and wf: "gm_wf (num_gpu_blocks p) m"
    using assms(1) by (auto simp: held_by_def)
  note D = gm_wfD [OF wf]
  obtain p' where p': "get_new_blocks k p = Inr (take (nat k) xs, p')"
    "acct p' (drop (nat k) xs) (gm_refs m + R + mset (take (nat k) xs))" "same_config p p'"
    using rp.alloc_ok [OF a assms(2,3)] by blast
  let ?m = "set_blocks rid (blocks_of m rid @ take (nat k) xs) m"
  let ?m' = "record_ids (take (nat k) xs) ?m"
  have n: "num_gpu_blocks p' = num_gpu_blocks p" using p'(3) by (simp add: same_config_def)
  have "gm_wf (num_gpu_blocks p) ?m"
    by (rule gm_wf_set_blocks [OF wf])
      (use D(5,6) rp.alloc_valid [OF a] in \<open>auto simp: nth_append intro: trans_less_add1 dest: in_set_takeD\<close>)
  moreover have "gm_refs ?m = gm_refs m + mset (take (nat k) xs)"
    using gm_refs_set_blocks [OF D(1), of rid "blocks_of m rid @ take (nat k) xs"] by (simp add: add_ac)
  then have "gm_refs ?m + R = gm_refs m + R + mset (take (nat k) xs)" by (simp add: add_ac)
  ultimately have "held_by p' (drop (nat k) xs) ?m' R" using p'(2) n by (simp add: held_by_def add_ac)
  moreover have "same_mgr m ?m'" by (rule same_mgr_trans [of _ ?m]) simp_all
  moreover have "partial_hit_reqs ?m' = partial_hit_reqs m" "num_cached_block ?m' = num_cached_block m"
    by (simp_all add: record_ids_def)
  ultimately show ?thesis using p'(1,3) by (intro exI [of _ ?m'] exI [of _ p']) (simp add: extend_blocks_def)
qed

lemma pop_blocks_spec:
  assumes "gm_wf n m"
  shows "gm_wf n (snd (gm_pop_blocks_for_free rid m))"
    and "gm_refs (snd (gm_pop_blocks_for_free rid m)) + mset (blocks_of m rid) = gm_refs m"
    and "blocks_of (snd (gm_pop_blocks_for_free rid m)) r = (if r = rid then [] else blocks_of m r)"
    and "same_mgr m (snd (gm_pop_blocks_for_free rid m))"
proof -
  note D = gm_wfD [OF assms]
  let ?m = "snd (gm_pop_blocks_for_free rid m)"
  show b: "blocks_of ?m r = (if r = rid then [] else blocks_of m r)" for r
    by (simp add: gm_pop_blocks_for_free_def blocks_of_def map_of_AList_delete)
  show r: "gm_refs ?m + mset (blocks_of m rid) = gm_refs m"
    using table_refs_delete [OF D(1), of rid]
    by (simp add: gm_pop_blocks_for_free_def gm_refs_def blocks_of_def add_ac)
  have "valid_block n b" if "b \<in># gm_refs ?m" for b using D(4) r that by (metis union_iff)
  moreover have "partial_hit_reqs ?m = (partial_hit_reqs m)(rid := None)" "gm_null_block ?m = gm_null_block m"
    "gm_block_size ?m = gm_block_size m" "gm_kind ?m = gm_kind m" "distinct (keys (req_to_blocks ?m))"
    using D(1) by (simp_all add: gm_pop_blocks_for_free_def)
  ultimately show "gm_wf n ?m" using assms b by (auto simp: gm_wf_def)
  show "same_mgr m ?m" by (simp add: gm_pop_blocks_for_free_def same_mgr_def)
qed

lemma gm_free_spec:
  assumes "held_by p xs m R"
  shows "\<exists>m' p' ys. gm_free rid m p = Inr (m', p') \<and> held_by p' ys m' R \<and> same_config p p' \<and> same_mgr m m' \<and>
    length xs \<le> length ys \<and> (\<forall>r. blocks_of m' r = (if r = rid then [] else blocks_of m r)) \<and>
    partial_hit_reqs m' = (partial_hit_reqs m)(rid := None) \<and> num_cached_block m' = (num_cached_block m)(rid := None) \<and>
    pending_cow_copies m' = pending_cow_copies m"
proof -
  have a: "acct p xs (gm_refs m + R)" and wf: "gm_wf (num_gpu_blocks p) m"
    using assms by (auto simp: held_by_def)
  note D = gm_wfD [OF wf] and P = pop_blocks_spec [OF wf, of rid]
  have "mset (rev (blocks_of m rid)) \<subseteq># gm_refs m + R"
    using table_in_refs [OF D(1), of rid] by (simp add: subset_mset.add_increasing2)
  then obtain p' ys where p': "free_blocks (rev (blocks_of m rid)) p = Inr p'" "length xs \<le> length ys"
    "acct p' ys (gm_refs m + R - mset (rev (blocks_of m rid)))" "same_config p p'"
    using rp.release_room [OF a, of "rev (blocks_of m rid)"] D(5) by auto
  have "gm_refs m + R - mset (rev (blocks_of m rid)) = gm_refs (snd (gm_pop_blocks_for_free rid m)) + R"
    unfolding P(2) [symmetric] by simp
  then have "held_by p' ys (snd (gm_pop_blocks_for_free rid m)) R"
    using p'(3,4) P(1) by (simp add: held_by_def same_config_def)
  moreover have "gm_free rid m p = Inr (snd (gm_pop_blocks_for_free rid m), p')"
    using p'(1) by (simp add: gm_free_def gm_pop_blocks_for_free_def)
  moreover have "partial_hit_reqs (snd (gm_pop_blocks_for_free rid m)) = (partial_hit_reqs m)(rid := None)"
    "num_cached_block (snd (gm_pop_blocks_for_free rid m)) = (num_cached_block m)(rid := None)"
    "pending_cow_copies (snd (gm_pop_blocks_for_free rid m)) = pending_cow_copies m"
    by (simp_all add: gm_pop_blocks_for_free_def)
  ultimately show ?thesis using p'(2,4) P(3,4) by blast
qed

lemma null_range_spec:
  assumes "first + k \<le> length bl" and "null_range nul first k bl = (freed, bl')"
  shows "length bl' = length bl" and "mset bl' + mset freed = mset bl + replicate_mset (length freed) nul"
    and "set bl' \<subseteq> insert nul (set bl)" and "nul \<notin> set freed" and "set freed \<subseteq> set bl"
    and "\<And>i. i < first \<Longrightarrow> bl' ! i = bl ! i" and "\<And>i. first + k \<le> i \<Longrightarrow> bl' ! i = bl ! i"
  using assms
proof (induction k arbitrary: bl freed bl')
  case (Suc k)
  {
    case 1
    then show ?case using Suc.IH(1) [of "bl[first + k := nul]"] by (auto split: if_splits prod.splits)
  next
    case 2
    then show ?case
      using Suc.IH(2) [of "bl[first + k := nul]"] mset_update [of "first + k" bl nul]
      by (auto split: if_splits prod.splits simp: nth_mem_mset)
  next
    case 3
    then show ?case using Suc.IH(3) [of "bl[first + k := nul]"] set_update_subset_insert [of bl "first + k" nul]
      by (fastforce split: if_splits prod.splits)
  next
    case 4
    then show ?case using Suc.IH(4) [of "bl[first + k := nul]"] by (auto split: if_splits prod.splits)
  next
    case 5
    then show ?case using Suc.IH(5) [of "bl[first + k := nul]"] set_update_subset_insert [of bl "first + k" nul]
        Suc.IH(4) [of "bl[first + k := nul]"]
      by (fastforce split: if_splits prod.splits)
  next
    case (6 i)
    then show ?case using Suc.IH(6) [of i "bl[first + k := nul]"] by (auto split: if_splits prod.splits)
  next
    case (7 i)
    then show ?case using Suc.IH(7) [of i "bl[first + k := nul]"] by (auto split: if_splits prod.splits)
  }
qed auto

lemma remove_range_spec:
  assumes h: "held_by p xs m R" and part: "partial_hit_reqs m rid = None"
  shows "\<exists>m' p' ys. remove_blocks_in_range rid first lst m p = Inr (m', p') \<and> held_by p' ys m' R \<and>
    same_config p p' \<and> same_mgr m m' \<and> length xs \<le> length ys \<and>
    (\<forall>r. length (blocks_of m' r) = length (blocks_of m r)) \<and> (\<forall>r. r \<noteq> rid \<longrightarrow> blocks_of m' r = blocks_of m r) \<and>
    partial_hit_reqs m' = partial_hit_reqs m \<and> num_cached_block m' = num_cached_block m"
proof (cases "rid \<notin> set (keys (req_to_blocks m)) \<or> first \<ge> lst")
  case True
  then have "remove_blocks_in_range rid first lst m p = Inr (m, p)" by (auto simp: remove_blocks_in_range_def)
  then show ?thesis using h by (intro exI [of _ m] exI [of _ p] exI [of _ xs]) simp
next
  case False
  have a: "acct p xs (gm_refs m + R)" and wf: "gm_wf (num_gpu_blocks p) m" using h by (auto simp: held_by_def)
  note D = gm_wfD [OF wf]
  let ?bl = "blocks_of m rid"
  obtain fr bl' where nr: "null_range (Block 0) first (min lst (length ?bl) - first) ?bl = (fr, bl')"
    by (cases "null_range (Block 0) first (min lst (length ?bl) - first) ?bl") auto
  have in_range: "first + (min lst (length ?bl) - first) \<le> length ?bl \<or> min lst (length ?bl) - first = 0" by linarith
  have N: "length bl' = length ?bl" "mset bl' + mset fr = mset ?bl + replicate_mset (length fr) (Block 0)"
    "set bl' \<subseteq> insert (Block 0) (set ?bl)" "set fr \<subseteq> set ?bl"
    using in_range null_range_spec(1,2,3,5) [OF _ nr] nr by auto
  let ?m = "set_blocks rid bl' m"
  have wf': "gm_wf (num_gpu_blocks p) ?m"
    by (rule gm_wf_set_blocks [OF wf]) (use N(3) D(5) part in \<open>auto simp: valid_block_def\<close>)
  have "mset fr \<subseteq># mset ?bl + replicate_mset (length fr) (Block 0)" unfolding N(2) [symmetric] by simp
  have e: "gm_refs ?m + R + mset fr = gm_refs m + R + replicate_mset (length fr) (Block 0)"
  proof -
    have "gm_refs ?m + mset ?bl + mset fr = gm_refs m + (mset bl' + mset fr)"
      using gm_refs_set_blocks [OF D(1), of rid bl'] by (simp add: add_ac)
    then have "gm_refs ?m + mset fr = gm_refs m + replicate_mset (length fr) (Block 0)"
      unfolding N(2) by (simp add: add_ac)
    then show ?thesis by (simp add: add_ac)
  qed
  have cnt: "count (gm_refs m + R + replicate_mset (length fr) (Block 0)) b = count (gm_refs m + R) b"
    if "pool_block (num_gpu_blocks p) b" for b using that by (auto simp: pool_block_def)
  have "acct p xs (gm_refs ?m + R + mset fr)" unfolding e by (rule acct_cong [OF a cnt])
  moreover have "\<forall>b\<in>set fr. valid_block (num_gpu_blocks p) b" using N(4) D(5) by blast
  ultimately obtain p' ys where p': "free_blocks fr p = Inr p'" "length xs \<le> length ys"
    "acct p' ys (gm_refs ?m + R)" "same_config p p'"
    using rp.release_room [of p xs "gm_refs ?m + R + mset fr" fr] by auto
  let ?p' = "if fr = [] then p else p'"
  have "remove_blocks_in_range rid first lst m p = Inr (?m, ?p')"
    using False nr p'(1) D(2) by (simp add: remove_blocks_in_range_def)
  moreover have "held_by ?p' (if fr = [] then xs else ys) ?m R"
  proof (cases "fr = []")
    case True
    then show ?thesis using a e wf' by (simp add: held_by_def)
  next
    case False
    then show ?thesis using p'(3,4) wf' by (simp add: held_by_def same_config_def)
  qed
  ultimately show ?thesis using p'(2,4) N(1)
    by (intro exI [of _ ?m] exI [of _ ?p'] exI [of _ "if fr = [] then xs else ys"]) auto
qed

lemma skipped_total:
  assumes "gm_wf n m"
  shows "\<exists>s. get_num_skipped_tokens m k = Inr s \<and> 0 \<le> s \<and> (s = 0 \<or> s \<le> int k)"
proof -
  have k: "kind_ok (gm_kind m)" using assms by (simp add: gm_wf_def)
  have c: "0 \<le> int k div c * c" "int k div c * c \<le> int k" if "0 < c" for c
  proof -
    have "int k div c * c + int k mod c = int k" by simp
    moreover have "0 \<le> int k mod c" using that by simp
    ultimately show "int k div c * c \<le> int k" by linarith
    show "0 \<le> int k div c * c" using that by (simp add: pos_imp_zdiv_nonneg_iff)
  qed
  show ?thesis
    using k c by (cases "gm_kind m")
      (simp_all add: get_num_skipped_tokens_def sw_get_num_skipped_tokens_def cl_get_num_skipped_tokens_def kind_ok_def)
qed

lemma remove_skipped_cases:
  assumes "gm_wf n m"
  shows "gm_remove_skipped_blocks rid processed np m p = Inr (m, p) \<or>
    (\<exists>a b. gm_remove_skipped_blocks rid processed np m p = remove_blocks_in_range rid a b m p) \<or>
    (\<exists>b. gm_remove_skipped_blocks rid processed np m p = remove_blocks_in_range rid 0 b (read_blocks rid m) p)"
proof -
  obtain s where s: "get_num_skipped_tokens m processed = Inr s" using skipped_total [OF assms] by blast
  have bs: "0 < gm_block_size m" by (rule gm_wfD(3) [OF assms])
  define base where "base = rbind (get_num_skipped_tokens m processed) (\<lambda>skipped.
          if skipped \<le> 0 then Inr (m, p)
          else
            rbind (ensure (gm_block_size m \<noteq> 0) ZeroDivisionError) (\<lambda>_.
            let m1 = read_blocks rid m;
                n = min (skipped div int (gm_block_size m)) (int (length (blocks_of m1 rid)))
            in remove_blocks_in_range rid 0 (nat n) m1 p))"
  have base: "base = Inr (m, p) \<or> (\<exists>b. base = remove_blocks_in_range rid 0 b (read_blocks rid m) p)"
  proof (cases "s \<le> 0")
    case True
    then show ?thesis by (simp add: base_def s)
  next
    case False
    then have "base = remove_blocks_in_range rid 0
        (nat (min (s div int (gm_block_size m)) (int (length (blocks_of (read_blocks rid m) rid))))) (read_blocks rid m) p"
      using bs by (simp add: base_def s Let_def)
    then show ?thesis by (rule disjI2 [OF exI])
  qed
  show ?thesis
  proof (cases "\<exists>w k. gm_kind m = RSWA w \<and> np = Some k")
    case True
    then obtain w k where k: "gm_kind m = RSWA w" "np = Some k" by (elim exE conjE)
    let ?bs = "int (gm_block_size m)"
    have e: "gm_remove_skipped_blocks rid processed np m p =
        remove_blocks_in_range rid (nat (cdiv (int k) ?bs)) (nat (max (int k) (int processed - w) div ?bs)) m p"
      using bs k by (simp add: gm_remove_skipped_blocks_def is_ring_def Let_def)
    show ?thesis by (rule disjI2, rule disjI1, rule exI, rule exI, rule e)
  next
    case False
    then have "gm_remove_skipped_blocks rid processed np m p = (if is_ring (gm_kind m) then Inr (m, p) else base)"
      unfolding gm_remove_skipped_blocks_def base_def [symmetric] by (cases "gm_kind m"; cases np) simp_all
    then have "gm_remove_skipped_blocks rid processed np m p = Inr (m, p) \<or>
        gm_remove_skipped_blocks rid processed np m p = base" by simp
    then show ?thesis using base by (elim disjE) (simp_all only: simp_thms)
  qed
qed

lemma remove_skipped_spec:
  assumes h: "held_by p xs m R" and part: "partial_hit_reqs m rid = None"
  shows "\<exists>m' p' ys. gm_remove_skipped_blocks rid processed np m p = Inr (m', p') \<and> held_by p' ys m' R \<and>
    same_config p p' \<and> same_mgr m m' \<and> length xs \<le> length ys \<and>
    (\<forall>r. length (blocks_of m' r) = length (blocks_of m r)) \<and> (\<forall>r. r \<noteq> rid \<longrightarrow> blocks_of m' r = blocks_of m r) \<and>
    partial_hit_reqs m' = partial_hit_reqs m \<and> num_cached_block m' = num_cached_block m"
proof -
  have wf: "gm_wf (num_gpu_blocks p) m" using h by (simp add: held_by_def)
  let ?m = "read_blocks rid m"
  have hr: "held_by p xs ?m R" by (rule read_blocks_held [OF h])
  have r: "partial_hit_reqs ?m = partial_hit_reqs m" "num_cached_block ?m = num_cached_block m"
    "\<And>r. blocks_of ?m r = blocks_of m r" by (simp_all add: read_blocks_def)
  from remove_skipped_cases [OF wf, of rid processed np p] consider
      (same) "gm_remove_skipped_blocks rid processed np m p = Inr (m, p)"
    | (gap) a b where "gm_remove_skipped_blocks rid processed np m p = remove_blocks_in_range rid a b m p"
    | (head) b where "gm_remove_skipped_blocks rid processed np m p = remove_blocks_in_range rid 0 b ?m p"
    by blast
  then show ?thesis
  proof cases
    case same
    then show ?thesis using h by (intro exI [of _ m] exI [of _ p] exI [of _ xs]) simp
  next
    case (gap a b)
    then show ?thesis using remove_range_spec [OF h part, of a b] by simp
  next
    case (head b)
    have "partial_hit_reqs ?m rid = None" using part r(1) by simp
    from remove_range_spec [OF hr this, of 0 b, unfolded r] obtain m' p' ys where
      f: "remove_blocks_in_range rid 0 b ?m p = Inr (m', p')" "held_by p' ys m' R" "same_config p p'"
        "same_mgr ?m m'" "length xs \<le> length ys" "\<forall>r. length (blocks_of m' r) = length (blocks_of m r)"
        "\<forall>r. r \<noteq> rid \<longrightarrow> blocks_of m' r = blocks_of m r" "partial_hit_reqs m' = partial_hit_reqs m"
        "num_cached_block m' = num_cached_block m" by (elim exE conjE)
    have "same_mgr m m'" by (rule same_mgr_trans [OF _ f(4)]) simp
    then show ?thesis unfolding head using f by (intro exI [of _ m'] exI [of _ p'] exI [of _ ys]) simp
  qed
qed

section \<open>Computed blocks\<close>

definition skipped_blocks :: "group_manager \<Rightarrow> nat \<Rightarrow> nat" where
  \<comment> \<open>the blocks before the attention window of the next token\<close>
  "skipped_blocks m computed =
     (case get_num_skipped_tokens m computed of
        Inl _ \<Rightarrow> 0 | Inr s \<Rightarrow> nat (s div int (gm_block_size m)))"

definition plain_kind :: "group_manager \<Rightarrow> bool" where
  "plain_kind m \<longleftrightarrow> \<not> is_ring (gm_kind m) \<and> gm_kind m \<noteq> CrossAttn"

definition hit_shape :: "nat \<Rightarrow> group_manager \<Rightarrow> block_ref list \<Rightarrow> nat \<Rightarrow> bool" where
  \<comment> \<open>what a lookup returns for a group: blocks of the pool; if the hit ends inside a block, that block
      is the last one and is not the null block\<close>
  "hit_shape n m newc local \<longleftrightarrow>
     (\<forall>b\<in>set newc. valid_block n b) \<and> (gm_kind m = CrossAttn \<longrightarrow> newc = []) \<and> (newc = [] \<or> gm_enable_caching m) \<and>
     (has_partial_local_hit m newc local \<longrightarrow>
        length newc = local div gm_block_size m + 1 \<and> pool_block n (last newc))"

lemma skipped_blocks_eq:
  assumes "gm_wf n m"
  shows "\<exists>s. get_num_skipped_tokens m k = Inr s \<and> 0 \<le> s \<and> s div int (gm_block_size m) = int (skipped_blocks m k)"
proof -
  obtain s where s: "get_num_skipped_tokens m k = Inr s" "0 \<le> s" using skipped_total [OF assms] by blast
  then have "0 \<le> s div int (gm_block_size m)" using gm_wfD(3) [OF assms] by (simp add: pos_imp_zdiv_nonneg_iff)
  then show ?thesis using s by (simp add: skipped_blocks_def)
qed

lemma skipped_blocks_le:
  assumes "gm_wf n m"
  shows "skipped_blocks m k \<le> k div gm_block_size m"
proof -
  obtain s where s: "get_num_skipped_tokens m k = Inr s" "0 \<le> s" "s = 0 \<or> s \<le> int k"
    using skipped_total [OF assms] by blast
  have "s div int (gm_block_size m) \<le> int k div int (gm_block_size m)"
    using s(2,3) gm_wfD(3) [OF assms] by (intro zdiv_mono1) auto
  then have "nat (s div int (gm_block_size m)) \<le> nat (int (k div gm_block_size m))"
    by (intro nat_mono) (simp add: zdiv_int)
  then show ?thesis using s(1) by (simp add: skipped_blocks_def)
qed

lemma evictable_eq:
  assumes "acct p xs M" and "\<forall>b\<in>set bl. valid_block (num_gpu_blocks p) b"
  shows "get_num_evictable_blocks p bl = int (length (filter (\<lambda>b. b \<in> set xs) bl))"
proof -
  have I: "pool_inv p xs" using assms(1) by (simp add: acct_def)
  note D = pool_invD [OF I]
  have "ref_cnt (blk p b) = 0 \<and> \<not> is_null (blk p b) \<longleftrightarrow> b \<in> set xs" if "b \<in> set bl" for b
    using assms(2) that D(1,3) D(8) [of b] by (auto simp: valid_block_def pool_block_def free_inv_def)
  then show ?thesis unfolding get_num_evictable_blocks_def by (auto intro: arg_cong [where f = length] filter_cong)
qed

lemma add_local_spec:
  assumes h: "held_by p xs m R" and F: "set xs \<subseteq> F" and shape: "hit_shape (num_gpu_blocks p) m newc local"
    and fresh: "plain_kind m \<longrightarrow> blocks_of m rid = []" "partial_hit_reqs m rid = None"
  shows "\<exists>m' p' ys. add_local_computed_blocks rid newc local ext m p = Inr (m', p') \<and> held_by p' ys m' R \<and>
    same_config p p' \<and> same_mgr m m' \<and> set ys \<subseteq> F \<and>
    length xs \<le> length ys + (if plain_kind m
       then length (filter (\<lambda>b. b \<in> F) (drop (skipped_blocks m (local + ext)) newc)) else 0) \<and>
    length (blocks_of m' rid) = (if plain_kind m
       then max (skipped_blocks m (local + ext)) (length newc) else length (blocks_of m rid)) \<and>
    (\<forall>r. r \<noteq> rid \<longrightarrow> blocks_of m' r = blocks_of m r \<and> partial_hit_reqs m' r = partial_hit_reqs m r) \<and>
    (partial_hit_reqs m' rid \<noteq> None \<longrightarrow> plain_kind m \<and> has_partial_local_hit m newc local)"
proof (cases "plain_kind m")
  case False
  then have "add_local_computed_blocks rid newc local ext m p = Inr (m, p)"
    using shape by (auto simp: plain_kind_def add_local_computed_blocks_def hit_shape_def)
  then show ?thesis using False h F fresh(2) by (intro exI [of _ m] exI [of _ p] exI [of _ xs]) simp
next
  case True
  have a: "acct p xs (gm_refs m + R)" and wf: "gm_wf (num_gpu_blocks p) m" using h by (auto simp: held_by_def)
  note D = gm_wfD [OF wf]
  define k where "k = skipped_blocks m (local + ext)"
  obtain s where s: "get_num_skipped_tokens m (local + ext) = Inr s" "s div int (gm_block_size m) = int k"
    using skipped_blocks_eq [OF wf, of "local + ext"] by (auto simp: k_def)
  let ?c = "drop k newc"
  have v: "\<forall>b\<in>set ?c. valid_block (num_gpu_blocks p) b" using shape by (auto simp: hit_shape_def dest: in_set_dropD)
  obtain q ys where q: "touch ?c p = Inr q" "acct q ys (gm_refs m + R + mset ?c)" "same_config p q"
    "set ys \<subseteq> set xs" "length xs \<le> length ys + length (filter (\<lambda>b. b \<in> set xs) ?c)"
    using rp.share_room [OF a v] by blast
  let ?p' = "if gm_enable_caching m then q else p" and ?ys = "if gm_enable_caching m then ys else xs"
  have nc: "\<not> gm_enable_caching m \<Longrightarrow> newc = []" using shape by (auto simp: hit_shape_def)
  let ?bl = "replicate k (Block 0) @ ?c"
  define m1 where "m1 = (set_blocks rid ?bl m)\<lparr>num_cached_block := (num_cached_block m)(rid \<mapsto> length ?bl)\<rparr>"
  define m2 where "m2 = (if has_partial_local_hit m ?c local
     then m1\<lparr>partial_hit_reqs := (partial_hit_reqs m)(rid \<mapsto> (local div gm_block_size m, last ?c)),
             num_cached_block := (num_cached_block m)(rid \<mapsto> local div gm_block_size m)\<rparr> else m1)"
  have step: "add_local_computed_blocks rid newc local ext m p = Inr (m2, ?p')"
    using True s D(2,3) fresh(1) q(1) nc
    by (simp add: add_local_computed_blocks_def plain_kind_def Let_def m1_def m2_def)
  have n: "num_gpu_blocks ?p' = num_gpu_blocks p" using q(3) by (simp add: same_config_def)
  have wf1: "gm_wf (num_gpu_blocks p) m1" unfolding m1_def gm_wf_fields
    by (rule gm_wf_set_blocks [OF wf]) (use v fresh(2) in \<open>auto simp: valid_block_def\<close>)
  have b: "blocks_of m2 r = (if r = rid then ?bl else blocks_of m r)" for r
    by (simp add: m2_def m1_def)
  have refs: "gm_refs m2 = gm_refs m + mset ?bl"
    using gm_refs_set_blocks [OF D(1), of rid ?bl] fresh(1) True by (simp add: m2_def m1_def)
  have last: "length ?c = local div gm_block_size m + 1 - k \<and> k \<le> local div gm_block_size m \<and> last ?c = last newc \<and>
      pool_block (num_gpu_blocks p) (last newc)" if pa: "has_partial_local_hit m ?c local"
  proof -
    have "k < length newc" using pa by (simp add: has_partial_local_hit_def)
    moreover have "length newc = local div gm_block_size m + 1 \<and> pool_block (num_gpu_blocks p) (last newc)"
      using pa shape by (auto simp: has_partial_local_hit_def hit_shape_def)
    ultimately show ?thesis by (simp add: last_drop)
  qed
  have at: "?bl ! (local div gm_block_size m) = last ?c \<and> local div gm_block_size m < length ?bl"
    if pa: "has_partial_local_hit m ?c local"
  proof -
    have "?c \<noteq> []" using pa by (simp add: has_partial_local_hit_def)
    then have "last ?c = ?c ! (length ?c - 1)" by (rule last_conv_nth)
    moreover have "length newc - 1 = local div gm_block_size m" "k < length newc"
      using last [OF pa] \<open>?c \<noteq> []\<close> by auto
    ultimately show ?thesis using last [OF pa] by (auto simp: nth_append)
  qed
  have "gm_wf (num_gpu_blocks p) m2"
  proof (cases "has_partial_local_hit m ?c local")
    case True
    then have "m2 = (m1\<lparr>partial_hit_reqs := (partial_hit_reqs m1)(rid \<mapsto> (local div gm_block_size m, last ?c))\<rparr>)
        \<lparr>num_cached_block := (num_cached_block m)(rid \<mapsto> local div gm_block_size m)\<rparr>"
      by (simp add: m2_def m1_def)
    moreover have "blocks_of m1 rid = ?bl" by (simp add: m1_def)
    ultimately show ?thesis using gm_wf_partial(2) [OF wf1, of "local div gm_block_size m" rid "last ?c"]
        at [OF True] last [OF True] by simp
  qed (simp add: m2_def wf1)
  moreover have "acct ?p' ?ys (gm_refs m + R + mset ?c)" using q(2) a nc by auto
  then have "acct ?p' ?ys (gm_refs m2 + R)"
    by (rule acct_cong) (auto simp: refs pool_block_def)
  ultimately have held: "held_by ?p' ?ys m2 R" using n by (simp add: held_by_def)
  have "filter (\<lambda>b. b \<in> set xs) ?c = filter (\<lambda>b. b \<in> set xs) (filter (\<lambda>b. b \<in> F) ?c)"
    using F by (auto intro: filter_cong)
  then have "length (filter (\<lambda>b. b \<in> set xs) ?c) \<le> length (filter (\<lambda>b. b \<in> F) ?c)"
    by (metis length_filter_le)
  then have len: "length xs \<le> length ?ys + length (filter (\<lambda>b. b \<in> F) ?c)" using q(5) by auto
  have sm: "same_mgr m m2" by (auto simp: m2_def m1_def same_mgr_def set_blocks_def)
  have pr: "partial_hit_reqs m2 r = (if r = rid \<and> has_partial_local_hit m ?c local
      then Some (local div gm_block_size m, last ?c) else partial_hit_reqs m r)" for r
    by (simp add: m2_def m1_def)
  have ph: "has_partial_local_hit m ?c local \<Longrightarrow> has_partial_local_hit m newc local"
    by (auto simp: has_partial_local_hit_def)
  show ?thesis
    using step held q(3,4) F len sm b pr ph True fresh(2)
    by (intro exI [of _ m2] exI [of _ ?p'] exI [of _ ?ys]) (auto simp: k_def [symmetric] max_def)
qed

section \<open>New blocks\<close>

definition ring_demand :: "string \<Rightarrow> group_manager \<Rightarrow> nat" where
  "ring_demand rid m = (if blocks_of m rid = [] then 1 else 0)"

definition ext_demand :: "string \<Rightarrow> nat \<Rightarrow> nat \<Rightarrow> group_manager \<Rightarrow> nat" where
  \<comment> \<open>the blocks that the externally computed tokens take\<close>
  "ext_demand rid local ext m =
     (if is_ring (gm_kind m) then ring_demand rid m
      else if gm_kind m = CrossAttn then 0
      else
        let skipped = (case get_num_skipped_tokens m (local + ext) of Inl _ \<Rightarrow> 0 | Inr s \<Rightarrow> s);
            ext1 = (if skipped > 0 then min (int (local + ext) - skipped) (int ext) else int ext)
        in if ext1 \<le> 0 then 0
           else nat (cdiv (int (local + ext)) (int (gm_block_size m)) - int (length (blocks_of m rid))))"

definition new_demand :: "string \<Rightarrow> nat \<Rightarrow> group_manager \<Rightarrow> nat" where
  \<comment> \<open>the blocks that a request takes to have room for \<open>nt\<close> tokens\<close>
  "new_demand rid nt m =
     (if is_ring (gm_kind m) then ring_demand rid m
      else (if partial_hit_reqs m rid = None then 0 else 1) +
           nat (cdiv (int nt) (int (gm_block_size m)) - int (length (blocks_of m rid))))"

definition only_request :: "string \<Rightarrow> group_manager \<Rightarrow> group_manager \<Rightarrow> bool" where
  \<comment> \<open>the tables of all other requests are as before\<close>
  "only_request rid m m' \<longleftrightarrow> same_mgr m m' \<and>
     (\<forall>r. r \<noteq> rid \<longrightarrow> blocks_of m' r = blocks_of m r \<and> partial_hit_reqs m' r = partial_hit_reqs m r)"

lemma only_request_trans: "only_request rid a b \<Longrightarrow> only_request rid b c \<Longrightarrow> only_request rid a c"
  by (auto simp: only_request_def intro: same_mgr_trans)

lemma extend_exact:
  assumes "held_by p xs m R" and "0 \<le> k" and "nat k \<le> length xs"
  shows "\<exists>m' p'. extend_blocks rid k m p = Inr (take (nat k) xs, m', p') \<and>
    held_by p' (drop (nat k) xs) m' R \<and> same_config p p' \<and> only_request rid m m' \<and>
    length (blocks_of m' rid) = length (blocks_of m rid) + nat k \<and>
    partial_hit_reqs m' rid = partial_hit_reqs m rid"
  using extend_blocks_spec [OF assms, of rid] assms(3) by (auto simp: only_request_def)

lemma claim_ring_spec:
  assumes "held_by p xs m R" and "ring_demand rid m \<le> length xs"
  shows "\<exists>m' p'. claim_ring_block rid m p = Inr (take (ring_demand rid m) xs, m', p') \<and>
    held_by p' (drop (ring_demand rid m) xs) m' R \<and> same_config p p' \<and> only_request rid m m' \<and>
    length (blocks_of m' rid) = length (blocks_of m rid) + ring_demand rid m \<and>
    partial_hit_reqs m' rid = partial_hit_reqs m rid"
proof (cases "blocks_of m rid = []")
  case True
  then show ?thesis using extend_exact [of p xs m R 1 rid] assms by (simp add: claim_ring_block_def ring_demand_def)
next
  case False
  then show ?thesis using assms(1) by (simp add: claim_ring_block_def ring_demand_def only_request_def)
qed

lemma allocate_external_spec:
  assumes h: "held_by p xs m R" and room: "ext_demand rid local ext m \<le> length xs"
  shows "\<exists>m' p'. allocate_external_computed_blocks rid local ext m p = Inr (m', p') \<and>
    held_by p' (drop (ext_demand rid local ext m) xs) m' R \<and> same_config p p' \<and> only_request rid m m' \<and>
    length (blocks_of m' rid) = length (blocks_of m rid) + ext_demand rid local ext m \<and>
    partial_hit_reqs m' rid = partial_hit_reqs m rid"
proof -
  have wf: "gm_wf (num_gpu_blocks p) m" using h by (simp add: held_by_def)
  obtain s where s: "get_num_skipped_tokens m (local + ext) = Inr s" using skipped_total [OF wf] by blast
  define e where "e = (if s > 0 then min (int (local + ext) - s) (int ext) else int ext)"
  define k where "k = max 0 (cdiv (int (local + ext)) (int (gm_block_size m)) - int (length (blocks_of m rid)))"
  have bs: "gm_block_size m \<noteq> 0" using gm_wfD(3) [OF wf] by simp
  consider (ring) "is_ring (gm_kind m)" | (none) "\<not> is_ring (gm_kind m)" "gm_kind m = CrossAttn \<or> e \<le> 0"
    | (some) "\<not> is_ring (gm_kind m)" "gm_kind m \<noteq> CrossAttn" "\<not> e \<le> 0" by blast
  then show ?thesis
  proof cases
    case ring
    then have "ext_demand rid local ext m = ring_demand rid m" by (simp add: ext_demand_def)
    then show ?thesis using claim_ring_spec [OF h, of rid] room ring
      by (auto simp: allocate_external_computed_blocks_def)
  next
    case none
    then have "ext_demand rid local ext m = 0" "allocate_external_computed_blocks rid local ext m p = Inr (m, p)"
      using s by (auto simp: ext_demand_def allocate_external_computed_blocks_def e_def Let_def)
    then show ?thesis using h by (simp add: only_request_def)
  next
    case some
    have d: "ext_demand rid local ext m = nat k"
      using some s by (simp add: ext_demand_def e_def [symmetric] k_def Let_def)
    have "allocate_external_computed_blocks rid local ext m p =
        rbind (extend_blocks rid k m p) (\<lambda>(_, m1, p1). Inr (m1, p1))"
      unfolding allocate_external_computed_blocks_def Let_def s rbind_Inr e_def [symmetric] k_def [symmetric]
      using some bs by simp
    then show ?thesis using extend_exact [OF h, of k rid] room unfolding d by (auto simp: k_def)
  qed
qed

lemma apply_cow_spec:
  assumes h: "acct p xs (gm_refs m + R + {#cow#})" "gm_wf (num_gpu_blocks p) m"
    and part: "partial_hit_reqs m rid = Some (idx, src)" and cow: "pool_block (num_gpu_blocks p) cow"
  defines "m0 \<equiv> m\<lparr>partial_hit_reqs := (partial_hit_reqs m)(rid := None)\<rparr>"
  shows "\<exists>m' p'. apply_cow rid idx src cow m0 p = Inr (m', p') \<and> held_by p' xs m' R \<and> same_config p p' \<and>
    only_request rid m m' \<and> length (blocks_of m' rid) = length (blocks_of m rid) \<and> partial_hit_reqs m' rid = None"
proof -
  let ?bl = "blocks_of m rid"
  have wf0: "gm_wf (num_gpu_blocks p) m0" unfolding m0_def by (rule gm_wf_partial(1) [OF h(2)])
  note D = gm_wfD [OF h(2)] and D0 = gm_wfD [OF wf0]
  have b0: "blocks_of m0 = blocks_of m" "gm_refs m0 = gm_refs m" by (simp_all add: m0_def)
  have i: "idx < length ?bl" "?bl ! idx = src" "pool_block (num_gpu_blocks p) src" using D(6) [OF part] by auto
  have I: "pool_inv p xs" using h(1) by (simp add: acct_def)
  have "src \<in># gm_refs m" using mset_subset_eqD [OF table_in_refs [OF D(1), of rid]] i(1,2) by force
  then have src: "ref_cnt (blk p src) > 0" "\<not> is_null (blk p src)"
    using h(1) i(3) pool_invD(1,3) [OF I] by (auto simp: acct_def free_inv_def pool_block_def)
  let ?p' = "upd_block cow (\<lambda>k. k\<lparr>ref_cnt := ref_cnt k + 1\<rparr>) p"
  let ?s = "set_blocks rid (?bl[idx := cow]) m0"
  let ?m' = "?s\<lparr>pending_cow_copies := pending_cow_copies m0 @ [(src, cow)]\<rparr>"
  have run: "apply_cow rid idx src cow m0 p = Inr (?m', ?p')" using i src b0(1) by (simp add: apply_cow_def)
  have bump: "acct ?p' xs (gm_refs m + R + {#cow, cow#})" "same_config p ?p'"
    using acct_bump [OF h(1) cow] by (simp_all add: add_mset_commute)
  have "gm_refs ?s + mset ?bl + {#src#} = gm_refs m + mset (?bl[idx := cow]) + {#src#}"
    using gm_refs_set_blocks [OF D0(1), of rid "?bl[idx := cow]"] b0 by simp
  also have "... = gm_refs m + mset ?bl + {#cow#}" using i nth_mem_mset [OF i(1)] by (simp add: mset_update)
  finally have "gm_refs ?s + {#src#} = gm_refs m + {#cow#}" by (simp add: add_ac)
  then have refs: "gm_refs ?m' = gm_refs m + {#cow, cow#}"
    by (simp add: gm_refs_def set_blocks_def add_ac)
  have wf1: "gm_wf (num_gpu_blocks p) ?s"
    by (rule gm_wf_set_blocks [OF wf0])
      (use D(5) cow set_update_subset_insert [of ?bl idx cow] in \<open>auto simp: valid_block_def m0_def\<close>)
  have "valid_block (num_gpu_blocks p) b" if "b \<in># gm_refs ?m'" for b
    using that D(4) cow unfolding refs by (auto simp: valid_block_def)
  then have wf': "gm_wf (num_gpu_blocks p) ?m'" using wf1 by (simp add: gm_wf_def)
  have "held_by ?p' xs ?m' R" using bump wf' unfolding held_by_def refs by (simp add: same_config_def add_ac)
  moreover have "same_mgr m ?m'" by (simp add: same_mgr_def set_blocks_def m0_def)
  ultimately show ?thesis using run bump(2) b0(1)
    by (intro exI [of _ ?m'] exI [of _ ?p']) (simp add: only_request_def m0_def)
qed

lemma redirect_spec:
  assumes h: "held_by p xs m R" and room: "partial_hit_reqs m rid \<noteq> None \<longrightarrow> xs \<noteq> []"
  shows "\<exists>cows m' p'. redirect_partial_hit rid m p = Inr (cows, m', p') \<and>
    held_by p' (drop (if partial_hit_reqs m rid = None then 0 else 1) xs) m' R \<and> same_config p p' \<and>
    only_request rid m m' \<and> length (blocks_of m' rid) = length (blocks_of m rid) \<and> partial_hit_reqs m' rid = None"
proof (cases "partial_hit_reqs m rid")
  case None
  then show ?thesis using h by (simp add: redirect_partial_hit_def only_request_def)
next
  case (Some ps)
  obtain idx src where ps: "ps = (idx, src)" by (cases ps)
  obtain c ys where xs: "xs = c # ys" using room Some by (cases xs) auto
  have a: "acct p xs (gm_refs m + R)" and wf: "gm_wf (num_gpu_blocks p) m" using h by (auto simp: held_by_def)
  obtain p1 where p1: "get_new_blocks 1 p = Inr ([c], p1)" "acct p1 ys (gm_refs m + R + {#c#})" "same_config p p1"
    using rp.alloc_ok [OF a, of 1] xs by auto
  have n: "num_gpu_blocks p1 = num_gpu_blocks p" using p1(3) by (simp add: same_config_def)
  have "pool_block (num_gpu_blocks p) c"
    using pool_invD(8) [of p xs c] a xs by (auto simp: acct_def)
  from apply_cow_spec [OF p1(2), unfolded n, OF wf Some [unfolded ps] this] obtain m' p' where
    c: "apply_cow rid idx src c (m\<lparr>partial_hit_reqs := (partial_hit_reqs m)(rid := None)\<rparr>) p1 = Inr (m', p')"
    "held_by p' ys m' R" "same_config p1 p'" "only_request rid m m'"
    "length (blocks_of m' rid) = length (blocks_of m rid)" "partial_hit_reqs m' rid = None" by blast
  let ?m = "m'\<lparr>new_block_ids := new_block_ids m' @ [block_id c]\<rparr>"
  have "redirect_partial_hit rid m p = Inr ([c], ?m, p')"
    using p1(1) c(1) Some ps by (simp add: redirect_partial_hit_def py_get_def Let_def)
  moreover have "held_by p' ys ?m R" using c(2) by (simp add: held_by_def)
  moreover have "only_request rid m ?m" using c(4) by (simp add: only_request_def same_mgr_def)
  ultimately show ?thesis using c(5,6) same_config_trans [OF p1(3) c(3)] Some xs
    by (intro exI [of _ "[c]"] exI [of _ ?m] exI [of _ p']) simp
qed

lemma allocate_new_spec:
  assumes h: "held_by p xs m R" and room: "new_demand rid nt m \<le> length xs"
  shows "\<exists>nb m' p'. gm_allocate_new_blocks rid nt m p = Inr (nb, m', p') \<and>
    held_by p' (drop (new_demand rid nt m) xs) m' R \<and> same_config p p' \<and> only_request rid m m' \<and>
    (if is_ring (gm_kind m) then partial_hit_reqs m' rid = partial_hit_reqs m rid
     else partial_hit_reqs m' rid = None \<and> int nt \<le> int (length (blocks_of m' rid)) * int (gm_block_size m))"
proof (cases "is_ring (gm_kind m)")
  case True
  then show ?thesis using claim_ring_spec [OF h, of rid] room
    by (auto simp: gm_allocate_new_blocks_def new_demand_def)
next
  case False
  have wf: "gm_wf (num_gpu_blocks p) m" using h by (simp add: held_by_def)
  define c where "c = (if partial_hit_reqs m rid = None then 0 else 1 :: nat)"
  define k where "k = cdiv (int nt) (int (gm_block_size m)) - int (length (blocks_of m rid))"
  have d: "new_demand rid nt m = c + nat k" using False by (simp add: new_demand_def c_def k_def)
  obtain cows m1 p1 where r: "redirect_partial_hit rid m p = Inr (cows, m1, p1)" "held_by p1 (drop c xs) m1 R"
    "same_config p p1" "only_request rid m m1" "length (blocks_of m1 rid) = length (blocks_of m rid)"
    "partial_hit_reqs m1 rid = None"
  proof -
    have "partial_hit_reqs m rid \<noteq> None \<longrightarrow> xs \<noteq> []" using room d by (auto simp: c_def)
    from redirect_spec [OF h this] show thesis unfolding c_def [symmetric] by (elim exE conjE) (rule that)
  qed
  have bs: "gm_block_size m1 = gm_block_size m" "0 < gm_block_size m"
    using r(4) gm_wfD(3) [OF wf] by (auto simp: only_request_def same_mgr_def)
  have cap: "int nt \<le> cdiv (int nt) (int (gm_block_size m)) * int (gm_block_size m)"
    using cdiv_bounds(1) bs(2) by simp
  have fits: "int nt \<le> L * int (gm_block_size m)" if "cdiv (int nt) (int (gm_block_size m)) \<le> L" for L
    using cap mult_right_mono [OF that, of "int (gm_block_size m)"] by linarith
  show ?thesis
  proof (cases "k \<le> 0")
    case True
    have "gm_allocate_new_blocks rid nt m p = Inr (cows, read_blocks rid m1, p1)"
      using False True r(1,5) bs by (simp add: gm_allocate_new_blocks_def k_def Let_def)
    moreover have "only_request rid m1 (read_blocks rid m1)" by (simp add: only_request_def read_blocks_def)
    moreover have "held_by p1 (drop (new_demand rid nt m) xs) (read_blocks rid m1) R"
      using read_blocks_held [OF r(2)] True d by simp
    moreover have "int nt \<le> int (length (blocks_of (read_blocks rid m1) rid)) * int (gm_block_size m)"
      using True r(5) fits by (simp add: k_def read_blocks_def)
    moreover have "partial_hit_reqs (read_blocks rid m1) rid = None" using r(6) by (simp add: read_blocks_def)
    ultimately show ?thesis using r(3) only_request_trans [OF r(4)] unfolding if_not_P [OF False] by blast
  next
    case pos: False
    then have "0 \<le> k" "nat k \<le> length (drop c xs)" using room d by auto
    from extend_exact [OF r(2) this, of rid] obtain m2 p2 where
      e: "extend_blocks rid k m1 p1 = Inr (take (nat k) (drop c xs), m2, p2)"
      "held_by p2 (drop (nat k) (drop c xs)) m2 R" "same_config p1 p2" "only_request rid m1 m2"
      "length (blocks_of m2 rid) = length (blocks_of m1 rid) + nat k"
      "partial_hit_reqs m2 rid = partial_hit_reqs m1 rid" by blast
    have "cdiv (int nt) (int (gm_block_size m1)) - int (length (blocks_of m1 rid)) = k"
      using r(5) bs(1) by (simp add: k_def)
    then have "gm_allocate_new_blocks rid nt m p = Inr (cows @ take (nat k) (drop c xs), m2, p2)"
      using False pos r(1) bs e(1) by (simp add: gm_allocate_new_blocks_def Let_def)
    moreover have "held_by p2 (drop (new_demand rid nt m) xs) m2 R" using e(2) d by (simp add: add.commute)
    moreover have "int nt \<le> int (length (blocks_of m2 rid)) * int (gm_block_size m)"
      using pos e(5) r(5) fits [of "int (length (blocks_of m2 rid))"] by (simp add: k_def)
    ultimately show ?thesis using e(6) r(6) same_config_trans [OF r(3) e(3)] only_request_trans [OF r(4) e(4)]
      unfolding if_not_P [OF False] by (intro exI conjI) auto
  qed
qed

section \<open>Caching changes no reference\<close>

lemma cache_full_loop_inv:
  assumes "cache_inv p" and "\<forall>b \<in> set bl. is_null (blk p b) \<or> pool_block (num_gpu_blocks p) b"
    and "cache_full_loop hs nc bs g msk i bl p = Inr (ehs, p')"
  shows "cache_inv p' \<and> hash_only p p'"
  using assms
proof (induction bl arbitrary: i p ehs)
  case (Cons b bl)
  show ?case
  proof (cases "skip_block p msk i b")
    case True
    then show ?thesis using Cons.IH [OF Cons.prems(1), of "Suc i" ehs] Cons.prems(2,3) by simp
  next
    case False
    then have pb: "pool_block (num_gpu_blocks p) b" using Cons.prems(2) by (auto simp: skip_block_def)
    obtain key p1 p2 ehs' where s: "drop_partial_hashes b (int ((nc + i + 1) * bs)) p = Inr p1"
      "insert_block_hash key b (Some (int ((nc + i + 1) * bs))) p1 = Inr p2"
      "cache_full_loop hs nc bs g msk (Suc i) bl p2 = Inr (ehs', p')"
      using Cons.prems(3) False by (auto simp: Let_def)
    note O = cache_one_spec [OF Cons.prems(1) pb s(1,2)]
    have n: "num_gpu_blocks p2 = num_gpu_blocks p" "\<And>b'. is_null (blk p2 b') = is_null (blk p b')"
      using O(2) hash_only_fields(2) [OF O(2)] by (simp_all add: hash_only_def same_config_def)
    have "cache_inv p' \<and> hash_only p2 p'" by (rule Cons.IH [OF O(1) _ s(3)]) (use Cons.prems(2) n in simp)
    then show ?thesis using hash_only_trans [OF O(2)] by blast
  qed
qed simp

lemma cache_full_blocks_inv:
  assumes I: "pool_inv p xs" and bl: "\<forall>b \<in> set blocks. valid_block (num_gpu_blocks p) b"
    and run: "cache_full_blocks r blocks nc nf bs g msk p = Inr p'"
  shows "pool_inv p' xs \<and> hash_only p p'"
proof (cases "nc \<ge> nf")
  case True
  then show ?thesis using run I by (simp add: cache_full_blocks_def)
next
  case False
  note D = pool_invD [OF I]
  let ?nb = "take (nf - nc) (drop nc blocks)"
  have "\<exists>new ehs p1 q. cache_full_loop new nc bs g msk 0 ?nb p = Inr (ehs, p1) \<and> p' = p1\<lparr>kv_event_queue := q\<rparr>"
  proof -
    obtain hs new ehs p1 where s: "cache_full_loop new nc bs g msk 0 ?nb p = Inr (ehs, p1)"
      and rest: "(if \<not> enable_kv_cache_events p then Inr p1
        else
          rbind (if nc = 0 then Inr None
                 else rbind (hash_at hs (int nc - 1)) (\<lambda>h.
                   Inr (Some (maybe_convert_block_hash (use_int_hashes p) h)))) (\<lambda>par.
          rbind (event_extra_keys p1 r blocks nc bs msk 0 [nc..<nf]) (\<lambda>kss.
            Inr (p1\<lparr>kv_event_queue := kv_event_queue p1 @
              [BlockStored (build_block_stored_event r ehs par (nc * bs) (nf * bs)
                              bs g kss)]\<rparr>)))) = Inr p'"
      using run unfolding cache_full_blocks_def if_not_P [OF False] Let_def rbind_eq_Inr
      by (elim exE conjE, unfold split_paired_all prod.case) blast
    have "\<exists>q. p' = p1\<lparr>kv_event_queue := q\<rparr>"
    proof (cases "enable_kv_cache_events p")
      case True
      then show ?thesis using rest by (simp only: rbind_eq_Inr simp_thms if_False) blast
    next
      case False
      then have "p' = p1\<lparr>kv_event_queue := kv_event_queue p1\<rparr>" using rest by simp
      then show ?thesis by blast
    qed
    with s show ?thesis by blast
  qed
  then obtain new ehs p1 q where s: "cache_full_loop new nc bs g msk 0 ?nb p = Inr (ehs, p1)"
    and p': "p' = p1\<lparr>kv_event_queue := q\<rparr>" by blast
  have sub: "set ?nb \<subseteq> set blocks" by (meson order_trans set_drop_subset set_take_subset)
  have "is_null (blk p b) \<or> pool_block (num_gpu_blocks p) b" if "b \<in> set ?nb" for b
    using bl sub that D(1,3) by (auto simp: valid_block_def free_inv_def)
  then have L: "cache_inv p1" "hash_only p p1" using cache_full_loop_inv [OF D(4) _ s] by auto
  have "hash_only p1 p'" by (simp add: p' hash_only_def same_config_def)
  then have ho: "hash_only p p'" by (rule hash_only_trans [OF L(2)])
  have "cache_inv p'" by (rule cache_inv_cong [OF L(1)]) (simp_all add: p')
  then have "pool_inv p' xs" using hash_only_pool_inv [OF I ho] by simp
  with ho show ?thesis by blast
qed

lemma read_blocks_same:
  "same_mgr m (read_blocks rid m)" "blocks_of (read_blocks rid m) = blocks_of m"
  "partial_hit_reqs (read_blocks rid m) = partial_hit_reqs m"
  by (auto simp: read_blocks_def fun_eq_iff)

lemma hash_only_held:
  assumes "held_by p xs m R" and "pool_inv p' xs" and "hash_only p p'" and "gm_refs m' = gm_refs m"
    and "gm_wf (num_gpu_blocks p) m'"
  shows "held_by p' xs m' R \<and> same_config p p'"
  using assms hash_only_fields [OF assms(3)] by (auto simp: held_by_def acct_def same_config_def)

lemma cache_full_part_spec:
  assumes h: "held_by p xs m R" and run: "cache_full_part r nt retention replay m p = Inr (m', p')"
  shows "held_by p' xs m' R \<and> same_config p p' \<and> same_mgr m m' \<and> blocks_of m' = blocks_of m \<and>
    partial_hit_reqs m' = partial_hit_reqs m"
proof -
  have wf: "gm_wf (num_gpu_blocks p) m" and I: "pool_inv p xs" using h by (auto simp: held_by_def acct_def)
  let ?rid = "request_id r"
  let ?nc = "case num_cached_block m ?rid of None \<Rightarrow> 0 | Some n \<Rightarrow> n" and ?nf = "nt div gm_block_size m"
  have bs: "gm_block_size m \<noteq> 0" using gm_wfD(3) [OF wf] by simp
  show ?thesis
  proof (cases "?nc \<ge> ?nf")
    case True
    then have "m' = m" "p' = p" using run bs by (simp_all add: cache_full_part_def Let_def)
    then show ?thesis using h by simp
  next
    case False
    obtain msk where run': "cache_full_blocks r (blocks_of m ?rid) ?nc ?nf (gm_block_size m) (kv_cache_group_id m)
        msk p = Inr p'" "m' = (read_blocks ?rid m)\<lparr>num_cached_block := (num_cached_block m)(?rid \<mapsto> ?nf)\<rparr>"
      using run bs unfolding cache_full_part_def Let_def if_not_P [OF False] rbind_eq_Inr by (elim exE conjE) simp
    have P: "pool_inv p' xs" "hash_only p p'"
      using cache_full_blocks_inv [OF I _ run'(1)] gm_wfD(5) [OF wf] by auto
    have r: "held_by p xs (read_blocks ?rid m) R" by (rule read_blocks_held [OF h])
    have "held_by p' xs (read_blocks ?rid m) R \<and> same_config p p'"
      by (rule hash_only_held [OF r P refl]) (use r in \<open>simp add: held_by_def\<close>)
    moreover have "same_mgr m m'" unfolding run'(2) by (simp add: read_blocks_def set_blocks_def same_mgr_def)
    ultimately show ?thesis unfolding run'(2) by (simp add: held_by_def read_blocks_same)
  qed
qed

lemma cache_partial_tail_spec:
  assumes h: "held_by p xs m R" and run: "cache_partial_tail_block r nt m p = Inr (m', p')"
  shows "held_by p' xs m' R \<and> same_config p p' \<and> same_mgr m m' \<and> blocks_of m' = blocks_of m \<and>
    partial_hit_reqs m' = partial_hit_reqs m"
proof -
  have wf: "gm_wf (num_gpu_blocks p) m" and I: "pool_inv p xs" using h by (auto simp: held_by_def acct_def)
  let ?rid = "request_id r"
  have r: "held_by p xs (read_blocks ?rid m) R" by (rule read_blocks_held [OF h])
  note rb = read_blocks_same [where m = m and rid = ?rid]
  define boundary where "boundary = nat (num_prompt_tokens r) div hash_block_size p * hash_block_size p"
  define idx where "idx = boundary div gm_block_size m"
  have z: "hash_block_size p \<noteq> 0 \<and> gm_block_size m \<noteq> 0"
    using run unfolding cache_partial_tail_block_def rbind_eq_Inr ensure_eq_Inr by (elim exE conjE) (intro conjI)
  have run': "(if boundary = 0 \<or> boundary > nt then Inr (m, p)
        else if boundary mod gm_block_size m = 0 then Inr (m, p)
        else if idx \<ge> length (blocks_of m ?rid) then Inr (read_blocks ?rid m, p)
        else rbind (cache_partial_block r (blocks_of m ?rid ! idx) boundary (kv_cache_group_id m)
                      (gm_block_size m) False p) (\<lambda>(_, p1). Inr (read_blocks ?rid m, p1))) = Inr (m', p')"
    using run z unfolding cache_partial_tail_block_def Let_def boundary_def [symmetric] idx_def [symmetric] by simp
  consider (same) "m' = m" "p' = p" | (read) "m' = read_blocks ?rid m" "p' = p"
    | (cached) res where "idx < length (blocks_of m ?rid)"
        "cache_partial_block r (blocks_of m ?rid ! idx) boundary (kv_cache_group_id m) (gm_block_size m) False p =
           Inr (res, p')" "m' = read_blocks ?rid m"
  proof (cases "boundary = 0 \<or> boundary > nt \<or> boundary mod gm_block_size m = 0")
    case True
    then have "Inr (m, p) = (Inr (m', p') :: (group_manager \<times> pool) res)"
      using run' by (elim disjE) (simp_all only: if_True simp_thms if_cancel)
    then show ?thesis by (intro same) simp_all
  next
    case f: False
    show ?thesis
    proof (cases "idx \<ge> length (blocks_of m ?rid)")
      case True
      show ?thesis by (rule read) (use run' f True in simp_all)
    next
      case False
      obtain res where "cache_partial_block r (blocks_of m ?rid ! idx) boundary (kv_cache_group_id m) (gm_block_size m)
          False p = Inr (res, p')" "m' = read_blocks ?rid m" using run' f False by auto
      then show ?thesis using cached False by simp
    qed
  qed
  then show ?thesis
  proof cases
    case same
    then show ?thesis using h by simp
  next
    case read
    then show ?thesis using r rb by simp
  next
    case cached
    have v: "valid_block (num_gpu_blocks p) (blocks_of m ?rid ! idx)" by (rule gm_wfD(5) [OF wf nth_mem [OF cached(1)]])
    have P: "pool_inv p' xs \<and> hash_only p p'"
    proof (cases "blocks_of m ?rid ! idx = Block 0")
      case True
      then have "is_null (blk p (blocks_of m ?rid ! idx))" using pool_invD(1,3) [OF I] by (simp add: free_inv_def)
      then have "p' = p" using cached(2) by (simp add: cache_partial_block_def)
      then show ?thesis using I by simp
    next
      case False
      then have "pool_block (num_gpu_blocks p) (blocks_of m ?rid ! idx)" using v by (simp add: valid_block_def)
      from cache_partial_block_spec [OF I this cached(2)] show ?thesis by blast
    qed
    have "held_by p' xs (read_blocks ?rid m) R \<and> same_config p p'"
      by (rule hash_only_held [OF r _ _ refl]) (use P r in \<open>simp_all add: held_by_def\<close>)
    then show ?thesis using rb cached(3) by simp
  qed
qed

lemma gm_cache_blocks_spec:
  assumes h: "held_by p xs m R" and run: "gm_cache_blocks r nt retention replay m p = Inr (m', p')"
  shows "held_by p' xs m' R \<and> same_config p p' \<and> same_mgr m m' \<and> blocks_of m' = blocks_of m \<and>
    partial_hit_reqs m' = partial_hit_reqs m"
proof -
  let ?ok = "held_by p' xs m' R \<and> same_config p p' \<and> same_mgr m m' \<and> blocks_of m' = blocks_of m \<and>
    partial_hit_reqs m' = partial_hit_reqs m"
  have tail: ?ok if r: "rbind (cache_full_part r nt retention replay m p) (\<lambda>(m1, p1).
      if gm_block_size m1 = hash_block_size p1 then Inr (m1, p1) else cache_partial_tail_block r nt m1 p1) =
      Inr (m', p')"
  proof -
    obtain m1 p1 where f: "cache_full_part r nt retention replay m p = Inr (m1, p1)"
      and t: "(if gm_block_size m1 = hash_block_size p1 then Inr (m1, p1)
        else cache_partial_tail_block r nt m1 p1) = Inr (m', p')" using r by auto
    note a = cache_full_part_spec [OF h f]
    show ?thesis
    proof (cases "gm_block_size m1 = hash_block_size p1")
      case True
      then show ?thesis using t a by simp
    next
      case False
      then have t': "cache_partial_tail_block r nt m1 p1 = Inr (m', p')" using t by simp
      have "held_by p1 xs m1 R" using a by blast
      from cache_partial_tail_spec [OF this t'] show ?thesis
        using a same_config_trans [of p p1 p'] same_mgr_trans [of m m1 m'] by simp
    qed
  qed
  have full: ?ok if "cache_full_part r nt retention replay m p = Inr (m', p')"
    by (rule cache_full_part_spec [OF h that])
  have same: ?ok if "m' = m" "p' = p" using h that by simp
  show ?thesis
  proof (cases "is_ring (gm_kind m)")
    case True
    then show ?thesis using run same by (simp add: gm_cache_blocks_def)
  next
    case False
    note r = run [unfolded gm_cache_blocks_def if_not_P [OF False]]
    show ?thesis
    proof (cases "gm_kind m")
      case FullAttn
      show ?thesis by (rule tail) (use r FullAttn in simp)
    next
      case RSWA
      show ?thesis by (rule tail) (use r RSWA in simp)
    next
      case SlidingWindow
      show ?thesis by (rule full) (use r SlidingWindow in simp)
    next
      case ChunkedLocal
      show ?thesis by (rule full) (use r ChunkedLocal in simp)
    qed (use r False in \<open>simp_all add: is_ring_def\<close>)
  qed
qed

end
