(* ===== verification/Coordinator.thy ===== *)
theory Coordinator
  imports Group_Manager
begin

text \<open>
  The KV cache coordinators (\<^verbatim>\<open>vllm/v1/core/kv_cache_coordinator.py\<close>): they apply the operations of the
  group managers to all KV cache groups of a model and reconcile the prefix cache hits of the groups. The
  loop of the hybrid coordinator that looks for a common hit length is shown to find the longest one.
  Groups with Mamba layers are not modelled, so the fine grained hits, which only exist together with
  them, occur as a flag of the state that is off initially.
\<close>

section \<open>Configuration and state\<close>

record kv_cache_spec =
  sp_kind :: attn_kind
  sp_block_size :: nat
  sp_layout :: string \<comment> \<open>the other fields of the specification, which are only compared\<close>

record kv_cache_group =
  gr_spec :: kv_cache_spec
  is_eagle_group :: bool

record spec_group =
  sg_spec :: kv_cache_spec
  group_ids :: "nat list"
  sg_use_eagle :: bool

datatype coordinator_class = NoPrefixCache | UnitaryCoordinator | HybridCoordinator

record coordinator =
  co_class :: coordinator_class
  block_pool :: pool
  single_type_managers :: "group_manager list"
  kv_cache_groups :: "kv_cache_group list"
  attention_groups :: "spec_group list"
  eagle_group_ids :: "nat list"
  retention_interval :: "int option"
  co_scheduler_block_size :: nat
  co_hash_block_size :: nat
  enable_partial_hash_hits :: bool
  num_reprefillable_tokens :: nat
  min_prefill_tokens :: nat

definition prefix_cacheable :: "kv_cache_spec \<Rightarrow> bool" where
  "prefix_cacheable s \<longleftrightarrow> \<not> is_ring (sp_kind s)"

definition is_full_spec :: "kv_cache_spec \<Rightarrow> bool" where
  \<comment> \<open>\<^verbatim>\<open>isinstance(spec, FullAttentionSpec)\<close>\<close>
  "is_full_spec s = (case sp_kind s of FullAttn \<Rightarrow> True | RSWA _ \<Rightarrow> True | _ \<Rightarrow> False)"

definition is_sliding_spec :: "kv_cache_spec \<Rightarrow> bool" where
  \<comment> \<open>\<^verbatim>\<open>isinstance(spec, SlidingWindowSpec)\<close>\<close>
  "is_sliding_spec s = (case sp_kind s of SlidingWindow _ _ \<Rightarrow> True | KpoolTail \<Rightarrow> True | _ \<Rightarrow> False)"

definition dcp_world_size_for_kv_cache_spec :: "kv_cache_spec \<Rightarrow> nat \<Rightarrow> nat" where
  "dcp_world_size_for_kv_cache_spec s dcp =
     (if dcp \<le> 1 then 1 else if is_full_spec s then dcp else 1)"

definition validate_prefix_cache_retention_interval ::
  "int option \<Rightarrow> nat \<Rightarrow> kv_cache_group list \<Rightarrow> unit res"
where
  "validate_prefix_cache_retention_interval retention sched_bs groups =
     (case retention of
        None \<Rightarrow> Inr ()
      | Some r \<Rightarrow>
          if \<not> (\<exists>g\<in>set groups. is_sliding_spec (gr_spec g))
          then if r = 0 then Inr () else Inl ValueError
          else
            rbind (ensure (r < 0 \<or> sched_bs \<noteq> 0) ZeroDivisionError) (\<lambda>_.
            if r < 0 \<or> r mod int sched_bs \<noteq> 0 then Inl ValueError else Inr ()))"

fun insert_spec_group :: "kv_cache_spec \<Rightarrow> nat \<Rightarrow> bool \<Rightarrow> spec_group list \<Rightarrow> spec_group list" where
  \<comment> \<open>add a group to the entry with the same specification, or as a new entry\<close>
  "insert_spec_group s i eagle [] = [\<lparr>sg_spec = s, group_ids = [i], sg_use_eagle = eagle\<rparr>]"
| "insert_spec_group s i eagle (g # gs) =
     (if sg_spec g = s
      then g\<lparr>group_ids := group_ids g @ [i], sg_use_eagle := eagle \<or> sg_use_eagle g\<rparr> # gs
      else g # insert_spec_group s i eagle gs)"

definition split_groups :: "kv_cache_group list \<Rightarrow> nat list \<Rightarrow> spec_group list" where
  "split_groups groups eagle =
     (let gs = fold (\<lambda>(i, g) acc. if prefix_cacheable (gr_spec g)
                                  then insert_spec_group (gr_spec g) i (i \<in> set eagle) acc else acc)
                 (enumerate 0 groups) []
      in filter (\<lambda>g. is_full_spec (sg_spec g)) gs @ filter (\<lambda>g. \<not> is_full_spec (sg_spec g)) gs)"

definition verify_and_split_kv_cache_groups :: "coordinator \<Rightarrow> coordinator res" where
  "verify_and_split_kv_cache_groups c =
     (let gs = split_groups (kv_cache_groups c) (eagle_group_ids c);
          eagle_ids = concat (map group_ids (filter sg_use_eagle gs))
      in rbind (ensure (gs \<noteq> []) AssertionError) (\<lambda>_.
           Inr (c\<lparr>attention_groups := gs,
                  single_type_managers :=
                    map (\<lambda>(i, m). if i \<in> set eagle_ids then m\<lparr>gm_use_eagle := True\<rparr> else m)
                      (enumerate 0 (single_type_managers c))\<rparr>)))"

definition full_attention_group_id :: "coordinator \<Rightarrow> nat option" where
  "full_attention_group_id c =
     (case attention_groups c of
        [] \<Rightarrow> None
      | g # _ \<Rightarrow> if is_full_spec (sg_spec g) then Some (hd (group_ids g)) else None)"

definition cache_hit_alignment :: "coordinator \<Rightarrow> nat" where
  \<comment> \<open>\<^verbatim>\<open>_cache_hit_alignment_tokens\<close>\<close>
  "cache_hit_alignment c =
     (if enable_partial_hash_hits c then co_hash_block_size c else co_scheduler_block_size c)"

definition base_init ::
  "coordinator_class \<Rightarrow> nat \<Rightarrow> kv_cache_group list \<Rightarrow> int option \<Rightarrow> bool \<Rightarrow> int \<Rightarrow> int \<Rightarrow> bool \<Rightarrow> bool \<Rightarrow> bool \<Rightarrow>
   bool \<Rightarrow> nat \<Rightarrow> nat \<Rightarrow> nat \<Rightarrow> nat \<Rightarrow> nat \<Rightarrow> nat \<Rightarrow> coordinator res"
where
  \<comment> \<open>\<^verbatim>\<open>KVCacheCoordinator.__init__\<close>\<close>
  "base_init cls num_blocks groups retention zeroing max_len in_flight use_eagle caching events use_int
     dcp pcp sched_bs hash_bs lookahead min_prefill =
     rbind (ensure (hash_bs \<noteq> 0 \<and> (\<forall>g\<in>set groups. sp_block_size (gr_spec g) \<noteq> 0)) ZeroDivisionError) (\<lambda>_.
     rbind (ensure (sched_bs mod hash_bs = 0 \<and> (\<forall>g\<in>set groups. sched_bs mod sp_block_size (gr_spec g) = 0))
              AssertionError) (\<lambda>_.
     rbind (pool_init num_blocks caching hash_bs events use_int) (\<lambda>p.
     let flagged = map fst (filter (\<lambda>(i, g). is_eagle_group g) (enumerate 0 groups));
         eagle = (if use_eagle \<and> flagged = [] then [0..<length groups] else flagged)
     in rbind (ensure (\<not> (caching \<and> eagle \<noteq> [] \<and> sched_bs < lookahead)) ValueError) (\<lambda>_.
        let ms = map (\<lambda>(i, g). get_manager_for_kv_cache_spec (sp_kind (gr_spec g)) (sp_block_size (gr_spec g))
                       in_flight max_len p caching (int i) sched_bs
                       (dcp_world_size_for_kv_cache_spec (gr_spec g) dcp) pcp zeroing) (enumerate 0 groups)
        in rbind (validate_prefix_cache_retention_interval retention sched_bs groups) (\<lambda>_.
             Inr \<lparr>co_class = cls, block_pool = p, single_type_managers = ms, kv_cache_groups = groups,
                  attention_groups = [], eagle_group_ids = eagle, retention_interval = retention,
                  co_scheduler_block_size = sched_bs, co_hash_block_size = hash_bs,
                  enable_partial_hash_hits = False, num_reprefillable_tokens = lookahead - 1,
                  min_prefill_tokens = min_prefill\<rparr>)))))"

definition unitary_init :: "bool \<Rightarrow> nat \<Rightarrow> coordinator \<Rightarrow> coordinator res" where
  "unitary_init caching hash_bs c =
     (case single_type_managers c of
        [] \<Rightarrow> Inl IndexError
      | m # ms \<Rightarrow>
          rbind (ensure (\<not> caching \<or> hash_bs = gm_block_size m) AssertionError) (\<lambda>_.
          rbind (ensure (length (kv_cache_groups c) = 1) AssertionError) (\<lambda>_.
            Inr (c\<lparr>single_type_managers := m\<lparr>gm_use_eagle := (0 \<in> set (eagle_group_ids c))\<rparr> # ms\<rparr>))))"

definition hybrid_init :: "nat \<Rightarrow> nat \<Rightarrow> nat \<Rightarrow> coordinator \<Rightarrow> coordinator res" where
  "hybrid_init dcp pcp hash_bs c =
     rbind (ensure (\<forall>(m, g) \<in> set (zip (single_type_managers c) (kv_cache_groups c)).
              prefix_cacheable (gr_spec g) \<longrightarrow> gm_block_size m mod hash_bs = 0) AssertionError) (\<lambda>_.
     rbind (ensure (pcp = 1) AssertionError) (\<lambda>_.
     rbind (ensure (dcp > 1 \<longrightarrow> (\<forall>g\<in>set (kv_cache_groups c). is_full_spec (gr_spec g))) AssertionError) (\<lambda>_.
       let a = cache_hit_alignment c
       in verify_and_split_kv_cache_groups
            (c\<lparr>single_type_managers :=
                 map (\<lambda>m. m\<lparr>cache_hit_alignment_tokens := a\<rparr>) (single_type_managers c)\<rparr>))))"

definition get_kv_cache_coordinator ::
  "nat \<Rightarrow> kv_cache_group list \<Rightarrow> int option \<Rightarrow> bool \<Rightarrow> int \<Rightarrow> int \<Rightarrow> bool \<Rightarrow> bool \<Rightarrow> bool \<Rightarrow> bool \<Rightarrow>
   nat \<Rightarrow> nat \<Rightarrow> nat \<Rightarrow> nat \<Rightarrow> nat \<Rightarrow> nat \<Rightarrow> coordinator res"
where
  "get_kv_cache_coordinator num_blocks groups retention zeroing max_len in_flight use_eagle caching events use_int
     dcp pcp sched_bs hash_bs lookahead min_prefill =
     (let base = (\<lambda>cls. base_init cls num_blocks groups retention zeroing max_len in_flight use_eagle caching
                    events use_int dcp pcp sched_bs hash_bs lookahead min_prefill)
      in if \<not> caching then base NoPrefixCache
         else if length groups = 1 then rbind (base UnitaryCoordinator) (unitary_init caching hash_bs)
         else rbind (base HybridCoordinator) (hybrid_init dcp pcp hash_bs))"

section \<open>Operations on all groups\<close>

fun each ::
  "('a \<Rightarrow> group_manager \<Rightarrow> pool \<Rightarrow> ('r \<times> group_manager \<times> pool) res) \<Rightarrow> 'a list \<Rightarrow> group_manager list \<Rightarrow> pool \<Rightarrow>
   ('r list \<times> group_manager list \<times> pool) res"
where
  \<comment> \<open>a loop over the managers, with an argument for each\<close>
  "each f as [] p = Inr ([], [], p)"
| "each f [] (m # ms) p = Inl IndexError"
| "each f (a # as) (m # ms) p =
     rbind (f a m p) (\<lambda>(r, m1, p1).
     rbind (each f as ms p1) (\<lambda>(rs, ms1, p2). Inr (r # rs, m1 # ms1, p2)))"

definition silent ::
  "(group_manager \<Rightarrow> pool \<Rightarrow> (group_manager \<times> pool) res) \<Rightarrow> group_manager \<Rightarrow> pool \<Rightarrow>
   (unit \<times> group_manager \<times> pool) res"
where
  "silent f m p = rbind (f m p) (\<lambda>(m1, p1). Inr ((), m1, p1))"

definition with_state :: "coordinator \<Rightarrow> 'r \<times> group_manager list \<times> pool \<Rightarrow> 'r \<times> coordinator" where
  "with_state c = (\<lambda>(r, ms, p). (r, c\<lparr>single_type_managers := ms, block_pool := p\<rparr>))"

definition all_managers ::
  "(group_manager \<Rightarrow> pool \<Rightarrow> (group_manager \<times> pool) res) \<Rightarrow> coordinator \<Rightarrow> coordinator res"
where
  "all_managers f c =
     rbind (each (\<lambda>_. silent f) (single_type_managers c) (single_type_managers c) (block_pool c)) (\<lambda>r.
       Inr (snd (with_state c r)))"

fun sum_blocks ::
  "coordinator \<Rightarrow> string \<Rightarrow> nat \<Rightarrow> nat \<Rightarrow> nat \<Rightarrow> nat \<Rightarrow> bool \<Rightarrow> block_ref list list \<Rightarrow> group_manager list \<Rightarrow> int res"
where
  "sum_blocks c rid nt enc computed local cap newcs [] = Inr 0"
| "sum_blocks c rid nt enc computed local cap newcs (m # ms) =
     rbind (if gm_kind m = CrossAttn
            then gm_num_blocks_to_allocate m (block_pool c) rid enc [] 0 0 cap
            else rbind (py_get newcs 0) (\<lambda>newc.
                   gm_num_blocks_to_allocate m (block_pool c) rid nt newc computed local cap)) (\<lambda>n.
     rbind (sum_blocks c rid nt enc computed local cap (drop 1 newcs) ms) (\<lambda>k. Inr (n + k)))"

definition co_num_blocks_to_allocate ::
  "coordinator \<Rightarrow> string \<Rightarrow> nat \<Rightarrow> block_ref list list \<Rightarrow> nat \<Rightarrow> nat \<Rightarrow> nat \<Rightarrow> bool \<Rightarrow> int res"
where
  "co_num_blocks_to_allocate c rid nt newcs enc computed local cap =
     sum_blocks c rid nt enc computed local cap newcs (single_type_managers c)"

definition allocate_new_computed_blocks ::
  "string \<Rightarrow> block_ref list list \<Rightarrow> nat \<Rightarrow> nat \<Rightarrow> coordinator \<Rightarrow> coordinator res"
where
  "allocate_new_computed_blocks rid newcs local ext c =
     (if \<exists>m\<in>set (single_type_managers c). num_cached_block m rid \<noteq> None
      then rbind (ensure (\<forall>newc\<in>set newcs. newc = []) AssertionError) (\<lambda>_. Inr c)
      else
        rbind (each (\<lambda>newc. silent (add_local_computed_blocks rid newc local ext)) newcs
                 (single_type_managers c) (block_pool c)) (\<lambda>r1.
        let c1 = snd (with_state c r1)
        in if ext > 0 then all_managers (allocate_external_computed_blocks rid local ext) c1 else Inr c1))"

definition co_allocate_new_blocks ::
  "string \<Rightarrow> nat \<Rightarrow> nat \<Rightarrow> coordinator \<Rightarrow> (block_ref list list \<times> coordinator) res"
where
  "co_allocate_new_blocks rid nt enc c =
     rbind (each (\<lambda>_ m. gm_allocate_new_blocks rid (if gm_kind m = CrossAttn then enc else nt) m)
              (single_type_managers c) (single_type_managers c) (block_pool c)) (\<lambda>r. Inr (with_state c r))"

definition get_replay_boundaries :: "request \<Rightarrow> coordinator \<Rightarrow> int list res" where
  "get_replay_boundaries r c =
     (let resend_limit = max 0 (num_prompt_tokens r - int (min_prefill_tokens c)) in
      if eagle_group_ids c = []
      then Inr (if min_prefill_tokens c = 1 then [resend_limit] else [resend_limit, num_prompt_tokens r])
      else
        rbind (ensure (co_scheduler_block_size c \<noteq> 0) ZeroDivisionError) (\<lambda>_.
        let b = int (co_scheduler_block_size c);
            resend = resend_limit div b * b;
            extension = num_prompt_tokens r div b * b
        in Inr (sort (remdups [max (resend - b) 0, max (extension - b) 0]))))"

definition align_cacheable :: "coordinator \<Rightarrow> nat \<Rightarrow> nat" where
  "align_cacheable c n =
     (if enable_partial_hash_hits c then n else n div co_scheduler_block_size c * co_scheduler_block_size c)"

definition tokens_to_cache :: "coordinator \<Rightarrow> nat \<Rightarrow> group_manager \<Rightarrow> nat" where
  \<comment> \<open>how many of the computed tokens a group may cache\<close>
  "tokens_to_cache c computed m =
     (case co_class c of
        HybridCoordinator \<Rightarrow>
          let cached = align_cacheable c computed;
              finalized = computed - num_reprefillable_tokens c
          in if gm_use_eagle m \<and> cached > 0
             then min finalized (align_cacheable c finalized + gm_block_size m) else cached
      | _ \<Rightarrow> computed - num_reprefillable_tokens c)"

definition co_cache_blocks :: "request \<Rightarrow> nat \<Rightarrow> coordinator \<Rightarrow> coordinator res" where
  "co_cache_blocks r computed c =
     rbind (ensure (co_class c = HybridCoordinator \<longrightarrow> enable_partial_hash_hits c \<or> co_scheduler_block_size c \<noteq> 0)
              ZeroDivisionError) (\<lambda>_.
     rbind (get_replay_boundaries r c) (\<lambda>boundaries.
       all_managers (\<lambda>m. gm_cache_blocks r (tokens_to_cache c computed m) (retention_interval c) boundaries m) c))"

definition co_free :: "string \<Rightarrow> coordinator \<Rightarrow> coordinator res" where
  "co_free rid c = all_managers (gm_free rid) c"

definition co_pop_blocks_for_free :: "string \<Rightarrow> coordinator \<Rightarrow> block_ref list \<times> coordinator" where
  "co_pop_blocks_for_free rid c =
     (concat (map (\<lambda>m. fst (gm_pop_blocks_for_free rid m)) (single_type_managers c)),
      c\<lparr>single_type_managers := map (\<lambda>m. snd (gm_pop_blocks_for_free rid m)) (single_type_managers c)\<rparr>)"

definition co_num_common_prefix_blocks :: "string \<Rightarrow> coordinator \<Rightarrow> nat list \<times> coordinator" where
  "co_num_common_prefix_blocks rid c =
     (if co_class c = NoPrefixCache then (map (\<lambda>_. 0) (single_type_managers c), c)
      else
        (map (\<lambda>m. fst (gm_num_common_prefix_blocks rid m (block_pool c))) (single_type_managers c),
         c\<lparr>single_type_managers :=
             map (\<lambda>m. snd (gm_num_common_prefix_blocks rid m (block_pool c))) (single_type_managers c)\<rparr>))"

definition co_remove_skipped_blocks :: "string \<Rightarrow> nat \<Rightarrow> nat option \<Rightarrow> coordinator \<Rightarrow> coordinator res" where
  "co_remove_skipped_blocks rid processed num_prompt c =
     all_managers (gm_remove_skipped_blocks rid processed num_prompt) c"

definition co_get_blocks :: "string \<Rightarrow> coordinator \<Rightarrow> block_ref list list" where
  "co_get_blocks rid c = map (\<lambda>m. blocks_of m rid) (single_type_managers c)"

section \<open>Common prefix cache hits\<close>

definition group_find ::
  "pool \<Rightarrow> bytes list \<Rightarrow> kv_cache_spec \<Rightarrow> nat list \<Rightarrow> nat \<Rightarrow> bool \<Rightarrow> nat \<Rightarrow> nat \<Rightarrow> nat \<Rightarrow>
   (block_ref list list \<times> nat) res"
where
  \<comment> \<open>\<^verbatim>\<open>find_longest_cache_hit\<close> of the manager class of a specification\<close>
  "group_find p hs s gids max_length drop_eagle align dcp pcp =
     (case sp_kind s of
        SlidingWindow w extra \<Rightarrow>
          sw_find_longest_cache_hit p (Raw hs) max_length (map int gids) (sp_block_size s) w drop_eagle align dcp pcp
      | ChunkedLocal ch \<Rightarrow>
          cl_find_longest_cache_hit p (Raw hs) max_length (map int gids) (sp_block_size s) (nat ch) drop_eagle align
            dcp pcp
      | CircularBuffer \<Rightarrow> Inr (map (\<lambda>_. []) gids, 0)
      | KpoolTail \<Rightarrow> Inr (map (\<lambda>_. []) gids, 0)
      | CrossAttn \<Rightarrow> Inl NotImplementedError
      | _ \<Rightarrow>
          rbind (full_find_longest_cache_hit p (Raw hs) max_length (map int gids) (sp_block_size s) drop_eagle align
                   dcp) (\<lambda>(cols, hit). Inr (cols, nat hit)))"

record hit_state =
  curr_hit_length :: nat
  longest_hit_length :: nat
  hit_blocks_by_group :: "nat \<Rightarrow> block_ref list option"
  hit_length_by_group :: "nat \<Rightarrow> nat"
  eagle_verified :: "nat list"

fun record_hits :: "nat list \<Rightarrow> block_ref list list \<Rightarrow> nat \<Rightarrow> hit_state \<Rightarrow> hit_state" where
  "record_hits (g # gs) (b # bs) n st =
     record_hits gs bs n (st\<lparr>hit_blocks_by_group := (hit_blocks_by_group st)(g \<mapsto> b),
                             hit_length_by_group := (hit_length_by_group st)(g := n)\<rparr>)"
| "record_hits _ _ n st = st"

definition visit_group :: "coordinator \<Rightarrow> bytes list \<Rightarrow> nat \<Rightarrow> nat \<times> spec_group \<Rightarrow> hit_state \<Rightarrow> hit_state res" where
  "visit_group c hs max_length ig st =
     (let idx = fst ig; g = snd ig; s = sg_spec g in
      rbind (py_get (group_ids g) 0) (\<lambda>gid.
      rbind (py_get (single_type_managers c) (int gid)) (\<lambda>m.
      if is_full_spec s \<and> hit_blocks_by_group st gid \<noteq> None
      then Inr (st\<lparr>curr_hit_length := min (curr_hit_length st) (hit_length_by_group st gid)\<rparr>)
      else
        let drop_eagle = (sg_use_eagle g \<and> idx \<notin> set (eagle_verified st));
            margin = (if enable_partial_hash_hits c \<and> is_full_spec s \<and> gm_block_size m > co_hash_block_size c
                      then co_hash_block_size c else gm_block_size m);
            max_len = (if drop_eagle then min (curr_hit_length st + margin) max_length else curr_hit_length st)
        in rbind (group_find (block_pool c) hs s (group_ids g) max_len drop_eagle (cache_hit_alignment c)
                    (dcp_world_size m) (pcp_world_size m)) (\<lambda>(cols, n).
             Inr (record_hits (group_ids g) cols n
               (st\<lparr>eagle_verified := (if drop_eagle then List.insert idx (eagle_verified st)
                                      else if n < curr_hit_length st then [] else eagle_verified st),
                   curr_hit_length := n, longest_hit_length := max (longest_hit_length st) n\<rparr>))))))"

definition visit_groups :: "coordinator \<Rightarrow> bytes list \<Rightarrow> nat \<Rightarrow> hit_state \<Rightarrow> hit_state res" where
  "visit_groups c hs max_length st = rfold (visit_group c hs max_length) (enumerate 0 (attention_groups c)) st"

lemma rbind_cong [fundef_cong]:
  "m = m' \<Longrightarrow> (\<And>x. m' = Inr x \<Longrightarrow> f x = g x) \<Longrightarrow> rbind m f = rbind m' g"
  by (cases m') auto

function hit_loop :: "(hit_state \<Rightarrow> hit_state res) \<Rightarrow> bool \<Rightarrow> nat \<Rightarrow> hit_state \<Rightarrow> (nat \<times> hit_state) res" where
  \<comment> \<open>the loop of the hybrid coordinator: it continues only with a smaller hit length\<close>
  "hit_loop visit simple hit st =
     rbind (visit (st\<lparr>curr_hit_length := hit\<rparr>)) (\<lambda>st1.
       if curr_hit_length st1 \<ge> hit then Inr (hit, st1)
       else if simple then Inr (curr_hit_length st1, st1)
       else hit_loop visit simple (curr_hit_length st1) st1)"
  by pat_completeness auto
termination by (relation "measure (\<lambda>(visit, simple, hit, st). hit)") auto

declare hit_loop.simps [simp del]

fun truncate_full :: "coordinator \<Rightarrow> nat \<Rightarrow> spec_group list \<Rightarrow> hit_state \<Rightarrow> hit_state res" where
  "truncate_full c hit [] st = Inr st"
| "truncate_full c hit (g # gs) st =
     (if \<not> is_full_spec (sg_spec g) then truncate_full c hit gs st
      else
        rbind (py_get (group_ids g) 0) (\<lambda>gid.
        rbind (py_get (single_type_managers c) (int gid)) (\<lambda>m.
        rbind (ensure (gm_block_size m \<noteq> 0) ZeroDivisionError) (\<lambda>_.
        let n = nat (cdiv (int hit) (int (gm_block_size m)))
        in truncate_full c hit gs
             (st\<lparr>hit_blocks_by_group := (\<lambda>i. if i \<in> set (group_ids g)
                    then map_option (take n) (hit_blocks_by_group st i) else hit_blocks_by_group st i),
                 hit_length_by_group := (\<lambda>i. if i \<in> set (group_ids g) \<and> hit_blocks_by_group st i \<noteq> None
                    then hit else hit_length_by_group st i)\<rparr>)))))"

definition hybrid_find :: "coordinator \<Rightarrow> bytes list \<Rightarrow> nat \<Rightarrow> (block_ref list list \<times> nat \<times> nat) res" where
  "hybrid_find c hs max_length =
     (let st0 = \<lparr>curr_hit_length = 0, longest_hit_length = 0, hit_blocks_by_group = (\<lambda>_. None),
                 hit_length_by_group = (\<lambda>_. 0), eagle_verified = []\<rparr>;
          simple = (case attention_groups c of [g, _] \<Rightarrow> is_full_spec (sg_spec g) | _ \<Rightarrow> False)
      in rbind (hit_loop (visit_groups c hs max_length) simple max_length st0) (\<lambda>(hit, st1).
         rbind (truncate_full c hit (attention_groups c) st1) (\<lambda>st2.
           Inr (map (\<lambda>i. case hit_blocks_by_group st2 i of None \<Rightarrow> [] | Some b \<Rightarrow> b) [0..<length (kv_cache_groups c)],
                hit, longest_hit_length st2 - hit))))"

definition unitary_find :: "coordinator \<Rightarrow> bytes list \<Rightarrow> nat \<Rightarrow> (block_ref list list \<times> nat \<times> nat) res" where
  "unitary_find c hs max_length =
     rbind (py_get (kv_cache_groups c) 0) (\<lambda>g.
     rbind (py_get (single_type_managers c) 0) (\<lambda>m.
     rbind (group_find (block_pool c) hs (gr_spec g) [0] max_length (0 \<in> set (eagle_group_ids c)) (gm_block_size m)
              (dcp_world_size m) (pcp_world_size m)) (\<lambda>(cols, hit). Inr (cols, hit, 0))))"

definition co_find_longest_cache_hit ::
  "coordinator \<Rightarrow> bytes list \<Rightarrow> nat \<Rightarrow> (block_ref list list \<times> nat \<times> nat) res"
where
  "co_find_longest_cache_hit c hs max_length =
     (case co_class c of
        NoPrefixCache \<Rightarrow> Inr (map (\<lambda>_. []) (single_type_managers c), 0, 0)
      | UnitaryCoordinator \<Rightarrow> unitary_find c hs max_length
      | HybridCoordinator \<Rightarrow> hybrid_find c hs max_length)"

definition find_longest_cache_hit_per_group ::
  "coordinator \<Rightarrow> bytes list \<Rightarrow> nat \<Rightarrow> (block_ref list list \<times> nat list) res"
where
  "find_longest_cache_hit_per_group c hs max_length =
     (let st0 = \<lparr>curr_hit_length = 0, longest_hit_length = 0, hit_blocks_by_group = (\<lambda>_. None),
                 hit_length_by_group = (\<lambda>_. 0), eagle_verified = []\<rparr>;
          n = length (kv_cache_groups c)
      in rbind (rfold (\<lambda>g st.
             rbind (py_get (group_ids g) 0) (\<lambda>gid.
             rbind (py_get (single_type_managers c) (int gid)) (\<lambda>m.
             rbind (group_find (block_pool c) hs (sg_spec g) (group_ids g) max_length (sg_use_eagle g)
                      (cache_hit_alignment c) (dcp_world_size m) (pcp_world_size m)) (\<lambda>(cols, k).
               Inr (record_hits (group_ids g) cols k st)))))
           (attention_groups c) st0) (\<lambda>st.
         Inr (map (\<lambda>i. case hit_blocks_by_group st i of None \<Rightarrow> [] | Some b \<Rightarrow> b) [0..<n],
              map (hit_length_by_group st) [0..<n])))"

section \<open>Loops over the managers keep the references exact\<close>

definition all_refs :: "group_manager list \<Rightarrow> block_ref multiset" where
  "all_refs ms = sum_list (map gm_refs ms)"

definition held_all :: "pool \<Rightarrow> block_ref list \<Rightarrow> group_manager list \<Rightarrow> block_ref multiset \<Rightarrow> bool" where
  \<comment> \<open>the references of all managers and those handed out make up the reference counts\<close>
  "held_all p xs ms R \<longleftrightarrow> acct p xs (all_refs ms + R) \<and> (\<forall>m\<in>set ms. gm_wf (num_gpu_blocks p) m)"

lemma held_all_Nil [simp]: "held_all p xs [] R \<longleftrightarrow> acct p xs R"
  by (simp add: held_all_def all_refs_def)

lemma held_all_Cons:
  "held_all p xs (m # ms) R \<longleftrightarrow>
   held_by p xs m (all_refs ms + R) \<and> (\<forall>m\<in>set ms. gm_wf (num_gpu_blocks p) m)"
  by (auto simp: held_all_def held_by_def all_refs_def add_ac)

lemma held_all_rest:
  "held_by p xs m (all_refs ms + R) \<Longrightarrow> \<forall>m\<in>set ms. gm_wf (num_gpu_blocks p) m \<Longrightarrow> held_all p xs ms (gm_refs m + R)"
  by (simp add: held_all_def held_by_def add_ac)

lemma held_all_join:
  "held_all p xs ms (gm_refs m + R) \<Longrightarrow> gm_wf (num_gpu_blocks p) m \<Longrightarrow> held_all p xs (m # ms) R"
  by (simp add: held_all_def all_refs_def add_ac)

text \<open>
  The contract of an operation of one manager: given its precondition and enough free blocks it
  returns, keeps the references exact, takes at most its demand of free blocks (all of them from \<open>F\<close>),
  and leaves the manager related to the old one by \<open>post\<close>. The loop over all managers then does the same
  for the sum of the demands.
\<close>

locale manager_op =
  fixes f :: "'a \<Rightarrow> group_manager \<Rightarrow> pool \<Rightarrow> ('r \<times> group_manager \<times> pool) res"
    and pre :: "nat \<Rightarrow> 'a \<Rightarrow> group_manager \<Rightarrow> bool"
    and demand :: "'a \<Rightarrow> group_manager \<Rightarrow> nat"
    and F :: "block_ref set"
    and post :: "'a \<Rightarrow> group_manager \<Rightarrow> group_manager \<Rightarrow> bool"
  assumes op: "held_by p xs m R \<Longrightarrow> set xs \<subseteq> F \<Longrightarrow> pre (num_gpu_blocks p) a m \<Longrightarrow> demand a m \<le> length xs \<Longrightarrow>
    \<exists>r m' p' ys. f a m p = Inr (r, m', p') \<and> held_by p' ys m' R \<and> same_config p p' \<and> set ys \<subseteq> F \<and>
      length xs \<le> length ys + demand a m \<and> post a m m'"
begin

lemma each_op:
  assumes "held_all p xs ms R" and "set xs \<subseteq> F" and "length ms \<le> length as"
    and "\<forall>i<length ms. pre (num_gpu_blocks p) (as ! i) (ms ! i)"
    and "sum_list (map2 demand as ms) \<le> length xs"
  shows "\<exists>rs ms' p' ys. each f as ms p = Inr (rs, ms', p') \<and> held_all p' ys ms' R \<and> same_config p p' \<and> set ys \<subseteq> F \<and>
    length xs \<le> length ys + sum_list (map2 demand as ms) \<and> length ms' = length ms \<and>
    (\<forall>i<length ms. post (as ! i) (ms ! i) (ms' ! i))"
  using assms
proof (induction ms arbitrary: "as" p xs R)
  case Nil
  then show ?case by auto
next
  case (Cons m ms)
  obtain a as' where as: "as = a # as'" using Cons.prems(3) by (cases "as") auto
  have h: "held_by p xs m (all_refs ms + R)" and w: "\<forall>m\<in>set ms. gm_wf (num_gpu_blocks p) m"
    using Cons.prems(1) by (simp_all add: held_all_Cons)
  have "pre (num_gpu_blocks p) a m" using Cons.prems(4) as by force
  then obtain r m' p1 ys where o: "f a m p = Inr (r, m', p1)" "held_by p1 ys m' (all_refs ms + R)" "same_config p p1"
    "set ys \<subseteq> F" "length xs \<le> length ys + demand a m" "post a m m'"
    using op [OF h Cons.prems(2), of a] Cons.prems(5) as by auto
  have n: "num_gpu_blocks p1 = num_gpu_blocks p" using o(3) by (simp add: same_config_def)
  have h1: "held_all p1 ys ms (gm_refs m' + R)" using held_all_rest [OF o(2)] w n by simp
  have "\<forall>i<length ms. pre (num_gpu_blocks p1) (as' ! i) (ms ! i)" using Cons.prems(4) as n by force
  moreover have "sum_list (map2 demand as' ms) \<le> length ys" using Cons.prems(5) o(5) as by simp
  ultimately obtain rs ms' p' zs where e: "each f as' ms p1 = Inr (rs, ms', p')" "held_all p' zs ms' (gm_refs m' + R)"
    "same_config p1 p'" "set zs \<subseteq> F" "length ys \<le> length zs + sum_list (map2 demand as' ms)"
    "length ms' = length ms" "\<forall>i<length ms. post (as' ! i) (ms ! i) (ms' ! i)"
    using Cons.IH [OF h1 o(4), of as'] Cons.prems(3) as by auto
  have "gm_wf (num_gpu_blocks p') m'" using o(2) e(3) by (simp add: held_by_def same_config_def)
  then have "held_all p' zs (m' # ms') R" by (rule held_all_join [OF e(2)])
  moreover have "each f as (m # ms) p = Inr (r # rs, m' # ms', p')" using as o(1) e(1) by simp
  moreover have "\<forall>i<length (m # ms). post (as ! i) ((m # ms) ! i) ((m' # ms') ! i)"
    using as o(6) e(7) by (auto simp: less_Suc_eq_0_disj)
  ultimately show ?case using same_config_trans [OF o(3) e(3)] e(4,5,6) o(5) as
    by (intro exI [of _ "r # rs"] exI [of _ "m' # ms'"] exI [of _ p'] exI [of _ zs]) simp
qed

end

definition freed :: "string \<Rightarrow> group_manager \<Rightarrow> group_manager \<Rightarrow> bool" where
  \<comment> \<open>the manager has forgotten the request\<close>
  "freed rid m m' \<longleftrightarrow> same_mgr m m' \<and> (\<forall>r. blocks_of m' r = (if r = rid then [] else blocks_of m r)) \<and>
     partial_hit_reqs m' = (partial_hit_reqs m)(rid := None) \<and> num_cached_block m' = (num_cached_block m)(rid := None) \<and>
     pending_cow_copies m' = pending_cow_copies m"

interpretation free_op: manager_op "\<lambda>_ :: group_manager. silent (gm_free rid)" "\<lambda>_ _ _. True" "\<lambda>_ _. 0" UNIV
  "\<lambda>_. freed rid" for rid :: string
proof
  fix p xs m R and a :: group_manager
  assume "held_by p xs m R"
  from gm_free_spec [OF this, of rid] show "\<exists>r m' p' ys. silent (gm_free rid) m p = Inr (r, m', p') \<and>
      held_by p' ys m' R \<and> same_config p p' \<and> set ys \<subseteq> UNIV \<and> length xs \<le> length ys + 0 \<and> freed rid m m'"
    by (elim exE conjE) (auto simp: silent_def freed_def)
qed

definition same_tables :: "string \<Rightarrow> group_manager \<Rightarrow> group_manager \<Rightarrow> bool" where
  \<comment> \<open>what removing blocks behind the window leaves alone\<close>
  "same_tables rid m m' \<longleftrightarrow> only_request rid m m' \<and> length (blocks_of m' rid) = length (blocks_of m rid) \<and>
     partial_hit_reqs m' = partial_hit_reqs m \<and> num_cached_block m' = num_cached_block m"

interpretation skip_op: manager_op "\<lambda>_ :: group_manager. silent (gm_remove_skipped_blocks rid processed np)"
  "\<lambda>_ _ m. partial_hit_reqs m rid = None" "\<lambda>_ _. 0" UNIV "\<lambda>_. same_tables rid"
  for rid :: string and processed :: nat and np :: "nat option"
proof
  fix p xs m R and a :: group_manager
  assume "held_by p xs m R" and "partial_hit_reqs m rid = None"
  from remove_skipped_spec [OF this, of processed np]
  show "\<exists>r m' p' ys. silent (gm_remove_skipped_blocks rid processed np) m p = Inr (r, m', p') \<and>
      held_by p' ys m' R \<and> same_config p p' \<and> set ys \<subseteq> UNIV \<and> length xs \<le> length ys + 0 \<and> same_tables rid m m'"
    by (elim exE conjE) (auto simp: silent_def same_tables_def only_request_def)
qed

definition local_pre :: "string \<Rightarrow> nat \<Rightarrow> nat \<Rightarrow> block_ref list \<Rightarrow> group_manager \<Rightarrow> bool" where
  "local_pre rid local n newc m \<longleftrightarrow>
     hit_shape n m newc local \<and> (plain_kind m \<longrightarrow> blocks_of m rid = []) \<and> partial_hit_reqs m rid = None"

definition local_demand :: "block_ref set \<Rightarrow> nat \<Rightarrow> block_ref list \<Rightarrow> group_manager \<Rightarrow> nat" where
  "local_demand F computed newc m =
     (if plain_kind m then length (filter (\<lambda>b. b \<in> F) (drop (skipped_blocks m computed) newc)) else 0)"

definition local_post :: "string \<Rightarrow> nat \<Rightarrow> nat \<Rightarrow> block_ref list \<Rightarrow> group_manager \<Rightarrow> group_manager \<Rightarrow> bool" where
  "local_post rid local computed newc m m' \<longleftrightarrow> only_request rid m m' \<and>
     length (blocks_of m' rid) = (if plain_kind m then max (skipped_blocks m computed) (length newc)
                                  else length (blocks_of m rid)) \<and>
     (partial_hit_reqs m' rid \<noteq> None \<longrightarrow> plain_kind m \<and> has_partial_local_hit m newc local)"

interpretation local_op: manager_op "\<lambda>newc. silent (add_local_computed_blocks rid newc local ext)"
  "local_pre rid local" "local_demand F (local + ext)" F "local_post rid local (local + ext)"
  for rid :: string and local ext :: nat and F :: "block_ref set"
proof
  fix p xs m R newc
  assume a: "held_by p xs m R" "set xs \<subseteq> F" and "local_pre rid local (num_gpu_blocks p) newc m"
  then have s: "hit_shape (num_gpu_blocks p) m newc local" "plain_kind m \<longrightarrow> blocks_of m rid = []"
    "partial_hit_reqs m rid = None" by (simp_all add: local_pre_def)
  from add_local_spec [OF a s, of ext]
  show "\<exists>r m' p' ys. silent (add_local_computed_blocks rid newc local ext) m p = Inr (r, m', p') \<and>
      held_by p' ys m' R \<and> same_config p p' \<and> set ys \<subseteq> F \<and> length xs \<le> length ys + local_demand F (local + ext) newc m \<and>
      local_post rid local (local + ext) newc m m'"
    by (elim exE conjE) (auto simp: silent_def local_demand_def local_post_def only_request_def)
qed

definition grown :: "string \<Rightarrow> nat \<Rightarrow> group_manager \<Rightarrow> group_manager \<Rightarrow> bool" where
  "grown rid k m m' \<longleftrightarrow> only_request rid m m' \<and> length (blocks_of m' rid) = length (blocks_of m rid) + k \<and>
     partial_hit_reqs m' rid = partial_hit_reqs m rid"

interpretation ext_op: manager_op "\<lambda>_ :: group_manager. silent (allocate_external_computed_blocks rid local ext)"
  "\<lambda>_ _ _. True" "\<lambda>_. ext_demand rid local ext" UNIV "\<lambda>_ m. grown rid (ext_demand rid local ext m) m"
  for rid :: string and local ext :: nat
proof
  fix p xs m R and a :: group_manager
  assume "held_by p xs m R" and "ext_demand rid local ext m \<le> length xs"
  from allocate_external_spec [OF this] this(2)
  show "\<exists>r m' p' ys. silent (allocate_external_computed_blocks rid local ext) m p = Inr (r, m', p') \<and>
      held_by p' ys m' R \<and> same_config p p' \<and> set ys \<subseteq> UNIV \<and> length xs \<le> length ys + ext_demand rid local ext m \<and>
      grown rid (ext_demand rid local ext m) m m'"
    by (elim exE conjE) (auto simp: silent_def grown_def)
qed

definition slots_for :: "nat \<Rightarrow> nat \<Rightarrow> group_manager \<Rightarrow> nat" where
  "slots_for nt enc m = (if gm_kind m = CrossAttn then enc else nt)"

definition roomy :: "string \<Rightarrow> nat \<Rightarrow> group_manager \<Rightarrow> group_manager \<Rightarrow> bool" where
  \<comment> \<open>the request has a slot for each of its tokens in this group\<close>
  "roomy rid k m m' \<longleftrightarrow> only_request rid m m' \<and>
     (if is_ring (gm_kind m) then partial_hit_reqs m' rid = partial_hit_reqs m rid
      else partial_hit_reqs m' rid = None \<and> k \<le> length (blocks_of m' rid) * gm_block_size m)"

interpretation new_op: manager_op "\<lambda>(_ :: group_manager) m. gm_allocate_new_blocks rid (slots_for nt enc m) m"
  "\<lambda>_ _ _. True" "\<lambda>_ m. new_demand rid (slots_for nt enc m) m" UNIV "\<lambda>_ m. roomy rid (slots_for nt enc m) m"
  for rid :: string and nt enc :: nat
proof
  fix p xs m R and a :: group_manager
  assume "held_by p xs m R" and "new_demand rid (slots_for nt enc m) m \<le> length xs"
  from allocate_new_spec [OF this] this(2)
  show "\<exists>r m' p' ys. gm_allocate_new_blocks rid (slots_for nt enc m) m p = Inr (r, m', p') \<and>
      held_by p' ys m' R \<and> same_config p p' \<and> set ys \<subseteq> UNIV \<and>
      length xs \<le> length ys + new_demand rid (slots_for nt enc m) m \<and> roomy rid (slots_for nt enc m) m m'"
    by (elim exE conjE) (auto simp: roomy_def simp flip: of_nat_mult)
qed

text \<open>An operation that may raise keeps the references exact whenever it returns.\<close>

lemma each_keeps:
  assumes step: "\<And>a m p xs R r m' p'. held_by p xs m R \<Longrightarrow> f a m p = Inr (r, m', p') \<Longrightarrow>
      held_by p' xs m' R \<and> same_config p p' \<and> post m m'"
    and "held_all p xs ms R" and "each f as ms p = Inr (rs, ms', p')"
  shows "held_all p' xs ms' R \<and> same_config p p' \<and> list_all2 post ms ms'"
  using assms(2,3)
proof (induction ms arbitrary: "as" p R rs ms')
  case (Cons m ms)
  obtain a as' where as: "as = a # as'" using Cons.prems(2) by (cases "as") auto
  obtain r m1 p1 rs' ms1 where s: "f a m p = Inr (r, m1, p1)" "each f as' ms p1 = Inr (rs', ms1, p')" "ms' = m1 # ms1"
    using Cons.prems(2) as by auto
  have h: "held_by p xs m (all_refs ms + R)" and w: "\<forall>m\<in>set ms. gm_wf (num_gpu_blocks p) m"
    using Cons.prems(1) by (simp_all add: held_all_Cons)
  have o: "held_by p1 xs m1 (all_refs ms + R)" "same_config p p1" "post m m1" using step [OF h s(1)] by auto
  have "held_all p1 xs ms (gm_refs m1 + R)" using held_all_rest [OF o(1)] w o(2) by (simp add: same_config_def)
  from Cons.IH [OF this s(2)] have e: "held_all p' xs ms1 (gm_refs m1 + R)" "same_config p1 p'" "list_all2 post ms ms1"
    by auto
  have "gm_wf (num_gpu_blocks p') m1" using o(1) e(2) by (simp add: held_by_def same_config_def)
  then show ?case using held_all_join [OF e(1)] same_config_trans [OF o(2) e(2)] o(3) e(3) s(3) by simp
qed simp

section \<open>The longest common hit\<close>

text \<open>
  What the loop of the hybrid coordinator relies on: the search of a group returns the longest length
  up to the given one that the group can serve, and only aligned lengths can be served. A dense search
  (full attention) can serve every aligned length below one that it can serve.
\<close>

locale hit_search =
  fixes find :: "nat \<Rightarrow> nat" and serv :: "nat \<Rightarrow> bool" and align limit :: nat
  assumes find_le: "find n \<le> n"
    and find_serv: "n \<le> limit \<Longrightarrow> serv (find n)"
    and find_max: "n \<le> limit \<Longrightarrow> serv k \<Longrightarrow> k \<le> n \<Longrightarrow> k \<le> find n"
    and serv_aligned: "serv k \<Longrightarrow> align dvd k"
begin

lemma find_fixed: "n \<le> limit \<Longrightarrow> find n = n \<longleftrightarrow> serv n"
  using find_serv [of n] find_max [of n n] find_le [of n] by auto

lemma find_aligned: "n \<le> limit \<Longrightarrow> align dvd find n"
  by (rule serv_aligned [OF find_serv])

lemma find_mono: "m \<le> n \<Longrightarrow> n \<le> limit \<Longrightarrow> find m \<le> find n"
  using find_serv [of m] find_le [of m] by (intro find_max) auto

end

locale dense_search = hit_search +
  assumes down: "serv k \<Longrightarrow> j \<le> k \<Longrightarrow> align dvd j \<Longrightarrow> serv j"
begin

text \<open>A dense search need not be repeated for a smaller length: its first result can be cut.\<close>

lemma trim: "n \<le> limit \<Longrightarrow> m \<le> n \<Longrightarrow> align dvd m \<Longrightarrow> find m = min m (find n)"
proof -
  assume a: "n \<le> limit" "m \<le> n" "align dvd m"
  show "find m = min m (find n)"
  proof (cases "m \<le> find n")
    case True
    then show ?thesis using down [OF find_serv [OF a(1)] True a(3)] find_fixed [of m] a by simp
  next
    case False
    then have "find n \<le> find m" using find_max [of m "find n"] find_serv [OF a(1)] a by simp
    then show ?thesis using find_mono [OF a(2,1)] False by simp
  qed
qed

end

definition cached_at :: "pool \<Rightarrow> bytes list \<Rightarrow> kv_cache_spec \<Rightarrow> nat list \<Rightarrow> nat \<Rightarrow> block_ref list option" where
  \<comment> \<open>the blocks of position \<open>j\<close> in all groups\<close>
  "cached_at p l s gids j = row_of p (map int gids) (block_key l (hash_block_size p) (sp_block_size s) j)"

definition needs :: "kv_cache_spec \<Rightarrow> nat \<Rightarrow> nat \<Rightarrow> bool" where
  \<comment> \<open>whether the token after a hit of \<open>k\<close> tokens can attend to block \<open>j\<close>\<close>
  "needs s k j \<longleftrightarrow>
     (case sp_kind s of
        SlidingWindow w extra \<Rightarrow>
          k div sp_block_size s \<le> j + nat (max (cdiv (w - 1) (int (sp_block_size s))) 1)
      | _ \<Rightarrow> True)"

definition group_servable :: "pool \<Rightarrow> bytes list \<Rightarrow> kv_cache_spec \<Rightarrow> nat list \<Rightarrow> nat \<Rightarrow> nat \<Rightarrow> bool" where
  \<comment> \<open>a hit of \<open>k\<close> tokens: every block that is needed is cached in all groups\<close>
  "group_servable p l s gids align k \<longleftrightarrow> align dvd k \<and>
     (\<forall>j < k div sp_block_size s. needs s k j \<longrightarrow> cached_at p l s gids j \<noteq> None)"

definition hit_column :: "pool \<Rightarrow> bytes list \<Rightarrow> kv_cache_spec \<Rightarrow> nat list \<Rightarrow> nat \<Rightarrow> nat \<Rightarrow> block_ref list \<Rightarrow> bool" where
  \<comment> \<open>the blocks of the \<open>i\<close>-th group for a hit of \<open>k\<close> tokens: the cached block where one is needed, else the null block\<close>
  "hit_column p l s gids i k col \<longleftrightarrow> length col = k div sp_block_size s \<and>
     (\<forall>j<length col. if needs s k j then \<exists>row. cached_at p l s gids j = Some row \<and> col ! j = row ! i
                     else col ! j = null_block p)"

definition hit_columns :: "pool \<Rightarrow> bytes list \<Rightarrow> kv_cache_spec \<Rightarrow> nat list \<Rightarrow> nat \<Rightarrow> block_ref list list \<Rightarrow> bool" where
  "hit_columns p l s gids k cols \<longleftrightarrow> length cols = length gids \<and>
     (\<forall>i<length gids. hit_column p l s gids i k (cols ! i))"

lemma hit_columns_rows:
  assumes "length rows = k div sp_block_size s"
    and "\<forall>j<length rows. if needs s k j then cached_at p l s gids j = Some (rows ! j)
      else rows ! j = replicate (length gids) (null_block p)"
  shows "hit_columns p l s gids k (columns (length gids) rows)"
  using assms by (auto simp: hit_columns_def hit_column_def columns_def)

definition searchable :: "pool \<Rightarrow> bytes list \<Rightarrow> kv_cache_spec \<Rightarrow> nat list \<Rightarrow> nat \<Rightarrow> nat \<Rightarrow> bool" where
  \<comment> \<open>a group of full or sliding window attention whose blocks divide the alignment\<close>
  "searchable p l s gids align limit \<longleftrightarrow>
     cache_inv p \<and> gids \<noteq> [] \<and> (\<forall>g\<in>set gids. g < 2 ^ 32) \<and> 0 < hash_block_size p \<and> 0 < sp_block_size s \<and>
     sp_block_size s mod hash_block_size p = 0 \<and> 0 < align \<and> sp_block_size s dvd align \<and>
     limit div sp_block_size s \<le> num_keys l (hash_block_size p) (sp_block_size s) \<and>
     (is_full_spec s \<or> (\<exists>w extra. sp_kind s = SlidingWindow w extra))"

lemma searchable_groups: "searchable p l s gids align limit \<Longrightarrow> valid_groups (map int gids)"
  by (auto simp: searchable_def valid_groups_def)

definition exact_hit :: "pool \<Rightarrow> bytes list \<Rightarrow> kv_cache_spec \<Rightarrow> nat list \<Rightarrow> nat \<Rightarrow> nat \<Rightarrow> block_ref list list \<Rightarrow> nat \<Rightarrow> bool" where
  "exact_hit p l s gids align n cols h \<longleftrightarrow> hit_columns p l s gids h cols \<and> h \<le> n \<and>
     group_servable p l s gids align h \<and> (\<forall>k\<le>n. group_servable p l s gids align k \<longrightarrow> k \<le> h)"

lemma full_needs: "is_full_spec s \<Longrightarrow> needs s k j"
  by (auto simp: needs_def is_full_spec_def split: attn_kind.splits)

lemma full_group_exact:
  assumes ok: "searchable p l s gids align limit" and n: "n \<le> limit" and full: "is_full_spec s"
  shows "\<exists>cols h. group_find p l s gids n False align 1 1 = Inr (cols, h) \<and> exact_hit p l s gids align n cols h"
proof -
  let ?bs = "sp_block_size s" and ?gs = "map int gids"
  have c: "cache_inv p" "0 < hash_block_size p" "0 < ?bs" "?bs mod hash_block_size p = 0" "0 < align" "?bs dvd align"
    "limit div ?bs \<le> num_keys l (hash_block_size p) ?bs" using ok by (simp_all add: searchable_def)
  have mn: "min align ?bs = ?bs" using c(5,6) by (simp add: dvd_imp_le)
  obtain rows m where r: "full_hit_rows p (Raw l) n ?gs ?bs False align 1 = Inr (finish_hit ?bs align False (rows, int m))"
    and m: "longest_match p ?gs l ?bs ?bs n m" and mr: "match_rows p ?gs l ?bs m rows"
    using full_hit_rows_coarse [OF c(1) searchable_groups [OF ok] c(2,4,3,5,6), of l n False] unfolding mn by blast
  let ?h = "m - m mod align"
  let ?R = "take (?h div ?bs) rows"
  have M: "full_match p ?gs l ?bs ?bs n m" "\<And>k. full_match p ?gs l ?bs ?bs n k \<Longrightarrow> k \<le> m"
    using m by (auto simp: longest_match_def)
  have h: "hit_tokens False ?bs align m = ?h" by (simp add: hit_tokens_def)
  have dv: "?bs dvd m" using M(1) by (simp add: full_match_def)
  have al: "align dvd ?h" by (simp add: dvd_minus_mod)
  then have dh: "?bs dvd ?h" using c(6) dvd_trans by blast
  have cd: "nat (cdiv (int k) (int ?bs)) = k div ?bs" if "?bs dvd k" for k
    using cdiv_nat [OF c(3), of k] that by simp
  have sp: "sp_kind s = FullAttn \<or> (\<exists>w. sp_kind s = RSWA w)"
    using full by (auto simp: is_full_spec_def split: attn_kind.splits)
  have "finish_hit ?bs align False (rows, int m) = (?R, int ?h)"
    using finish_hit_eq [OF c(5), of ?bs m False rows] dv unfolding mn h cd [OF dh] by simp
  then have "group_find p l s gids n False align 1 1 = Inr (columns (length gids) ?R, ?h)"
    using sp r by (auto simp: group_find_def full_find_longest_cache_hit_def)
  moreover have le: "?h div ?bs \<le> m div ?bs" by (simp add: div_le_mono)
  have "int (length rows) = cdiv (int m) (int ?bs)" using mr by (simp add: match_rows_def)
  then have lr: "length rows = m div ?bs" using cd [OF dv] by linarith
  have "hit_columns p l s gids ?h (columns (length gids) ?R)"
    using mr le lr full_needs [OF full] by (intro hit_columns_rows) (auto simp: match_rows_def match_row_def cached_at_def)
  moreover have "m \<le> n" using M(1) by (simp add: full_match_def)
  then have "?h \<le> n" by linarith
  moreover have "group_servable p l s gids align ?h"
    using M(1) le al by (auto simp: group_servable_def full_match_def cached_at_def)
  moreover have "k \<le> ?h" if k: "k \<le> n" "group_servable p l s gids align k" for k
  proof -
    have "align dvd k" "\<forall>j < k div ?bs. cached_at p l s gids j \<noteq> None"
      using k(2) full_needs [OF full] by (auto simp: group_servable_def)
    moreover from this have "?bs dvd k" using c(6) dvd_trans by blast
    moreover have "k div ?bs \<le> num_keys l (hash_block_size p) ?bs"
      using div_le_mono [of k limit ?bs] k(1) n c(7) by simp
    ultimately have "full_match p ?gs l ?bs ?bs n k" using k(1) by (auto simp: full_match_def cached_at_def)
    then have "k \<le> m" by (rule M(2))
    then have "k div align * align \<le> m div align * align" by (intro mult_le_mono1 div_le_mono)
    then show ?thesis using \<open>align dvd k\<close> by (simp add: minus_mod_eq_div_mult)
  qed
  ultimately show ?thesis unfolding exact_hit_def by blast
qed

lemma sw_group_exact:
  assumes ok: "searchable p l s gids align limit" and n: "n \<le> limit" and sw: "sp_kind s = SlidingWindow w extra"
  shows "\<exists>cols h. group_find p l s gids n False align 1 1 = Inr (cols, h) \<and> exact_hit p l s gids align n cols h"
proof -
  let ?bs = "sp_block_size s" and ?gs = "map int gids"
  let ?need = "nat (max (cdiv (w - 1) (int ?bs)) 1)"
  have c: "cache_inv p" "0 < hash_block_size p" "0 < ?bs" "?bs mod hash_block_size p = 0" "0 < align" "?bs dvd align"
    "limit div ?bs \<le> num_keys l (hash_block_size p) ?bs" using ok by (simp_all add: searchable_def)
  have "n div ?bs \<le> num_keys l (hash_block_size p) ?bs" using div_le_mono [OF n, of ?bs] c(7) by simp
  from sw_hit_rows_spec [OF c(1) searchable_groups [OF ok] c(2,4,3,5) this, of w] obtain rows where
    r: "sw_hit_rows p (Raw l) n ?gs ?bs w False align = Inr (rows, length rows * ?bs)"
    and S: "sw_result (cached_at p l s gids) ?bs align ?need (n div ?bs) (replicate (length ?gs) (null_block p)) rows"
    unfolding cached_at_def [symmetric] by blast
  have al: "aligned ?bs align k \<longleftrightarrow> align dvd k * ?bs" for k
    using c(6) by (auto simp: aligned_def dvd_eq_mod_eq_0 [symmetric])
  have sv: "group_servable p l s gids align (k * ?bs) \<longleftrightarrow> sw_servable (cached_at p l s gids) ?bs align ?need k" for k
    using sw c(3) by (simp add: group_servable_def sw_servable_def al needs_def)
  have "group_find p l s gids n False align 1 1 = Inr (columns (length gids) rows, length rows * ?bs)"
    using sw r by (simp add: group_find_def sw_find_longest_cache_hit_def)
  moreover have "hit_columns p l s gids (length rows * ?bs) (columns (length gids) rows)"
    using S sw c(3) by (intro hit_columns_rows) (simp_all add: sw_result_def needs_def)
  moreover have "length rows \<le> n div ?bs" using S by (simp add: sw_result_def)
  then have "length rows * ?bs \<le> n" using c(3) by (simp add: less_eq_div_iff_mult_less_eq)
  moreover have "group_servable p l s gids align (length rows * ?bs)" using S sv by (simp add: sw_result_def)
  moreover have "k \<le> length rows * ?bs" if k: "k \<le> n" "group_servable p l s gids align k" for k
  proof -
    have "?bs dvd k" using k(2) c(6) dvd_trans by (auto simp: group_servable_def)
    then obtain K where K: "k = K * ?bs" by (metis dvd_div_mult_self)
    have "K \<le> n div ?bs" using k(1) c(3) unfolding K by (simp add: less_eq_div_iff_mult_less_eq)
    then have "K \<le> length rows" using S k(2) sv unfolding K by (simp add: sw_result_def)
    then show ?thesis unfolding K by (rule mult_le_mono1)
  qed
  ultimately show ?thesis unfolding exact_hit_def by blast
qed

lemma group_find_exact:
  assumes ok: "searchable p l s gids align limit" and n: "n \<le> limit"
  shows "\<exists>cols h. group_find p l s gids n False align 1 1 = Inr (cols, h) \<and> exact_hit p l s gids align n cols h"
proof (cases "is_full_spec s")
  case True
  then show ?thesis by (rule full_group_exact [OF ok n])
next
  case False
  then obtain w extra where "sp_kind s = SlidingWindow w extra" using ok by (auto simp: searchable_def)
  then show ?thesis by (rule sw_group_exact [OF ok n])
qed

lemma group_servable_down:
  assumes "is_full_spec s" and "group_servable p l s gids align k" and "j \<le> k" and "align dvd j"
  shows "group_servable p l s gids align j"
proof -
  have "j div sp_block_size s \<le> k div sp_block_size s" using assms(3) by (rule div_le_mono)
  then show ?thesis using assms full_needs [OF assms(1)] by (auto simp: group_servable_def)
qed

definition group_len :: "pool \<Rightarrow> bytes list \<Rightarrow> kv_cache_spec \<Rightarrow> nat list \<Rightarrow> nat \<Rightarrow> nat \<Rightarrow> nat \<Rightarrow> nat" where
  \<comment> \<open>the length that the lookup of a group returns\<close>
  "group_len p l s gids align limit n =
     (if n \<le> limit \<and> searchable p l s gids align limit
      then case group_find p l s gids n False align 1 1 of Inr (cols, h) \<Rightarrow> h | Inl e \<Rightarrow> 0 else 0)"

definition group_serves :: "pool \<Rightarrow> bytes list \<Rightarrow> kv_cache_spec \<Rightarrow> nat list \<Rightarrow> nat \<Rightarrow> nat \<Rightarrow> nat \<Rightarrow> bool" where
  "group_serves p l s gids align limit k \<longleftrightarrow>
     (if searchable p l s gids align limit then group_servable p l s gids align k else k = 0)"

lemma group_find_len:
  assumes "searchable p l s gids align limit" and "n \<le> limit"
  shows "\<exists>cols. group_find p l s gids n False align 1 1 = Inr (cols, group_len p l s gids align limit n) \<and>
    hit_columns p l s gids (group_len p l s gids align limit n) cols"
  using group_find_exact [OF assms] assms by (auto simp: group_len_def exact_hit_def)

interpretation group: hit_search "group_len p l s gids align limit" "group_serves p l s gids align limit" align limit
  for p l s gids align limit
proof
  fix n k :: nat
  show "group_len p l s gids align limit n \<le> n"
    using group_find_exact [of p l s gids align limit n] by (auto simp: group_len_def exact_hit_def)
  show "n \<le> limit \<Longrightarrow> group_serves p l s gids align limit (group_len p l s gids align limit n)"
    using group_find_exact [of p l s gids align limit n] by (auto simp: group_len_def group_serves_def exact_hit_def)
  show "k \<le> group_len p l s gids align limit n"
    if "n \<le> limit" "group_serves p l s gids align limit k" "k \<le> n"
    using group_find_exact [of p l s gids align limit n] that
    by (auto simp: group_len_def group_serves_def exact_hit_def split: if_splits)
  show "group_serves p l s gids align limit k \<Longrightarrow> align dvd k"
    by (auto simp: group_serves_def group_servable_def split: if_splits)
qed

definition as_full :: "kv_cache_spec \<Rightarrow> kv_cache_spec" where
  \<comment> \<open>the specification itself when it is one of full attention\<close>
  "as_full s = (if is_full_spec s then s else s\<lparr>sp_kind := FullAttn\<rparr>)"

interpretation full: dense_search "group_len p l (as_full s) gids align limit"
  "group_serves p l (as_full s) gids align limit" align limit
  for p l s gids align limit
proof
  fix k j :: nat
  assume a: "group_serves p l (as_full s) gids align limit k" "j \<le> k" "align dvd j"
  have "is_full_spec (as_full s)" by (simp add: as_full_def is_full_spec_def)
  from group_servable_down [OF this _ a(2,3)] a
  show "group_serves p l (as_full s) gids align limit j" by (auto simp: group_serves_def split: if_splits)
qed

definition spec_len :: "coordinator \<Rightarrow> bytes list \<Rightarrow> nat \<Rightarrow> spec_group \<Rightarrow> nat \<Rightarrow> nat" where
  "spec_len c l limit g = group_len (block_pool c) l (sg_spec g) (group_ids g) (cache_hit_alignment c) limit"

definition spec_serves :: "coordinator \<Rightarrow> bytes list \<Rightarrow> nat \<Rightarrow> spec_group \<Rightarrow> nat \<Rightarrow> bool" where
  "spec_serves c l limit g = group_serves (block_pool c) l (sg_spec g) (group_ids g) (cache_hit_alignment c) limit"

lemma spec_le: "spec_len c l limit g n \<le> n"
  unfolding spec_len_def by (rule group.find_le)

lemma spec_serv: "n \<le> limit \<Longrightarrow> spec_serves c l limit g (spec_len c l limit g n)"
  unfolding spec_len_def spec_serves_def by (rule group.find_serv)

lemma spec_max: "n \<le> limit \<Longrightarrow> spec_serves c l limit g k \<Longrightarrow> k \<le> n \<Longrightarrow> k \<le> spec_len c l limit g n"
  unfolding spec_len_def spec_serves_def by (rule group.find_max)

lemma spec_aligned: "spec_serves c l limit g k \<Longrightarrow> cache_hit_alignment c dvd k"
  unfolding spec_serves_def by (rule group.serv_aligned)

lemma spec_down:
  "is_full_spec (sg_spec g) \<Longrightarrow> spec_serves c l limit g k \<Longrightarrow> j \<le> k \<Longrightarrow> cache_hit_alignment c dvd j \<Longrightarrow> spec_serves c l limit g j"
  using full.down [of "block_pool c" l "sg_spec g" "group_ids g" "cache_hit_alignment c" limit k j]
  by (simp add: spec_serves_def as_full_def)

definition plain_groups :: "coordinator \<Rightarrow> bytes list \<Rightarrow> nat \<Rightarrow> spec_group list \<Rightarrow> bool" where
  \<comment> \<open>no speculative decoding drop, no context parallelism, every group id of one specification only\<close>
  "plain_groups c l limit gs \<longleftrightarrow> distinct (concat (map group_ids gs)) \<and>
     (\<forall>g\<in>set gs. \<not> sg_use_eagle g \<and>
        searchable (block_pool c) l (sg_spec g) (group_ids g) (cache_hit_alignment c) limit \<and>
        hd (group_ids g) < length (single_type_managers c) \<and>
        dcp_world_size (single_type_managers c ! hd (group_ids g)) = 1 \<and>
        pcp_world_size (single_type_managers c ! hd (group_ids g)) = 1 \<and>
        gm_block_size (single_type_managers c ! hd (group_ids g)) = sp_block_size (sg_spec g) \<and>
        (\<forall>i\<in>set (group_ids g). i < length (kv_cache_groups c)))"

definition found :: "hit_state \<Rightarrow> spec_group \<Rightarrow> bool" where
  \<comment> \<open>a group that is only trimmed when it is visited again\<close>
  "found st g \<longleftrightarrow> is_full_spec (sg_spec g) \<and> hit_blocks_by_group st (hd (group_ids g)) \<noteq> None"

lemma record_hits_other:
  "i \<notin> set gs \<Longrightarrow> hit_blocks_by_group (record_hits gs cols n st) i = hit_blocks_by_group st i \<and>
    hit_length_by_group (record_hits gs cols n st) i = hit_length_by_group st i"
  by (induction gs cols n st rule: record_hits.induct) auto

lemma record_hits_curr [simp]: "curr_hit_length (record_hits gs cols n st) = curr_hit_length st"
  by (induction gs cols n st rule: record_hits.induct) auto

lemma py_get_hd: "xs \<noteq> [] \<Longrightarrow> py_get xs 0 = Inr (hd xs)"
  by (cases xs) (auto simp: py_get_def)

definition filled :: "coordinator \<Rightarrow> bytes list \<Rightarrow> hit_state \<Rightarrow> spec_group \<Rightarrow> nat \<Rightarrow> bool" where
  \<comment> \<open>the blocks and the length recorded for all group ids of a specification\<close>
  "filled c l st g n \<longleftrightarrow> (\<forall>i<length (group_ids g). hit_length_by_group st (group_ids g ! i) = n \<and>
     (\<exists>col. hit_blocks_by_group st (group_ids g ! i) = Some col \<and>
        hit_column (block_pool c) l (sg_spec g) (group_ids g) i n col))"

definition unchanged :: "nat set \<Rightarrow> hit_state \<Rightarrow> hit_state \<Rightarrow> bool" where
  "unchanged I st st' \<longleftrightarrow> (\<forall>i\<in>I. hit_blocks_by_group st' i = hit_blocks_by_group st i \<and>
     hit_length_by_group st' i = hit_length_by_group st i)"

definition visited :: "coordinator \<Rightarrow> bytes list \<Rightarrow> nat \<Rightarrow> spec_group \<Rightarrow> hit_state \<Rightarrow> hit_state \<Rightarrow> bool" where
  \<comment> \<open>the effect of one visit\<close>
  "visited c l limit g st st' \<longleftrightarrow> unchanged (- set (group_ids g)) st st' \<and>
     (if found st g
      then unchanged UNIV st st' \<and>
           curr_hit_length st' = min (curr_hit_length st) (hit_length_by_group st (hd (group_ids g)))
      else filled c l st' g (spec_len c l limit g (curr_hit_length st)) \<and>
           curr_hit_length st' = spec_len c l limit g (curr_hit_length st))"

lemma filled_cong: "unchanged (set (group_ids g)) st st' \<Longrightarrow> filled c l st' g n = filled c l st g n"
  by (simp add: filled_def unchanged_def)

lemma found_cong: "unchanged (set (group_ids g)) st st' \<Longrightarrow> group_ids g \<noteq> [] \<Longrightarrow> found st' g = found st g"
  by (simp add: found_def unchanged_def)

lemma unchanged_mono: "unchanged I st st' \<Longrightarrow> J \<subseteq> I \<Longrightarrow> unchanged J st st'"
  by (auto simp: unchanged_def)

lemma unchanged_trans: "unchanged I st st' \<Longrightarrow> unchanged I st' st'' \<Longrightarrow> unchanged I st st''"
  by (simp add: unchanged_def)

lemma record_hits_filled:
  assumes "distinct (group_ids g)" and "hit_columns (block_pool c) l (sg_spec g) (group_ids g) n cols"
  shows "filled c l (record_hits (group_ids g) cols n st) g n"
proof -
  have nth: "hit_blocks_by_group (record_hits gs bs n st) (gs ! i) = Some (bs ! i) \<and>
    hit_length_by_group (record_hits gs bs n st) (gs ! i) = n"
    if "distinct gs" "length bs = length gs" "i < length gs" for gs bs i st
    using that
  proof (induction gs bs n st arbitrary: i rule: record_hits.induct)
    case (1 g gs b bs n st)
    then show ?case by (cases i) (auto simp: record_hits_other)
  qed auto
  show ?thesis using assms nth by (auto simp: filled_def hit_columns_def)
qed

lemma visit_group_step:
  assumes pg: "plain_groups c l limit gs" and g: "g \<in> set gs" and n: "curr_hit_length st \<le> limit"
  shows "\<exists>st'. visit_group c l limit (i, g) st = Inr st' \<and> visited c l limit g st st'"
proof -
  let ?al = "cache_hit_alignment c" and ?gid = "hd (group_ids g)"
  have gs: "\<not> sg_use_eagle g" "searchable (block_pool c) l (sg_spec g) (group_ids g) ?al limit"
    "?gid < length (single_type_managers c)" "dcp_world_size (single_type_managers c ! ?gid) = 1"
    "pcp_world_size (single_type_managers c ! ?gid) = 1"
    using pg g by (auto simp: plain_groups_def)
  have ne: "group_ids g \<noteq> []" using gs(2) by (simp add: searchable_def)
  have ds: "distinct (group_ids g)" using pg g by (auto simp: plain_groups_def distinct_concat_iff)
  have m: "py_get (single_type_managers c) (int ?gid) = Inr (single_type_managers c ! ?gid)"
    using gs(3) by (simp add: py_get_def)
  from group_find_len [OF gs(2) n] obtain cols where
    f: "group_find (block_pool c) l (sg_spec g) (group_ids g) (curr_hit_length st) False ?al 1 1
      = Inr (cols, spec_len c l limit g (curr_hit_length st))"
      "hit_columns (block_pool c) l (sg_spec g) (group_ids g) (spec_len c l limit g (curr_hit_length st)) cols"
    unfolding spec_len_def by blast
  show ?thesis
  proof (cases "found st g")
    case True
    then show ?thesis using py_get_hd [OF ne] m
      by (auto simp: visit_group_def found_def visited_def unchanged_def Let_def)
  next
    case False
    then have nf: "\<not> (is_full_spec (sg_spec g) \<and> hit_blocks_by_group st ?gid \<noteq> None)" by (simp add: found_def)
    let ?n = "spec_len c l limit g (curr_hit_length st)"
    let ?st = "st\<lparr>eagle_verified := (if ?n < curr_hit_length st then [] else eagle_verified st),
                   curr_hit_length := ?n, longest_hit_length := max (longest_hit_length st) ?n\<rparr>"
    have "visit_group c l limit (i, g) st = Inr (record_hits (group_ids g) cols ?n ?st)"
      unfolding visit_group_def Let_def using py_get_hd [OF ne] m gs(1,4,5) f(1) nf
      by auto
    then show ?thesis using False record_hits_filled [OF ds f(2)]
      by (simp add: visited_def unchanged_def record_hits_other)
  qed
qed

definition common :: "coordinator \<Rightarrow> bytes list \<Rightarrow> nat \<Rightarrow> nat \<Rightarrow> bool" where
  "common c l limit k \<longleftrightarrow> (\<forall>g\<in>set (attention_groups c). spec_serves c l limit g k)"

definition upper :: "coordinator \<Rightarrow> bytes list \<Rightarrow> nat \<Rightarrow> nat \<Rightarrow> bool" where
  "upper c l limit n \<longleftrightarrow> n \<le> limit \<and> (\<forall>k\<le>limit. common c l limit k \<longrightarrow> k \<le> n)"

definition search_inv :: "coordinator \<Rightarrow> bytes list \<Rightarrow> nat \<Rightarrow> hit_state \<Rightarrow> bool" where
  \<comment> \<open>what is recorded for a group that is only trimmed later\<close>
  "search_inv c l limit st \<longleftrightarrow> (\<forall>g\<in>set (attention_groups c). found st g \<longrightarrow>
     (\<exists>n. filled c l st g n \<and> spec_serves c l limit g n \<and> upper c l limit n))"

definition settled :: "coordinator \<Rightarrow> bytes list \<Rightarrow> nat \<Rightarrow> hit_state \<Rightarrow> nat \<Rightarrow> spec_group \<Rightarrow> bool" where
  \<comment> \<open>a group that has recorded a hit which can be cut to \<open>n\<close> tokens\<close>
  "settled c l limit st n g \<longleftrightarrow> (\<exists>L. filled c l st g L \<and> spec_serves c l limit g L \<and>
     (if is_full_spec (sg_spec g) then n \<le> L else L = n))"

lemma spec_len_upper:
  assumes "g \<in> set (attention_groups c)" and "upper c l limit n"
  shows "upper c l limit (spec_len c l limit g n)"
proof -
  have n: "n \<le> limit" using assms(2) by (simp add: upper_def)
  have "spec_len c l limit g n \<le> limit" using spec_le [of c l limit g n] n by simp
  moreover have "k \<le> spec_len c l limit g n" if "k \<le> limit" "common c l limit k" for k
    using assms that spec_max [OF n, of c l g k] by (simp add: upper_def common_def)
  ultimately show ?thesis by (simp add: upper_def)
qed

lemma ids_apart:
  assumes "distinct (concat (map group_ids (g # gs)))" and "h \<in> set gs"
  shows "set (group_ids h) \<subseteq> - set (group_ids g)"
  using assms by fastforce

lemma groups_apart:
  assumes "distinct (concat (map group_ids gs))" and "g \<in> set gs" and "h \<in> set gs" and "g \<noteq> h"
  shows "set (group_ids h) \<subseteq> - set (group_ids g)"
  using assms
proof (induction gs)
  case (Cons a gs)
  consider "g = a" "h \<in> set gs" | "h = a" "g \<in> set gs" | "g \<in> set gs" "h \<in> set gs" using Cons.prems by auto
  then show ?case
  proof cases
    case 1
    then show ?thesis using ids_apart [OF Cons.prems(1)] by simp
  next
    case 2
    then show ?thesis using ids_apart [OF Cons.prems(1) 2(2)] by blast
  next
    case 3
    then show ?thesis using Cons by simp
  qed
qed simp

lemma filled_hd: "filled c l st g n \<Longrightarrow> group_ids g \<noteq> [] \<Longrightarrow> hit_length_by_group st (hd (group_ids g)) = n"
  by (simp add: filled_def hd_conv_nth)

lemma plain_ids: "plain_groups c l limit gs \<Longrightarrow> g \<in> set gs \<Longrightarrow> group_ids g \<noteq> []"
  by (auto simp: plain_groups_def searchable_def)

lemma visit_inv:
  assumes pg: "plain_groups c l limit (attention_groups c)" and g: "g \<in> set (attention_groups c)"
    and inv: "search_inv c l limit st" and up: "upper c l limit (curr_hit_length st)"
    and v: "visited c l limit g st st'"
  shows "search_inv c l limit st'"
  unfolding search_inv_def
proof (intro ballI impI)
  fix h assume h: "h \<in> set (attention_groups c)" "found st' h"
  have n: "curr_hit_length st \<le> limit" using up by (simp add: upper_def)
  show "\<exists>n. filled c l st' h n \<and> spec_serves c l limit h n \<and> upper c l limit n"
  proof (cases "h = g \<and> \<not> found st g")
    case True
    then show ?thesis using v spec_serv [OF n] spec_len_upper [OF g up] by (auto simp: visited_def)
  next
    case False
    have "unchanged (set (group_ids h)) st st'"
    proof (cases "h = g")
      case True
      then have "unchanged UNIV st st'" using v False by (simp add: visited_def)
      then show ?thesis by (rule unchanged_mono) simp
    next
      case False
      have "unchanged (- set (group_ids g)) st st'" using v by (simp add: visited_def)
      moreover have "distinct (concat (map group_ids (attention_groups c)))" using pg by (simp add: plain_groups_def)
      then have "set (group_ids h) \<subseteq> - set (group_ids g)" using groups_apart g h(1) False by metis
      ultimately show ?thesis by (rule unchanged_mono)
    qed
    note u = this
    then have "found st h" using h(2) found_cong [OF u plain_ids [OF pg h(1)]] by simp
    then show ?thesis using inv h(1) by (simp add: filled_cong [OF u] search_inv_def)
  qed
qed

lemma visit_keeps:
  assumes pg: "plain_groups c l limit (attention_groups c)" and g: "g \<in> set (attention_groups c)"
    and inv: "search_inv c l limit st" and up: "upper c l limit (curr_hit_length st)"
    and v: "visited c l limit g st st'"
  shows "upper c l limit (curr_hit_length st')" and "curr_hit_length st' \<le> curr_hit_length st"
    and "settled c l limit st' (curr_hit_length st') g"
    and "cache_hit_alignment c dvd curr_hit_length st \<or> \<not> found st g \<Longrightarrow> cache_hit_alignment c dvd curr_hit_length st'"
proof -
  let ?n = "curr_hit_length st" and ?n' = "curr_hit_length st'"
  have n: "?n \<le> limit" using up by (simp add: upper_def)
  note S = spec_serv [OF n, of c l g] and U = spec_len_upper [OF g up] and A = spec_aligned
  have "upper c l limit ?n' \<and> ?n' \<le> ?n \<and> settled c l limit st' ?n' g \<and>
    (cache_hit_alignment c dvd ?n \<or> \<not> found st g \<longrightarrow> cache_hit_alignment c dvd ?n')"
  proof (cases "found st g")
    case True
    then obtain L where L: "filled c l st g L" "spec_serves c l limit g L" "upper c l limit L"
      using inv g by (auto simp: search_inv_def)
    have u: "unchanged UNIV st st'" and e: "?n' = min ?n L"
      using v True filled_hd [OF L(1) plain_ids [OF pg g]] by (simp_all add: visited_def)
    from u have "filled c l st' g L" using L(1) filled_cong [OF unchanged_mono] by blast
    then have "settled c l limit st' ?n' g" using L(2) e True by (auto simp: settled_def found_def)
    then show ?thesis using True e L(3) up A [OF L(2)] by (auto simp: upper_def min_def)
  next
    case False
    then have e: "?n' = spec_len c l limit g ?n" "filled c l st' g ?n'" using v by (simp_all add: visited_def)
    then have "settled c l limit st' ?n' g" using S by (auto simp: settled_def)
    then show ?thesis using e U A [OF S] spec_le [of c l limit g ?n] by simp
  qed
  then show "upper c l limit ?n'" "?n' \<le> ?n" "settled c l limit st' ?n' g"
    "cache_hit_alignment c dvd ?n \<or> \<not> found st g \<Longrightarrow> cache_hit_alignment c dvd ?n'" by blast+
qed

lemma settled_cong: "unchanged (set (group_ids g)) st st' \<Longrightarrow> settled c l limit st' n g = settled c l limit st n g"
  by (simp add: settled_def filled_cong)

lemma settled_less: "settled c l limit st n g \<Longrightarrow> is_full_spec (sg_spec g) \<Longrightarrow> m \<le> n \<Longrightarrow> settled c l limit st m g"
  by (auto simp: settled_def intro: le_trans)

lemma pass_keeps:
  assumes "plain_groups c l limit (attention_groups c)" and "set gs \<subseteq> set (attention_groups c)"
    and "distinct (concat (map group_ids gs))"
    and "search_inv c l limit st" and "upper c l limit (curr_hit_length st)"
  shows "\<exists>st'. rfold (visit_group c l limit) (enumerate i gs) st = Inr st' \<and> search_inv c l limit st' \<and>
    upper c l limit (curr_hit_length st') \<and> curr_hit_length st' \<le> curr_hit_length st \<and>
    unchanged (- set (concat (map group_ids gs))) st st' \<and>
    (\<forall>g\<in>set gs. is_full_spec (sg_spec g) \<or> curr_hit_length st' = curr_hit_length st \<or> g = List.last gs \<longrightarrow>
       settled c l limit st' (curr_hit_length st') g) \<and>
    (cache_hit_alignment c dvd curr_hit_length st \<or> (\<exists>g\<in>set gs. \<not> found st g) \<longrightarrow>
       cache_hit_alignment c dvd curr_hit_length st')"
  using assms
proof (induction gs arbitrary: i st)
  case Nil
  then show ?case by (simp add: unchanged_def)
next
  case (Cons g gs)
  have g: "g \<in> set (attention_groups c)" and n: "curr_hit_length st \<le> limit"
    using Cons.prems by (auto simp: upper_def)
  obtain st1 where s1: "visit_group c l limit (i, g) st = Inr st1" and v: "visited c l limit g st st1"
    using visit_group_step [OF Cons.prems(1) g n] by blast
  note k = visit_keeps [OF Cons.prems(1) g Cons.prems(4,5) v]
  note vi = visit_inv [OF Cons.prems(1) g Cons.prems(4,5) v]
  have "set gs \<subseteq> set (attention_groups c)" "distinct (concat (map group_ids gs))" using Cons.prems by auto
  from Cons.IH [OF Cons.prems(1) this vi k(1), of "Suc i"] obtain st' where
    s2: "rfold (visit_group c l limit) (enumerate (Suc i) gs) st1 = Inr st'" "search_inv c l limit st'"
      "upper c l limit (curr_hit_length st')" "curr_hit_length st' \<le> curr_hit_length st1"
      "unchanged (- set (concat (map group_ids gs))) st1 st'"
    and c2: "\<forall>g\<in>set gs. is_full_spec (sg_spec g) \<or> curr_hit_length st' = curr_hit_length st1 \<or> g = List.last gs \<longrightarrow>
       settled c l limit st' (curr_hit_length st') g"
    and a2: "cache_hit_alignment c dvd curr_hit_length st1 \<or> (\<exists>g\<in>set gs. \<not> found st1 g) \<longrightarrow>
       cache_hit_alignment c dvd curr_hit_length st'"
    by blast
  have u1: "unchanged (- set (group_ids g)) st st1" using v by (simp add: visited_def)
  have fo: "found st1 h = found st h" if h: "h \<in> set gs" for h
  proof (rule found_cong)
    show "unchanged (set (group_ids h)) st st1"
      using u1 ids_apart [OF Cons.prems(3) h] by (rule unchanged_mono)
    show "group_ids h \<noteq> []" using Cons.prems(1,2) h by (auto simp: plain_groups_def searchable_def)
  qed
  have "set (group_ids g) \<subseteq> - set (concat (map group_ids gs))" using Cons.prems(3) by auto
  from settled_cong [OF unchanged_mono [OF s2(5) this]] k(3)
  have sg: "settled c l limit st' (curr_hit_length st1) g" by simp
  have first: "settled c l limit st' (curr_hit_length st') g"
    if "is_full_spec (sg_spec g) \<or> curr_hit_length st' = curr_hit_length st \<or> gs = []"
  proof -
    have "curr_hit_length st' = curr_hit_length st1" if "gs = []" using that s2(1) by simp
    then show ?thesis using that sg settled_less [OF sg _ s2(4)] k(2) s2(4) by force
  qed
  have rest: "settled c l limit st' (curr_hit_length st') h"
    if "h \<in> set gs" "is_full_spec (sg_spec h) \<or> curr_hit_length st' = curr_hit_length st \<or> h = List.last gs" for h
    using that c2 k(2) s2(4) by force
  have "\<forall>h\<in>set (g # gs). is_full_spec (sg_spec h) \<or> curr_hit_length st' = curr_hit_length st \<or> h = List.last (g # gs) \<longrightarrow>
    settled c l limit st' (curr_hit_length st') h"
  proof (intro ballI impI)
    fix h assume h: "h \<in> set (g # gs)"
      "is_full_spec (sg_spec h) \<or> curr_hit_length st' = curr_hit_length st \<or> h = List.last (g # gs)"
    show "settled c l limit st' (curr_hit_length st') h"
    proof (cases "h \<in> set gs")
      case True
      then have "List.last (g # gs) = List.last gs" by auto
      then show ?thesis using rest True h(2) by simp
    next
      case False
      then have "h = g" "h = List.last (g # gs) \<Longrightarrow> gs = []" using h(1) by (auto split: if_splits)
      then show ?thesis using first h(2) by blast
    qed
  qed
  moreover have "cache_hit_alignment c dvd curr_hit_length st'"
    if "cache_hit_alignment c dvd curr_hit_length st \<or> (\<exists>g\<in>set (g # gs). \<not> found st g)"
    using that a2 k(4) fo by (cases "found st g") auto
  moreover have "rfold (visit_group c l limit) (enumerate i (g # gs)) st = Inr st'" using s1 s2(1) by simp
  moreover have "curr_hit_length st' \<le> curr_hit_length st" using s2(4) k(2) by simp
  moreover have "unchanged (- set (concat (map group_ids (g # gs)))) st st'"
    using unchanged_mono [OF u1] unchanged_mono [OF s2(5)] by (intro unchanged_trans [of _ st st1 st']) auto
  ultimately show ?case using s2(2,3) by blast
qed

definition hybrid_result :: "coordinator \<Rightarrow> bytes list \<Rightarrow> nat \<Rightarrow> hit_state \<Rightarrow> nat \<Rightarrow> bool" where
  \<comment> \<open>what the loop of the hybrid coordinator leaves\<close>
  "hybrid_result c l limit st h \<longleftrightarrow> upper c l limit h \<and> cache_hit_alignment c dvd h \<and>
     (\<forall>g\<in>set (attention_groups c). settled c l limit st h g)"

lemma visit_groups_keeps:
  assumes pg: "plain_groups c l limit (attention_groups c)" and ne: "attention_groups c \<noteq> []"
    and inv: "search_inv c l limit st" and up: "upper c l limit n"
    and al: "cache_hit_alignment c dvd n \<or> (\<forall>g. \<not> found st g)"
  shows "\<exists>st'. visit_groups c l limit (st\<lparr>curr_hit_length := n\<rparr>) = Inr st' \<and> search_inv c l limit st' \<and>
    upper c l limit (curr_hit_length st') \<and> curr_hit_length st' \<le> n \<and> cache_hit_alignment c dvd curr_hit_length st' \<and>
    (curr_hit_length st' = n \<or>
      (\<forall>g\<in>set (attention_groups c). is_full_spec (sg_spec g) \<or> g = List.last (attention_groups c)) \<longrightarrow>
     hybrid_result c l limit st' (curr_hit_length st'))"
proof -
  let ?st = "st\<lparr>curr_hit_length := n\<rparr>"
  have u: "unchanged (set (group_ids g)) st ?st" for g by (simp add: unchanged_def)
  have f: "found ?st g = found st g" for g by (simp add: found_def)
  have "distinct (concat (map group_ids (attention_groups c)))" using pg by (simp add: plain_groups_def)
  moreover have "search_inv c l limit ?st" using inv by (simp add: search_inv_def f filled_cong [OF u])
  moreover have "upper c l limit (curr_hit_length ?st)" using up by simp
  ultimately obtain st' where
    s: "visit_groups c l limit ?st = Inr st'" "search_inv c l limit st'" "upper c l limit (curr_hit_length st')"
      "curr_hit_length st' \<le> n"
    and e: "\<forall>g\<in>set (attention_groups c). is_full_spec (sg_spec g) \<or> curr_hit_length st' = n \<or>
       g = List.last (attention_groups c) \<longrightarrow> settled c l limit st' (curr_hit_length st') g"
    and a: "cache_hit_alignment c dvd n \<or> (\<exists>g\<in>set (attention_groups c). \<not> found ?st g) \<longrightarrow>
       cache_hit_alignment c dvd curr_hit_length st'"
    using pass_keeps [OF pg subset_refl, of ?st 0] unfolding visit_groups_def by auto
  have "\<exists>g. g \<in> set (attention_groups c)" using ne by (cases "attention_groups c") auto
  then have "cache_hit_alignment c dvd curr_hit_length st'" using a al f by auto
  then show ?thesis using s e unfolding hybrid_result_def by blast
qed

lemma hit_loop_exact:
  assumes pg: "plain_groups c l limit (attention_groups c)" and ne: "attention_groups c \<noteq> []"
    and simple: "simple \<longrightarrow>
      (\<forall>g\<in>set (attention_groups c). is_full_spec (sg_spec g) \<or> g = List.last (attention_groups c))"
    and "search_inv c l limit st" and "upper c l limit n"
    and "cache_hit_alignment c dvd n \<or> (\<forall>g. \<not> found st g)"
  shows "\<exists>h st'. hit_loop (visit_groups c l limit) simple n st = Inr (h, st') \<and> hybrid_result c l limit st' h"
  using assms(4-6)
proof (induction n arbitrary: st rule: less_induct)
  case (less n)
  obtain st' where s: "visit_groups c l limit (st\<lparr>curr_hit_length := n\<rparr>) = Inr st'" "search_inv c l limit st'"
    "upper c l limit (curr_hit_length st')" "curr_hit_length st' \<le> n" "cache_hit_alignment c dvd curr_hit_length st'"
    "curr_hit_length st' = n \<or>
      (\<forall>g\<in>set (attention_groups c). is_full_spec (sg_spec g) \<or> g = List.last (attention_groups c)) \<longrightarrow>
     hybrid_result c l limit st' (curr_hit_length st')"
    using visit_groups_keeps [OF pg ne less.prems] by blast
  show ?case
  proof (cases "curr_hit_length st' = n \<or> simple")
    case True
    then have "hybrid_result c l limit st' (curr_hit_length st')" using s(6) simple by blast
    moreover have "hit_loop (visit_groups c l limit) simple n st = Inr (curr_hit_length st', st')"
      using s(1,4) True by (subst hit_loop.simps) auto
    ultimately show ?thesis by blast
  next
    case False
    then have lt: "curr_hit_length st' < n" using s(4) by simp
    then have "hit_loop (visit_groups c l limit) simple n st =
      hit_loop (visit_groups c l limit) simple (curr_hit_length st') st'"
      using s(1) False by (subst hit_loop.simps) simp
    then show ?thesis using less.IH [OF lt s(2,3)] s(5) by simp
  qed
qed

lemma hit_column_take:
  assumes "is_full_spec s" and "hit_column p l s gids i n col" and "k \<le> n"
  shows "hit_column p l s gids i k (take (k div sp_block_size s) col)"
proof -
  have "k div sp_block_size s \<le> n div sp_block_size s" using assms(3) by (rule div_le_mono)
  then show ?thesis using assms(2) by (auto simp: hit_column_def full_needs [OF assms(1)])
qed

lemma truncate_full_blocks:
  assumes "plain_groups c l limit gs" and "\<forall>g\<in>set gs. sp_block_size (sg_spec g) dvd h"
  shows "\<exists>st'. truncate_full c h gs st = Inr st' \<and>
    (\<forall>i. i \<notin> set (concat (map group_ids gs)) \<longrightarrow> hit_blocks_by_group st' i = hit_blocks_by_group st i) \<and>
    (\<forall>g\<in>set gs. \<forall>i\<in>set (group_ids g). hit_blocks_by_group st' i =
       (if is_full_spec (sg_spec g) then map_option (take (h div sp_block_size (sg_spec g))) (hit_blocks_by_group st i)
        else hit_blocks_by_group st i))"
  using assms
proof (induction gs arbitrary: st)
  case Nil
  then show ?case by simp
next
  case (Cons g gs)
  let ?bs = "sp_block_size (sg_spec g)" and ?gid = "hd (group_ids g)"
  have pg: "plain_groups c l limit gs" using Cons.prems(1) by (simp add: plain_groups_def)
  have d: "?bs dvd h" "\<forall>g\<in>set gs. sp_block_size (sg_spec g) dvd h" using Cons.prems(2) by simp_all
  have ap: "\<forall>i\<in>set (group_ids g). i \<notin> set (concat (map group_ids gs))"
    using Cons.prems(1) by (auto simp: plain_groups_def)
  have m: "group_ids g \<noteq> []" "?gid < length (single_type_managers c)" "0 < ?bs"
    "gm_block_size (single_type_managers c ! ?gid) = ?bs"
    using Cons.prems(1) by (simp_all add: plain_groups_def searchable_def)
  define st1 where "st1 = (if is_full_spec (sg_spec g)
    then st\<lparr>hit_blocks_by_group := (\<lambda>i. if i \<in> set (group_ids g)
                    then map_option (take (h div ?bs)) (hit_blocks_by_group st i) else hit_blocks_by_group st i),
            hit_length_by_group := (\<lambda>i. if i \<in> set (group_ids g) \<and> hit_blocks_by_group st i \<noteq> None
                    then h else hit_length_by_group st i)\<rparr>
    else st)"
  have b1: "hit_blocks_by_group st1 i = (if is_full_spec (sg_spec g) \<and> i \<in> set (group_ids g)
      then map_option (take (h div ?bs)) (hit_blocks_by_group st i) else hit_blocks_by_group st i)" for i
    by (simp add: st1_def)
  have n: "nat (cdiv (int h) (int ?bs)) = h div ?bs" using cdiv_nat [OF m(3), of h] d(1) by simp
  have "py_get (single_type_managers c) (int ?gid) = Inr (single_type_managers c ! ?gid)"
    using m(2) by (simp add: py_get_def)
  then have tr: "truncate_full c h (g # gs) st = truncate_full c h gs st1"
    using py_get_hd [OF m(1)] m(3,4) n by (simp add: st1_def cong: if_cong)
  obtain st' where s: "truncate_full c h gs st1 = Inr st'"
    "\<forall>i. i \<notin> set (concat (map group_ids gs)) \<longrightarrow> hit_blocks_by_group st' i = hit_blocks_by_group st1 i"
    "\<forall>g\<in>set gs. \<forall>i\<in>set (group_ids g). hit_blocks_by_group st' i =
       (if is_full_spec (sg_spec g) then map_option (take (h div sp_block_size (sg_spec g))) (hit_blocks_by_group st1 i)
        else hit_blocks_by_group st1 i)"
    using Cons.IH [OF pg d(2), of st1] by blast
  have "hit_blocks_by_group st1 i = hit_blocks_by_group st i" if "i \<notin> set (group_ids g)" for i
    using that b1 by simp
  moreover have "hit_blocks_by_group st' i = hit_blocks_by_group st1 i" if "i \<in> set (group_ids g)" for i
    using that s(2) ap by blast
  moreover have "i \<notin> set (group_ids g)" if "h' \<in> set gs" "i \<in> set (group_ids h')" for i h'
    using that ap by auto
  ultimately show ?case using tr s b1 by (intro exI [of _ st']) auto
qed

lemma init_hit_state: "\<not> found \<lparr>curr_hit_length = n, longest_hit_length = k, hit_blocks_by_group = (\<lambda>_. None),
  hit_length_by_group = (\<lambda>_. 0), eagle_verified = []\<rparr> g"
  by (simp add: found_def)

lemma hybrid_blocks:
  assumes pg: "plain_groups c l limit (attention_groups c)" and res: "hybrid_result c l limit st h"
  shows "\<exists>st'. truncate_full c h (attention_groups c) st = Inr st' \<and>
    (\<forall>g\<in>set (attention_groups c). \<forall>i<length (group_ids g). \<exists>col. hit_blocks_by_group st' (group_ids g ! i) = Some col \<and>
       hit_column (block_pool c) l (sg_spec g) (group_ids g) i h col)"
proof -
  have "\<forall>g\<in>set (attention_groups c). sp_block_size (sg_spec g) dvd h"
    using pg res dvd_trans by (auto simp: plain_groups_def searchable_def hybrid_result_def)
  from truncate_full_blocks [OF pg this] obtain st' where tr: "truncate_full c h (attention_groups c) st = Inr st'"
    and b: "\<forall>g\<in>set (attention_groups c). \<forall>i\<in>set (group_ids g). hit_blocks_by_group st' i =
       (if is_full_spec (sg_spec g) then map_option (take (h div sp_block_size (sg_spec g))) (hit_blocks_by_group st i)
        else hit_blocks_by_group st i)" by blast
  have "\<exists>col. hit_blocks_by_group st' (group_ids g ! i) = Some col \<and>
      hit_column (block_pool c) l (sg_spec g) (group_ids g) i h col"
    if g: "g \<in> set (attention_groups c)" and i: "i < length (group_ids g)" for g i
  proof -
    have "settled c l limit st h g" using res g by (simp add: hybrid_result_def)
    then obtain L col where L: "hit_blocks_by_group st (group_ids g ! i) = Some col"
      "hit_column (block_pool c) l (sg_spec g) (group_ids g) i L col"
      "if is_full_spec (sg_spec g) then h \<le> L else L = h"
      using i unfolding settled_def filled_def by blast
    show ?thesis
      using b g i L hit_column_take [of "sg_spec g" "block_pool c" l "group_ids g" i L col h]
      by (cases "is_full_spec (sg_spec g)") simp_all
  qed
  then show ?thesis using tr by blast
qed

lemma spec_serves_eq:
  "plain_groups c l limit (attention_groups c) \<Longrightarrow> g \<in> set (attention_groups c) \<Longrightarrow>
   spec_serves c l limit g k =
     group_servable (block_pool c) l (sg_spec g) (group_ids g) (cache_hit_alignment c) k"
  by (simp add: spec_serves_def group_serves_def plain_groups_def)

lemma settled_serves:
  "settled c l limit st h g \<Longrightarrow> cache_hit_alignment c dvd h \<Longrightarrow> spec_serves c l limit g h"
  using spec_down by (fastforce simp: settled_def split: if_splits)

definition greatest_hit :: "coordinator \<Rightarrow> bytes list \<Rightarrow> nat \<Rightarrow> nat \<Rightarrow> bool" where
  \<comment> \<open>the greatest length that all groups can serve\<close>
  "greatest_hit c l limit h \<longleftrightarrow>
     (let servable = (\<lambda>k. \<forall>g\<in>set (attention_groups c).
            group_servable (block_pool c) l (sg_spec g) (group_ids g) (cache_hit_alignment c) k)
      in h \<le> limit \<and> servable h \<and> (\<forall>k\<le>limit. servable k \<longrightarrow> k \<le> h))"

lemma hybrid_find_exact:
  assumes pg: "plain_groups c l limit (attention_groups c)" and ne: "attention_groups c \<noteq> []"
  shows "\<exists>cols h e. hybrid_find c l limit = Inr (cols, h, e) \<and> greatest_hit c l limit h \<and>
    (\<forall>g\<in>set (attention_groups c). \<forall>i<length (group_ids g).
       hit_column (block_pool c) l (sg_spec g) (group_ids g) i h (cols ! (group_ids g ! i)))"
proof -
  let ?st = "\<lparr>curr_hit_length = 0, longest_hit_length = 0, hit_blocks_by_group = (\<lambda>_. None),
                 hit_length_by_group = (\<lambda>_. 0), eagle_verified = []\<rparr>"
  define simple where "simple = (case attention_groups c of [g, _] \<Rightarrow> is_full_spec (sg_spec g) | _ \<Rightarrow> False)"
  have sm: "simple \<longrightarrow> (\<forall>g\<in>set (attention_groups c). is_full_spec (sg_spec g) \<or> g = List.last (attention_groups c))"
    by (auto simp: simple_def split: list.splits)
  have "search_inv c l limit ?st" by (simp add: search_inv_def init_hit_state)
  moreover have "upper c l limit limit" by (simp add: upper_def)
  ultimately obtain h st where r: "hit_loop (visit_groups c l limit) simple limit ?st = Inr (h, st)"
    "hybrid_result c l limit st h"
    using hit_loop_exact [OF pg ne sm, of ?st limit] init_hit_state by blast
  obtain st' where t: "truncate_full c h (attention_groups c) st = Inr st'"
    "\<forall>g\<in>set (attention_groups c). \<forall>i<length (group_ids g). \<exists>col. hit_blocks_by_group st' (group_ids g ! i) = Some col \<and>
       hit_column (block_pool c) l (sg_spec g) (group_ids g) i h col"
    using hybrid_blocks [OF pg r(2)] by blast
  let ?cols = "map (\<lambda>i. case hit_blocks_by_group st' i of None \<Rightarrow> [] | Some b \<Rightarrow> b) [0..<length (kv_cache_groups c)]"
  have "hybrid_find c l limit = Inr (?cols, h, longest_hit_length st' - h)"
    unfolding hybrid_find_def Let_def simple_def [symmetric] using r(1) t(1) by simp
  moreover have "hit_column (block_pool c) l (sg_spec g) (group_ids g) i h (?cols ! (group_ids g ! i))"
    if "g \<in> set (attention_groups c)" "i < length (group_ids g)" for g i
    using t(2) that pg by (fastforce simp: plain_groups_def)
  moreover have "common c l limit h" "upper c l limit h"
    using r(2) settled_serves by (auto simp: hybrid_result_def common_def)
  then have "greatest_hit c l limit h"
    by (simp add: greatest_hit_def common_def upper_def spec_serves_eq [OF pg])
  ultimately show ?thesis by blast
qed

text \<open>
  C3: the lookup of the hybrid coordinator, for any number of full attention and sliding window groups,
  never raises on a well formed pool and returns the greatest length up to the given one that every group
  can serve (no greater common one exists), although it searches full attention groups only once and
  stops after one pass in the simple case. For every group it returns the blocks of exactly this length:
  the cached block wherever the next token needs one, and the null block elsewhere.
\<close>
theorem hybrid_hit_exact:
  assumes "co_class c = HybridCoordinator" and "plain_groups c l limit (attention_groups c)"
    and "attention_groups c \<noteq> []"
  shows "\<exists>cols h e. co_find_longest_cache_hit c l limit = Inr (cols, h, e) \<and> greatest_hit c l limit h \<and>
    (\<forall>g\<in>set (attention_groups c). \<forall>i<length (group_ids g).
       hit_column (block_pool c) l (sg_spec g) (group_ids g) i h (cols ! (group_ids g ! i)))"
  using hybrid_find_exact [OF assms(2,3)] assms(1) by (simp add: co_find_longest_cache_hit_def)

definition example_groups :: "kv_cache_group list" where
  "example_groups =
     [\<lparr>gr_spec = \<lparr>sp_kind = FullAttn, sp_block_size = 2, sp_layout = ''kv''\<rparr>, is_eagle_group = False\<rparr>,
      \<lparr>gr_spec = \<lparr>sp_kind = CircularBuffer, sp_block_size = 2, sp_layout = ''ring''\<rparr>, is_eagle_group = False\<rparr>]"

theorem hybrid_hit_exact_witness:
  "\<exists>c p cols e. get_kv_cache_coordinator 5 example_groups None False 64 16 False True False False 1 1 2 2 0 1 = Inr c \<and>
     cache_inv p \<and>
     co_find_longest_cache_hit (c\<lparr>block_pool := p\<rparr>) [[1], [2], [3]] 7 = Inr (cols, 6, e) \<and> length (cols ! 0) = 3"
proof -
  obtain p0 where p0: "pool_init 5 True 2 False False = Inr p0" using pool_init_spec [of 5 True 2 False False] by auto
  have "\<exists>c. get_kv_cache_coordinator 5 example_groups None False 64 16 False True False False 1 1 2 2 0 1 = Inr c \<and>
    co_class c = HybridCoordinator \<and> length (single_type_managers c) = 2 \<and> length (kv_cache_groups c) = 2 \<and>
    attention_groups c = [\<lparr>sg_spec = \<lparr>sp_kind = FullAttn, sp_block_size = 2, sp_layout = ''kv''\<rparr>,
                           group_ids = [0], sg_use_eagle = False\<rparr>] \<and>
    cache_hit_alignment c = 2 \<and> dcp_world_size (single_type_managers c ! 0) = 1 \<and>
    pcp_world_size (single_type_managers c ! 0) = 1 \<and> gm_block_size (single_type_managers c ! 0) = 2"
    using p0 by (simp add: get_kv_cache_coordinator_def base_init_def example_groups_def hybrid_init_def
        verify_and_split_kv_cache_groups_def split_groups_def prefix_cacheable_def is_full_spec_def
        validate_prefix_cache_retention_interval_def cache_hit_alignment_def get_manager_for_kv_cache_spec_def
        dcp_world_size_for_kv_cache_spec_def gm_init_def is_ring_def)
  then obtain c where c: "get_kv_cache_coordinator 5 example_groups None False 64 16 False True False False 1 1 2 2 0 1 = Inr c"
    "co_class c = HybridCoordinator" "length (single_type_managers c) = 2" "length (kv_cache_groups c) = 2"
    "attention_groups c = [\<lparr>sg_spec = \<lparr>sp_kind = FullAttn, sp_block_size = 2, sp_layout = ''kv''\<rparr>,
                           group_ids = [0], sg_use_eagle = False\<rparr>]"
    "cache_hit_alignment c = 2" "dcp_world_size (single_type_managers c ! 0) = 1"
    "pcp_world_size (single_type_managers c ! 0) = 1" "gm_block_size (single_type_managers c ! 0) = 2" by blast
  obtain p where p: "cache_inv p" "hash_block_size p = 2"
    "\<forall>j<3. row_of p [0] (block_key [[1], [2], [3]] 2 2 j) \<noteq> None" using example_pool by blast
  let ?c = "c\<lparr>block_pool := p\<rparr>"
  have al: "cache_hit_alignment ?c = 2" using c(6) by (simp add: cache_hit_alignment_def split: if_splits)
  have "plain_groups ?c [[1], [2], [3]] 7 (attention_groups ?c)"
    using c p al by (simp add: plain_groups_def searchable_def is_full_spec_def num_keys_def)
  from hybrid_hit_exact [OF _ this] c(2,5) obtain cols h e where
    r: "co_find_longest_cache_hit ?c [[1], [2], [3]] 7 = Inr (cols, h, e)" "greatest_hit ?c [[1], [2], [3]] 7 h"
    "length (cols ! 0) = h div 2"
    by (auto simp: hit_column_def)
  have g: "greatest_hit ?c [[1], [2], [3]] 7 h \<longleftrightarrow>
    h \<le> 7 \<and> (2 dvd h \<and> (\<forall>j<h div 2. row_of p [0] (block_key [[1], [2], [3]] 2 2 j) \<noteq> None)) \<and>
    (\<forall>k\<le>7. 2 dvd k \<and> (\<forall>j<k div 2. row_of p [0] (block_key [[1], [2], [3]] 2 2 j) \<noteq> None) \<longrightarrow> k \<le> h)"
    using c(5) al p(2)
    by (simp add: greatest_hit_def group_servable_def needs_def cached_at_def Let_def)
  then have "6 \<le> h" "h \<le> 7" "even h" using r(2) p(3) by auto
  then have "h = 6" by (auto elim!: evenE)
  then show ?thesis using c(1) p(1) r by auto
qed

end
