(* ===== verification/KV_Cache_Manager.thy ===== *)
theory KV_Cache_Manager
  imports Coordinator
begin

text \<open>
  The KV cache manager (\<^verbatim>\<open>vllm/v1/core/kv_cache_manager.py\<close>), the interface of the scheduler to the block
  tables of all KV cache groups: prefix cache lookup, allocation of slots, release, caching, and the
  bookkeeping of copies and of blocks to zero. Its proofs show that the admission check of
  \<^verbatim>\<open>allocate_slots\<close> is sufficient for all stages of the allocation in all groups.
\<close>

section \<open>State\<close>

text \<open>
  The code compares \<^verbatim>\<open>new_computed_blocks.blocks\<close> with the preconstructed empty object by identity. Such
  a \<^verbatim>\<open>KVCacheBlocks\<close> is \<^const>\<open>None\<close> here, every other one is \<^const>\<open>Some\<close> of its blocks by group.
\<close>

type_synonym kv_cache_blocks = "block_ref list list option"

record prefix_cache_stats =
  pcs_reset :: bool
  pcs_requests :: int
  pcs_queries :: int
  pcs_hits :: int
  preempted_requests :: int
  preempted_queries :: int
  preempted_hits :: int

record kv_cache_manager =
  km_coordinator :: coordinator
  max_model_len :: nat
  km_min_prefill_tokens :: nat
  km_enable_caching :: bool
  km_enable_events :: bool
  log_stats :: bool
  prefix_cache_stats :: "prefix_cache_stats option"
  watermark_blocks :: int
  kv_cache_event_metadata :: "(string \<times> int option) list"

abbreviation km_pool :: "kv_cache_manager \<Rightarrow> pool" where
  "km_pool m \<equiv> block_pool (km_coordinator m)"

abbreviation km_managers :: "kv_cache_manager \<Rightarrow> group_manager list" where
  "km_managers m \<equiv> single_type_managers (km_coordinator m)"

definition new_stats :: prefix_cache_stats where
  "new_stats = \<lparr>pcs_reset = False, pcs_requests = 0, pcs_queries = 0, pcs_hits = 0,
     preempted_requests = 0, preempted_queries = 0, preempted_hits = 0\<rparr>"

definition km_init ::
  "nat \<Rightarrow> kv_cache_group list \<Rightarrow> int option \<Rightarrow> bool \<Rightarrow> nat \<Rightarrow> nat \<Rightarrow> nat \<Rightarrow> int option \<Rightarrow> bool \<Rightarrow> bool \<Rightarrow> nat \<Rightarrow>
   bool \<Rightarrow> bool \<Rightarrow> bool \<Rightarrow> nat \<Rightarrow> nat \<Rightarrow> int \<Rightarrow> nat \<Rightarrow> (string \<times> int option) list \<Rightarrow> kv_cache_manager res"
where
  \<comment> \<open>\<open>watermark\<close> is the number of blocks that the fraction given to the code amounts to, and \<open>meta\<close> the
      kind and the window of each group's specification\<close>
  "km_init num_blocks groups retention zeroing max_len sched_bs hash_bs in_flight caching use_eagle lookahead
     log_st events use_int dcp pcp watermark min_prefill meta =
     (let in_flight1 = (case in_flight of None \<Rightarrow> int max_len | Some n \<Rightarrow> n) in
      rbind (get_kv_cache_coordinator num_blocks groups retention zeroing (int max_len) in_flight1 use_eagle
               caching events use_int dcp pcp sched_bs hash_bs lookahead (max 1 min_prefill)) (\<lambda>c.
      rbind (ensure (0 \<le> watermark) AssertionError) (\<lambda>_.
        Inr \<lparr>km_coordinator = c, max_model_len = max_len, km_min_prefill_tokens = max 1 min_prefill,
             km_enable_caching = caching, km_enable_events = events, log_stats = log_st,
             prefix_cache_stats = (if log_st then Some new_stats else None), watermark_blocks = watermark,
             kv_cache_event_metadata = meta\<rparr>)))"

section \<open>Groups of blocks\<close>

definition block_lists :: "kv_cache_manager \<Rightarrow> kv_cache_blocks \<Rightarrow> block_ref list list" where
  \<comment> \<open>the field \<^verbatim>\<open>blocks\<close>\<close>
  "block_lists m kb = (case kb of None \<Rightarrow> map (\<lambda>_. []) (kv_cache_groups (km_coordinator m)) | Some bs \<Rightarrow> bs)"

definition create_kv_cache_blocks :: "block_ref list list \<Rightarrow> kv_cache_blocks" where
  "create_kv_cache_blocks bs = (if \<exists>b\<in>set bs. b \<noteq> [] then Some bs else None)"

definition blocks_add :: "kv_cache_manager \<Rightarrow> kv_cache_blocks \<Rightarrow> kv_cache_blocks \<Rightarrow> kv_cache_blocks" where
  "blocks_add m a b = Some (map2 (@) (block_lists m a) (block_lists m b))"

definition blocks_get_block_ids :: "kv_cache_manager \<Rightarrow> bool \<Rightarrow> kv_cache_blocks \<Rightarrow> int list list option" where
  "blocks_get_block_ids m allow_none kb =
     (if allow_none \<and> (\<forall>g\<in>set (block_lists m kb). g = []) then None
      else Some (map (map block_id) (block_lists m kb)))"

definition get_unhashed_block_ids :: "kv_cache_manager \<Rightarrow> kv_cache_blocks \<Rightarrow> int list res" where
  "get_unhashed_block_ids m kb =
     (case block_lists m kb of
        [g] \<Rightarrow> Inr (map block_id (filter (\<lambda>b. block_hash (blk (km_pool m) b) = None) g))
      | _ \<Rightarrow> Inl AssertionError)"

definition get_unhashed_block_ids_all_groups :: "kv_cache_manager \<Rightarrow> kv_cache_blocks \<Rightarrow> int list list" where
  "get_unhashed_block_ids_all_groups m kb =
     map (\<lambda>g. map block_id (filter (\<lambda>b. block_hash (blk (km_pool m) b) = None \<and> \<not> is_null (blk (km_pool m) b)) g))
       (block_lists m kb)"

definition truncate_group ::
  "nat \<Rightarrow> block_ref list \<times> group_manager \<times> kv_cache_group \<Rightarrow> block_ref list list \<Rightarrow> block_ref list list res"
where
  "truncate_group n bmg acc =
     (case bmg of (bl, gm, g) \<Rightarrow>
        if \<not> prefix_cacheable (gr_spec g)
        then rbind (ensure (bl = []) AssertionError) (\<lambda>_. Inr (acc @ [[]]))
        else
          rbind (ensure (gm_block_size gm \<noteq> 0) ZeroDivisionError) (\<lambda>_.
          rbind (ensure (n mod gm_block_size gm = 0) AssertionError) (\<lambda>_.
          rbind (ensure (n div gm_block_size gm \<le> length bl) AssertionError) (\<lambda>_.
            Inr (acc @ [take (n div gm_block_size gm) bl])))))"

definition truncate_computed_blocks :: "kv_cache_manager \<Rightarrow> kv_cache_blocks \<Rightarrow> nat \<Rightarrow> kv_cache_blocks res" where
  "truncate_computed_blocks m kb n =
     (let bls = block_lists m kb; gms = km_managers m; gs = kv_cache_groups (km_coordinator m)
      in rbind (rfold (truncate_group n) (zip bls (zip gms gs)) []) (\<lambda>bs.
         rbind (ensure (length bls = length gms \<and> length gms = length gs) ValueError) (\<lambda>_.
           Inr (create_kv_cache_blocks bs))))"

section \<open>Lookup\<close>

definition prefix_cache_lookup_enabled :: "kv_cache_manager \<Rightarrow> request \<Rightarrow> bool" where
  "prefix_cache_lookup_enabled m r \<longleftrightarrow> km_enable_caching m \<and> \<not> skip_reading_prefix_cache r"

definition record_stats :: "int \<Rightarrow> int \<Rightarrow> bool \<Rightarrow> prefix_cache_stats \<Rightarrow> prefix_cache_stats" where
  "record_stats n hits preempted s =
     (if preempted
      then s\<lparr>preempted_requests := preempted_requests s + 1, preempted_queries := preempted_queries s + n,
             preempted_hits := preempted_hits s + hits\<rparr>
      else s\<lparr>pcs_requests := pcs_requests s + 1, pcs_queries := pcs_queries s + n, pcs_hits := pcs_hits s + hits\<rparr>)"

definition record_prefix_cache_stats :: "request \<Rightarrow> int \<Rightarrow> kv_cache_manager \<Rightarrow> kv_cache_manager res" where
  "record_prefix_cache_stats r hits m =
     (if \<not> log_stats m \<or> \<not> prefix_cache_lookup_enabled m r then Inr m
      else case prefix_cache_stats m of
        None \<Rightarrow> Inl AssertionError
      | Some s \<Rightarrow>
          Inr (m\<lparr>prefix_cache_stats := Some (record_stats (num_tokens r) hits (num_preemptions r > 0) s)\<rparr>))"

definition make_prefix_cache_stats :: "kv_cache_manager \<Rightarrow> prefix_cache_stats option \<times> kv_cache_manager" where
  "make_prefix_cache_stats m =
     (if \<not> log_stats m then (None, m)
      else (prefix_cache_stats m, m\<lparr>prefix_cache_stats := Some new_stats\<rparr>))"

definition emit_hit_events ::
  "request \<Rightarrow> kv_cache_group list \<Rightarrow> nat \<times> block_ref list \<Rightarrow> pool \<Rightarrow> pool res"
where
  "emit_hit_events r groups ib p =
     (if snd ib = [] then Inr p
      else rbind (py_get groups (int (fst ib))) (\<lambda>g.
             emit_cached_block_events r (length (snd ib)) (sp_block_size (gr_spec g)) (int (fst ib)) p))"

definition get_computed_blocks ::
  "request \<Rightarrow> bool \<Rightarrow> kv_cache_manager \<Rightarrow> ((kv_cache_blocks \<times> nat \<times> nat) \<times> kv_cache_manager) res"
where
  \<comment> \<open>\<open>report_full\<close> says whether \<^verbatim>\<open>kv_cache_report_mode\<close> of the request is \<^verbatim>\<open>"full"\<close>\<close>
  "get_computed_blocks r report_full m =
     (if \<not> prefix_cache_lookup_enabled m r then Inr ((None, 0, 0), m)
      else
        let c = km_coordinator m;
            max_hit = nat (max 0 (num_tokens r - int (km_min_prefill_tokens m)))
        in rbind (co_find_longest_cache_hit c (block_hashes r) max_hit) (\<lambda>(cols, hit, uncached).
           rbind (if hit > 0 \<and> km_enable_events m \<and> report_full
                  then rfold (emit_hit_events r (kv_cache_groups c)) (enumerate 0 cols) (block_pool c)
                  else Inr (block_pool c)) (\<lambda>p1.
             Inr ((create_kv_cache_blocks cols, hit, if uncached \<noteq> 0 then hit + uncached else 0),
                  m\<lparr>km_coordinator := c\<lparr>block_pool := p1\<rparr>\<rparr>))))"

section \<open>Allocation\<close>

record slot_args =
  num_new_tokens :: nat
  num_new_computed_tokens :: nat
  new_computed_blocks :: kv_cache_blocks
  num_lookahead_tokens :: nat
  num_external_computed_tokens :: nat
  delay_cache_blocks :: bool
  num_encoder_tokens :: nat
  full_sequence_must_fit :: bool
  reserved_blocks :: int
  has_scheduled_reqs :: bool

definition num_local_computed_tokens :: "request \<Rightarrow> slot_args \<Rightarrow> nat" where
  "num_local_computed_tokens r a = nat (num_computed_tokens r) + num_new_computed_tokens a"

definition total_computed_tokens :: "request \<Rightarrow> slot_args \<Rightarrow> kv_cache_manager \<Rightarrow> nat" where
  "total_computed_tokens r a m =
     min (num_local_computed_tokens r a + num_external_computed_tokens a) (max_model_len m)"

definition num_tokens_need_slot :: "request \<Rightarrow> slot_args \<Rightarrow> kv_cache_manager \<Rightarrow> nat" where
  "num_tokens_need_slot r a m =
     min (total_computed_tokens r a m + num_new_tokens a + num_lookahead_tokens a) (max_model_len m)"

definition request_watermark :: "request \<Rightarrow> slot_args \<Rightarrow> kv_cache_manager \<Rightarrow> int" where
  "request_watermark r a m =
     (if has_scheduled_reqs a \<and> (status r = WAITING \<or> status r = PREEMPTED) then watermark_blocks m else 0)"

definition full_sequence_fits :: "request \<Rightarrow> slot_args \<Rightarrow> kv_cache_manager \<Rightarrow> bool res" where
  "full_sequence_fits r a m =
     (if \<not> full_sequence_must_fit a then Inr True
      else
        rbind (co_num_blocks_to_allocate (km_coordinator m) (request_id r)
                 (min (nat (num_tokens r)) (max_model_len m)) (block_lists m (new_computed_blocks a))
                 (num_encoder_tokens a) (total_computed_tokens r a m) (num_local_computed_tokens r a) True) (\<lambda>n.
          Inr (n + request_watermark r a m \<le> get_num_free_blocks (km_pool m))))"

definition blocks_needed :: "request \<Rightarrow> slot_args \<Rightarrow> kv_cache_manager \<Rightarrow> int res" where
  "blocks_needed r a m =
     co_num_blocks_to_allocate (km_coordinator m) (request_id r) (num_tokens_need_slot r a m)
       (block_lists m (new_computed_blocks a)) (num_encoder_tokens a)
       (num_local_computed_tokens r a + num_external_computed_tokens a) (num_local_computed_tokens r a) False"

definition reserve_slots ::
  "request \<Rightarrow> slot_args \<Rightarrow> kv_cache_manager \<Rightarrow> (block_ref list list \<times> kv_cache_manager) res"
where
  \<comment> \<open>the blocks of computed tokens and the new blocks, once the check has passed\<close>
  "reserve_slots r a m =
     rbind (if new_computed_blocks a \<noteq> None \<or> num_external_computed_tokens a > 0
            then allocate_new_computed_blocks (request_id r) (block_lists m (new_computed_blocks a))
                   (num_local_computed_tokens r a) (num_external_computed_tokens a) (km_coordinator m)
            else Inr (km_coordinator m)) (\<lambda>c1.
     rbind (co_allocate_new_blocks (request_id r) (num_tokens_need_slot r a m) (num_encoder_tokens a) c1)
       (\<lambda>(nb, c2). Inr (nb, m\<lparr>km_coordinator := c2\<rparr>)))"

definition km_remove_skipped_blocks ::
  "string \<Rightarrow> nat \<Rightarrow> nat option \<Rightarrow> kv_cache_manager \<Rightarrow> kv_cache_manager res"
where
  "km_remove_skipped_blocks rid processed num_prompt m =
     rbind (co_remove_skipped_blocks rid processed num_prompt (km_coordinator m)) (\<lambda>c.
       Inr (m\<lparr>km_coordinator := c\<rparr>))"

definition km_cache_blocks :: "request \<Rightarrow> nat \<Rightarrow> kv_cache_manager \<Rightarrow> kv_cache_manager res" where
  "km_cache_blocks r n m =
     (if km_enable_caching m
      then rbind (co_cache_blocks r n (km_coordinator m)) (\<lambda>c. Inr (m\<lparr>km_coordinator := c\<rparr>)) else Inr m)"

definition release_skipped :: "request \<Rightarrow> slot_args \<Rightarrow> kv_cache_manager \<Rightarrow> kv_cache_manager res" where
  "release_skipped r a m =
     km_remove_skipped_blocks (request_id r)
       (nat (max 0 (int (total_computed_tokens r a m) - num_in_flight_tokens r)))
       (Some (nat (num_prompt_tokens r))) m"

definition allocate_slots ::
  "request \<Rightarrow> slot_args \<Rightarrow> kv_cache_manager \<Rightarrow> (kv_cache_blocks option \<times> kv_cache_manager) res"
where
  "allocate_slots r a m =
     rbind (ensure (\<not> (num_new_tokens a = 0 \<and> num_external_computed_tokens a = 0)) ValueError) (\<lambda>_.
     rbind (full_sequence_fits r a m) (\<lambda>fits.
     if \<not> fits then Inr (None, m)
     else
       rbind (release_skipped r a m) (\<lambda>m1.
       rbind (blocks_needed r a m1) (\<lambda>n.
       if n + request_watermark r a m > get_num_free_blocks (km_pool m1) - reserved_blocks a then Inr (None, m1)
       else
         rbind (reserve_slots r a m1) (\<lambda>(nb, m2).
         if \<not> km_enable_caching m \<or> delay_cache_blocks a then Inr (Some (create_kv_cache_blocks nb), m2)
         else
           rbind (km_cache_blocks r (min (total_computed_tokens r a m + num_new_tokens a) (nat (num_tokens r))) m2)
             (\<lambda>m3. Inr (Some (create_kv_cache_blocks nb), m3)))))))"

section \<open>Release and bookkeeping\<close>

definition on_coordinator :: "(coordinator \<Rightarrow> 'r \<times> coordinator) \<Rightarrow> kv_cache_manager \<Rightarrow> 'r \<times> kv_cache_manager" where
  "on_coordinator f m = (let (r, c) = f (km_coordinator m) in (r, m\<lparr>km_coordinator := c\<rparr>))"

definition on_pool :: "(pool \<Rightarrow> 'r \<times> pool) \<Rightarrow> kv_cache_manager \<Rightarrow> 'r \<times> kv_cache_manager" where
  "on_pool f = on_coordinator (\<lambda>c. let (r, p) = f (block_pool c) in (r, c\<lparr>block_pool := p\<rparr>))"

definition km_free :: "request \<Rightarrow> kv_cache_manager \<Rightarrow> kv_cache_manager res" where
  "km_free r m = rbind (co_free (request_id r) (km_coordinator m)) (\<lambda>c. Inr (m\<lparr>km_coordinator := c\<rparr>))"

definition recycle_one :: "string \<Rightarrow> nat \<Rightarrow> group_manager \<Rightarrow> pool \<Rightarrow> (group_manager \<times> pool) res" where
  "recycle_one rid processed gm p =
     (case gm_kind gm of
        SlidingWindow _ _ \<Rightarrow> gm_remove_skipped_blocks rid processed None gm p
      | ChunkedLocal _ \<Rightarrow> gm_remove_skipped_blocks rid processed None gm p
      | _ \<Rightarrow> Inr (gm, p))"

definition recycle_sliding_windows :: "request \<Rightarrow> kv_cache_manager \<Rightarrow> kv_cache_manager res" where
  "recycle_sliding_windows r m =
     rbind (all_managers (recycle_one (request_id r)
              (nat (max 0 (num_computed_tokens r - num_in_flight_tokens r)))) (km_coordinator m)) (\<lambda>c.
       Inr (m\<lparr>km_coordinator := c\<rparr>))"

definition km_pop_blocks_for_free :: "request \<Rightarrow> kv_cache_manager \<Rightarrow> block_ref list \<times> kv_cache_manager" where
  "km_pop_blocks_for_free r = on_coordinator (co_pop_blocks_for_free (request_id r))"

definition km_evict_blocks :: "nat list \<Rightarrow> kv_cache_manager \<Rightarrow> kv_cache_manager res" where
  "km_evict_blocks ids m =
     rbind (evict_blocks ids (km_pool m)) (\<lambda>p. Inr (m\<lparr>km_coordinator := (km_coordinator m)\<lparr>block_pool := p\<rparr>\<rparr>))"

definition km_reset_prefix_cache :: "kv_cache_manager \<Rightarrow> (bool \<times> kv_cache_manager) res" where
  "km_reset_prefix_cache m =
     (let (ok, m1) = on_pool reset_prefix_cache m
      in if \<not> ok then Inr (False, m1)
         else if log_stats m1
         then case prefix_cache_stats m1 of
                None \<Rightarrow> Inl AssertionError
              | Some s \<Rightarrow> Inr (True, m1\<lparr>prefix_cache_stats := Some (s\<lparr>pcs_reset := True\<rparr>)\<rparr>)
         else Inr (True, m1))"

definition km_num_common_prefix_blocks :: "string \<Rightarrow> kv_cache_manager \<Rightarrow> nat list \<times> kv_cache_manager" where
  "km_num_common_prefix_blocks rid = on_coordinator (co_num_common_prefix_blocks rid)"

definition annotate_event :: "(string \<times> int option) list \<Rightarrow> kv_event \<Rightarrow> kv_event \<times> (string \<times> int option) option" where
  \<comment> \<open>an event with the kind and the window that the code writes into it\<close>
  "annotate_event meta e =
     (case e of
        BlockStored b \<Rightarrow>
          if bs_group_idx b < 0 \<or> bs_group_idx b \<ge> int (length meta) then (e, None)
          else (e, Some (meta ! nat (bs_group_idx b)))
      | _ \<Rightarrow> (e, None))"

definition km_take_events ::
  "kv_cache_manager \<Rightarrow> (kv_event \<times> (string \<times> int option) option) list \<times> kv_cache_manager"
where
  "km_take_events m =
     (let (es, m1) = on_pool take_events m in (map (annotate_event (kv_cache_event_metadata m)) es, m1))"

definition km_get_blocks :: "kv_cache_manager \<Rightarrow> string \<Rightarrow> kv_cache_blocks" where
  "km_get_blocks m rid = create_kv_cache_blocks (co_get_blocks rid (km_coordinator m))"

definition km_get_block_ids :: "kv_cache_manager \<Rightarrow> string \<Rightarrow> int list list" where
  "km_get_block_ids m rid = map (map block_id) (block_lists m (km_get_blocks m rid))"

definition get_block_ids_for_computed_tokens :: "kv_cache_manager \<Rightarrow> string \<Rightarrow> nat \<Rightarrow> int list list res" where
  "get_block_ids_for_computed_tokens m rid n =
     rfold (\<lambda>(g, ids) acc.
         if sp_kind (gr_spec g) = CrossAttn then Inr (acc @ [ids])
         else rbind (ensure (sp_block_size (gr_spec g) \<noteq> 0) ZeroDivisionError) (\<lambda>_.
                Inr (acc @ [take (nat (cdiv (int n) (int (sp_block_size (gr_spec g))))) ids])))
       (zip (kv_cache_groups (km_coordinator m)) (km_get_block_ids m rid)) []"

definition group_cached_tokens :: "pool \<Rightarrow> block_ref list \<Rightarrow> int" where
  "group_cached_tokens p bl =
     fold (\<lambda>b n. max n (case block_hash_num_tokens (blk p b) of None \<Rightarrow> 0 | Some k \<Rightarrow> k)) bl 0"

definition estimate_cached_tokens :: "kv_cache_manager \<Rightarrow> request \<Rightarrow> int" where
  "estimate_cached_tokens m r =
     (let res = fold (\<lambda>(g, bl) acc.
            if sp_kind (gr_spec g) = CrossAttn then acc
            else let n = group_cached_tokens (km_pool m) bl
                 in case acc of None \<Rightarrow> Some n | Some k \<Rightarrow> Some (min k n))
          (zip (kv_cache_groups (km_coordinator m)) (block_lists m (km_get_blocks m (request_id r)))) None
      in case res of None \<Rightarrow> 0 | Some k \<Rightarrow> k)"

definition set_managers :: "group_manager list \<Rightarrow> kv_cache_manager \<Rightarrow> kv_cache_manager" where
  "set_managers ms m = m\<lparr>km_coordinator := (km_coordinator m)\<lparr>single_type_managers := ms\<rparr>\<rparr>"

definition km_take_new_block_ids :: "kv_cache_manager \<Rightarrow> int list list \<times> kv_cache_manager" where
  "km_take_new_block_ids m =
     (map (fst \<circ> gm_take_new_block_ids) (km_managers m),
      set_managers (map (snd \<circ> gm_take_new_block_ids) (km_managers m)) m)"

definition zeroing_ids_of :: "string \<Rightarrow> nat \<Rightarrow> nat \<Rightarrow> group_manager \<Rightarrow> int list" where
  "zeroing_ids_of rid start_token end_token gm =
     (if record_new_block_ids gm
      then let first = start_token div gm_block_size gm;
               end_idx = nat (cdiv (int end_token) (int (gm_block_size gm)))
           in map block_id (drop first (take end_idx (blocks_of gm rid)))
      else [])"

definition get_zeroing_block_ids_in_range ::
  "string \<Rightarrow> nat \<Rightarrow> nat \<Rightarrow> kv_cache_manager \<Rightarrow> (int list list \<times> kv_cache_manager) res"
where
  "get_zeroing_block_ids_in_range rid start_token end_token m =
     rbind (ensure (\<forall>gm\<in>set (km_managers m). record_new_block_ids gm \<longrightarrow> gm_block_size gm \<noteq> 0)
              ZeroDivisionError) (\<lambda>_.
       Inr (map (zeroing_ids_of rid start_token end_token) (km_managers m),
            set_managers (map (\<lambda>gm. if record_new_block_ids gm then read_blocks rid gm else gm) (km_managers m)) m))"

definition record_for_zeroing :: "string \<Rightarrow> nat \<Rightarrow> group_manager \<Rightarrow> group_manager list \<Rightarrow> group_manager list res" where
  "record_for_zeroing rid start_token gm acc =
     (if record_new_block_ids gm
      then rbind (ensure (gm_block_size gm \<noteq> 0) ZeroDivisionError) (\<lambda>_.
           rbind (ensure (start_token mod gm_block_size gm = 0) AssertionError) (\<lambda>_.
             let gm1 = read_blocks rid gm
             in Inr (acc @ [gm1\<lparr>new_block_ids := new_block_ids gm1 @
                               map block_id (drop (start_token div gm_block_size gm) (blocks_of gm1 rid))\<rparr>])))
      else Inr (acc @ [gm]))"

definition record_blocks_for_zeroing :: "string \<Rightarrow> nat \<Rightarrow> kv_cache_manager \<Rightarrow> kv_cache_manager res" where
  "record_blocks_for_zeroing rid start_token m =
     rbind (rfold (record_for_zeroing rid start_token) (km_managers m) []) (\<lambda>ms. Inr (set_managers ms m))"

definition take_kv_cache_block_copies ::
  "kv_cache_manager \<Rightarrow> ((int \<times> int) list \<times> block_ref list) \<times> kv_cache_manager"
where
  "take_kv_cache_block_copies m =
     (let pending = concat (map (fst \<circ> take_pending_cow_copies) (km_managers m))
      in ((map (\<lambda>(s, d). (block_id s, block_id d)) pending, concat (map (\<lambda>(s, d). [s, d]) pending)),
          set_managers (map (snd \<circ> take_pending_cow_copies) (km_managers m)) m))"

section \<open>The number of blocks that is checked\<close>

definition group_need ::
  "pool \<Rightarrow> string \<Rightarrow> nat \<Rightarrow> nat \<Rightarrow> nat \<Rightarrow> nat \<Rightarrow> bool \<Rightarrow> block_ref list \<Rightarrow> group_manager \<Rightarrow> int res"
where
  \<comment> \<open>the part of one group in \<^const>\<open>sum_blocks\<close>\<close>
  "group_need p rid nt enc computed local cap newc m =
     (if gm_kind m = CrossAttn then gm_num_blocks_to_allocate m p rid enc [] 0 0 cap
      else gm_num_blocks_to_allocate m p rid nt newc computed local cap)"

lemma sum_blocks_eq:
  assumes "length ms \<le> length newcs"
    and "\<forall>i<length ms. group_need (block_pool c) rid nt enc computed local cap (newcs ! i) (ms ! i) = Inr (v i)"
  shows "sum_blocks c rid nt enc computed local cap newcs ms = Inr (\<Sum>i<length ms. v i)"
  using assms
proof (induction ms arbitrary: newcs v)
  case (Cons m ms)
  obtain newc rest where n: "newcs = newc # rest" using Cons.prems(1) by (cases newcs) auto
  have "group_need (block_pool c) rid nt enc computed local cap newc m = Inr (v 0)" using Cons.prems(2) n by force
  moreover have "sum_blocks c rid nt enc computed local cap rest ms = Inr (\<Sum>i<length ms. v (Suc i))"
    by (rule Cons.IH) (use Cons.prems n in auto)
  moreover have "(\<Sum>i<length (m # ms). v i) = v 0 + (\<Sum>i<length ms. v (Suc i))"
    by (simp only: length_Cons sum.lessThan_Suc_shift)
  ultimately show ?case using n by (simp add: group_need_def py_get_def split: if_splits)
qed simp

lemma group_need_total:
  assumes "gm_wf n m" and "num_cached_block m rid \<noteq> None \<longrightarrow> newc = []"
  shows "\<exists>k. group_need p rid nt enc computed local cap newc m = Inr k"
proof -
  obtain s s0 where "get_num_skipped_tokens m computed = Inr s" "get_num_skipped_tokens m 0 = Inr s0"
    using skipped_blocks_eq [OF assms(1)] by blast
  then show ?thesis using assms gm_wfD(3) [OF assms(1)]
    by (simp add: group_need_def gm_num_blocks_to_allocate_def Let_def)
qed

lemma uncapped: "(case x of None \<Rightarrow> k | Some c \<Rightarrow> if False then min k c else k) = k"
  by (cases x) simp_all

lemma need_fresh:
  assumes wf: "gm_wf (num_gpu_blocks p) m" and pk: "plain_kind m" and nc: "num_cached_block m rid = None"
    and a: "acct p xs M" and v: "\<forall>b\<in>set newc. valid_block (num_gpu_blocks p) b"
  shows "group_need p rid nt enc computed local False newc m =
    Inr (int (nat (cdiv (int nt) (int (gm_block_size m)) -
                int (max (skipped_blocks m computed) (length newc + length (blocks_of m rid)))) +
              (if has_partial_local_hit m newc local then 1 else 0) +
              length (filter (\<lambda>b. b \<in> set xs) (drop (skipped_blocks m computed - length (blocks_of m rid)) newc))))"
proof -
  obtain s where s: "get_num_skipped_tokens m computed = Inr s"
    "s div int (gm_block_size m) = int (skipped_blocks m computed)" using skipped_blocks_eq [OF wf] by blast
  let ?sn = "skipped_blocks m computed - length (blocks_of m rid)"
  have "nat (max 0 (int (skipped_blocks m computed) - int (length (blocks_of m rid)))) = ?sn" by simp
  moreover have "get_num_evictable_blocks p (drop ?sn newc) = int (length (filter (\<lambda>b. b \<in> set xs) (drop ?sn newc)))"
    by (rule evictable_eq [OF a]) (use v in \<open>auto dest: in_set_dropD\<close>)
  moreover have "max (k - max (int (skipped_blocks m computed)) (int (length newc) + int (length (blocks_of m rid)))) 0 =
    int (nat (k - int (max (skipped_blocks m computed) (length newc + length (blocks_of m rid)))))" for k
    by (simp add: max_def)
  ultimately show ?thesis using pk nc s gm_wfD(3) [OF wf]
    by (simp add: group_need_def gm_num_blocks_to_allocate_def plain_kind_def Let_def uncapped del: int_nat_eq)
qed

lemma need_cached:
  assumes wf: "gm_wf n m" and pk: "plain_kind m" and nc: "num_cached_block m rid \<noteq> None"
  shows "group_need p rid nt enc computed local False [] m =
    Inr (int (nat (cdiv (int nt) (int (gm_block_size m)) - int (length (blocks_of m rid)))))"
proof -
  have "max k 0 = int (nat k)" for k by simp
  then show ?thesis using pk nc gm_wfD(3) [OF wf]
    by (simp add: group_need_def gm_num_blocks_to_allocate_def plain_kind_def Let_def uncapped del: int_nat_eq)
qed

lemma need_cross:
  assumes wf: "gm_wf n m" and cross: "gm_kind m = CrossAttn"
  shows "group_need p rid nt enc computed local False newc m =
    Inr (int (nat (cdiv (int enc) (int (gm_block_size m)) - int (length (blocks_of m rid)))))"
proof -
  have "max k 0 = int (nat k)" for k by simp
  moreover have "get_num_skipped_tokens m 0 = Inr 0" using cross by (simp add: get_num_skipped_tokens_def)
  ultimately show ?thesis using cross gm_wfD(3) [OF wf]
    by (cases "num_cached_block m rid")
      (simp_all add: group_need_def gm_num_blocks_to_allocate_def is_ring_def Let_def uncapped
        has_partial_local_hit_def get_num_evictable_blocks_def del: int_nat_eq)
qed

lemma need_ring:
  "is_ring (gm_kind m) \<Longrightarrow> group_need p rid nt enc computed local cap newc m = Inr (int (ring_demand rid m))"
  by (auto simp: group_need_def gm_num_blocks_to_allocate_def ring_demand_def is_ring_def)

lemma plain_cases:
  obtains (ring) "is_ring (gm_kind m)" "\<not> plain_kind m" | (cross) "gm_kind m = CrossAttn" "\<not> is_ring (gm_kind m)" "\<not> plain_kind m"
  | (plain) "plain_kind m" "\<not> is_ring (gm_kind m)" "gm_kind m \<noteq> CrossAttn"
  unfolding plain_kind_def by blast

lemma cdiv_mono: "0 < c \<Longrightarrow> a \<le> b \<Longrightarrow> cdiv a c \<le> cdiv b c"
  using cdiv_bounds(1) [of c b] by (simp add: cdiv_le_iff)

lemma only_request_fields:
  assumes "only_request rid m m'"
  shows "gm_kind m' = gm_kind m" and "gm_block_size m' = gm_block_size m" and "plain_kind m' = plain_kind m"
    and "slots_for nt enc m' = slots_for nt enc m"
  using assms by (simp_all add: only_request_def same_mgr_def plain_kind_def slots_for_def)

lemma ext_demand_le:
  assumes "\<not> is_ring (gm_kind m)"
  shows "ext_demand rid local ext m \<le>
    nat (cdiv (int (local + ext)) (int (gm_block_size m)) - int (length (blocks_of m rid)))"
  using assms by (simp add: ext_demand_def Let_def)

definition joins :: "nat \<Rightarrow> string \<Rightarrow> nat \<Rightarrow> block_ref list \<Rightarrow> group_manager \<Rightarrow> bool" where
  \<comment> \<open>a request that joins a group with computed blocks\<close>
  "joins n rid local newc m \<longleftrightarrow> num_cached_block m rid = None \<and> local_pre rid local n newc m"

definition computed_demand :: "string \<Rightarrow> nat \<Rightarrow> nat \<Rightarrow> group_manager \<Rightarrow> nat" where
  "computed_demand rid local ext m = (if ext > 0 then ext_demand rid local ext m else 0)"

definition computed_post :: "string \<Rightarrow> nat \<Rightarrow> nat \<Rightarrow> group_manager \<Rightarrow> group_manager \<Rightarrow> bool" where
  "computed_post rid local ext m m' \<longleftrightarrow> grown rid (computed_demand rid local ext m) m m'"

text \<open>What the three stages of an allocation take from the pool is at most what has been checked.\<close>

lemma join_fits:
  assumes wf: "gm_wf (num_gpu_blocks p) m" and a: "acct p xs M" and j: "joins (num_gpu_blocks p) rid local newc m"
    and p1: "local_post rid local (local + ext) newc m m1" and p2: "computed_post rid local ext m1 m2"
    and nt: "local + ext \<le> nt"
  shows "\<exists>k. group_need p rid nt enc (local + ext) local False newc m = Inr (int k) \<and>
    local_demand (set xs) (local + ext) newc m + computed_demand rid local ext m1 +
    new_demand rid (slots_for nt enc m2) m2 \<le> k"
proof -
  have o: "only_request rid m m1" "only_request rid m1 m2" using p1 p2 by (simp_all add: local_post_def computed_post_def grown_def)
  note f1 = only_request_fields [OF o(1)] and f2 = only_request_fields [OF o(2)]
  have len2: "length (blocks_of m2 rid) = length (blocks_of m1 rid) + computed_demand rid local ext m1"
    and ph2: "partial_hit_reqs m2 rid = partial_hit_reqs m1 rid" using p2 by (simp_all add: computed_post_def grown_def)
  have nc: "num_cached_block m rid = None" and sh: "hit_shape (num_gpu_blocks p) m newc local"
    and e: "plain_kind m \<longrightarrow> blocks_of m rid = []" using j by (simp_all add: joins_def local_pre_def)
  show ?thesis
  proof (cases m rule: plain_cases)
    case ring
    have "length (blocks_of m1 rid) = length (blocks_of m rid)" using p1 ring by (simp add: local_post_def)
    moreover have "computed_demand rid local ext m1 = (if ext > 0 then ring_demand rid m1 else 0)"
      using ring f1 by (simp add: computed_demand_def ext_demand_def)
    moreover have "new_demand rid (slots_for nt enc m2) m2 = ring_demand rid m2"
      using ring f1 f2 by (simp add: new_demand_def)
    ultimately show ?thesis using need_ring [OF ring(1)] ring len2
      by (auto simp: local_demand_def ring_demand_def)
  next
    case cross
    have "length (blocks_of m1 rid) = length (blocks_of m rid)" "partial_hit_reqs m1 rid = None"
      using p1 cross by (auto simp: local_post_def simp del: not_None_eq)
    then show ?thesis using need_cross [OF wf cross(1)] cross f1 f2 len2 ph2
      by (simp add: local_demand_def computed_demand_def ext_demand_def new_demand_def slots_for_def del: int_nat_eq)
  next
    case plain
    let ?bs = "int (gm_block_size m)" and ?L = "max (skipped_blocks m (local + ext)) (length newc)"
    have l1: "length (blocks_of m1 rid) = ?L" using p1 plain by (simp add: local_post_def)
    have ph: "partial_hit_reqs m1 rid \<noteq> None \<longrightarrow> has_partial_local_hit m newc local"
      using p1 by (auto simp: local_post_def)
    have d2: "computed_demand rid local ext m1 \<le> nat (cdiv (int (local + ext)) ?bs - int ?L)"
      using ext_demand_le [of m1 rid local ext] plain f1 l1 by (simp add: computed_demand_def)
    have "cdiv (int (local + ext)) ?bs \<le> cdiv (int nt) ?bs" using cdiv_mono gm_wfD(3) [OF wf] nt by simp
    then have "computed_demand rid local ext m1 + nat (cdiv (int nt) ?bs - int (?L + computed_demand rid local ext m1)) \<le>
      nat (cdiv (int nt) ?bs - int ?L)" using d2 by linarith
    moreover have "new_demand rid (slots_for nt enc m2) m2 = (if partial_hit_reqs m1 rid = None then 0 else 1) +
        nat (cdiv (int nt) ?bs - int (?L + computed_demand rid local ext m1))"
      using plain f1 f2 len2 l1 ph2 by (simp add: new_demand_def slots_for_def)
    moreover have "local_demand (set xs) (local + ext) newc m =
        length (filter (\<lambda>b. b \<in> set xs) (drop (skipped_blocks m (local + ext)) newc))"
      using plain by (simp add: local_demand_def)
    moreover have "blocks_of m rid = []" using e plain by simp
    moreover have "\<forall>b\<in>set newc. valid_block (num_gpu_blocks p) b" using sh by (simp add: hit_shape_def)
    ultimately show ?thesis using need_fresh [OF wf plain(1) nc a, of newc nt enc "local + ext" local] ph
      by (intro exI [of _ "nat (cdiv (int nt) ?bs - int ?L) + (if has_partial_local_hit m newc local then 1 else 0) +
        length (filter (\<lambda>b. b \<in> set xs) (drop (skipped_blocks m (local + ext)) newc))"]) auto
  qed
qed

definition continues :: "string \<Rightarrow> nat \<Rightarrow> group_manager \<Rightarrow> bool" where
  \<comment> \<open>a request whose table has a slot for every computed token\<close>
  "continues rid local m \<longleftrightarrow> partial_hit_reqs m rid = None \<and>
     (plain_kind m \<longrightarrow> local \<le> length (blocks_of m rid) * gm_block_size m)"

lemma continue_fits:
  assumes wf: "gm_wf (num_gpu_blocks p) m" and a: "acct p xs M" and j: "continues rid local m"
  shows "\<exists>k. group_need p rid nt enc local local False [] m = Inr (int k) \<and>
    new_demand rid (slots_for nt enc m) m \<le> k"
proof (cases m rule: plain_cases)
  case ring
  then show ?thesis using need_ring [OF ring(1)] by (simp add: new_demand_def)
next
  case cross
  then show ?thesis using need_cross [OF wf cross(1)] j
    by (simp add: new_demand_def slots_for_def continues_def del: int_nat_eq)
next
  case plain
  have nd: "new_demand rid (slots_for nt enc m) m =
    nat (cdiv (int nt) (int (gm_block_size m)) - int (length (blocks_of m rid)))"
    using plain j by (simp add: new_demand_def slots_for_def continues_def)
  have "local div gm_block_size m \<le> length (blocks_of m rid)"
    using j plain gm_wfD(3) [OF wf] div_le_mono [of local "length (blocks_of m rid) * gm_block_size m" "gm_block_size m"]
    by (simp add: continues_def)
  then have "skipped_blocks m local \<le> length (blocks_of m rid)" using skipped_blocks_le [OF wf, of local] by simp
  then have "max (skipped_blocks m local) (length (blocks_of m rid)) = length (blocks_of m rid)" by simp
  then show ?thesis
    using need_fresh [OF wf plain(1) _ a, of rid "[]" nt enc local local] need_cached [OF wf plain(1)] nd
    by (cases "num_cached_block m rid") (simp_all add: has_partial_local_hit_def del: int_nat_eq)
qed

section \<open>Reserving slots\<close>

lemma sum_map2: "length ms \<le> length as \<Longrightarrow> sum_list (map2 f as ms) = (\<Sum>i<length ms. f (as ! i) (ms ! i) :: nat)"
proof (induction ms arbitrary: "as")
  case (Cons m ms)
  obtain a as' where as: "as = a # as'" using Cons.prems by (cases "as") auto
  then have "sum_list (map2 f as' ms) = (\<Sum>i<length ms. f (as' ! i) (ms ! i))" using Cons by simp
  then show ?case using as by (simp only: length_Cons sum.lessThan_Suc_shift) simp
qed simp

lemma grown_exists: "\<exists>m'. grown rid k m m'"
  by (rule exI [of _ "set_blocks rid (blocks_of m rid @ replicate k (Block 0)) m"]) (simp add: grown_def only_request_def)

lemma local_post_exists: "partial_hit_reqs m rid = None \<Longrightarrow> \<exists>m'. local_post rid local computed newc m m'"
  by (rule exI [of _ "set_blocks rid (replicate (if plain_kind m then max (skipped_blocks m computed) (length newc)
      else length (blocks_of m rid)) (Block 0)) m"]) (simp add: local_post_def only_request_def)

lemma grown_0 [simp]: "grown rid 0 m m"
  by (simp add: grown_def only_request_def)

lemma same_config_blocks: "same_config p p' \<Longrightarrow> num_gpu_blocks p' = num_gpu_blocks p"
  by (simp add: same_config_def)

lemma held_all_wf: "held_all p xs ms R \<Longrightarrow> i < length ms \<Longrightarrow> gm_wf (num_gpu_blocks p) (ms ! i)"
  by (simp add: held_all_def)

lemma add_computed_spec:
  assumes h: "held_all p xs ms R" and F: "set xs \<subseteq> F" and len: "length ms = length newcs"
    and pre: "\<forall>i<length ms. joins (num_gpu_blocks p) rid local (newcs ! i) (ms ! i)"
    and room: "(\<Sum>i<length ms. local_demand F (local + ext) (newcs ! i) (ms ! i)) \<le> length xs"
  shows "\<exists>rs ms1 p1 ys. each (\<lambda>newc. silent (add_local_computed_blocks rid newc local ext)) newcs ms p = Inr (rs, ms1, p1) \<and>
    held_all p1 ys ms1 R \<and> same_config p p1 \<and> length ms1 = length ms \<and>
    length xs \<le> length ys + (\<Sum>i<length ms. local_demand F (local + ext) (newcs ! i) (ms ! i)) \<and>
    (\<forall>i<length ms. local_post rid local (local + ext) (newcs ! i) (ms ! i) (ms1 ! i))"
proof -
  have "\<forall>i<length ms. local_pre rid local (num_gpu_blocks p) (newcs ! i) (ms ! i)" using pre by (simp add: joins_def)
  then show ?thesis using local_op.each_op [OF h F, of newcs rid local ext] len room sum_map2 [of ms newcs]
    by auto
qed

lemma add_external_spec:
  assumes h: "held_all p xs ms R"
    and room: "(\<Sum>i<length ms. computed_demand rid local ext (ms ! i)) \<le> length xs"
  shows "\<exists>rs ms1 p1 ys.
    (if ext > 0 then each (\<lambda>_. silent (allocate_external_computed_blocks rid local ext)) ms ms p
     else Inr (map (\<lambda>_. ()) ms, ms, p)) = Inr (rs, ms1, p1) \<and>
    held_all p1 ys ms1 R \<and> same_config p p1 \<and> length ms1 = length ms \<and>
    length xs \<le> length ys + (\<Sum>i<length ms. computed_demand rid local ext (ms ! i)) \<and>
    (\<forall>i<length ms. computed_post rid local ext (ms ! i) (ms1 ! i))"
proof (cases "ext > 0")
  case True
  then show ?thesis using ext_op.each_op [OF h, of ms rid local ext] room sum_map2 [of ms ms]
    by (auto simp: computed_demand_def computed_post_def)
next
  case False
  then show ?thesis using h by (auto simp: computed_demand_def computed_post_def same_config_def)
qed

lemma add_new_spec:
  assumes h: "held_all p xs ms R"
    and room: "(\<Sum>i<length ms. new_demand rid (slots_for nt enc (ms ! i)) (ms ! i)) \<le> length xs"
  shows "\<exists>nb ms1 p1 ys.
    each (\<lambda>_ m. gm_allocate_new_blocks rid (slots_for nt enc m) m) ms ms p = Inr (nb, ms1, p1) \<and>
    held_all p1 ys ms1 R \<and> same_config p p1 \<and> length ms1 = length ms \<and>
    (\<forall>i<length ms. roomy rid (slots_for nt enc (ms ! i)) (ms ! i) (ms1 ! i))"
  using new_op.each_op [OF h, of ms rid nt enc] room sum_map2 [of ms ms "\<lambda>_ m. new_demand rid (slots_for nt enc m) m"]
  by auto

definition kv_inv :: "kv_cache_manager \<Rightarrow> block_ref list \<Rightarrow> block_ref multiset \<Rightarrow> bool" where
  \<comment> \<open>\<open>xs\<close> is the free list and \<open>R\<close> the references that clients hold outside of the block tables\<close>
  "kv_inv m xs R \<longleftrightarrow> held_all (km_pool m) xs (km_managers m) R \<and>
     length (kv_cache_groups (km_coordinator m)) = length (km_managers m)"

definition served_in :: "string \<Rightarrow> nat \<Rightarrow> nat \<Rightarrow> group_manager \<Rightarrow> group_manager \<Rightarrow> bool" where
  \<comment> \<open>the request has a slot for each of its tokens, and the tables of all other requests are as before\<close>
  "served_in rid nt enc m m' \<longleftrightarrow> only_request rid m m' \<and> partial_hit_reqs m' rid = None \<and>
     (\<not> is_ring (gm_kind m) \<longrightarrow> slots_for nt enc m \<le> length (blocks_of m' rid) * gm_block_size m)"

definition same_setup :: "kv_cache_manager \<Rightarrow> kv_cache_manager \<Rightarrow> bool" where
  "same_setup m m' \<longleftrightarrow> same_config (km_pool m) (km_pool m') \<and> max_model_len m' = max_model_len m \<and>
     watermark_blocks m' = watermark_blocks m \<and> km_enable_caching m' = km_enable_caching m \<and>
     length (km_managers m') = length (km_managers m) \<and>
     co_hash_block_size (km_coordinator m') = co_hash_block_size (km_coordinator m) \<and> km_enable_events m' = km_enable_events m"

lemma same_setup_trans: "same_setup a b \<Longrightarrow> same_setup b c \<Longrightarrow> same_setup a c"
  by (auto simp: same_setup_def intro: same_config_trans)

definition served :: "string \<Rightarrow> nat \<Rightarrow> nat \<Rightarrow> kv_cache_manager \<Rightarrow> kv_cache_manager \<Rightarrow> bool" where
  "served rid nt enc m m' \<longleftrightarrow> same_setup m m' \<and>
     (\<forall>i<length (km_managers m). served_in rid nt enc (km_managers m ! i) (km_managers m' ! i))"

lemma roomy_served:
  "roomy rid (slots_for nt enc m) m m' \<Longrightarrow> partial_hit_reqs m rid = None \<Longrightarrow> served_in rid nt enc m m'"
  by (auto simp: roomy_def served_in_def split: if_splits)

lemma stages_served:
  assumes "local_post rid local computed newc m m1" and "computed_post rid local ext m1 m2"
    and "roomy rid (slots_for nt enc m2) m2 m3"
  shows "served_in rid nt enc m m3"
proof -
  have o: "only_request rid m m1" "only_request rid m1 m2" "only_request rid m2 m3"
    and p: "partial_hit_reqs m2 rid = partial_hit_reqs m1 rid"
    using assms by (simp_all add: local_post_def computed_post_def grown_def roomy_def)
  have q: "is_ring (gm_kind m) \<longrightarrow> partial_hit_reqs m1 rid = None"
    using assms(1) by (auto simp: local_post_def plain_kind_def simp del: not_None_eq)
  note f = only_request_fields [OF only_request_trans [OF o(1,2)]]
  show ?thesis using assms(3) p q f only_request_trans [OF only_request_trans [OF o(1,2)] o(3)]
    by (auto simp: served_in_def roomy_def split: if_splits)
qed

lemma kv_invI:
  assumes "kv_inv m xs R" and "held_all p ys ms R'" and "length ms = length (km_managers m)"
  shows "kv_inv (m\<lparr>km_coordinator := (km_coordinator m)\<lparr>single_type_managers := ms, block_pool := p\<rparr>\<rparr>) ys R'"
  using assms by (simp add: kv_inv_def)

definition budget ::
  "string \<Rightarrow> nat \<Rightarrow> nat \<Rightarrow> nat \<Rightarrow> nat \<Rightarrow> block_ref set \<Rightarrow> block_ref list list \<Rightarrow> group_manager list \<Rightarrow> (nat \<Rightarrow> int) \<Rightarrow> bool"
where
  \<comment> \<open>\<open>v\<close> bounds what the three stages of an allocation take for each group\<close>
  "budget rid local ext nt enc F newcs ms v \<longleftrightarrow>
     (\<forall>i<length ms. \<forall>m1 m2. local_post rid local (local + ext) (newcs ! i) (ms ! i) m1 \<longrightarrow> computed_post rid local ext m1 m2 \<longrightarrow>
        int (local_demand F (local + ext) (newcs ! i) (ms ! i) + computed_demand rid local ext m1 +
             new_demand rid (slots_for nt enc m2) m2) \<le> v i)"

lemma budget_parts:
  assumes "budget rid local ext nt enc F newcs ms v" and "i < length ms" and "partial_hit_reqs (ms ! i) rid = None"
  shows "int (local_demand F (local + ext) (newcs ! i) (ms ! i)) \<le> v i"
    and "local_post rid local (local + ext) (newcs ! i) (ms ! i) m1 \<Longrightarrow>
      int (local_demand F (local + ext) (newcs ! i) (ms ! i) + computed_demand rid local ext m1) \<le> v i"
proof -
  show two: "int (local_demand F (local + ext) (newcs ! i) (ms ! i) + computed_demand rid local ext m1) \<le> v i"
    if "local_post rid local (local + ext) (newcs ! i) (ms ! i) m1" for m1
    using assms(1,2) that grown_exists [of rid "computed_demand rid local ext m1" m1]
    by (fastforce simp: budget_def computed_post_def)
  show "int (local_demand F (local + ext) (newcs ! i) (ms ! i)) \<le> v i"
    using two local_post_exists [OF assms(3)] by fastforce
qed

lemma join_budget:
  assumes H: "held_all p xs ms R" and j: "\<forall>i<length ms. joins (num_gpu_blocks p) rid local (newcs ! i) (ms ! i)"
    and nt: "local + ext \<le> nt"
  shows "\<exists>v. (\<forall>i<length ms. group_need p rid nt enc (local + ext) local False (newcs ! i) (ms ! i) = Inr (v i)) \<and>
    budget rid local ext nt enc (set xs) newcs ms v"
proof -
  have ac: "acct p xs (all_refs ms + R)" using H by (simp add: held_all_def)
  define v where "v i = (case group_need p rid nt enc (local + ext) local False (newcs ! i) (ms ! i) of
    Inl _ \<Rightarrow> 0 | Inr k \<Rightarrow> k)" for i
  have g: "group_need p rid nt enc (local + ext) local False (newcs ! i) (ms ! i) = Inr (v i)" if "i < length ms" for i
    using group_need_total [OF held_all_wf [OF H that], of rid "newcs ! i" p nt enc "local + ext" local False] j that
    by (auto simp: v_def joins_def)
  moreover have "budget rid local ext nt enc (set xs) newcs ms v"
    unfolding budget_def
  proof (intro allI impI)
    fix i m1 m2
    assume i: "i < length ms" and "local_post rid local (local + ext) (newcs ! i) (ms ! i) m1" "computed_post rid local ext m1 m2"
    from join_fits [OF held_all_wf [OF H i] ac j [rule_format, OF i] this(2,3) nt, of enc] g [OF i]
    show "int (local_demand (set xs) (local + ext) (newcs ! i) (ms ! i) + computed_demand rid local ext m1 +
      new_demand rid (slots_for nt enc m2) m2) \<le> v i" by auto
  qed
  ultimately show ?thesis by blast
qed

lemma sum_le_int: "(\<And>i. i < N \<Longrightarrow> int (f i) \<le> v i) \<Longrightarrow> int (\<Sum>i<N. f i) \<le> (\<Sum>i<N. v i)"
  unfolding of_nat_sum by (rule sum_mono) simp

lemma join_stages:
  assumes H: "held_all p xs ms R" and len: "length ms = length newcs"
    and j: "\<forall>i<length ms. joins (num_gpu_blocks p) rid local (newcs ! i) (ms ! i)"
    and b: "budget rid local ext nt enc (set xs) newcs ms v" and nv: "(\<Sum>i<length ms. v i) \<le> int (length xs)"
  shows "\<exists>rs1 ms1 p1 rs2 ms2 p2 nb ms3 p3 ys.
    each (\<lambda>newc. silent (add_local_computed_blocks rid newc local ext)) newcs ms p = Inr (rs1, ms1, p1) \<and>
    (if ext > 0 then each (\<lambda>_. silent (allocate_external_computed_blocks rid local ext)) ms1 ms1 p1
      else Inr (map (\<lambda>_. ()) ms1, ms1, p1)) = Inr (rs2, ms2, p2) \<and>
    each (\<lambda>_ m. gm_allocate_new_blocks rid (slots_for nt enc m) m) ms2 ms2 p2 = Inr (nb, ms3, p3) \<and>
    held_all p3 ys ms3 R \<and> same_config p p3 \<and> length ms3 = length ms \<and>
    (\<forall>i<length ms. served_in rid nt enc (ms ! i) (ms3 ! i))"
proof -
  define N where "N = length ms"
  define D where "D i = local_demand (set xs) (local + ext) (newcs ! i) (ms ! i)" for i
  have pn: "partial_hit_reqs (ms ! i) rid = None" if "i < N" for i using j that by (simp add: N_def joins_def local_pre_def)
  note B = budget_parts [OF b _ pn, unfolded N_def, folded D_def, folded N_def]
  have "int (\<Sum>i<N. D i) \<le> (\<Sum>i<N. v i)" by (rule sum_le_int) (use B(1) in auto)
  then have S1: "(\<Sum>i<N. D i) \<le> length xs" using nv unfolding N_def by linarith
  obtain rs1 ms1 p1 ys1 where s1:
    "each (\<lambda>newc. silent (add_local_computed_blocks rid newc local ext)) newcs ms p = Inr (rs1, ms1, p1)"
    "held_all p1 ys1 ms1 R" "same_config p p1" "length ms1 = N" "length xs \<le> length ys1 + (\<Sum>i<N. D i)"
    "\<forall>i<N. local_post rid local (local + ext) (newcs ! i) (ms ! i) (ms1 ! i)"
    using add_computed_spec [OF H subset_refl len j, of ext] S1 by (auto simp: N_def D_def)
  let ?E = "\<lambda>i. computed_demand rid local ext (ms1 ! i)"
  have "int (\<Sum>i<N. D i + ?E i) \<le> (\<Sum>i<N. v i)" by (rule sum_le_int) (use B(2) s1(6) in auto)
  then have "(\<Sum>i<N. ?E i) \<le> length ys1" using nv s1(5) unfolding sum.distrib N_def by linarith
  then have S2: "(\<Sum>i<length ms1. ?E i) \<le> length ys1" unfolding s1(4) .
  obtain rs2 ms2 p2 ys2 where s2:
    "(if ext > 0 then each (\<lambda>_. silent (allocate_external_computed_blocks rid local ext)) ms1 ms1 p1
      else Inr (map (\<lambda>_. ()) ms1, ms1, p1)) = Inr (rs2, ms2, p2)"
    "held_all p2 ys2 ms2 R" "same_config p1 p2" "length ms2 = N" "length ys1 \<le> length ys2 + (\<Sum>i<N. ?E i)"
    "\<forall>i<N. computed_post rid local ext (ms1 ! i) (ms2 ! i)"
    using add_external_spec [OF s1(2) S2] s1(4) by auto
  let ?N = "\<lambda>i. new_demand rid (slots_for nt enc (ms2 ! i)) (ms2 ! i)"
  have "int (\<Sum>i<N. D i + ?E i + ?N i) \<le> (\<Sum>i<N. v i)"
    by (rule sum_le_int) (use b s1(6) s2(6) in \<open>auto simp: budget_def N_def D_def\<close>)
  then have "(\<Sum>i<N. ?N i) \<le> length ys2" using nv s1(5) s2(5) unfolding sum.distrib N_def by linarith
  then have S3: "(\<Sum>i<length ms2. ?N i) \<le> length ys2" unfolding s2(4) .
  obtain nb ms3 p3 ys3 where
    s3: "each (\<lambda>_ m. gm_allocate_new_blocks rid (slots_for nt enc m) m) ms2 ms2 p2 = Inr (nb, ms3, p3)"
    "held_all p3 ys3 ms3 R" "same_config p2 p3" "length ms3 = N"
    "\<forall>i<N. roomy rid (slots_for nt enc (ms2 ! i)) (ms2 ! i) (ms3 ! i)"
    using add_new_spec [OF s2(2) S3] s2(4) by auto
  have "\<forall>i<N. served_in rid nt enc (ms ! i) (ms3 ! i)" using stages_served s1(6) s2(6) s3(5) by blast
  then show ?thesis using s1(1) s2(1) s3(1,2,4) same_config_trans [OF same_config_trans [OF s1(3) s2(3)] s3(3)]
    unfolding N_def by blast
qed

lemma reserve_join:
  assumes h: "kv_inv m xs R" and r: "new_computed_blocks a \<noteq> None \<or> num_external_computed_tokens a > 0"
    and len: "length (block_lists m (new_computed_blocks a)) = length (km_managers m)"
    and j: "\<forall>i<length (km_managers m). joins (num_gpu_blocks (km_pool m)) (request_id r) (num_local_computed_tokens r a)
      (block_lists m (new_computed_blocks a) ! i) (km_managers m ! i)"
    and nt: "num_local_computed_tokens r a + num_external_computed_tokens a \<le> num_tokens_need_slot r a m"
    and need: "blocks_needed r a m = Inr n" "n \<le> int (length xs)"
  shows "\<exists>nb m2 ys. reserve_slots r a m = Inr (nb, m2) \<and> kv_inv m2 ys R \<and>
    served (request_id r) (num_tokens_need_slot r a m) (num_encoder_tokens a) m m2"
proof -
  let ?p = "km_pool m" and ?ms = "km_managers m" and ?rid = "request_id r" and ?lo = "num_local_computed_tokens r a"
  let ?ex = "num_external_computed_tokens a" and ?nt = "num_tokens_need_slot r a m" and ?en = "num_encoder_tokens a"
  let ?nc = "block_lists m (new_computed_blocks a)" and ?c = "km_coordinator m"
  have H: "held_all ?p xs ?ms R" using h by (simp add: kv_inv_def)
  obtain v where v: "\<forall>i<length ?ms. group_need ?p ?rid ?nt ?en (?lo + ?ex) ?lo False (?nc ! i) (?ms ! i) = Inr (v i)"
    "budget ?rid ?lo ?ex ?nt ?en (set xs) ?nc ?ms v" using join_budget [OF H j nt] by blast
  have "blocks_needed r a m = Inr (\<Sum>i<length ?ms. v i)"
    unfolding blocks_needed_def co_num_blocks_to_allocate_def by (rule sum_blocks_eq [OF _ v(1)]) (simp add: len)
  then have nv: "(\<Sum>i<length ?ms. v i) \<le> int (length xs)" using need by simp
  obtain rs1 ms1 p1 rs2 ms2 p2 nb ms3 p3 ys where
    s: "each (\<lambda>newc. silent (add_local_computed_blocks ?rid newc ?lo ?ex)) ?nc ?ms ?p = Inr (rs1, ms1, p1)"
    "(if ?ex > 0 then each (\<lambda>_. silent (allocate_external_computed_blocks ?rid ?lo ?ex)) ms1 ms1 p1
      else Inr (map (\<lambda>_. ()) ms1, ms1, p1)) = Inr (rs2, ms2, p2)"
    "each (\<lambda>_ m. gm_allocate_new_blocks ?rid (slots_for ?nt ?en m) m) ms2 ms2 p2 = Inr (nb, ms3, p3)"
    and t: "held_all p3 ys ms3 R" "same_config ?p p3" "length ms3 = length ?ms"
    "\<forall>i<length ?ms. served_in ?rid ?nt ?en (?ms ! i) (ms3 ! i)"
    using join_stages [OF H len [symmetric] j v(2) nv] by blast
  let ?m = "m\<lparr>km_coordinator := ?c\<lparr>single_type_managers := ms3, block_pool := p3\<rparr>\<rparr>"
  have nc: "\<not> (\<exists>m\<in>set ?ms. num_cached_block m ?rid \<noteq> None)" using j by (auto simp: in_set_conv_nth joins_def)
  have "allocate_new_computed_blocks ?rid ?nc ?lo ?ex ?c = Inr (?c\<lparr>single_type_managers := ms2, block_pool := p2\<rparr>)"
    unfolding allocate_new_computed_blocks_def if_not_P [OF nc] using s(1,2)
    by (cases "?ex > 0") (simp_all add: with_state_def all_managers_def)
  moreover have "co_allocate_new_blocks ?rid ?nt ?en (?c\<lparr>single_type_managers := ms2, block_pool := p2\<rparr>) =
    Inr (nb, ?c\<lparr>single_type_managers := ms3, block_pool := p3\<rparr>)"
    using s(3) by (simp add: co_allocate_new_blocks_def with_state_def slots_for_def)
  ultimately have R: "reserve_slots r a m = Inr (nb, ?m)" using r by (simp add: reserve_slots_def)
  have "served ?rid ?nt ?en m ?m" using t(2,3,4) by (simp add: served_def same_setup_def)
  then show ?thesis using R kv_invI [OF h t(1,3)] t(2) by (intro exI [of _ nb] exI [of _ ?m] exI [of _ ys]) simp
qed

lemma reserve_continue:
  assumes h: "kv_inv m xs R" and r: "new_computed_blocks a = None" "num_external_computed_tokens a = 0"
    and j: "\<forall>i<length (km_managers m). continues (request_id r) (num_local_computed_tokens r a) (km_managers m ! i)"
    and need: "blocks_needed r a m = Inr n" "n \<le> int (length xs)"
  shows "\<exists>nb m2 ys. reserve_slots r a m = Inr (nb, m2) \<and> kv_inv m2 ys R \<and>
    served (request_id r) (num_tokens_need_slot r a m) (num_encoder_tokens a) m m2"
proof -
  let ?p = "km_pool m" and ?ms = "km_managers m" and ?rid = "request_id r" and ?lo = "num_local_computed_tokens r a"
  let ?nt = "num_tokens_need_slot r a m" and ?en = "num_encoder_tokens a"
  let ?nc = "block_lists m (new_computed_blocks a)" and ?c = "km_coordinator m"
  have H: "held_all ?p xs ?ms R" and lg: "length (kv_cache_groups ?c) = length ?ms" using h by (simp_all add: kv_inv_def)
  have ac: "acct ?p xs (all_refs ?ms + R)" using H by (simp add: held_all_def)
  have nc: "?nc = map (\<lambda>_. []) (kv_cache_groups ?c)" using r(1) by (simp add: block_lists_def)
  define v where "v i = (case group_need ?p ?rid ?nt ?en ?lo ?lo False [] (?ms ! i) of Inl _ \<Rightarrow> 0 | Inr k \<Rightarrow> k)" for i
  have F: "group_need ?p ?rid ?nt ?en ?lo ?lo False [] (?ms ! i) = Inr (v i) \<and>
      int (new_demand ?rid (slots_for ?nt ?en (?ms ! i)) (?ms ! i)) \<le> v i" if "i < length ?ms" for i
    using continue_fits [OF held_all_wf [OF H that] ac j [rule_format, OF that], of ?nt ?en] by (auto simp: v_def)
  have "blocks_needed r a m = Inr (\<Sum>i<length ?ms. v i)"
    unfolding blocks_needed_def co_num_blocks_to_allocate_def
    by (rule sum_blocks_eq) (use F lg in \<open>simp_all add: nc r(2)\<close>)
  then have nv: "(\<Sum>i<length ?ms. v i) \<le> int (length xs)" using need by simp
  have "int (\<Sum>i<length ?ms. new_demand ?rid (slots_for ?nt ?en (?ms ! i)) (?ms ! i)) \<le> (\<Sum>i<length ?ms. v i)"
    by (rule sum_le_int) (use F in auto)
  then have "(\<Sum>i<length ?ms. new_demand ?rid (slots_for ?nt ?en (?ms ! i)) (?ms ! i)) \<le> length xs"
    using nv by linarith
  from add_new_spec [OF H this] obtain nb ms3 p3 ys where
    s: "each (\<lambda>_ m. gm_allocate_new_blocks ?rid (slots_for ?nt ?en m) m) ?ms ?ms ?p = Inr (nb, ms3, p3)"
    and t: "held_all p3 ys ms3 R" "same_config ?p p3" "length ms3 = length ?ms"
    "\<forall>i<length ?ms. roomy ?rid (slots_for ?nt ?en (?ms ! i)) (?ms ! i) (ms3 ! i)" by blast
  let ?m = "m\<lparr>km_coordinator := ?c\<lparr>single_type_managers := ms3, block_pool := p3\<rparr>\<rparr>"
  have "reserve_slots r a m = Inr (nb, ?m)" using s r
    by (simp add: reserve_slots_def co_allocate_new_blocks_def with_state_def slots_for_def)
  moreover have "served ?rid ?nt ?en m ?m" using t(2,3,4) roomy_served j
    by (simp add: served_def same_setup_def continues_def)
  ultimately show ?thesis using kv_invI [OF h t(1,3)] t(2) by (intro exI [of _ nb] exI [of _ ?m] exI [of _ ys]) simp
qed

section \<open>Allocating slots\<close>

definition slot_ok :: "request \<Rightarrow> slot_args \<Rightarrow> kv_cache_manager \<Rightarrow> bool" where
  \<comment> \<open>what the scheduler guarantees: the computed tokens fit the model; a request with computed blocks or
      external tokens is new to all groups and its blocks come from a lookup; any other request has slots for
      its computed tokens\<close>
  "slot_ok r a m \<longleftrightarrow>
     (num_new_tokens a \<noteq> 0 \<or> num_external_computed_tokens a \<noteq> 0) \<and>
     num_local_computed_tokens r a + num_external_computed_tokens a \<le> max_model_len m \<and>
     (\<forall>gm\<in>set (km_managers m). partial_hit_reqs gm (request_id r) = None) \<and>
     (if new_computed_blocks a \<noteq> None \<or> num_external_computed_tokens a > 0
      then length (block_lists m (new_computed_blocks a)) = length (km_managers m) \<and>
        (\<forall>i<length (km_managers m). joins (num_gpu_blocks (km_pool m)) (request_id r) (num_local_computed_tokens r a)
           (block_lists m (new_computed_blocks a) ! i) (km_managers m ! i))
      else \<forall>i<length (km_managers m). continues (request_id r) (num_local_computed_tokens r a) (km_managers m ! i))"

lemma slot_ok_slots:
  assumes "slot_ok r a m"
  shows "num_local_computed_tokens r a + num_external_computed_tokens a \<le> num_tokens_need_slot r a m"
  using assms by (auto simp: slot_ok_def num_tokens_need_slot_def total_computed_tokens_def)

lemma reserve_fits:
  assumes h: "kv_inv m xs R" and ok: "slot_ok r a m" and need: "blocks_needed r a m = Inr n" "n \<le> int (length xs)"
  shows "\<exists>nb m2 ys. reserve_slots r a m = Inr (nb, m2) \<and> kv_inv m2 ys R \<and>
    served (request_id r) (num_tokens_need_slot r a m) (num_encoder_tokens a) m m2"
proof (cases "new_computed_blocks a \<noteq> None \<or> num_external_computed_tokens a > 0")
  case True
  then show ?thesis using reserve_join [OF h True _ _ slot_ok_slots [OF ok] need] ok by (simp add: slot_ok_def)
next
  case False
  then show ?thesis using reserve_continue [OF h _ _ _ need] ok by (simp add: slot_ok_def)
qed

lemma same_tables_slots:
  assumes "same_tables rid m m'"
  shows "joins n rid local newc m \<Longrightarrow> joins n rid local newc m'" and "continues rid local m \<Longrightarrow> continues rid local m'"
    and "partial_hit_reqs m' rid = partial_hit_reqs m rid"
proof -
  have o: "only_request rid m m'" and l: "length (blocks_of m' rid) = length (blocks_of m rid)"
    and q: "partial_hit_reqs m' = partial_hit_reqs m" "num_cached_block m' = num_cached_block m"
    using assms by (simp_all add: same_tables_def)
  note f = only_request_fields [OF o]
  have c: "gm_enable_caching m' = gm_enable_caching m" using o by (simp add: only_request_def same_mgr_def)
  have e: "blocks_of m' rid = [] \<longleftrightarrow> blocks_of m rid = []" using l by auto
  show "joins n rid local newc m \<Longrightarrow> joins n rid local newc m'"
    by (simp add: joins_def local_pre_def hit_shape_def has_partial_local_hit_def f q c e)
  show "continues rid local m \<Longrightarrow> continues rid local m'" by (simp add: continues_def f q l)
  show "partial_hit_reqs m' rid = partial_hit_reqs m rid" by (simp add: q)
qed

lemma skip_spec:
  assumes h: "kv_inv m xs R" and ph: "\<forall>gm\<in>set (km_managers m). partial_hit_reqs gm rid = None"
  shows "\<exists>ms p ys. km_remove_skipped_blocks rid processed np m =
      Inr (m\<lparr>km_coordinator := (km_coordinator m)\<lparr>single_type_managers := ms, block_pool := p\<rparr>\<rparr>) \<and>
    held_all p ys ms R \<and> same_config (km_pool m) p \<and> length xs \<le> length ys \<and> length ms = length (km_managers m) \<and>
    (\<forall>i<length ms. same_tables rid (km_managers m ! i) (ms ! i))"
proof -
  let ?ms = "km_managers m" and ?p = "km_pool m"
  have H: "held_all ?p xs ?ms R" using h by (simp add: kv_inv_def)
  have "\<forall>i<length ?ms. partial_hit_reqs (?ms ! i) rid = None" using ph by simp
  from skip_op.each_op [OF H subset_UNIV order_refl, where rid = rid and processed = processed and np = np, OF this]
  obtain rs ms p ys where
    e: "each (\<lambda>_. silent (gm_remove_skipped_blocks rid processed np)) ?ms ?ms ?p = Inr (rs, ms, p)"
    "held_all p ys ms R" "same_config ?p p" "length xs \<le> length ys" "length ms = length ?ms"
    "\<forall>i<length ?ms. same_tables rid (?ms ! i) (ms ! i)"
    by (auto simp: sum_map2)
  then have "km_remove_skipped_blocks rid processed np m =
      Inr (m\<lparr>km_coordinator := (km_coordinator m)\<lparr>single_type_managers := ms, block_pool := p\<rparr>\<rparr>)"
    by (simp add: km_remove_skipped_blocks_def co_remove_skipped_blocks_def all_managers_def with_state_def)
  then show ?thesis using e(2-) by (intro exI [of _ ms] exI [of _ p] exI [of _ ys]) simp
qed

definition released :: "string \<Rightarrow> kv_cache_manager \<Rightarrow> kv_cache_manager \<Rightarrow> bool" where
  \<comment> \<open>only blocks of this request have been given up, and its tables have their old lengths\<close>
  "released rid m m' \<longleftrightarrow> same_setup m m' \<and>
     (\<forall>i<length (km_managers m). same_tables rid (km_managers m ! i) (km_managers m' ! i))"

lemma released_served:
  assumes "released rid m m1" and "served rid nt enc m1 m2"
  shows "served rid nt enc m m2"
proof -
  have "served_in rid nt enc a c" if "same_tables rid a b" "served_in rid nt enc b c" for a b c
  proof -
    have o: "only_request rid a b" using that(1) by (simp add: same_tables_def)
    show ?thesis using that(2) only_request_trans [OF o] only_request_fields [OF o] by (simp add: served_in_def)
  qed
  then have "\<forall>i<length (km_managers m). served_in rid nt enc (km_managers m ! i) (km_managers m2 ! i)"
    using assms by (simp add: released_def served_def same_setup_def) blast
  then show ?thesis using assms same_setup_trans by (auto simp: released_def served_def)
qed

lemma release_spec:
  assumes h: "kv_inv m xs R" and ok: "slot_ok r a m"
  shows "\<exists>ms p ys. release_skipped r a m =
      Inr (m\<lparr>km_coordinator := (km_coordinator m)\<lparr>single_type_managers := ms, block_pool := p\<rparr>\<rparr>) \<and>
    kv_inv (m\<lparr>km_coordinator := (km_coordinator m)\<lparr>single_type_managers := ms, block_pool := p\<rparr>\<rparr>) ys R \<and>
    slot_ok r a (m\<lparr>km_coordinator := (km_coordinator m)\<lparr>single_type_managers := ms, block_pool := p\<rparr>\<rparr>) \<and>
    length xs \<le> length ys \<and>
    released (request_id r) m (m\<lparr>km_coordinator := (km_coordinator m)\<lparr>single_type_managers := ms, block_pool := p\<rparr>\<rparr>)"
proof -
  let ?ms = "km_managers m"
  have "\<forall>gm\<in>set ?ms. partial_hit_reqs gm (request_id r) = None" using ok by (simp add: slot_ok_def)
  from skip_spec [OF h this] obtain ms p ys where
    s: "release_skipped r a m = Inr (m\<lparr>km_coordinator := (km_coordinator m)\<lparr>single_type_managers := ms, block_pool := p\<rparr>\<rparr>)"
    "held_all p ys ms R" "same_config (km_pool m) p" "length xs \<le> length ys" "length ms = length ?ms"
    "\<forall>i<length ms. same_tables (request_id r) (?ms ! i) (ms ! i)"
    unfolding release_skipped_def by blast
  let ?m = "m\<lparr>km_coordinator := (km_coordinator m)\<lparr>single_type_managers := ms, block_pool := p\<rparr>\<rparr>"
  note t = same_tables_slots [OF s(6) [rule_format]]
  have n: "num_gpu_blocks p = num_gpu_blocks (km_pool m)" by (rule same_config_blocks [OF s(3)])
  have "block_lists ?m kb = block_lists m kb" for kb by (cases kb) (simp_all add: block_lists_def)
  moreover have "\<forall>i<length ?ms. partial_hit_reqs (?ms ! i) (request_id r) = None" using ok by (simp add: slot_ok_def)
  then have "\<forall>gm\<in>set ms. partial_hit_reqs gm (request_id r) = None"
    using s(5) t(3) by (auto simp: in_set_conv_nth)
  ultimately have "slot_ok r a ?m" using ok s(5) t(1,2) n by (auto simp: slot_ok_def)
  moreover have "released (request_id r) m ?m" using s(3,5,6) by (simp add: released_def same_setup_def)
  ultimately show ?thesis using s(1,4) kv_invI [OF h s(2,5)] by blast
qed

lemma count_total:
  assumes h: "kv_inv m xs R" and ok: "slot_ok r a m"
  shows "\<exists>k. co_num_blocks_to_allocate (km_coordinator m) (request_id r) nt (block_lists m (new_computed_blocks a))
    enc computed local cap = Inr k"
proof -
  let ?nc = "block_lists m (new_computed_blocks a)" and ?ms = "km_managers m"
  have H: "held_all (km_pool m) xs ?ms R" using h by (simp add: kv_inv_def)
  have l: "length ?ms \<le> length ?nc" using h ok by (cases "new_computed_blocks a") (auto simp: kv_inv_def slot_ok_def block_lists_def)
  have nc: "num_cached_block (?ms ! i) (request_id r) \<noteq> None \<longrightarrow> ?nc ! i = []" if i: "i < length ?ms" for i
  proof (cases "new_computed_blocks a \<noteq> None \<or> num_external_computed_tokens a > 0")
    case True
    then show ?thesis using ok i by (auto simp: slot_ok_def joins_def)
  next
    case False
    then show ?thesis using i l by (simp add: block_lists_def)
  qed
  define need where
    "need i = group_need (km_pool m) (request_id r) nt enc computed local cap (?nc ! i) (?ms ! i)" for i
  have "\<forall>i<length ?ms. \<exists>k. need i = Inr k"
    unfolding need_def using group_need_total [OF held_all_wf [OF H]] nc by blast
  then have "\<forall>i<length ?ms. need i = Inr (case need i of Inl _ \<Rightarrow> 0 | Inr k \<Rightarrow> k)" by auto
  from sum_blocks_eq [OF l, of "km_coordinator m", OF this [unfolded need_def]]
  show ?thesis by (simp add: co_num_blocks_to_allocate_def)
qed

lemma full_sequence_fits_total: "kv_inv m xs R \<Longrightarrow> slot_ok r a m \<Longrightarrow> \<exists>b. full_sequence_fits r a m = Inr b"
  using count_total [of m xs R r a] by (fastforce simp: full_sequence_fits_def)

lemma blocks_needed_total: "kv_inv m xs R \<Longrightarrow> slot_ok r a m \<Longrightarrow> \<exists>n. blocks_needed r a m = Inr n"
  unfolding blocks_needed_def by (rule count_total)

section \<open>The initial state\<close>

definition idle_manager :: "group_manager \<Rightarrow> bool" where
  \<comment> \<open>a manager without requests\<close>
  "idle_manager m \<longleftrightarrow> req_to_blocks m = [] \<and> pending_cow_copies m = [] \<and> partial_hit_reqs m = (\<lambda>_. None) \<and>
     num_cached_block m = (\<lambda>_. None) \<and> gm_null_block m = Block 0 \<and> 0 < gm_block_size m \<and> kind_ok (gm_kind m)"

lemma idle_held:
  assumes "pool_inv p xs" and "\<forall>b. ref_cnt (blk p b) = 0" and "\<forall>m\<in>set ms. idle_manager m"
  shows "held_all p xs ms {#}"
proof -
  have "gm_refs m = {#}" if "idle_manager m" for m using that by (simp add: idle_manager_def gm_refs_def table_refs_def)
  then have "all_refs ms = {#}" using assms(3) by (induction ms) (auto simp: all_refs_def)
  moreover have "gm_wf n m" if "idle_manager m" for n m
    using that by (simp add: idle_manager_def gm_wf_def gm_refs_def table_refs_def)
  ultimately show ?thesis using assms by (simp add: held_all_def acct_def)
qed

lemma base_init_spec:
  assumes b: "base_init cls n groups retention zeroing max_len in_flight use_eagle caching events use_int
    dcp pcp sched_bs hash_bs lookahead min_prefill = Inr c"
    and n: "0 < n" and k: "\<forall>g\<in>set groups. kind_ok (sp_kind (gr_spec g))"
  shows "pool_inv (block_pool c) (map Block [1..<n]) \<and> (\<forall>b. ref_cnt (blk (block_pool c) b) = 0) \<and>
    num_gpu_blocks (block_pool c) = n \<and> (\<forall>m\<in>set (single_type_managers c). idle_manager m) \<and> kv_cache_groups c = groups \<and>
    length (single_type_managers c) = length groups \<and> hash_block_size (block_pool c) = co_hash_block_size c \<and>
    enable_kv_cache_events (block_pool c) = events"
proof -
  obtain p where p: "pool_init n caching hash_bs events use_int = Inr p" "pool_inv p (map Block [1..<n])"
    "num_gpu_blocks p = n" "\<forall>b. ref_cnt (blk p b) = 0" "hash_block_size p = hash_bs" using pool_init_spec [OF n] by blast
  have ev: "enable_kv_cache_events p = events" using p(1) by (auto simp: pool_init_def)
  have nb: "null_block p = Block 0" using p(2) by (simp add: pool_inv_def free_inv_def)
  have z: "\<forall>g\<in>set groups. sp_block_size (gr_spec g) \<noteq> 0" using b by (auto simp: base_init_def ensure_def split: if_splits)
  have c: "block_pool c = p" "kv_cache_groups c = groups" "co_hash_block_size c = hash_bs" "single_type_managers c =
     map (\<lambda>(i, g). get_manager_for_kv_cache_spec (sp_kind (gr_spec g)) (sp_block_size (gr_spec g))
                       in_flight max_len p caching (int i) sched_bs
                       (dcp_world_size_for_kv_cache_spec (gr_spec g) dcp) pcp zeroing) (enumerate 0 groups)"
    using b p(1) by (auto simp: base_init_def Let_def ensure_def split: if_splits sum.splits)
  have "idle_manager (get_manager_for_kv_cache_spec (sp_kind (gr_spec g)) (sp_block_size (gr_spec g))
                       in_flight max_len p caching i sched_bs d pcp zeroing)" if "g \<in> set groups" for g i d
    using that z k nb by (simp add: idle_manager_def get_manager_for_kv_cache_spec_def gm_init_def)
  then show ?thesis using p ev c by (auto simp: in_set_enumerate_eq)
qed

lemma idle_fields [simp]:
  "idle_manager (m\<lparr>gm_use_eagle := e\<rparr>) = idle_manager m"
  "idle_manager (m\<lparr>cache_hit_alignment_tokens := k\<rparr>) = idle_manager m"
  by (simp_all add: idle_manager_def)

lemma unitary_init_spec:
  assumes "unitary_init caching hash_bs c = Inr c'"
  shows "block_pool c' = block_pool c \<and> kv_cache_groups c' = kv_cache_groups c \<and> co_hash_block_size c' = co_hash_block_size c \<and>
    length (single_type_managers c') = length (single_type_managers c) \<and>
    ((\<forall>m\<in>set (single_type_managers c). idle_manager m) \<longrightarrow> (\<forall>m\<in>set (single_type_managers c'). idle_manager m))"
  using assms by (auto simp: unitary_init_def ensure_def split: list.splits if_splits)

lemma hybrid_init_spec:
  assumes "hybrid_init dcp pcp hash_bs c = Inr c'"
  shows "block_pool c' = block_pool c \<and> kv_cache_groups c' = kv_cache_groups c \<and> co_hash_block_size c' = co_hash_block_size c \<and>
    length (single_type_managers c') = length (single_type_managers c) \<and>
    ((\<forall>m\<in>set (single_type_managers c). idle_manager m) \<longrightarrow> (\<forall>m\<in>set (single_type_managers c'). idle_manager m))"
  using assms
  by (auto simp: hybrid_init_def verify_and_split_kv_cache_groups_def Let_def ensure_def in_set_enumerate_eq
      split: if_splits)

lemma get_kv_cache_coordinator_spec:
  assumes g: "get_kv_cache_coordinator n groups retention zeroing max_len in_flight use_eagle caching events use_int
    dcp pcp sched_bs hash_bs lookahead min_prefill = Inr c"
    and n: "0 < n" and k: "\<forall>g\<in>set groups. kind_ok (sp_kind (gr_spec g))"
  shows "pool_inv (block_pool c) (map Block [1..<n]) \<and> (\<forall>b. ref_cnt (blk (block_pool c) b) = 0) \<and>
    num_gpu_blocks (block_pool c) = n \<and> (\<forall>m\<in>set (single_type_managers c). idle_manager m) \<and> kv_cache_groups c = groups \<and>
    length (single_type_managers c) = length groups \<and> hash_block_size (block_pool c) = co_hash_block_size c \<and>
    enable_kv_cache_events (block_pool c) = events"
proof -
  let ?base = "\<lambda>cls. base_init cls n groups retention zeroing max_len in_flight use_eagle caching events use_int
    dcp pcp sched_bs hash_bs lookahead min_prefill"
  obtain cls b where "?base cls = Inr b"
    "c = b \<or> unitary_init caching hash_bs b = Inr c \<or> hybrid_init dcp pcp hash_bs b = Inr c"
    using g by (auto simp: get_kv_cache_coordinator_def Let_def split: if_splits)
  then show ?thesis
    using base_init_spec [of cls n groups, OF _ n k] unitary_init_spec [of caching hash_bs b c]
      hybrid_init_spec [of dcp pcp hash_bs b c] by metis
qed

lemma km_init_spec:
  assumes g: "km_init n groups retention zeroing max_len sched_bs hash_bs in_flight caching use_eagle lookahead
     log_st events use_int dcp pcp watermark min_prefill meta = Inr m"
    and n: "0 < n" and k: "\<forall>g\<in>set groups. kind_ok (sp_kind (gr_spec g))"
  shows "kv_inv m (map Block [1..<n]) {#}" and "num_gpu_blocks (km_pool m) = n" and "\<forall>gm\<in>set (km_managers m). idle_manager gm"
    and "0 \<le> watermark_blocks m" and "max_model_len m = max_len" and "km_enable_caching m = caching"
    and "kv_cache_groups (km_coordinator m) = groups" and "hash_block_size (km_pool m) = co_hash_block_size (km_coordinator m)"
    and "enable_kv_cache_events (km_pool m) = km_enable_events m"
proof -
  obtain c where c: "get_kv_cache_coordinator n groups retention zeroing (int max_len)
      (case in_flight of None \<Rightarrow> int max_len | Some n \<Rightarrow> n) use_eagle caching events use_int dcp pcp sched_bs hash_bs
      lookahead (max 1 min_prefill) = Inr c" "km_coordinator m = c"
    and f: "0 \<le> watermark_blocks m" "max_model_len m = max_len" "km_enable_caching m = caching" "km_enable_events m = events"
    using g by (auto simp: km_init_def Let_def ensure_def split: if_splits)
  note s = get_kv_cache_coordinator_spec [OF c(1) n k]
  then show "kv_inv m (map Block [1..<n]) {#}" using c(2) idle_held [of "block_pool c"] by (simp add: kv_inv_def)
  show "num_gpu_blocks (km_pool m) = n" "\<forall>gm\<in>set (km_managers m). idle_manager gm"
    "kv_cache_groups (km_coordinator m) = groups" "hash_block_size (km_pool m) = co_hash_block_size (km_coordinator m)"
    "enable_kv_cache_events (km_pool m) = km_enable_events m" using s c(2) f(4) by simp_all
qed (use assms in \<open>auto simp: km_init_def Let_def ensure_def split: if_splits\<close>)

section \<open>Admission\<close>

lemma allocate_slots_run:
  assumes h: "kv_inv m xs R" and ok: "slot_ok r a m" and nn: "0 \<le> watermark_blocks m" "0 \<le> reserved_blocks a"
  shows "\<exists>fits m1 ys n. full_sequence_fits r a m = Inr fits \<and> release_skipped r a m = Inr m1 \<and> kv_inv m1 ys R \<and>
    released (request_id r) m m1 \<and> length xs \<le> length ys \<and> blocks_needed r a m1 = Inr n \<and>
    (if \<not> fits then allocate_slots r a m = Inr (None, m)
     else if n + request_watermark r a m > int (length ys) - reserved_blocks a
     then allocate_slots r a m = Inr (None, m1)
     else \<exists>nb m2 zs. reserve_slots r a m1 = Inr (nb, m2) \<and> kv_inv m2 zs R \<and>
       served (request_id r) (num_tokens_need_slot r a m) (num_encoder_tokens a) m m2 \<and>
       allocate_slots r a m =
         (if \<not> km_enable_caching m \<or> delay_cache_blocks a then Inr (Some (create_kv_cache_blocks nb), m2)
          else rbind (km_cache_blocks r (min (total_computed_tokens r a m + num_new_tokens a) (nat (num_tokens r))) m2)
                 (\<lambda>m3. Inr (Some (create_kv_cache_blocks nb), m3))))"
proof -
  obtain fits where f: "full_sequence_fits r a m = Inr fits" using full_sequence_fits_total [OF h ok] by blast
  obtain ms p ys where s: "release_skipped r a m =
      Inr (m\<lparr>km_coordinator := (km_coordinator m)\<lparr>single_type_managers := ms, block_pool := p\<rparr>\<rparr>)"
    "kv_inv (m\<lparr>km_coordinator := (km_coordinator m)\<lparr>single_type_managers := ms, block_pool := p\<rparr>\<rparr>) ys R"
    "slot_ok r a (m\<lparr>km_coordinator := (km_coordinator m)\<lparr>single_type_managers := ms, block_pool := p\<rparr>\<rparr>)"
    "length xs \<le> length ys"
    "released (request_id r) m (m\<lparr>km_coordinator := (km_coordinator m)\<lparr>single_type_managers := ms, block_pool := p\<rparr>\<rparr>)"
    using release_spec [OF h ok] by blast
  let ?m = "m\<lparr>km_coordinator := (km_coordinator m)\<lparr>single_type_managers := ms, block_pool := p\<rparr>\<rparr>"
  note rel = s(1) and k = s(2-5)
  obtain n where n: "blocks_needed r a ?m = Inr n" using blocks_needed_total [OF k(1,2)] by blast
  have free: "get_num_free_blocks (km_pool ?m) = int (length ys)"
    using k(1) pool_invD(7) by (auto simp: kv_inv_def held_all_def acct_def)
  have nt: "num_tokens_need_slot r a ?m = num_tokens_need_slot r a m"
    by (simp add: num_tokens_need_slot_def total_computed_tokens_def)
  have e: "\<not> (num_new_tokens a = 0 \<and> num_external_computed_tokens a = 0)" using ok by (auto simp: slot_ok_def)
  have w: "0 \<le> request_watermark r a m" using nn(1) by (simp add: request_watermark_def)
  have run: "allocate_slots r a m = (if \<not> fits then Inr (None, m)
     else if n + request_watermark r a m > int (length ys) - reserved_blocks a then Inr (None, ?m)
     else rbind (reserve_slots r a ?m) (\<lambda>(nb, m2).
         if \<not> km_enable_caching m \<or> delay_cache_blocks a then Inr (Some (create_kv_cache_blocks nb), m2)
         else
           rbind (km_cache_blocks r (min (total_computed_tokens r a m + num_new_tokens a) (nat (num_tokens r))) m2)
             (\<lambda>m3. Inr (Some (create_kv_cache_blocks nb), m3))))"
    unfolding allocate_slots_def using e f rel n free by simp
  show ?thesis
  proof (cases "\<not> fits \<or> n + request_watermark r a m > int (length ys) - reserved_blocks a")
    case True
    then show ?thesis using f rel k(1,3,4) n run by auto
  next
    case False
    then have "n \<le> int (length ys)" using w nn(2) by simp
    from reserve_fits [OF k(1,2) n this] obtain nb m2 zs where v:
      "reserve_slots r a ?m = Inr (nb, m2)" "kv_inv m2 zs R"
      "served (request_id r) (num_tokens_need_slot r a m) (num_encoder_tokens a) ?m m2" unfolding nt by blast
    have "served (request_id r) (num_tokens_need_slot r a m) (num_encoder_tokens a) m m2"
      by (rule released_served [OF k(4) v(3)])
    then show ?thesis using False f rel k(1,3,4) n run v(1,2)
      by (intro exI [of _ fits] exI [of _ ?m] exI [of _ ys] exI [of _ n]) auto
  qed
qed

text \<open>
  C2: the admission check of \<^verbatim>\<open>allocate_slots\<close> is sufficient. For a request that keeps the contract of the
  scheduler, the call never raises before the caching step: it returns \<^verbatim>\<open>None\<close> exactly when the full
  sequence does not fit or the predicted number of blocks (with watermark and reserve) exceeds the free
  ones, and then at most skipped blocks of this request have been given up; otherwise the blocks of the
  prefix cache hit, of external tokens and of new tokens can all be taken, for every kind of group
  together, and the request has a slot for each token in every group. The tables of all other requests
  are untouched, and the reference counts stay exact, in all cases.
\<close>
theorem allocate_slots_admission:
  assumes h: "kv_inv m xs R" and ok: "slot_ok r a m" and nn: "0 \<le> watermark_blocks m" "0 \<le> reserved_blocks a"
  shows "\<exists>fits m1 ys n. full_sequence_fits r a m = Inr fits \<and> release_skipped r a m = Inr m1 \<and> kv_inv m1 ys R \<and>
    released (request_id r) m m1 \<and> length xs \<le> length ys \<and> blocks_needed r a m1 = Inr n \<and>
    (if \<not> fits then allocate_slots r a m = Inr (None, m)
     else if n + request_watermark r a m > int (length ys) - reserved_blocks a
     then allocate_slots r a m = Inr (None, m1)
     else \<exists>nb m2 zs. reserve_slots r a m1 = Inr (nb, m2) \<and> kv_inv m2 zs R \<and>
       served (request_id r) (num_tokens_need_slot r a m) (num_encoder_tokens a) m m2 \<and>
       allocate_slots r a m =
         (if \<not> km_enable_caching m \<or> delay_cache_blocks a then Inr (Some (create_kv_cache_blocks nb), m2)
          else rbind (km_cache_blocks r (min (total_computed_tokens r a m + num_new_tokens a) (nat (num_tokens r))) m2)
                 (\<lambda>m3. Inr (Some (create_kv_cache_blocks nb), m3))))"
  by (rule allocate_slots_run [OF assms])

definition example_slots :: "nat \<Rightarrow> slot_args" where
  "example_slots n = \<lparr>num_new_tokens = n, num_new_computed_tokens = 0, new_computed_blocks = None,
     num_lookahead_tokens = 0, num_external_computed_tokens = 0, delay_cache_blocks = False,
     num_encoder_tokens = 0, full_sequence_must_fit = False, reserved_blocks = 0, has_scheduled_reqs = True\<rparr>"

definition one_group :: "kv_cache_group list" where
  "one_group = [\<lparr>gr_spec = \<lparr>sp_kind = FullAttn, sp_block_size = 2, sp_layout = ''kv''\<rparr>, is_eagle_group = False\<rparr>]"

lemma example_manager:
  "\<exists>m gm. km_init 5 one_group None False 64 2 2 None False False 0 False False False 1 1 0 1 [] = Inr m \<and>
     km_managers m = [gm] \<and> gm_kind gm = FullAttn \<and> gm_block_size gm = 2 \<and> km_enable_caching m = False"
proof -
  obtain p where "pool_init 5 False 2 False False = Inr p" using pool_init_spec [of 5 False 2 False False] by auto
  then show ?thesis
    by (simp add: km_init_def get_kv_cache_coordinator_def base_init_def one_group_def
        validate_prefix_cache_retention_interval_def get_manager_for_kv_cache_spec_def
        dcp_world_size_for_kv_cache_spec_def gm_init_def)
qed

lemma example_allocation_facts:
  fixes r a
  defines "r \<equiv> sample_request ''r'' [5, 6, 7]" and "a \<equiv> example_slots 3"
  shows "\<exists>m. km_init 5 one_group None False 64 2 2 None False False 0 False False False 1 1 0 1 [] = Inr m \<and>
    kv_inv m (map Block [1..<5]) {#} \<and> slot_ok r a m \<and> 0 \<le> watermark_blocks m \<and> 0 \<le> reserved_blocks a \<and>
    full_sequence_fits r a m = Inr True \<and> release_skipped r a m = Inr m \<and> blocks_needed r a m = Inr 2 \<and>
    request_watermark r a m = 0 \<and> reserved_blocks a = 0 \<and> \<not> km_enable_caching m \<and> request_id r = ''r'' \<and>
    num_tokens_need_slot r a m = 3 \<and> num_encoder_tokens a = 0 \<and> (\<exists>gm. km_managers m = [gm] \<and> gm_kind gm = FullAttn) \<and>
    (\<forall>gm\<in>set (km_managers m). idle_manager gm)"
proof -
  obtain m gm where m: "km_init 5 one_group None False 64 2 2 None False False 0 False False False 1 1 0 1 [] = Inr m"
    "km_managers m = [gm]" "gm_kind gm = FullAttn" "gm_block_size gm = 2" "km_enable_caching m = False"
    using example_manager by blast
  have k: "\<forall>g\<in>set one_group. kind_ok (sp_kind (gr_spec g))" by (simp add: one_group_def kind_ok_def)
  note s = km_init_spec [OF m(1) _ k, simplified]
  have gm: "num_cached_block gm ''r'' = None" "partial_hit_reqs gm ''r'' = None" "blocks_of gm ''r'' = []"
    using s(3) m(2) by (simp_all add: idle_manager_def blocks_of_def)
  have lo: "num_local_computed_tokens r a = 0" "request_id r = ''r''" "num_external_computed_tokens a = 0"
    "num_tokens_need_slot r a m = 3" "new_computed_blocks a = None" "num_encoder_tokens a = 0"
    using s(5) by (simp_all add: num_local_computed_tokens_def example_slots_def sample_request_def
        num_tokens_need_slot_def total_computed_tokens_def r_def a_def)
  have ok: "slot_ok r a m" using lo m(2) gm by (simp add: slot_ok_def continues_def example_slots_def a_def)
  have rel: "release_skipped r a m = Inr m"
    using m(2,3) gm
    by (simp add: release_skipped_def km_remove_skipped_blocks_def co_remove_skipped_blocks_def all_managers_def
        with_state_def silent_def gm_remove_skipped_blocks_def is_ring_def get_num_skipped_tokens_def)
  have need: "blocks_needed r a m = Inr 2"
    using m(2,3,4) gm lo s(7)
    by (simp add: blocks_needed_def co_num_blocks_to_allocate_def gm_num_blocks_to_allocate_def is_ring_def
        get_num_skipped_tokens_def block_lists_def one_group_def py_get_def cdiv_def has_partial_local_hit_def
        get_num_evictable_blocks_def split: option.splits)
  have fits: "full_sequence_fits r a m = Inr True" by (simp add: full_sequence_fits_def example_slots_def a_def)
  have "request_watermark r a m = 0" "reserved_blocks a = 0"
    using m(1) by (auto simp: request_watermark_def example_slots_def a_def km_init_def Let_def ensure_def split: if_splits)
  then show ?thesis using m s ok rel need fits lo by simp
qed

theorem allocate_slots_admission_witness:
  "\<exists>m nb m2. km_init 5 one_group None False 64 2 2 None False False 0 False False False 1 1 0 1 [] = Inr m \<and>
     slot_ok (sample_request ''r'' [5, 6, 7]) (example_slots 3) m \<and>
     allocate_slots (sample_request ''r'' [5, 6, 7]) (example_slots 3) m = Inr (Some nb, m2) \<and>
     served ''r'' 3 0 m m2"
proof -
  obtain m where m: "km_init 5 one_group None False 64 2 2 None False False 0 False False False 1 1 0 1 [] = Inr m"
    and f: "kv_inv m (map Block [1..<5]) {#}" "slot_ok (sample_request ''r'' [5, 6, 7]) (example_slots 3) m"
    "0 \<le> watermark_blocks m" "0 \<le> reserved_blocks (example_slots 3)"
    and e: "full_sequence_fits (sample_request ''r'' [5, 6, 7]) (example_slots 3) m = Inr True"
    "release_skipped (sample_request ''r'' [5, 6, 7]) (example_slots 3) m = Inr m"
    "blocks_needed (sample_request ''r'' [5, 6, 7]) (example_slots 3) m = Inr 2"
    "request_watermark (sample_request ''r'' [5, 6, 7]) (example_slots 3) m = 0" "reserved_blocks (example_slots 3) = 0"
    "\<not> km_enable_caching m" "request_id (sample_request ''r'' [5, 6, 7]) = ''r''"
    "num_tokens_need_slot (sample_request ''r'' [5, 6, 7]) (example_slots 3) m = 3" "num_encoder_tokens (example_slots 3) = 0"
    using example_allocation_facts by blast
  have "length (map Block [1..<5]) = 4" by simp
  with allocate_slots_admission [OF f] e show ?thesis using m f(2) by (auto split: if_splits)
qed

lemma example_allocation:
  "\<exists>m nb m2. km_init 5 one_group None False 64 2 2 None False False 0 False False False 1 1 0 1 [] = Inr m \<and>
     slot_ok (sample_request ''r'' [5, 6, 7]) (example_slots 3) m \<and>
     allocate_slots (sample_request ''r'' [5, 6, 7]) (example_slots 3) m = Inr (Some nb, m2) \<and>
     served ''r'' 3 0 m m2 \<and> (\<exists>gm. km_managers m = [gm] \<and> gm_kind gm = FullAttn) \<and>
     (\<forall>gm\<in>set (km_managers m). idle_manager gm)"
proof -
  obtain m where m: "km_init 5 one_group None False 64 2 2 None False False 0 False False False 1 1 0 1 [] = Inr m"
    and f: "kv_inv m (map Block [1..<5]) {#}" "slot_ok (sample_request ''r'' [5, 6, 7]) (example_slots 3) m"
    "0 \<le> watermark_blocks m" "0 \<le> reserved_blocks (example_slots 3)"
    and e: "full_sequence_fits (sample_request ''r'' [5, 6, 7]) (example_slots 3) m = Inr True"
    "release_skipped (sample_request ''r'' [5, 6, 7]) (example_slots 3) m = Inr m"
    "blocks_needed (sample_request ''r'' [5, 6, 7]) (example_slots 3) m = Inr 2"
    "request_watermark (sample_request ''r'' [5, 6, 7]) (example_slots 3) m = 0" "reserved_blocks (example_slots 3) = 0"
    "\<not> km_enable_caching m" "request_id (sample_request ''r'' [5, 6, 7]) = ''r''"
    "num_tokens_need_slot (sample_request ''r'' [5, 6, 7]) (example_slots 3) m = 3" "num_encoder_tokens (example_slots 3) = 0"
    and g: "\<exists>gm. km_managers m = [gm] \<and> gm_kind gm = FullAttn" "\<forall>gm\<in>set (km_managers m). idle_manager gm"
    using example_allocation_facts by blast
  have "length (map Block [1..<5]) = 4" by simp
  with allocate_slots_run [OF f] e have "\<exists>nb m2.
     allocate_slots (sample_request ''r'' [5, 6, 7]) (example_slots 3) m = Inr (Some nb, m2) \<and> served ''r'' 3 0 m m2"
    by (auto split: if_splits)
  then show ?thesis using m f(2) g by blast
qed

end
