(* ===== verification/KV_Machine.thy ===== *)
theory KV_Machine
  imports KV_Cache_Manager
begin

text \<open>
  The histories of the KV cache manager: any interleaving of allocations, lookups, releases, caching,
  eviction and the hand-over of blocks to the client. Over all of them the reference count of a block is
  exactly the number of table entries, pending copies and handed-over references to it; hence no block
  is freed while it is in use, and none is lost.
\<close>

section \<open>States\<close>

definition kv_ok :: "kv_cache_manager \<Rightarrow> block_ref list \<Rightarrow> block_ref multiset \<Rightarrow> bool" where
  \<comment> \<open>a state between two calls: no partial hit is pending and the client's references are to blocks of the pool\<close>
  "kv_ok m xs R \<longleftrightarrow> kv_inv m xs R \<and> (\<forall>gm\<in>set (km_managers m). partial_hit_reqs gm = (\<lambda>_. None)) \<and>
     (\<forall>b\<in>#R. valid_block (num_gpu_blocks (km_pool m)) b) \<and> 0 \<le> watermark_blocks m \<and>
     hash_block_size (km_pool m) = co_hash_block_size (km_coordinator m) \<and> enable_kv_cache_events (km_pool m) = km_enable_events m"

lemma kv_okD:
  assumes "kv_ok m xs R"
  shows "kv_inv m xs R" and "held_all (km_pool m) xs (km_managers m) R" and "pool_inv (km_pool m) xs"
    and "\<And>gm. gm \<in> set (km_managers m) \<Longrightarrow> partial_hit_reqs gm = (\<lambda>_. None)"
    and "\<And>b. b \<in># R \<Longrightarrow> valid_block (num_gpu_blocks (km_pool m)) b" and "0 \<le> watermark_blocks m"
    and "hash_block_size (km_pool m) = co_hash_block_size (km_coordinator m)"
    and "enable_kv_cache_events (km_pool m) = km_enable_events m"
  using assms by (auto simp: kv_ok_def kv_inv_def held_all_def acct_def)

lemma kv_okI:
  assumes "kv_ok m xs R" and "held_all p ys ms R'" and "length ms = length (km_managers m)" and "same_config (km_pool m) p"
    and "\<forall>gm\<in>set ms. partial_hit_reqs gm = (\<lambda>_. None)" and "\<forall>b\<in>#R'. valid_block (num_gpu_blocks (km_pool m)) b"
  shows "kv_ok (m\<lparr>km_coordinator := (km_coordinator m)\<lparr>single_type_managers := ms, block_pool := p\<rparr>\<rparr>) ys R'"
  using assms same_config_blocks [OF assms(4)] kv_invI [OF kv_okD(1) [OF assms(1)] assms(2,3)] kv_okD(6-8) [OF assms(1)]
  by (simp add: kv_ok_def same_config_def)

lemma same_state: "m\<lparr>km_coordinator := (km_coordinator m)\<lparr>single_type_managers := km_managers m, block_pool := km_pool m\<rparr>\<rparr> = m"
  by simp

lemma hash_only_all:
  "held_all p xs ms R \<Longrightarrow> hash_only p p' \<Longrightarrow> pool_inv p' xs \<Longrightarrow> held_all p' xs ms R"
  using hash_only_fields [of p p'] by (auto simp: held_all_def acct_def same_config_def)

lemma kv_ok_pool:
  assumes ok: "kv_ok m xs R" and h: "hash_only (km_pool m) p" "pool_inv p xs"
  shows "kv_ok (m\<lparr>km_coordinator := (km_coordinator m)\<lparr>block_pool := p\<rparr>\<rparr>) xs R"
  using kv_okI [OF ok hash_only_all [OF kv_okD(2) [OF ok] h] refl hash_only_fields(6) [OF h(1)]] kv_okD(4,5) [OF ok]
  by simp

lemma kv_ok_events:
  assumes "kv_ok m xs R"
  shows "kv_ok (m\<lparr>km_coordinator := (km_coordinator m)\<lparr>block_pool := (km_pool m)\<lparr>kv_event_queue := q\<rparr>\<rparr>\<rparr>) xs R"
  using kv_ok_pool [OF assms] event_only [OF pool_invD(4) [OF kv_okD(3) [OF assms]]] hash_only_pool_inv [OF kv_okD(3) [OF assms]]
  by blast

lemma kv_ok_managers:
  assumes ok: "kv_ok m xs R" and len: "length ms = length (km_managers m)"
    and refs: "all_refs ms + R' = all_refs (km_managers m) + R"
    and wf: "\<forall>gm\<in>set ms. gm_wf (num_gpu_blocks (km_pool m)) gm \<and> partial_hit_reqs gm = (\<lambda>_. None)"
    and v: "\<forall>b\<in>#R'. valid_block (num_gpu_blocks (km_pool m)) b"
  shows "kv_ok (set_managers ms m) xs R'"
proof -
  have "held_all (km_pool m) xs ms R'" using kv_okD(2) [OF ok] refs wf by (simp add: held_all_def)
  from kv_okI [OF ok this len same_config_refl] wf v show ?thesis by (simp add: set_managers_def)
qed

lemma all_refs_map:
  assumes "\<forall>m\<in>set ms. gm_refs (f m) + mset (g m) = gm_refs m"
  shows "all_refs (map f ms) + mset (concat (map g ms)) = all_refs ms"
  using assms by (induction ms) (auto simp: all_refs_def add_ac)

lemma all_refs_same: "\<forall>m\<in>set ms. gm_refs (f m) = gm_refs m \<Longrightarrow> all_refs (map f ms) = all_refs ms"
  by (induction ms) (simp_all add: all_refs_def)

section \<open>Operations\<close>

lemma free_ok:
  assumes "kv_ok m xs R"
  shows "\<exists>m' ys. km_free r m = Inr m' \<and> kv_ok m' ys R \<and> length xs \<le> length ys \<and>
    num_gpu_blocks (km_pool m') = num_gpu_blocks (km_pool m) \<and> length (km_managers m') = length (km_managers m) \<and>
    (\<forall>i<length (km_managers m). freed (request_id r) (km_managers m ! i) (km_managers m' ! i))"
proof -
  let ?ms = "km_managers m"
  obtain rs ms p ys where e: "each (\<lambda>_. silent (gm_free (request_id r))) ?ms ?ms (km_pool m) = Inr (rs, ms, p)"
    "held_all p ys ms R" "same_config (km_pool m) p" "length xs \<le> length ys" "length ms = length ?ms"
    "\<forall>i<length ?ms. freed (request_id r) (?ms ! i) (ms ! i)"
    using free_op.each_op [OF kv_okD(2) [OF assms] subset_UNIV order_refl, where rid = "request_id r"]
    by (auto simp: sum_map2)
  have "partial_hit_reqs (?ms ! i) = (\<lambda>_. None)" if "i < length ?ms" for i using kv_okD(4) [OF assms] that by simp
  then have "\<forall>gm\<in>set ms. partial_hit_reqs gm = (\<lambda>_. None)" using e(5,6) by (auto simp: in_set_conv_nth freed_def)
  from kv_okI [OF assms e(2,5,3) this] kv_okD(5) [OF assms]
  have "kv_ok (m\<lparr>km_coordinator := (km_coordinator m)\<lparr>single_type_managers := ms, block_pool := p\<rparr>\<rparr>) ys R" (is "kv_ok ?m ys R")
    by simp
  moreover have "km_free r m = Inr ?m" using e(1) by (simp add: km_free_def co_free_def all_managers_def with_state_def)
  ultimately show ?thesis using e(4,5,6) same_config_blocks [OF e(3)] by (intro exI [of _ ?m] exI [of _ ys]) simp
qed

interpretation recycle_op: manager_op "\<lambda>_ :: group_manager. silent (recycle_one rid processed)"
  "\<lambda>_ _ m. partial_hit_reqs m rid = None" "\<lambda>_ _. 0" UNIV "\<lambda>_. same_tables rid"
  for rid :: string and processed :: nat
proof
  fix p xs m R and a :: group_manager
  assume h: "held_by p xs m R" and "partial_hit_reqs m rid = None"
  let ?ok = "\<lambda>f. \<exists>r m' p' ys. silent f m p = Inr (r, m', p') \<and>
      held_by p' ys m' R \<and> same_config p p' \<and> set ys \<subseteq> UNIV \<and> length xs \<le> length ys + 0 \<and> same_tables rid m m'"
  have skip: "?ok (gm_remove_skipped_blocks rid processed None)"
    by (rule skip_op.op [OF h subset_UNIV]) (use \<open>partial_hit_reqs m rid = None\<close> in simp_all)
  have stay: "?ok (\<lambda>m p. Inr (m, p))" using h by (auto simp: silent_def same_tables_def only_request_def)
  have "recycle_one rid processed m p = gm_remove_skipped_blocks rid processed None m p \<or>
    recycle_one rid processed m p = Inr (m, p)" by (simp add: recycle_one_def split: attn_kind.splits)
  then have "silent (recycle_one rid processed) m p = silent (gm_remove_skipped_blocks rid processed None) m p \<or>
    silent (recycle_one rid processed) m p = silent (\<lambda>m p. Inr (m, p)) m p" by (auto simp: silent_def)
  then show "?ok (recycle_one rid processed)" using skip stay by auto
qed

lemma trim_ok:
  assumes ok: "kv_ok m xs R" and e: "held_all p ys ms R" "same_config (km_pool m) p" "length ms = length (km_managers m)"
    "\<forall>i<length ms. same_tables rid (km_managers m ! i) (ms ! i)"
  shows "kv_ok (m\<lparr>km_coordinator := (km_coordinator m)\<lparr>single_type_managers := ms, block_pool := p\<rparr>\<rparr>) ys R"
proof -
  have "partial_hit_reqs (km_managers m ! i) = (\<lambda>_. None)" if "i < length ms" for i using kv_okD(4) [OF ok] that e(3) by simp
  then have "\<forall>gm\<in>set ms. partial_hit_reqs gm = (\<lambda>_. None)" using e(4) by (auto simp: in_set_conv_nth same_tables_def)
  from kv_okI [OF ok e(1,3,2) this] kv_okD(5) [OF ok] show ?thesis by simp
qed

lemma skip_ok:
  assumes ok: "kv_ok m xs R"
  shows "\<exists>m' ys. km_remove_skipped_blocks rid processed np m = Inr m' \<and> kv_ok m' ys R \<and> length xs \<le> length ys"
proof -
  have "\<forall>gm\<in>set (km_managers m). partial_hit_reqs gm rid = None" using kv_okD(4) [OF ok] by simp
  from skip_spec [OF kv_okD(1) [OF ok] this, of processed np] show ?thesis using trim_ok [OF ok] by blast
qed

lemma recycle_ok:
  assumes ok: "kv_ok m xs R"
  shows "\<exists>m' ys. recycle_sliding_windows r m = Inr m' \<and> kv_ok m' ys R \<and> length xs \<le> length ys"
proof -
  let ?ms = "km_managers m" and ?n = "nat (max 0 (num_computed_tokens r - num_in_flight_tokens r))"
  have "\<forall>i<length ?ms. partial_hit_reqs (?ms ! i) (request_id r) = None" using kv_okD(4) [OF ok] by simp
  from recycle_op.each_op [OF kv_okD(2) [OF ok] subset_UNIV order_refl, where rid = "request_id r" and processed = ?n, OF this]
  obtain rs ms p ys where e: "each (\<lambda>_. silent (recycle_one (request_id r) ?n)) ?ms ?ms (km_pool m) = Inr (rs, ms, p)"
    "held_all p ys ms R" "same_config (km_pool m) p" "length xs \<le> length ys" "length ms = length ?ms"
    "\<forall>i<length ?ms. same_tables (request_id r) (?ms ! i) (ms ! i)" by (auto simp: sum_map2)
  have "recycle_sliding_windows r m =
      Inr (m\<lparr>km_coordinator := (km_coordinator m)\<lparr>single_type_managers := ms, block_pool := p\<rparr>\<rparr>)"
    using e(1) by (simp add: recycle_sliding_windows_def all_managers_def with_state_def)
  moreover have "kv_ok (m\<lparr>km_coordinator := (km_coordinator m)\<lparr>single_type_managers := ms, block_pool := p\<rparr>\<rparr>) ys R"
    by (rule trim_ok [OF ok e(2,3,5), of "request_id r"]) (use e(5,6) in simp)
  ultimately show ?thesis using e(4) by blast
qed

lemma cache_ok:
  assumes ok: "kv_ok m xs R" and run: "km_cache_blocks r n m = Inr m'"
  shows "kv_ok m' xs R"
proof (cases "km_enable_caching m")
  case True
  let ?f = "\<lambda>m'. gm_cache_blocks r (tokens_to_cache (km_coordinator m) n m') (retention_interval (km_coordinator m))"
  obtain b rs ms p where c: "each (\<lambda>_. silent (\<lambda>m'. ?f m' b m')) (km_managers m) (km_managers m) (km_pool m) = Inr (rs, ms, p)"
    "m' = m\<lparr>km_coordinator := (km_coordinator m)\<lparr>single_type_managers := ms, block_pool := p\<rparr>\<rparr>"
    using run True by (auto simp: km_cache_blocks_def co_cache_blocks_def all_managers_def with_state_def)
  have step: "held_by q' xs g' R \<and> same_config q q' \<and> partial_hit_reqs g' = partial_hit_reqs g"
    if "held_by q xs g R" "silent (\<lambda>m'. ?f m' b m') g q = Inr (s, g', q')" for q xs g R s g' q'
  proof -
    have "?f g b g q = Inr (g', q')" using that(2) by (auto simp: silent_def)
    from gm_cache_blocks_spec [OF that(1) this] show ?thesis by simp
  qed
  from each_keeps [where f = "\<lambda>_. silent (\<lambda>m'. ?f m' b m')" and post = "\<lambda>g g'. partial_hit_reqs g' = partial_hit_reqs g",
      OF step kv_okD(2) [OF ok] c(1)]
  have e: "held_all p xs ms R" "same_config (km_pool m) p"
    "list_all2 (\<lambda>g g'. partial_hit_reqs g' = partial_hit_reqs g) (km_managers m) ms" by auto
  have "\<forall>gm\<in>set ms. partial_hit_reqs gm = (\<lambda>_. None)"
    using e(3) kv_okD(4) [OF ok] by (fastforce simp: list_all2_conv_all_nth in_set_conv_nth)
  then show ?thesis unfolding c(2)
    using kv_okI [OF ok e(1) _ e(2)] list_all2_lengthD [OF e(3)] kv_okD(5) [OF ok] by simp
next
  case False
  then show ?thesis using ok run by (simp add: km_cache_blocks_def)
qed

lemma served_ok:
  assumes ok: "kv_ok m xs R" and k: "kv_inv m' ys R" and s: "served rid nt enc m m'"
  shows "kv_ok m' ys R"
proof -
  have su: "same_setup m m'" using s by (simp add: served_def)
  have "partial_hit_reqs gm x = None" if gm: "gm \<in> set (km_managers m')" for gm x
  proof -
    obtain i where i: "i < length (km_managers m)" "gm = km_managers m' ! i"
      using gm su by (auto simp: in_set_conv_nth same_setup_def)
    have "served_in rid nt enc (km_managers m ! i) gm" using s i by (simp add: served_def)
    moreover have "partial_hit_reqs (km_managers m ! i) = (\<lambda>_. None)" using kv_okD(4) [OF ok] i(1) by simp
    ultimately show ?thesis by (cases "x = rid") (simp_all add: served_in_def only_request_def)
  qed
  then have "\<forall>gm\<in>set (km_managers m'). partial_hit_reqs gm = (\<lambda>_. None)" by blast
  then show ?thesis using k su kv_okD(5-8) [OF ok] by (simp add: kv_ok_def same_setup_def same_config_def)
qed

lemma allocate_ok:
  assumes ok: "kv_ok m xs R" and s: "slot_ok r a m" and n: "0 \<le> reserved_blocks a"
    and run: "allocate_slots r a m = Inr (res, m')"
  shows "\<exists>ys. kv_ok m' ys R"
proof -
  obtain fits m1 ys k where c: "release_skipped r a m = Inr m1" "kv_inv m1 ys R"
    and o: "if \<not> fits then allocate_slots r a m = Inr (None, m)
     else if k + request_watermark r a m > int (length ys) - reserved_blocks a
     then allocate_slots r a m = Inr (None, m1)
     else \<exists>nb m2 zs. reserve_slots r a m1 = Inr (nb, m2) \<and> kv_inv m2 zs R \<and>
       served (request_id r) (num_tokens_need_slot r a m) (num_encoder_tokens a) m m2 \<and>
       allocate_slots r a m =
         (if \<not> km_enable_caching m \<or> delay_cache_blocks a then Inr (Some (create_kv_cache_blocks nb), m2)
          else rbind (km_cache_blocks r (min (total_computed_tokens r a m + num_new_tokens a) (nat (num_tokens r))) m2)
                 (\<lambda>m3. Inr (Some (create_kv_cache_blocks nb), m3)))"
    using allocate_slots_run [OF kv_okD(1) [OF ok] s kv_okD(6) [OF ok] n] by blast
  have m1: "\<exists>ys. kv_ok m1 ys R" using skip_ok [OF ok] c(1) unfolding release_skipped_def by (metis sum.inject(2))
  consider "m' = m" | "m' = m1" | nb m2 zs where "kv_ok m2 zs R"
      "m' = m2 \<or> km_cache_blocks r (min (total_computed_tokens r a m + num_new_tokens a) (nat (num_tokens r))) m2 = Inr m'"
  proof (cases "\<not> fits \<or> k + request_watermark r a m > int (length ys) - reserved_blocks a")
    case True
    then show ?thesis using that(1,2) o run by (auto split: if_splits)
  next
    case False
    then obtain nb m2 zs where "kv_inv m2 zs R" "served (request_id r) (num_tokens_need_slot r a m) (num_encoder_tokens a) m m2"
      and e: "allocate_slots r a m =
         (if \<not> km_enable_caching m \<or> delay_cache_blocks a then Inr (Some (create_kv_cache_blocks nb), m2)
          else rbind (km_cache_blocks r (min (total_computed_tokens r a m + num_new_tokens a) (nat (num_tokens r))) m2)
                 (\<lambda>m3. Inr (Some (create_kv_cache_blocks nb), m3)))" using o by auto
    from served_ok [OF ok this(1,2)] show ?thesis by (rule that(3)) (use run [unfolded e] in \<open>auto split: if_splits\<close>)
  qed
  then show ?thesis using ok m1 cache_ok by cases blast+
qed

lemma pop_ok:
  assumes ok: "kv_ok m xs R" and run: "km_pop_blocks_for_free r m = (bl, m')"
  shows "kv_ok m' xs (R + mset bl)"
proof -
  let ?rid = "request_id r" and ?ms = "km_managers m"
  let ?g = "\<lambda>gm. fst (gm_pop_blocks_for_free ?rid gm)" and ?f = "\<lambda>gm. snd (gm_pop_blocks_for_free ?rid gm)"
  have e: "bl = concat (map ?g ?ms)" "m' = set_managers (map ?f ?ms) m"
    using run by (auto simp: km_pop_blocks_for_free_def on_coordinator_def co_pop_blocks_for_free_def set_managers_def)
  have wf: "gm_wf (num_gpu_blocks (km_pool m)) gm" if "gm \<in> set ?ms" for gm
    using kv_okD(2) [OF ok] that by (simp add: held_all_def)
  note P = pop_blocks_spec [OF wf, of _ ?rid]
  have g: "?g gm = blocks_of gm ?rid" for gm by (simp add: gm_pop_blocks_for_free_def)
  have "all_refs (map ?f ?ms) + mset bl = all_refs ?ms" unfolding e(1) by (rule all_refs_map) (use P(2) g in simp)
  then have "all_refs (map ?f ?ms) + (R + mset bl) = all_refs ?ms + R" by (simp add: add_ac)
  moreover have "partial_hit_reqs (?f gm) = (\<lambda>_. None)" if "gm \<in> set ?ms" for gm
    using kv_okD(4) [OF ok that] by (simp add: gm_pop_blocks_for_free_def)
  moreover have "valid_block (num_gpu_blocks (km_pool m)) b" if "b \<in> set bl" for b
    using that gm_wfD(5) [OF wf] g unfolding e(1) by auto
  ultimately show ?thesis unfolding e(2) using P(1) kv_okD(5) [OF ok] by (intro kv_ok_managers [OF ok]) auto
qed

lemma release_ok:
  assumes ok: "kv_ok m xs R" and bl: "mset bl \<subseteq># R"
  shows "\<exists>p ys. free_blocks bl (km_pool m) = Inr p \<and> length xs \<le> length ys \<and>
    kv_ok (m\<lparr>km_coordinator := (km_coordinator m)\<lparr>block_pool := p\<rparr>\<rparr>) ys (R - mset bl)"
proof -
  let ?M = "all_refs (km_managers m) + R"
  have a: "acct (km_pool m) xs ?M" using kv_okD(2) [OF ok] by (simp add: held_all_def)
  have v: "\<forall>b\<in>set bl. valid_block (num_gpu_blocks (km_pool m)) b"
    using kv_okD(5) [OF ok] mset_subset_eqD [OF bl] by simp
  have "mset bl \<subseteq># ?M" using bl by (simp add: subset_mset.add_increasing)
  from rp.release_room [OF a v this] obtain p ys where p: "free_blocks bl (km_pool m) = Inr p"
    "acct p ys (?M - mset bl)" "length xs \<le> length ys" "same_config (km_pool m) p" by blast
  have "?M - mset bl = all_refs (km_managers m) + (R - mset bl)" using bl by simp
  then have "held_all p ys (km_managers m) (R - mset bl)"
    using p(2) kv_okD(2) [OF ok] same_config_blocks [OF p(4)] by (simp add: held_all_def)
  from kv_okI [OF ok this refl p(4)] kv_okD(4,5) [OF ok]
  have "kv_ok (m\<lparr>km_coordinator := (km_coordinator m)\<lparr>block_pool := p\<rparr>\<rparr>) ys (R - mset bl)"
    by (auto dest: in_diffD)
  then show ?thesis using p(1,3) by blast
qed

lemma copies_ok:
  assumes ok: "kv_ok m xs R" and run: "take_kv_cache_block_copies m = ((cs, bl), m')"
  shows "kv_ok m' xs (R + mset bl)"
proof -
  let ?ms = "km_managers m" and ?f = "snd \<circ> take_pending_cow_copies"
  let ?g = "\<lambda>gm. concat (map (\<lambda>(s, d). [s, d]) (pending_cow_copies gm))"
  have "concat (map (\<lambda>(s, d). [s, d]) (concat (map pending_cow_copies ms))) = concat (map ?g ms)" for ms
    by (induction ms) simp_all
  then have e: "bl = concat (map ?g ?ms)" "m' = set_managers (map ?f ?ms) m"
    using run by (auto simp: take_kv_cache_block_copies_def take_pending_cow_copies_def Let_def comp_def)
  have wf: "gm_wf (num_gpu_blocks (km_pool m)) gm" if "gm \<in> set ?ms" for gm
    using kv_okD(2) [OF ok] that by (simp add: held_all_def)
  have r: "gm_refs (?f gm) + mset (?g gm) = gm_refs gm" for gm by (simp add: take_pending_cow_copies_def gm_refs_def)
  then have "all_refs (map ?f ?ms) + mset bl = all_refs ?ms" unfolding e(1) by (intro all_refs_map) simp
  then have "all_refs (map ?f ?ms) + (R + mset bl) = all_refs ?ms + R" by (simp add: add_ac)
  moreover have "b \<in># gm_refs gm" if "b \<in># gm_refs (?f gm) \<or> b \<in> set (?g gm)" for b gm
    using that unfolding r [of gm, symmetric] by auto
  then have "gm_wf (num_gpu_blocks (km_pool m)) (?f gm) \<and> partial_hit_reqs (?f gm) = (\<lambda>_. None)" if "gm \<in> set ?ms" for gm
    using wf [OF that] kv_okD(4) [OF ok that] by (simp add: gm_wf_def take_pending_cow_copies_def)
  moreover have "valid_block (num_gpu_blocks (km_pool m)) b" if b: "b \<in> set bl" for b
  proof -
    have "\<exists>gm\<in>set ms. b \<in> set (g gm)" if "b \<in> set (concat (map g ms))" for g :: "group_manager \<Rightarrow> block_ref list" and ms
      using that by auto
    then obtain gm where gm: "gm \<in> set ?ms" "b \<in> set (?g gm)" using b unfolding e(1) by blast
    then have "b \<in># gm_refs gm" unfolding r [of gm, symmetric] by simp
    then show ?thesis using gm_wfD(4) [OF wf [OF gm(1)]] by blast
  qed
  ultimately show ?thesis unfolding e(2) using kv_okD(5) [OF ok] by (intro kv_ok_managers [OF ok]) auto
qed

lemma evict_ok:
  assumes ok: "kv_ok m xs R" and run: "km_evict_blocks ids m = Inr m'" and ids: "\<forall>i\<in>set ids. i < num_gpu_blocks (km_pool m)"
  shows "kv_ok m' xs R"
  using evict_blocks_spec [OF pool_invD(4,1) [OF kv_okD(3) [OF ok]] ids] run
    kv_ok_pool [OF ok] hash_only_pool_inv [OF kv_okD(3) [OF ok]]
  by (auto simp: km_evict_blocks_def)

lemma reset_kept:
  assumes ok: "kv_ok m xs R" and run: "km_reset_prefix_cache m = Inr (b, m')"
  shows "kv_ok m' xs R"
proof -
  obtain q p where r: "reset_prefix_cache (km_pool m) = (q, p)" by force
  have "hash_only (km_pool m) p \<and> pool_inv p xs"
    using reset_prefix_cache_spec [OF kv_okD(3) [OF ok]] r by (auto split: if_splits simp: hash_only_def)
  then have k: "kv_ok (m\<lparr>km_coordinator := (km_coordinator m)\<lparr>block_pool := p\<rparr>\<rparr>) xs R" using kv_ok_pool [OF ok] by blast
  moreover have "kv_ok (n\<lparr>prefix_cache_stats := s\<rparr>) xs R = kv_ok n xs R" for n s by (simp add: kv_ok_def kv_inv_def)
  ultimately show ?thesis using run r
    by (auto simp: km_reset_prefix_cache_def on_pool_def on_coordinator_def split: if_splits option.splits)
qed

lemma events_ok:
  assumes ok: "kv_ok m xs R" and run: "km_take_events m = (es, m')"
  shows "kv_ok m' xs R"
  using run ok kv_ok_events [OF ok, of "[]"]
  by (auto simp: km_take_events_def on_pool_def on_coordinator_def take_events_def split: if_splits)

definition event_change :: "pool \<Rightarrow> pool \<Rightarrow> bool" where
  "event_change p p' \<longleftrightarrow> (\<exists>q. p' = p\<lparr>kv_event_queue := q\<rparr>)"

lemma event_change_refl [simp]: "event_change p p"
  unfolding event_change_def by (rule exI [of _ "kv_event_queue p"]) simp

lemma event_change_update [simp]: "event_change p (p\<lparr>kv_event_queue := q\<rparr>)"
  by (auto simp: event_change_def)

lemma event_change_trans: "event_change p q \<Longrightarrow> event_change q r \<Longrightarrow> event_change p r"
  by (auto simp: event_change_def)

lemma emit_hit_events_change:
  assumes "emit_hit_events r gs ib p = Inr p'"
  shows "event_change p p'"
proof (cases "snd ib = []")
  case True
  then show ?thesis using assms by (simp add: emit_hit_events_def)
next
  case False
  then obtain bs where e: "emit_cached_block_events r (length (snd ib)) bs (int (fst ib)) p = Inr p'"
    using assms by (auto simp: emit_hit_events_def)
  show ?thesis
  proof (cases "\<not> enable_kv_cache_events p \<or> length (snd ib) = 0")
    case True
    then show ?thesis using e by (auto simp: emit_cached_block_events_def)
  next
    case False
    show ?thesis using e unfolding emit_cached_block_events_def if_not_P [OF False] rbind_eq_Inr
      by (elim exE conjE, simp only: split_paired_all prod.case) (auto split: if_splits)
  qed
qed

lemma lookup_ok:
  assumes ok: "kv_ok m xs R" and run: "get_computed_blocks r full m = Inr (res, m')"
  shows "kv_ok m' xs R"
proof (cases "prefix_cache_lookup_enabled m r")
  case True
  let ?c = "km_coordinator m"
  obtain cols b p1 where "(if b then rfold (emit_hit_events r (kv_cache_groups ?c)) (enumerate 0 cols) (km_pool m) else Inr (km_pool m))
      = Inr p1" and m': "m' = m\<lparr>km_coordinator := ?c\<lparr>block_pool := p1\<rparr>\<rparr>"
    using run True unfolding get_computed_blocks_def Let_def by auto
  moreover have "event_change p p'" if "rfold (emit_hit_events r gs) ibs p = Inr p'" for gs ibs p p'
    using rfold_invariant [OF that, of "event_change p"] emit_hit_events_change event_change_trans by fastforce
  ultimately have "event_change (km_pool m) p1" by (auto split: if_splits)
  then show ?thesis unfolding m' using kv_ok_events [OF ok] by (auto simp: event_change_def)
next
  case False
  then show ?thesis using ok run by (simp add: get_computed_blocks_def)
qed

lemma table_ok:
  assumes ok: "kv_ok m xs R" and f: "\<And>n gm. gm_wf n gm \<Longrightarrow>
      gm_refs (f gm) = gm_refs gm \<and> gm_wf n (f gm) \<and> partial_hit_reqs (f gm) = partial_hit_reqs gm"
  shows "kv_ok (set_managers (map f (km_managers m)) m) xs R"
proof -
  have g: "gm_refs (f gm) = gm_refs gm" "gm_wf (num_gpu_blocks (km_pool m)) (f gm)" "partial_hit_reqs (f gm) = (\<lambda>_. None)"
    if "gm \<in> set (km_managers m)" for gm
    using f [of "num_gpu_blocks (km_pool m)" gm] kv_okD(2) [OF ok] kv_okD(4) [OF ok that] that
    by (simp_all add: held_all_def)
  then have "all_refs (map f (km_managers m)) = all_refs (km_managers m)" by (intro all_refs_same) simp
  then show ?thesis using g kv_okD(5) [OF ok] by (intro kv_ok_managers [OF ok]) auto
qed

lemma read_table:
  assumes "gm_wf n gm"
  shows "gm_refs (read_blocks rid gm) = gm_refs gm \<and> gm_wf n (read_blocks rid gm) \<and>
    partial_hit_reqs (read_blocks rid gm) = partial_hit_reqs gm"
proof -
  note D = gm_wfD [OF assms]
  have "gm_refs (read_blocks rid gm) = gm_refs gm"
    using gm_refs_set_blocks [OF D(1), of rid "blocks_of gm rid"] by (simp add: read_blocks_def)
  moreover have "gm_wf n (read_blocks rid gm)"
    unfolding read_blocks_def by (rule gm_wf_set_blocks [OF assms]) (use D(5,6) in auto)
  ultimately show ?thesis by (simp add: read_blocks_same)
qed

lemma common_prefix_ok:
  assumes ok: "kv_ok m xs R" and run: "km_num_common_prefix_blocks rid m = (ns, m')"
  shows "kv_ok m' xs R"
proof -
  let ?f = "\<lambda>gm. snd (gm_num_common_prefix_blocks rid gm (km_pool m))"
  have "kv_ok (set_managers (map ?f (km_managers m)) m) xs R"
    by (rule table_ok [OF ok]) (auto simp: gm_num_common_prefix_blocks_def Let_def read_table split: attn_kind.splits)
  then show ?thesis using ok run
    by (auto simp: km_num_common_prefix_blocks_def on_coordinator_def co_num_common_prefix_blocks_def set_managers_def
        split: if_splits)
qed

lemma new_ids_ok:
  assumes ok: "kv_ok m xs R" and run: "km_take_new_block_ids m = (ids, m')"
  shows "kv_ok m' xs R"
  using table_ok [OF ok, of "snd \<circ> gm_take_new_block_ids"] run
  by (simp add: km_take_new_block_ids_def gm_take_new_block_ids_def)

lemma zeroing_ok:
  assumes ok: "kv_ok m xs R" and run: "get_zeroing_block_ids_in_range rid s e m = Inr (ids, m')"
  shows "kv_ok m' xs R"
  using table_ok [OF ok, of "\<lambda>gm. if record_new_block_ids gm then read_blocks rid gm else gm"] read_table run
  by (auto simp: get_zeroing_block_ids_in_range_def ensure_def split: if_splits)

lemma record_zeroing_ok:
  assumes ok: "kv_ok m xs R" and run: "record_blocks_for_zeroing rid s m = Inr m'"
  shows "kv_ok m' xs R"
proof -
  define f where "f gm = (if record_new_block_ids gm
    then (read_blocks rid gm)\<lparr>new_block_ids := new_block_ids (read_blocks rid gm) @
           map block_id (drop (s div gm_block_size gm) (blocks_of (read_blocks rid gm) rid))\<rparr> else gm)" for gm
  have one: "acc' = acc @ [f gm]" if "record_for_zeroing rid s gm acc = Inr acc'" for gm acc acc'
    using that by (auto simp: record_for_zeroing_def f_def Let_def ensure_def split: if_splits)
  have all: "acc' = acc @ map f gms" if "rfold (record_for_zeroing rid s) gms acc = Inr acc'" for gms acc acc'
    using that by (induction gms arbitrary: acc) (fastforce dest!: one)+
  obtain gms where "rfold (record_for_zeroing rid s) (km_managers m) [] = Inr gms" "m' = set_managers gms m"
    using run by (auto simp: record_blocks_for_zeroing_def)
  then have "m' = set_managers (map f (km_managers m)) m" using all by fastforce
  then show ?thesis using table_ok [OF ok, of f] read_table by (auto simp: f_def)
qed

section \<open>Histories\<close>

inductive km_step :: "kv_cache_manager \<times> block_ref multiset \<Rightarrow> kv_cache_manager \<times> block_ref multiset \<Rightarrow> bool" where
  alloc: "slot_ok r a m \<Longrightarrow> 0 \<le> reserved_blocks a \<Longrightarrow> allocate_slots r a m = Inr (res, m') \<Longrightarrow> km_step (m, R) (m', R)"
| lookup: "get_computed_blocks r full m = Inr (hit, m') \<Longrightarrow> km_step (m, R) (m', R)"
| free: "km_free r m = Inr m' \<Longrightarrow> km_step (m, R) (m', R)"
| skip: "km_remove_skipped_blocks rid n np m = Inr m' \<Longrightarrow> km_step (m, R) (m', R)"
| recycle: "recycle_sliding_windows r m = Inr m' \<Longrightarrow> km_step (m, R) (m', R)"
| cache: "km_cache_blocks r n m = Inr m' \<Longrightarrow> km_step (m, R) (m', R)"
| pop: "km_pop_blocks_for_free r m = (bl, m') \<Longrightarrow> km_step (m, R) (m', R + mset bl)"
| copies: "take_kv_cache_block_copies m = ((cs, bl), m') \<Longrightarrow> km_step (m, R) (m', R + mset bl)"
| give_back: "mset bl \<subseteq># R \<Longrightarrow> free_blocks bl (km_pool m) = Inr p \<Longrightarrow>
    km_step (m, R) (m\<lparr>km_coordinator := (km_coordinator m)\<lparr>block_pool := p\<rparr>\<rparr>, R - mset bl)"
| evict: "\<forall>i\<in>set ids. i < num_gpu_blocks (km_pool m) \<Longrightarrow> km_evict_blocks ids m = Inr m' \<Longrightarrow> km_step (m, R) (m', R)"
| reset: "km_reset_prefix_cache m = Inr (b, m') \<Longrightarrow> km_step (m, R) (m', R)"
| events: "km_take_events m = (es, m') \<Longrightarrow> km_step (m, R) (m', R)"
| common_prefix: "km_num_common_prefix_blocks rid m = (ns, m') \<Longrightarrow> km_step (m, R) (m', R)"
| new_ids: "km_take_new_block_ids m = (ids, m') \<Longrightarrow> km_step (m, R) (m', R)"
| zeroing: "get_zeroing_block_ids_in_range rid s e m = Inr (ids, m') \<Longrightarrow> km_step (m, R) (m', R)"
| record_zeroing: "record_blocks_for_zeroing rid s m = Inr m' \<Longrightarrow> km_step (m, R) (m', R)"

inductive_cases km_stepE: "km_step (m, R) (m', R')"

lemma km_step_ok:
  assumes "km_step (m, R) (m', R')" and "kv_ok m xs R"
  shows "\<exists>ys. kv_ok m' ys R'"
  using assms(1)
proof cases
  case (alloc r a res)
  then show ?thesis using allocate_ok [OF assms(2)] by blast
next
  case (free r)
  then show ?thesis using free_ok [OF assms(2), of r] by auto
next
  case (skip rid n np)
  then show ?thesis using skip_ok [OF assms(2), of rid n np] by auto
next
  case (recycle r)
  then show ?thesis using recycle_ok [OF assms(2), of r] by auto
next
  case (give_back bl p)
  then show ?thesis using release_ok [OF assms(2), of bl] by auto
next
  case (lookup r full hit)
  then show ?thesis using lookup_ok [OF assms(2)] by blast
next
  case (cache r n)
  then show ?thesis using cache_ok [OF assms(2)] by blast
next
  case (pop r bl)
  then show ?thesis using pop_ok [OF assms(2)] by blast
next
  case (copies cs bl)
  then show ?thesis using copies_ok [OF assms(2)] by blast
next
  case (evict ids)
  then show ?thesis using evict_ok [OF assms(2)] by blast
next
  case (reset b)
  then show ?thesis using reset_kept [OF assms(2)] by blast
next
  case (events es)
  then show ?thesis using events_ok [OF assms(2)] by blast
next
  case (common_prefix rid ns)
  then show ?thesis using common_prefix_ok [OF assms(2)] by blast
next
  case (new_ids ids)
  then show ?thesis using new_ids_ok [OF assms(2)] by blast
next
  case (zeroing rid s e ids)
  then show ?thesis using zeroing_ok [OF assms(2)] by blast
next
  case (record_zeroing rid s)
  then show ?thesis using record_zeroing_ok [OF assms(2)] by blast
qed

lemma km_steps_ok:
  assumes "km_step\<^sup>*\<^sup>* (m, R) (m', R')" and "kv_ok m xs R"
  shows "\<exists>ys. kv_ok m' ys R'"
  using assms
proof (induction "(m', R')" arbitrary: m' R' rule: rtranclp_induct)
  case base
  then show ?case by blast
next
  case (step s)
  then show ?case using km_step_ok by (cases s) blast
qed

lemma km_init_ok:
  assumes "km_init n groups retention zeroing max_len sched_bs hash_bs in_flight caching use_eagle lookahead
     log_st events use_int dcp pcp watermark min_prefill meta = Inr m"
    and "0 < n" and "\<forall>g\<in>set groups. kind_ok (sp_kind (gr_spec g))"
  shows "kv_ok m (map Block [1..<n]) {#}"
  using km_init_spec [OF assms] by (auto simp: kv_ok_def idle_manager_def)

definition references :: "kv_cache_manager \<Rightarrow> block_ref multiset \<Rightarrow> block_ref \<Rightarrow> nat" where
  \<comment> \<open>the table entries, the ends of pending copies and the client's references to a block\<close>
  "references m R b = sum_list (map (\<lambda>gm. count_list (concat (map snd (req_to_blocks gm))) b +
       count_list (concat (map (\<lambda>(s, d). [s, d]) (pending_cow_copies gm))) b) (km_managers m)) + count R b"

lemma references_eq: "references m R b = count (all_refs (km_managers m) + R) b"
proof -
  have "count (all_refs ms) b = sum_list (map (\<lambda>gm. count_list (concat (map snd (req_to_blocks gm))) b +
       count_list (concat (map (\<lambda>(s, d). [s, d]) (pending_cow_copies gm))) b) ms)" for ms
    by (induction ms) (simp_all add: all_refs_def gm_refs_def table_refs_def count_mset_list del: count_list_append)
  then show ?thesis by (simp add: references_def)
qed

lemma kv_ok_references:
  assumes ok: "kv_ok m xs R" and b: "pool_block (num_gpu_blocks (km_pool m)) b"
  shows "ref_cnt (blk (km_pool m) b) = int (references m R b)" and "b \<in> set xs \<longleftrightarrow> references m R b = 0"
proof -
  show r: "ref_cnt (blk (km_pool m) b) = int (references m R b)"
    using kv_okD(2) [OF ok] b by (simp add: held_all_def acct_def references_eq)
  show "b \<in> set xs \<longleftrightarrow> references m R b = 0"
    using pool_invD(8) [OF kv_okD(3) [OF ok], of b] b r by auto
qed

lemma history_ok:
  assumes "km_init n groups retention zeroing max_len sched_bs hash_bs in_flight caching use_eagle lookahead
     log_st events use_int dcp pcp watermark min_prefill meta = Inr m0"
    and "0 < n" and "\<forall>g\<in>set groups. kind_ok (sp_kind (gr_spec g))"
    and "km_step\<^sup>*\<^sup>* (m0, {#}) (m, R)"
  shows "\<exists>xs. kv_ok m xs R"
  using km_steps_ok [OF assms(4) km_init_ok [OF assms(1-3)]] .

text \<open>
  C1: over every history of the KV cache manager (allocations, lookups, releases, caching, copies, eviction,
  resets, and references handed to and given back by the client, in any order) the reference count of a
  block is exactly the number of its entries in block tables, ends of pending copies and references of the
  client; a block is on the free list, and so can be handed out again, exactly when there is none. Nothing
  in use is ever reclaimed and no reference is lost.
\<close>
theorem kv_references_exact:
  assumes "km_init n groups retention zeroing max_len sched_bs hash_bs in_flight caching use_eagle lookahead
     log_st events use_int dcp pcp watermark min_prefill meta = Inr m0"
    and "0 < n" and "\<forall>g\<in>set groups. kind_ok (sp_kind (gr_spec g))"
    and "km_step\<^sup>*\<^sup>* (m0, {#}) (m, R)"
  shows "\<exists>xs. is_fq (store (km_pool m)) xs \<and> distinct xs \<and>
    (\<forall>b. pool_block (num_gpu_blocks (km_pool m)) b \<longrightarrow>
       ref_cnt (blk (km_pool m) b) = int (references m R b) \<and> (b \<in> set xs \<longleftrightarrow> references m R b = 0))"
proof -
  obtain xs where ok: "kv_ok m xs R" using history_ok [OF assms] by blast
  show ?thesis using kv_ok_references [OF ok] pool_invD(5,6) [OF kv_okD(3) [OF ok]] by blast
qed

lemma free_all:
  assumes "kv_ok m xs R"
  shows "\<exists>m' ys. rfold km_free rs m = Inr m' \<and> kv_ok m' ys R \<and>
    num_gpu_blocks (km_pool m') = num_gpu_blocks (km_pool m) \<and> length (km_managers m') = length (km_managers m) \<and>
    (\<forall>i<length (km_managers m). pending_cow_copies (km_managers m' ! i) = pending_cow_copies (km_managers m ! i) \<and>
      (\<forall>rid. blocks_of (km_managers m' ! i) rid =
         (if rid \<in> request_id ` set rs then [] else blocks_of (km_managers m ! i) rid)))"
  using assms
proof (induction rs arbitrary: m xs)
  case Nil
  then show ?case by auto
next
  case (Cons r rs)
  obtain m1 ys where f: "km_free r m = Inr m1" "kv_ok m1 ys R" "length (km_managers m1) = length (km_managers m)"
    "\<forall>i<length (km_managers m). freed (request_id r) (km_managers m ! i) (km_managers m1 ! i)"
    "num_gpu_blocks (km_pool m1) = num_gpu_blocks (km_pool m)"
    using free_ok [OF Cons.prems, of r] by blast
  obtain m' zs where g: "rfold km_free rs m1 = Inr m'" "kv_ok m' zs R"
    "num_gpu_blocks (km_pool m') = num_gpu_blocks (km_pool m1)" "length (km_managers m') = length (km_managers m1)"
    "\<forall>i<length (km_managers m1). pending_cow_copies (km_managers m' ! i) = pending_cow_copies (km_managers m1 ! i) \<and>
      (\<forall>rid. blocks_of (km_managers m' ! i) rid =
         (if rid \<in> request_id ` set rs then [] else blocks_of (km_managers m1 ! i) rid))"
    using Cons.IH [OF f(2)] by blast
  then show ?case using f by (intro exI [of _ m'] exI [of _ zs]) (auto simp: freed_def)
qed

lemma empty_tables:
  assumes "gm_wf n gm" and "\<forall>rid. blocks_of gm rid = []" and "pending_cow_copies gm = []"
  shows "gm_refs gm = {#}"
proof -
  have "snd e = []" if "e \<in> set (req_to_blocks gm)" for e
  proof -
    have "map_of (req_to_blocks gm) (fst e) = Some (snd e)"
      by (rule map_of_is_SomeI) (use gm_wfD(1) [OF assms(1)] that in \<open>simp_all add: keys_def\<close>)
    then have "blocks_of gm (fst e) = snd e" by (simp add: blocks_of_def)
    then show ?thesis using assms(2) by simp
  qed
  then show ?thesis using assms(3) by (simp add: gm_refs_def table_refs_def)
qed

lemma all_free:
  assumes ok: "kv_ok m xs {#}" and e: "\<forall>gm\<in>set (km_managers m). gm_refs gm = {#}"
  shows "get_num_free_blocks (km_pool m) = int (num_gpu_blocks (km_pool m)) - 1"
proof -
  have "all_refs ms = {#}" if "\<forall>gm\<in>set ms. gm_refs gm = {#}" for ms using that by (induction ms) (simp_all add: all_refs_def)
  then have "\<forall>b. pool_block (num_gpu_blocks (km_pool m)) b \<longrightarrow> ref_cnt (blk (km_pool m) b) = 0"
    using kv_ok_references(1) [OF ok] e by (simp add: references_eq)
  then have "fst (reset_prefix_cache (km_pool m))"
    using reset_prefix_cache_spec [OF kv_okD(3) [OF ok]] by (auto split: prod.splits)
  then show ?thesis by (simp add: reset_prefix_cache_def split: if_splits)
qed

text \<open>
  C7: no block leaks. From any state that a history can reach and in which no copy is pending and the
  client holds nothing, freeing all requests that hold blocks, in any order, succeeds and leaves every
  block of the pool except the null block free.
\<close>
theorem kv_blocks_return:
  assumes "km_init n groups retention zeroing max_len sched_bs hash_bs in_flight caching use_eagle lookahead
     log_st events use_int dcp pcp watermark min_prefill meta = Inr m0"
    and "0 < n" and "\<forall>g\<in>set groups. kind_ok (sp_kind (gr_spec g))"
    and "km_step\<^sup>*\<^sup>* (m0, {#}) (m, {#})"
    and "\<forall>gm\<in>set (km_managers m). pending_cow_copies gm = []"
    and "\<forall>gm\<in>set (km_managers m). \<forall>rid. blocks_of gm rid \<noteq> [] \<longrightarrow> rid \<in> request_id ` set rs"
  shows "\<exists>m'. rfold km_free rs m = Inr m' \<and> get_num_free_blocks (km_pool m') = int (num_gpu_blocks (km_pool m)) - 1"
proof -
  obtain xs where "kv_ok m xs {#}" using history_ok [OF assms(1-4)] by blast
  from free_all [OF this, of rs] obtain m' ys where f: "rfold km_free rs m = Inr m'" "kv_ok m' ys {#}"
    "num_gpu_blocks (km_pool m') = num_gpu_blocks (km_pool m)" "length (km_managers m') = length (km_managers m)"
    "\<forall>i<length (km_managers m). pending_cow_copies (km_managers m' ! i) = pending_cow_copies (km_managers m ! i) \<and>
      (\<forall>rid. blocks_of (km_managers m' ! i) rid =
         (if rid \<in> request_id ` set rs then [] else blocks_of (km_managers m ! i) rid))" by blast
  have "gm_refs gm = {#}" if gm: "gm \<in> set (km_managers m')" for gm
  proof -
    obtain i where i: "i < length (km_managers m)" "gm = km_managers m' ! i" using gm f(4) by (auto simp: in_set_conv_nth)
    show ?thesis
    proof (rule empty_tables)
      show "gm_wf (num_gpu_blocks (km_pool m')) gm" using kv_okD(2) [OF f(2)] gm by (simp add: held_all_def)
      show "\<forall>rid. blocks_of gm rid = []" using f(5) i assms(6) nth_mem [OF i(1)] by auto
      show "pending_cow_copies gm = []" using f(5) i assms(5) nth_mem [OF i(1)] by simp
    qed
  qed
  then show ?thesis using all_free [OF f(2)] f(1,3) by simp
qed

text \<open>
  C14: block tables are well formed over every history: there is one manager for each KV cache group, a
  request has one table in each, every entry of a table is the id of a block of the pool (the null block
  stands for removed and skipped positions), and no partial hit is left pending between two calls.
\<close>
theorem kv_tables_typed:
  assumes "km_init n groups retention zeroing max_len sched_bs hash_bs in_flight caching use_eagle lookahead
     log_st events use_int dcp pcp watermark min_prefill meta = Inr m0"
    and "0 < n" and "\<forall>g\<in>set groups. kind_ok (sp_kind (gr_spec g))"
    and "km_step\<^sup>*\<^sup>* (m0, {#}) (m, R)"
  shows "length (km_managers m) = length (kv_cache_groups (km_coordinator m)) \<and>
    (\<forall>gm\<in>set (km_managers m). distinct (map fst (req_to_blocks gm)) \<and> 0 < gm_block_size gm \<and>
       (\<forall>rid. partial_hit_reqs gm rid = None) \<and>
       (\<forall>(rid, bl)\<in>set (req_to_blocks gm). \<forall>b\<in>set bl. \<exists>i<num_gpu_blocks (km_pool m). b = Block i))"
proof -
  obtain xs where ok: "kv_ok m xs R" using history_ok [OF assms] by blast
  have n: "0 < num_gpu_blocks (km_pool m)" using pool_invD(1) [OF kv_okD(3) [OF ok]] .
  have "\<exists>i<num_gpu_blocks (km_pool m). b = Block i"
    if "gm_wf (num_gpu_blocks (km_pool m)) gm" "(rid, bl) \<in> set (req_to_blocks gm)" "b \<in> set bl" for gm rid bl b
  proof -
    have "b \<in># gm_refs gm" using that(2,3) by (force simp: gm_refs_def table_refs_def)
    then have "valid_block (num_gpu_blocks (km_pool m)) b" by (rule gm_wfD(4) [OF that(1)])
    then show ?thesis using n by (auto simp: valid_block_def pool_block_def)
  qed
  moreover have "gm_wf (num_gpu_blocks (km_pool m)) gm" if "gm \<in> set (km_managers m)" for gm
    using kv_okD(2) [OF ok] that by (simp add: held_all_def)
  ultimately show ?thesis using kv_okD(1,4) [OF ok] gm_wfD(1,3) by (fastforce simp: kv_inv_def keys_def)
qed

section \<open>A history\<close>

lemma example_history:
  "\<exists>m0 m gm. km_init 5 one_group None False 64 2 2 None False False 0 False False False 1 1 0 1 [] = Inr m0 \<and>
     km_step\<^sup>*\<^sup>* (m0, {#}) (m, {#}) \<and> km_managers m = [gm] \<and> 2 \<le> length (blocks_of gm ''r'') \<and>
     (\<forall>rid. blocks_of gm rid \<noteq> [] \<longrightarrow> rid = ''r'') \<and> pending_cow_copies gm = []"
proof -
  obtain m0 nb m1 g0 where i: "km_init 5 one_group None False 64 2 2 None False False 0 False False False 1 1 0 1 [] = Inr m0"
    and a: "slot_ok (sample_request ''r'' [5, 6, 7]) (example_slots 3) m0"
    "allocate_slots (sample_request ''r'' [5, 6, 7]) (example_slots 3) m0 = Inr (Some nb, m1)" "served ''r'' 3 0 m0 m1"
    and g: "km_managers m0 = [g0]" "gm_kind g0 = FullAttn" "idle_manager g0" using example_allocation by auto
  have k: "\<forall>g\<in>set one_group. kind_ok (sp_kind (gr_spec g))" by (simp add: one_group_def kind_ok_def)
  have s1: "km_step (m0, {#}) (m1, {#})" by (rule km_step.alloc [OF a(1) _ a(2)]) (simp add: example_slots_def)
  obtain g1 where g1: "km_managers m1 = [g1]" using a(3) g(1) by (auto simp: served_def same_setup_def length_Suc_conv)
  have sv: "served_in ''r'' 3 0 g0 g1" using a(3) g(1) g1 by (simp add: served_def)
  have "gm_block_size g0 = 2" using i g(1) by (auto simp: km_init_def get_kv_cache_coordinator_def base_init_def one_group_def
        get_manager_for_kv_cache_spec_def dcp_world_size_for_kv_cache_spec_def gm_init_def Let_def ensure_def
        split: if_splits)
  then have len: "2 \<le> length (blocks_of g1 ''r'')" using sv g(2) by (simp add: served_in_def slots_for_def is_ring_def)
  have other: "blocks_of g1 rid = []" if "rid \<noteq> ''r''" for rid
    using sv that g(3) by (simp add: served_in_def only_request_def idle_manager_def blocks_of_def)
  obtain cs bl m2 where c: "take_kv_cache_block_copies m1 = ((cs, bl), m2)" by (metis surj_pair)
  have s2: "km_step (m1, {#}) (m2, mset bl)" using km_step.copies [OF c, of "{#}"] by simp
  have g2: "km_managers m2 = [snd (take_pending_cow_copies g1)]"
    using c g1 by (auto simp: take_kv_cache_block_copies_def set_managers_def Let_def)
  have "km_step\<^sup>*\<^sup>* (m0, {#}) (m2, mset bl)" using s1 s2 by simp
  from history_ok [OF i _ k this] obtain ys where ok: "kv_ok m2 ys (mset bl)" by auto
  obtain p where p: "free_blocks bl (km_pool m2) = Inr p" using release_ok [OF ok, of bl] by auto
  let ?m = "m2\<lparr>km_coordinator := (km_coordinator m2)\<lparr>block_pool := p\<rparr>\<rparr>"
  have s3: "km_step (m2, mset bl) (?m, {#})" using km_step.give_back [OF _ p, of "mset bl"] by simp
  have "km_step\<^sup>*\<^sup>* (m0, {#}) (?m, {#})" using s1 s2 s3 by (meson converse_rtranclp_into_rtranclp rtranclp.rtrancl_refl)
  then show ?thesis using i g2 len other
    by (intro exI [of _ m0] exI [of _ ?m] exI [of _ "snd (take_pending_cow_copies g1)"])
      (auto simp: take_pending_cow_copies_def)
qed

theorem kv_references_exact_witness:
  "\<exists>m0 m gm xs. km_init 5 one_group None False 64 2 2 None False False 0 False False False 1 1 0 1 [] = Inr m0 \<and>
     km_step\<^sup>*\<^sup>* (m0, {#}) (m, {#}) \<and> km_managers m = [gm] \<and> blocks_of gm ''r'' \<noteq> [] \<and>
     is_fq (store (km_pool m)) xs \<and>
     (\<forall>b. pool_block (num_gpu_blocks (km_pool m)) b \<longrightarrow>
        ref_cnt (blk (km_pool m) b) = int (references m {#} b) \<and> (b \<in> set xs \<longleftrightarrow> references m {#} b = 0))"
proof -
  obtain m0 m gm where h: "km_init 5 one_group None False 64 2 2 None False False 0 False False False 1 1 0 1 [] = Inr m0"
    "km_step\<^sup>*\<^sup>* (m0, {#}) (m, {#})" "km_managers m = [gm]" "2 \<le> length (blocks_of gm ''r'')"
    using example_history by blast
  have k: "\<forall>g\<in>set one_group. kind_ok (sp_kind (gr_spec g))" by (simp add: one_group_def kind_ok_def)
  have "blocks_of gm ''r'' \<noteq> []" using h(4) by auto
  then show ?thesis using kv_references_exact [OF h(1) _ k h(2)] h(1-3) by (simp only: zero_less_numeral simp_thms) blast
qed

theorem kv_blocks_return_witness:
  "\<exists>m0 m gm m'. km_init 5 one_group None False 64 2 2 None False False 0 False False False 1 1 0 1 [] = Inr m0 \<and>
     km_step\<^sup>*\<^sup>* (m0, {#}) (m, {#}) \<and> km_managers m = [gm] \<and> blocks_of gm ''r'' \<noteq> [] \<and>
     rfold km_free [sample_request ''r'' [5, 6, 7]] m = Inr m' \<and>
     get_num_free_blocks (km_pool m') = int (num_gpu_blocks (km_pool m)) - 1"
proof -
  obtain m0 m gm where h: "km_init 5 one_group None False 64 2 2 None False False 0 False False False 1 1 0 1 [] = Inr m0"
    "km_step\<^sup>*\<^sup>* (m0, {#}) (m, {#})" "km_managers m = [gm]" "2 \<le> length (blocks_of gm ''r'')"
    "\<forall>rid. blocks_of gm rid \<noteq> [] \<longrightarrow> rid = ''r''" "pending_cow_copies gm = []"
    using example_history by blast
  have k: "\<forall>g\<in>set one_group. kind_ok (sp_kind (gr_spec g))" by (simp add: one_group_def kind_ok_def)
  have "request_id (sample_request ''r'' [5, 6, 7]) = ''r''" by (simp add: sample_request_def)
  with kv_blocks_return [OF h(1) _ k h(2), of "[sample_request ''r'' [5, 6, 7]]"] h
  show ?thesis by fastforce
qed

theorem kv_tables_typed_witness:
  "\<exists>m0 m gm. km_init 5 one_group None False 64 2 2 None False False 0 False False False 1 1 0 1 [] = Inr m0 \<and>
     km_step\<^sup>*\<^sup>* (m0, {#}) (m, {#}) \<and> km_managers m = [gm] \<and> blocks_of gm ''r'' \<noteq> [] \<and>
     distinct (map fst (req_to_blocks gm))"
proof -
  obtain m0 m gm where h: "km_init 5 one_group None False 64 2 2 None False False 0 False False False 1 1 0 1 [] = Inr m0"
    "km_step\<^sup>*\<^sup>* (m0, {#}) (m, {#})" "km_managers m = [gm]" "2 \<le> length (blocks_of gm ''r'')"
    using example_history by blast
  have k: "\<forall>g\<in>set one_group. kind_ok (sp_kind (gr_spec g))" by (simp add: one_group_def kind_ok_def)
  from kv_tables_typed [OF h(1) _ k h(2)] h show ?thesis by fastforce
qed

end
