(* ===== verification/KV_Lookup.thy ===== *)
theory KV_Lookup
  imports KV_Machine
begin

text \<open>
  Prefix cache lookup and allocation together. No operation of the KV cache manager changes its
  configuration, so what the constructors establish holds over every history; hence the lookup of a new
  request on any reachable state returns the longest common hit of all groups, and its result keeps the
  contract of \<^verbatim>\<open>allocate_slots\<close>. The last section shows a configuration in which reporting a hit raises.
\<close>

section \<open>The configuration is fixed\<close>

definition erase :: "group_manager \<Rightarrow> group_manager" where
  \<comment> \<open>the fields of a manager that its constructor sets for good\<close>
  "erase m = m\<lparr>new_block_ids := [], req_to_blocks := [], num_cached_block := (\<lambda>_. None),
     partial_hit_reqs := (\<lambda>_. None), pending_cow_copies := []\<rparr>"


lemma erase_fields:
  assumes "erase m' = erase m"
  shows "gm_kind m' = gm_kind m" and "gm_block_size m' = gm_block_size m" and "gm_enable_caching m' = gm_enable_caching m"
    and "dcp_world_size m' = dcp_world_size m" and "pcp_world_size m' = pcp_world_size m"
proof -
  have "gm_kind (erase m') = gm_kind (erase m)" "gm_block_size (erase m') = gm_block_size (erase m)"
    "gm_enable_caching (erase m') = gm_enable_caching (erase m)" "dcp_world_size (erase m') = dcp_world_size (erase m)"
    "pcp_world_size (erase m') = pcp_world_size (erase m)" by (simp_all only: assms)
  then show "gm_kind m' = gm_kind m" "gm_block_size m' = gm_block_size m" "gm_enable_caching m' = gm_enable_caching m"
    "dcp_world_size m' = dcp_world_size m" "pcp_world_size m' = pcp_world_size m" by (simp_all add: erase_def)
qed
















definition same_conf :: "kv_cache_manager \<Rightarrow> kv_cache_manager \<Rightarrow> bool" where
  "same_conf m m' \<longleftrightarrow> (\<exists>ms p s. map erase ms = map erase (km_managers m) \<and>
     m' = m\<lparr>km_coordinator := (km_coordinator m)\<lparr>single_type_managers := ms, block_pool := p\<rparr>, prefix_cache_stats := s\<rparr>)"

lemma same_confI:
  assumes "map erase ms = map erase (km_managers m)"
  shows "same_conf m (m\<lparr>km_coordinator := (km_coordinator m)\<lparr>single_type_managers := ms, block_pool := p\<rparr>\<rparr>)"
  unfolding same_conf_def
  by (rule exI [of _ ms], rule exI [of _ p], rule exI [of _ "prefix_cache_stats m"]) (simp add: assms)

lemma same_conf_pool [simp]: "same_conf m (m\<lparr>km_coordinator := (km_coordinator m)\<lparr>block_pool := p\<rparr>\<rparr>)"
  using same_confI [of "km_managers m" m p] by simp

lemma same_conf_refl [simp]: "same_conf m m"
  using same_conf_pool [of m "km_pool m"] by simp













section \<open>What the constructors establish\<close>







definition manager_fits :: "kv_cache_group \<Rightarrow> group_manager \<Rightarrow> bool" where
  \<comment> \<open>the manager of a group, without context parallelism and with prefix caching\<close>
  "manager_fits g gm \<longleftrightarrow> gm_kind gm = sp_kind (gr_spec g) \<and> gm_block_size gm = sp_block_size (gr_spec g) \<and>
     gm_enable_caching gm \<and> dcp_world_size gm = 1 \<and> pcp_world_size gm = 1"

definition managers_fit :: "coordinator \<Rightarrow> bool" where
  "managers_fit c \<longleftrightarrow> length (single_type_managers c) = length (kv_cache_groups c) \<and>
     (\<forall>i<length (kv_cache_groups c). manager_fits (kv_cache_groups c ! i) (single_type_managers c ! i))"

definition sizes_fit :: "coordinator \<Rightarrow> bool" where
  "sizes_fit c \<longleftrightarrow> 0 < co_hash_block_size c \<and> eagle_group_ids c = [] \<and>
     (\<forall>g\<in>set (kv_cache_groups c). 0 < sp_block_size (gr_spec g)) \<and>
     (case co_class c of
        NoPrefixCache \<Rightarrow> False
      | UnitaryCoordinator \<Rightarrow> length (kv_cache_groups c) = 1 \<and>
          co_hash_block_size c = sp_block_size (gr_spec (kv_cache_groups c ! 0))
      | HybridCoordinator \<Rightarrow> attention_groups c = split_groups (kv_cache_groups c) [] \<and> split_groups (kv_cache_groups c) [] \<noteq> [] \<and>
          cache_hit_alignment c = co_scheduler_block_size c \<and> 0 < co_scheduler_block_size c \<and>
          (\<forall>g\<in>set (kv_cache_groups c). sp_block_size (gr_spec g) dvd co_scheduler_block_size c \<and>
             (prefix_cacheable (gr_spec g) \<longrightarrow> sp_block_size (gr_spec g) mod co_hash_block_size c = 0)))"

lemma manager_fits_update [simp]:
  "manager_fits g (m\<lparr>gm_use_eagle := e\<rparr>) = manager_fits g m"
  "manager_fits g (m\<lparr>cache_hit_alignment_tokens := k\<rparr>) = manager_fits g m"
  by (simp_all add: manager_fits_def)





lemma alignment_update: "cache_hit_alignment (c\<lparr>single_type_managers := ms, block_pool := p\<rparr>) = cache_hit_alignment c"
  by (simp add: cache_hit_alignment_def)

lemma conf_fits:
  assumes s: "same_conf m m'"
  shows "managers_fit (km_coordinator m) \<Longrightarrow> managers_fit (km_coordinator m')"
    and "sizes_fit (km_coordinator m) \<Longrightarrow> sizes_fit (km_coordinator m')"
    and "kv_cache_groups (km_coordinator m') = kv_cache_groups (km_coordinator m)"
    and "km_min_prefill_tokens m' = km_min_prefill_tokens m" and "km_enable_caching m' = km_enable_caching m"
    and "max_model_len m' = max_model_len m"
    and "co_hash_block_size (km_coordinator m') = co_hash_block_size (km_coordinator m)"
proof -
  obtain ms p st where e: "map erase ms = map erase (km_managers m)"
    and m': "m' = m\<lparr>km_coordinator := (km_coordinator m)\<lparr>single_type_managers := ms, block_pool := p\<rparr>, prefix_cache_stats := st\<rparr>"
    using s unfolding same_conf_def by blast
  have l: "length ms = length (km_managers m)" using arg_cong [OF e, of length] by simp
  have "erase (ms ! i) = erase (km_managers m ! i)" if "i < length ms" for i
    using arg_cong [OF e, of "\<lambda>l. l ! i"] that l by simp
  note f = erase_fields [OF this]
  show "managers_fit (km_coordinator m) \<Longrightarrow> managers_fit (km_coordinator m')"
    using l f unfolding m' by (simp add: managers_fit_def manager_fits_def)
  show "sizes_fit (km_coordinator m) \<Longrightarrow> sizes_fit (km_coordinator m')"
    unfolding m' by (cases "co_class (km_coordinator m)") (simp_all add: sizes_fit_def alignment_update)
qed (use s in \<open>auto simp: same_conf_def\<close>)

section \<open>The columns of a lookup\<close>













section \<open>From the lookup to the slots\<close>








section \<open>Reporting hits under context parallelism\<close>

lemma full_find_dcp:
  "1 < dcp \<Longrightarrow> full_find_longest_cache_hit p hs limit gs bs e align dcp = full_find_longest_cache_hit p hs limit gs (bs * dcp) e align 1"
  by (simp add: full_find_longest_cache_hit_def full_hit_rows_def Let_def)

lemma first_block_hit:
  assumes "cache_inv p" and "0 < hash_block_size p" and "hash_block_size p \<le> limit" and "l \<noteq> []" and "row_of p [0] (hd l) \<noteq> None"
  shows "\<exists>col hit. full_find_longest_cache_hit p (Raw l) limit [0] (hash_block_size p) False (hash_block_size p) 1 =
      Inr ([col], int hit) \<and> 0 < hit \<and> col \<noteq> []"
proof -
  let ?bs = "hash_block_size p"
  have v: "valid_groups [0]" and s: "supported_sizes ?bs ?bs ?bs" using assms(2) by (simp_all add: valid_groups_def supported_sizes_def)
  obtain rows m where r: "full_hit_rows p (Raw l) limit [0] ?bs False ?bs 1 = Inr (finish_hit ?bs ?bs False (rows, int m))"
    "longest_match p [0] l ?bs ?bs limit m" "match_rows p [0] l ?bs m rows"
    using full_hit_rows_spec [OF assms(1) v s, of l limit False] by auto
  have "full_match p [0] l ?bs ?bs limit ?bs"
    using assms(2-5) by (simp add: full_match_def num_keys_def block_key_def hd_conv_nth Suc_le_eq)
  then have m: "?bs \<le> m" "?bs dvd m" using r(2) by (simp_all add: longest_match_def full_match_def)
  have "int (length rows) = cdiv (int m) (int ?bs)" using r(3) by (simp add: match_rows_def)
  moreover have "cdiv (int m) (int ?bs) = int (m div ?bs)" using cdiv_nat [OF assms(2), of m] m(2) by simp
  moreover have "0 < m div ?bs" using m(1) assms(2) by (simp add: div_greater_zero_iff)
  ultimately have "rows \<noteq> []" "finish_hit ?bs ?bs False (rows, int m) = (rows, int m)"
    using m(2) by (auto simp: finish_hit_def Let_def)
  then show ?thesis using r(1) m(1) assms(2) by (intro exI [of _ "map (\<lambda>row. row ! 0) rows"] exI [of _ m])
    (simp add: full_find_longest_cache_hit_def columns_def)
qed

lemma emit_smaller_block:
  assumes "enable_kv_cache_events p" and "col \<noteq> []" and "0 < sp_block_size (gr_spec g)"
    and "sp_block_size (gr_spec g) < hash_block_size p"
  shows "rfold (emit_hit_events r [g]) (enumerate 0 [col]) p = Inl AssertionError"
  using assms by (simp add: emit_hit_events_def emit_cached_block_events_def py_get_def resolve_block_hashes_def ensure_def)

lemma dcp_init:
  assumes i: "km_init n [g] retention zeroing max_len sched_bs hash_bs in_flight True False lookahead log_st True use_int dcp pcp
      watermark min_prefill meta = Inr m"
    and g: "is_full_spec (gr_spec g)" "\<not> is_eagle_group g" and d: "1 < dcp"
  shows "\<exists>gm. km_managers m = [gm] \<and> gm_block_size gm = sp_block_size (gr_spec g) * dcp \<and> dcp_world_size gm = dcp \<and>
    co_class (km_coordinator m) = UnitaryCoordinator \<and> kv_cache_groups (km_coordinator m) = [g] \<and>
    eagle_group_ids (km_coordinator m) = [] \<and> hash_bs = sp_block_size (gr_spec g) * dcp \<and>
    co_hash_block_size (km_coordinator m) = hash_bs \<and> 0 < sp_block_size (gr_spec g) \<and> km_enable_caching m \<and> km_enable_events m"
  using i g d
  by (auto simp: km_init_def get_kv_cache_coordinator_def base_init_def unitary_init_def get_manager_for_kv_cache_spec_def
      gm_init_def dcp_world_size_for_kv_cache_spec_def Let_def ensure_def split: if_split_asm)

lemma conf_fields:
  assumes s: "same_conf m m'"
  shows "co_class (km_coordinator m') = co_class (km_coordinator m)"
    and "eagle_group_ids (km_coordinator m') = eagle_group_ids (km_coordinator m)" and "km_enable_events m' = km_enable_events m"
    and "map erase (km_managers m') = map erase (km_managers m)"
  using s by (auto simp: same_conf_def)

text \<open>
  C38: with decode context parallelism and KV cache events, the lookup of a request that asks for a full
  report of its cache hits raises an assertion on every well formed state of the manager in which the
  first block of the request is cached. The events of reused blocks are built with the block size of the
  specification, which is smaller than that of the hashes by the factor of the parallelism.
\<close>
theorem dcp_full_report_raises:
  assumes i: "km_init n [g] retention zeroing max_len sched_bs hash_bs in_flight True False lookahead log_st True use_int dcp pcp
      watermark min_prefill meta = Inr m0"
    and g: "is_full_spec (gr_spec g)" "\<not> is_eagle_group g" and d: "1 < dcp" and cf: "same_conf m0 m"
    and p: "cache_inv (km_pool m)" "hash_block_size (km_pool m) = hash_bs" "enable_kv_cache_events (km_pool m)"
    and r: "\<not> skip_reading_prefix_cache r" "int (hash_bs + km_min_prefill_tokens m) \<le> num_tokens r"
    and hit: "block_hashes r \<noteq> []" "row_of (km_pool m) [0] (hd (block_hashes r)) \<noteq> None"
  shows "get_computed_blocks r True m = Inl AssertionError"
proof -
  obtain g0 where g0: "km_managers m0 = [g0]" "gm_block_size g0 = sp_block_size (gr_spec g) * dcp" "dcp_world_size g0 = dcp"
    "co_class (km_coordinator m0) = UnitaryCoordinator" "kv_cache_groups (km_coordinator m0) = [g]"
    "eagle_group_ids (km_coordinator m0) = []" "hash_bs = sp_block_size (gr_spec g) * dcp"
    "0 < sp_block_size (gr_spec g)" "km_enable_caching m0" "km_enable_events m0"
    using dcp_init [OF i g d] by blast
  obtain gm where gm: "km_managers m = [gm]" "erase gm = erase g0"
    using conf_fields(4) [OF cf] g0(1) by (auto simp: map_eq_Cons_conv)
  note f = conf_fits(3,5) [OF cf] conf_fields(1-3) [OF cf] erase_fields [OF gm(2)]
  have h: "hash_block_size (km_pool m) = sp_block_size (gr_spec g) * dcp" using p(2) g0(7) by simp
  have sm: "sp_block_size (gr_spec g) < hash_block_size (km_pool m)" using h g0(8) d by simp
  let ?limit = "nat (max 0 (num_tokens r - int (km_min_prefill_tokens m)))"
  have "hash_bs \<le> ?limit" using r(2) by arith
  then have "hash_block_size (km_pool m) \<le> ?limit" using p(2) by simp
  from first_block_hit [OF p(1) _ this hit] obtain col k where
    c: "full_find_longest_cache_hit (km_pool m) (Raw (block_hashes r)) ?limit [0] (sp_block_size (gr_spec g) * dcp) False
      (sp_block_size (gr_spec g) * dcp) 1 = Inr ([col], int k)" "0 < k" "col \<noteq> []" using h sm by auto
  have "group_find (km_pool m) (block_hashes r) (gr_spec g) [0] ?limit False (sp_block_size (gr_spec g) * dcp) dcp (pcp_world_size gm)
      = Inr ([col], k)"
    using g(1) c(1) full_find_dcp [OF d] by (auto simp: group_find_def is_full_spec_def split: attn_kind.splits)
  then have "co_find_longest_cache_hit (km_coordinator m) (block_hashes r) ?limit = Inr ([col], k, 0)"
    using f g0 gm(1) by (simp add: co_find_longest_cache_hit_def unitary_find_def py_get_def)
  then show ?thesis
    using f g0 r(1) c(2) emit_smaller_block [OF p(3) c(3) g0(8) sm]
    by (simp add: get_computed_blocks_def prefix_cache_lookup_enabled_def del: enumerate_simps)
qed

theorem dcp_full_report_raises_witness:
  "\<exists>m0 p. km_init 5 [\<lparr>gr_spec = \<lparr>sp_kind = FullAttn, sp_block_size = 1, sp_layout = ''kv''\<rparr>, is_eagle_group = False\<rparr>]
       None False 64 2 2 None True False 0 False True False 2 1 0 1 [] = Inr m0 \<and> cache_inv p \<and>
     get_computed_blocks ((sample_request ''r'' [5, 6, 7])\<lparr>block_hashes := [[1]]\<rparr>) True
       (m0\<lparr>km_coordinator := (km_coordinator m0)\<lparr>block_pool := p\<rparr>\<rparr>) = Inl AssertionError"
proof -
  let ?g = "\<lparr>gr_spec = \<lparr>sp_kind = FullAttn, sp_block_size = 1, sp_layout = ''kv''\<rparr>, is_eagle_group = False\<rparr>"
  let ?r = "(sample_request ''r'' [5, 6, 7])\<lparr>block_hashes := [[1]]\<rparr>"
  obtain p0 where "pool_init 5 True 2 True False = Inr p0" using pool_init_spec [of 5 True 2 True False] by auto
  then have "\<exists>m. km_init 5 [?g] None False 64 2 2 None True False 0 False True False 2 1 0 1 [] = Inr m \<and> km_min_prefill_tokens m = 1"
    by (simp add: km_init_def get_kv_cache_coordinator_def base_init_def unitary_init_def is_full_spec_def
        validate_prefix_cache_retention_interval_def get_manager_for_kv_cache_spec_def
        dcp_world_size_for_kv_cache_spec_def gm_init_def)
  then obtain m where m: "km_init 5 [?g] None False 64 2 2 None True False 0 False True False 2 1 0 1 [] = Inr m"
    "km_min_prefill_tokens m = 1" by blast
  obtain p where p: "cache_inv p" "hash_block_size p = 2" "\<forall>j<3. row_of p [0] (block_key [[1], [2], [3]] 2 2 j) \<noteq> None"
    using example_pool by blast
  let ?p = "p\<lparr>enable_kv_cache_events := True\<rparr>"
  have ci: "cache_inv ?p" using p(1) by (simp add: cache_inv_def block_keys_def extra_hashes_def)
  have "get_cached_block ?p h gs = get_cached_block p h gs" for h gs by (induction gs) simp_all
  then have "row_of ?p [0] [1] = row_of p [0] [1]" by (simp add: row_of_def lookup_row_def)
  then have "row_of ?p [0] [1] \<noteq> None" using p(3) by (auto simp: block_key_def dest!: spec [of _ 0])
  from dcp_full_report_raises [OF m(1) _ _ _ same_conf_pool [of m ?p], of ?r] this ci p(2) m(2)
  show ?thesis using m(1) by (intro exI [of _ m] exI [of _ ?p]) (simp add: is_full_spec_def sample_request_def num_tokens_def)
qed

end
