(* ===== verification/Ngram_Proposer.thy ===== *)
theory Ngram_Proposer
  imports Prelude
begin

text \<open>
  The n-gram proposer for speculative decoding (\<^verbatim>\<open>vllm/v1/spec_decode/ngram_proposer.py\<close>): it looks for an
  earlier occurrence of the last tokens of a request and proposes the tokens that followed it. The search
  is the prefix function of Knuth, Morris and Pratt on the reversed tokens, with n-grams of a bounded
  length. Its loop is a partial function, shown to return and to find the longest n-gram at its earliest
  position. A numpy array is a list; the buffers of the proposer are part of its state. The parallel loop over
  the requests of a batch is a sequential one: its iterations write different rows and read none of them.
  The choice of the number of threads, which has no other effect, is left out.
\<close>

section \<open>Definitions\<close>

record ngram_state =
  lps :: "nat list"
  longest_ngram :: nat
  ngram_position :: nat

partial_function (option) ngram_loop ::
  "int list \<Rightarrow> nat \<Rightarrow> nat \<Rightarrow> nat \<Rightarrow> ngram_state \<Rightarrow> ngram_state option"
where
  \<comment> \<open>the loop over the reversed tokens with \<open>prev\<close> for \<^verbatim>\<open>prev_lps\<close> and \<open>i\<close> the index\<close>
  "ngram_loop toks max_ngram i prev st =
     (if i < length toks
      then if toks ! prev = toks ! i
           then let prev1 = prev + 1;
                    st1 = (if prev1 \<ge> longest_ngram st
                           then st\<lparr>longest_ngram := prev1, ngram_position := i\<rparr> else st);
                    st2 = (if i < max_ngram then st1\<lparr>lps := (lps st1)[i := prev1]\<rparr> else st1);
                    prev2 = (if prev1 = max_ngram then lps st2 ! (max_ngram - 1) else prev1)
                in ngram_loop toks max_ngram (i + 1) prev2 st2
           else if prev \<noteq> 0 then ngram_loop toks max_ngram i (lps st ! (prev - 1)) st
           else ngram_loop toks max_ngram (i + 1) prev st
      else Some st)"

definition find_longest_matched_ngram :: "int list \<Rightarrow> nat \<Rightarrow> nat \<Rightarrow> int \<Rightarrow> int \<Rightarrow> int list option" where
  "find_longest_matched_ngram origin min_ngram max_ngram max_model_len k =
     (let total = length origin in
      if total < min_ngram then Some []
      else
        let k1 = min k (max_model_len - int total) in
        if k1 \<le> 0 then Some []
        else
          case ngram_loop (rev origin) max_ngram 1 0
                 \<lparr>lps = replicate max_ngram 0, longest_ngram = 0, ngram_position = 0\<rparr> of
            None \<Rightarrow> None
          | Some st \<Rightarrow>
              if longest_ngram st < min_ngram then Some []
              else
                let start_position = total - 1 - ngram_position st + longest_ngram st;
                    k2 = min k1 (int total - int start_position)
                in Some (take (nat k2) (drop start_position origin)))"

record ngram_proposer =
  min_n :: nat
  max_n :: nat
  ngram_k :: int
  ngram_max_model_len :: int
  valid_ngram_draft :: "int list list"
  valid_ngram_num_drafts :: "nat list"

fun batch_propose_numba ::
  "nat list \<Rightarrow> nat list \<Rightarrow> int list list \<Rightarrow> int \<Rightarrow> ngram_proposer \<Rightarrow> ngram_proposer option"
where
  "batch_propose_numba [] nums rows k st = Some st"
| "batch_propose_numba (idx # idxs) nums rows k st =
     (case find_longest_matched_ngram (take (nums ! idx) (rows ! idx)) (min_n st) (max_n st)
             (ngram_max_model_len st) k of
        None \<Rightarrow> None
      | Some out \<Rightarrow>
          batch_propose_numba idxs nums rows k
            (st\<lparr>valid_ngram_num_drafts := (valid_ngram_num_drafts st)[idx := length out],
                valid_ngram_draft := (if out \<noteq> []
                  then (valid_ngram_draft st)[idx := out @ drop (length out) (valid_ngram_draft st ! idx)]
                  else valid_ngram_draft st)\<rparr>))"

definition batch_propose ::
  "nat \<Rightarrow> nat list \<Rightarrow> nat list \<Rightarrow> int list list \<Rightarrow> int \<Rightarrow> ngram_proposer \<Rightarrow> (int list list \<times> ngram_proposer) option"
where
  "batch_propose num_requests valid nums rows k st =
     (case (if valid \<noteq> [] then batch_propose_numba valid nums rows k st else Some st) of
        None \<Rightarrow> None
      | Some st1 \<Rightarrow>
          Some (map (\<lambda>i. if i \<in> set valid \<and> valid_ngram_num_drafts st1 ! i > 0
                         then take (valid_ngram_num_drafts st1 ! i) (valid_ngram_draft st1 ! i) else [])
                  [0..<num_requests], st1))"

definition propose ::
  "int \<Rightarrow> int list list \<Rightarrow> nat list \<Rightarrow> int list list \<Rightarrow> ngram_proposer \<Rightarrow> (int list list \<times> ngram_proposer) option res"
where
  "propose k sampled nums rows st =
     rbind (ensure (k \<le> ngram_k st) AssertionError) (\<lambda>_.
       let valid = filter (\<lambda>i. sampled ! i \<noteq> [] \<and> int (nums ! i) < ngram_max_model_len st) [0..<length sampled]
       in Inr (batch_propose (length sampled) valid nums rows k st))"

definition ngram_init ::
  "nat option \<Rightarrow> nat option \<Rightarrow> nat \<Rightarrow> nat \<Rightarrow> nat \<Rightarrow> ngram_proposer option res"
where
  "ngram_init lookup_min lookup_max k max_len max_num_seqs =
     rbind (ensure (lookup_min \<noteq> None) AssertionError) (\<lambda>_.
     rbind (ensure (lookup_max \<noteq> None) AssertionError) (\<lambda>_.
       let st = \<lparr>min_n = the lookup_min, max_n = the lookup_max, ngram_k = int k,
                 ngram_max_model_len = int max_len,
                 valid_ngram_draft = replicate max_num_seqs (replicate k 0),
                 valid_ngram_num_drafts = replicate max_num_seqs 0\<rparr>
       in rbind (propose (int k) (replicate 1024 []) (replicate 1024 0)
                  (replicate 1024 (replicate max_len 0)) st)
            (\<lambda>r. Inr (map_option snd r))))"

section \<open>Occurrences\<close>

definition occ :: "int list \<Rightarrow> nat \<Rightarrow> nat \<Rightarrow> bool" where
  \<comment> \<open>the prefix of length \<open>v\<close> is a proper suffix of the first \<open>i\<close> tokens\<close>
  "occ t v i \<longleftrightarrow> v < i \<and> (\<forall>j<v. t ! j = t ! (i - v + j))"

lemma occ_0 [simp]: "0 < i \<Longrightarrow> occ t 0 i"
  by (simp add: occ_def)

lemma occ_less: "occ t v i \<Longrightarrow> v < i"
  by (simp add: occ_def)

lemma occ_Suc: "occ t (Suc v) (Suc i) \<longleftrightarrow> occ t v i \<and> t ! v = t ! i"
proof -
  have "(\<forall>j<Suc v. t ! j = t ! (Suc i - Suc v + j)) \<longleftrightarrow> (\<forall>j<v. t ! j = t ! (i - v + j)) \<and> t ! v = t ! (i - v + v)"
    by (auto simp: less_Suc_eq)
  then show ?thesis by (auto simp: occ_def)
qed

lemma occ_trans:
  assumes "occ t w v" and "occ t v i"
  shows "occ t w i"
proof -
  have "t ! j = t ! (i - w + j)" if "j < w" for j
  proof -
    have "w < v" using assms(1) by (simp add: occ_def)
    then have k: "v - w + j < v" using that by arith
    have "t ! j = t ! (v - w + j)" using assms(1) that by (simp add: occ_def)
    also have "\<dots> = t ! (i - v + (v - w + j))" using assms(2) k unfolding occ_def by blast
    also have "i - v + (v - w + j) = i - w + j" using assms by (simp add: occ_def)
    finally show ?thesis .
  qed
  then show ?thesis using assms by (simp add: occ_def)
qed

lemma occ_within:
  assumes "occ t w i" and "occ t v i" and "w < v"
  shows "occ t w v"
proof -
  have "t ! j = t ! (v - w + j)" if "j < w" for j
  proof -
    have k: "v - w + j < v" using assms(3) that by simp
    have "t ! (v - w + j) = t ! (i - v + (v - w + j))" using assms(2) k unfolding occ_def by blast
    also have "i - v + (v - w + j) = i - w + j" using assms by (simp add: occ_def)
    also have "t ! (i - w + j) = t ! j" using assms(1) that by (simp add: occ_def)
    finally show ?thesis by simp
  qed
  then show ?thesis using assms by (simp add: occ_def)
qed

definition longest_occ :: "int list \<Rightarrow> nat \<Rightarrow> nat \<Rightarrow> bool" where
  "longest_occ t v i \<longleftrightarrow> occ t v i \<and> (\<forall>w. occ t w i \<longrightarrow> w \<le> v)"

section \<open>The loop\<close>

definition table_ok :: "int list \<Rightarrow> nat \<Rightarrow> nat \<Rightarrow> nat list \<Rightarrow> bool" where
  "table_ok t mx i l \<longleftrightarrow> length l = mx \<and> (\<forall>j<i. j < mx \<longrightarrow> longest_occ t (l ! j) (Suc j)) \<and>
     (\<forall>j<mx. i \<le> j \<longrightarrow> l ! j = 0)"

definition best_ok :: "int list \<Rightarrow> nat \<Rightarrow> nat \<Rightarrow> nat \<Rightarrow> nat \<Rightarrow> bool" where
  \<comment> \<open>\<open>n\<close> is the longest n-gram that ends before \<open>i\<close>, and \<open>p\<close> its last position\<close>
  "best_ok t mx i n p \<longleftrightarrow> n \<le> mx \<and> (0 < n \<longrightarrow> p < i \<and> occ t n (Suc p)) \<and>
     (\<forall>j<i. \<forall>v\<le>mx. 0 < v \<longrightarrow> occ t v (Suc j) \<longrightarrow> v \<le> n \<and> (v = n \<longrightarrow> j \<le> p))"

definition loop_inv :: "int list \<Rightarrow> nat \<Rightarrow> nat \<Rightarrow> nat \<Rightarrow> ngram_state \<Rightarrow> bool" where
  "loop_inv t mx i prev st \<longleftrightarrow> 0 < mx \<and> 0 < i \<and> occ t prev i \<and> prev < mx \<and>
     (\<forall>v<mx. occ t v i \<longrightarrow> t ! v = t ! i \<longrightarrow> v \<le> prev) \<and> table_ok t mx i (lps st) \<and>
     best_ok t mx i (longest_ngram st) (ngram_position st)"

lemma table_at:
  assumes "table_ok t mx i l" and "0 < v" and "v \<le> i" and "v \<le> mx"
  shows "longest_occ t (l ! (v - 1)) v"
proof -
  have "v - 1 < i" "v - 1 < mx" "Suc (v - 1) = v" using assms(2-4) by simp_all
  then show ?thesis using assms(1) unfolding table_ok_def by metis
qed

lemma longest_new:
  assumes inv: "loop_inv t mx i prev st" and m: "t ! prev = t ! i"
  shows "occ t (Suc prev) (Suc i)" and "v \<le> mx \<Longrightarrow> occ t v (Suc i) \<Longrightarrow> v \<le> Suc prev"
proof -
  show "occ t (Suc prev) (Suc i)" using inv m by (simp add: occ_Suc loop_inv_def)
  show "v \<le> Suc prev" if "v \<le> mx" "occ t v (Suc i)"
    using that inv by (cases v) (simp_all add: occ_Suc loop_inv_def)
qed

lemma best_step:
  assumes b: "best_ok t mx i n p" and o: "occ t w (Suc i)" "0 < w" "w \<le> mx"
    and mx: "\<And>v. v \<le> mx \<Longrightarrow> occ t v (Suc i) \<Longrightarrow> v \<le> w"
  shows "if w \<ge> n then best_ok t mx (Suc i) w i else best_ok t mx (Suc i) n p"
  using assms unfolding best_ok_def less_Suc_eq by (auto simp: less_imp_le) (fastforce dest: mx)+

lemma table_step:
  assumes "table_ok t mx i l" and "i < mx \<Longrightarrow> longest_occ t w (Suc i)"
  shows "table_ok t mx (Suc i) (if i < mx then l[i := w] else l)"
  using assms by (auto simp: table_ok_def less_Suc_eq nth_list_update)

lemma inv_match:
  assumes inv: "loop_inv t mx i prev st" and m: "t ! prev = t ! i"
  defines "st1 \<equiv> (if prev + 1 \<ge> longest_ngram st then st\<lparr>longest_ngram := prev + 1, ngram_position := i\<rparr> else st)"
  defines "st2 \<equiv> (if i < mx then st1\<lparr>lps := (lps st1)[i := prev + 1]\<rparr> else st1)"
  defines "prev2 \<equiv> (if prev + 1 = mx then lps st2 ! (mx - 1) else prev + 1)"
  shows "loop_inv t mx (i + 1) prev2 st2" and "prev2 \<le> prev + 1"
proof -
  note new = longest_new [OF inv m]
  have I: "0 < mx" "0 < i" "occ t prev i" "prev < mx" "table_ok t mx i (lps st)"
    "best_ok t mx i (longest_ngram st) (ngram_position st)" using inv by (simp_all add: loop_inv_def)
  have lo: "longest_occ t (Suc prev) (Suc i)" if "i < mx"
  proof -
    have "w \<le> Suc prev" if "occ t w (Suc i)" for w
      using new(2) [OF _ that] that \<open>i < mx\<close> by (simp add: occ_def)
    then show ?thesis using new(1) by (simp add: longest_occ_def)
  qed
  have l2: "lps st2 = (if i < mx then (lps st)[i := Suc prev] else lps st)" by (simp add: st2_def st1_def)
  have T: "table_ok t mx (Suc i) (lps st2)" unfolding l2 by (rule table_step [OF I(5) lo])
  have "best_ok t mx (Suc i) (longest_ngram st2) (ngram_position st2)"
    using best_step [OF I(6) new(1) _ _ new(2)] I(4) by (auto simp: st2_def st1_def split: if_splits)
  moreover have "occ t prev2 (Suc i) \<and> prev2 < mx \<and> prev2 \<le> Suc prev \<and> (\<forall>v<mx. occ t v (Suc i) \<longrightarrow> v \<le> prev2)"
  proof (cases "Suc prev = mx")
    case True
    have w: "longest_occ t prev2 mx"
      using table_at [OF T I(1)] occ_less [OF I(3)] True by (simp add: prev2_def)
    then have o: "occ t prev2 mx" by (simp add: longest_occ_def)
    then have "prev2 < mx" by (simp add: occ_def)
    moreover have "occ t prev2 (Suc i)" using occ_trans [OF o] new(1) True by simp
    moreover have "v \<le> prev2" if "v < mx" "occ t v (Suc i)" for v
      using occ_within [OF that(2) new(1)] that(1) True w by (simp add: longest_occ_def)
    ultimately show ?thesis using True by auto
  next
    case False
    then show ?thesis using new I(4) by (simp add: prev2_def)
  qed
  ultimately show "loop_inv t mx (i + 1) prev2 st2" "prev2 \<le> prev + 1" using T I(1) by (auto simp: loop_inv_def)
qed

lemma inv_fallback:
  assumes inv: "loop_inv t mx i prev st" and m: "t ! prev \<noteq> t ! i" and p: "prev \<noteq> 0"
  shows "loop_inv t mx i (lps st ! (prev - 1)) st" and "lps st ! (prev - 1) < prev"
proof -
  have I: "occ t prev i" "prev < mx" "\<forall>v<mx. occ t v i \<longrightarrow> t ! v = t ! i \<longrightarrow> v \<le> prev" "table_ok t mx i (lps st)"
    using inv by (simp_all add: loop_inv_def)
  have w: "longest_occ t (lps st ! (prev - 1)) prev"
    by (rule table_at [OF I(4)]) (use p I(2) occ_less [OF I(1)] in simp_all)
  then have o: "occ t (lps st ! (prev - 1)) prev" by (simp add: longest_occ_def)
  then show lt: "lps st ! (prev - 1) < prev" by (simp add: occ_def)
  have "v \<le> lps st ! (prev - 1)" if "v < mx" "occ t v i" "t ! v = t ! i" for v
  proof -
    have "v < prev" using I(3) that m by (metis le_neq_implies_less)
    then show ?thesis using occ_within [OF that(2) I(1)] w by (simp add: longest_occ_def)
  qed
  then show "loop_inv t mx i (lps st ! (prev - 1)) st"
    using inv occ_trans [OF o I(1)] lt I(2) by (simp add: loop_inv_def)
qed

lemma inv_skip:
  assumes inv: "loop_inv t mx i 0 st" and m: "t ! 0 \<noteq> t ! i"
  shows "loop_inv t mx (i + 1) 0 st"
proof -
  have I: "0 < mx" "\<forall>v<mx. occ t v i \<longrightarrow> t ! v = t ! i \<longrightarrow> v \<le> 0" "table_ok t mx i (lps st)"
    "best_ok t mx i (longest_ngram st) (ngram_position st)" using inv by (simp_all add: loop_inv_def)
  have n: "v = 0" if "v \<le> mx" "occ t v (Suc i)" for v
  proof (cases v)
    case (Suc w)
    then have "w < mx" "occ t w i" "t ! w = t ! i" using that by (simp_all add: occ_Suc)
    then show ?thesis using I(2) m by auto
  qed simp
  then have "longest_occ t 0 (Suc i)" if "i < mx" using that by (fastforce simp: longest_occ_def occ_def)
  then have T: "table_ok t mx (Suc i) (lps st)" using I(3) by (auto simp: table_ok_def less_Suc_eq)
  moreover have "best_ok t mx (Suc i) (longest_ngram st) (ngram_position st)"
    using I(4) n unfolding best_ok_def less_Suc_eq by fastforce
  ultimately show ?thesis using I(1) n by (auto simp: loop_inv_def)
qed

lemma loop_unfold:
  "\<not> i < length t \<Longrightarrow> ngram_loop t mx i prev st = Some st"
  "i < length t \<Longrightarrow> t ! prev \<noteq> t ! i \<Longrightarrow> prev \<noteq> 0 \<Longrightarrow>
     ngram_loop t mx i prev st = ngram_loop t mx i (lps st ! (prev - 1)) st"
  "i < length t \<Longrightarrow> t ! prev \<noteq> t ! i \<Longrightarrow> prev = 0 \<Longrightarrow> ngram_loop t mx i prev st = ngram_loop t mx (i + 1) 0 st"
  by (subst ngram_loop.simps, simp)+

lemma loop_returns:
  assumes "loop_inv t mx i prev st" and "i \<le> length t"
  shows "\<exists>st'. ngram_loop t mx i prev st = Some st' \<and> best_ok t mx (length t) (longest_ngram st') (ngram_position st')"
  using assms
proof (induction "2 * (length t - i) + prev" arbitrary: i prev st rule: less_induct)
  case less
  show ?case
  proof (cases "i < length t")
    case False
    then have "i = length t" using less.prems(2) by simp
    then show ?thesis using loop_unfold(1) [OF False] less.prems(1) by (auto simp: loop_inv_def)
  next
    case i: True
    show ?thesis
    proof (cases "t ! prev = t ! i")
      case True
      note s = inv_match [OF less.prems(1) True]
      show ?thesis
        by (subst ngram_loop.simps, unfold Let_def if_P [OF i] if_P [OF True], rule less.hyps [OF _ s(1)]) (use s(2) i in simp_all)
    next
      case False
      show ?thesis
      proof (cases "prev = 0")
        case True
        have "loop_inv t mx (i + 1) 0 st" using inv_skip [of t mx i st] less.prems(1) False True by simp
        then show ?thesis unfolding loop_unfold(3) [OF i False True] using less.hyps [of "i + 1" 0 st] i True by simp
      next
        case p: False
        note s = inv_fallback [OF less.prems(1) False p]
        show ?thesis unfolding loop_unfold(2) [OF i False p]
          by (rule less.hyps [OF _ s(1) less.prems(2)]) (use s(2) in simp)
      qed
    qed
  qed
qed

section \<open>The search\<close>

definition ngram_at :: "int list \<Rightarrow> nat \<Rightarrow> nat \<Rightarrow> bool" where
  \<comment> \<open>the last \<open>n\<close> tokens also occur at position \<open>s\<close>\<close>
  "ngram_at xs n s \<longleftrightarrow> s + n < length xs \<and> take n (drop s xs) = drop (length xs - n) xs"

lemma ngram_at_nth: "ngram_at xs n s \<longleftrightarrow> s + n < length xs \<and> (\<forall>b<n. xs ! (s + b) = xs ! (length xs - n + b))"
  by (auto simp: ngram_at_def list_eq_iff_nth_eq)

lemma occ_rev:
  assumes "j < length xs"
  shows "occ (rev xs) v (Suc j) \<longleftrightarrow> ngram_at xs v (length xs - 1 - j)"
proof -
  let ?T = "length xs" and ?s = "length xs - 1 - j"
  have e: "(rev xs ! a = rev xs ! (Suc j - v + a)) = (xs ! (?s + (v - 1 - a)) = xs ! (?T - v + (v - 1 - a)))"
    if "a < v" "v \<le> j" for a
  proof -
    have "rev xs ! a = xs ! (?T - v + (v - 1 - a))" "rev xs ! (Suc j - v + a) = xs ! (?s + (v - 1 - a))"
      using that assms by (simp_all add: rev_nth)
    then show ?thesis by auto
  qed
  have "(\<forall>a<v. xs ! (?s + (v - 1 - a)) = xs ! (?T - v + (v - 1 - a))) \<longleftrightarrow> (\<forall>b<v. xs ! (?s + b) = xs ! (?T - v + b))"
  proof (intro iffI allI impI)
    fix b assume "\<forall>a<v. xs ! (?s + (v - 1 - a)) = xs ! (?T - v + (v - 1 - a))" "b < v"
    then show "xs ! (?s + b) = xs ! (?T - v + b)" by (auto dest: spec [of _ "v - 1 - b"])
  next
    fix a assume "\<forall>b<v. xs ! (?s + b) = xs ! (?T - v + b)" "a < v"
    then show "xs ! (?s + (v - 1 - a)) = xs ! (?T - v + (v - 1 - a))" by (elim allE [of _ "v - 1 - a"]) auto
  qed
  moreover have "?s + v < ?T \<longleftrightarrow> v < Suc j" using assms by auto
  ultimately show ?thesis unfolding occ_def ngram_at_nth using e by (auto simp: less_Suc_eq_le)
qed

definition best_ngram :: "int list \<Rightarrow> nat \<Rightarrow> nat \<Rightarrow> nat \<Rightarrow> bool" where
  \<comment> \<open>the longest repeated n-gram up to a length, at its earliest position\<close>
  "best_ngram xs mx n s \<longleftrightarrow> n \<le> mx \<and> ngram_at xs n s \<and>
     (\<forall>n' s'. n' \<le> mx \<longrightarrow> ngram_at xs n' s' \<longrightarrow> n' \<le> n \<and> (n' = n \<longrightarrow> s \<le> s'))"

lemma best_rev:
  assumes b: "best_ok (rev xs) mx (length xs) n p" and n: "0 < n"
  shows "best_ngram xs mx n (length xs - 1 - p)" and "p < length xs"
proof -
  show p: "p < length xs" using b n by (simp add: best_ok_def)
  have o: "occ (rev xs) n (Suc p)" using b n by (simp add: best_ok_def)
  have "n' \<le> n \<and> (n' = n \<longrightarrow> length xs - 1 - p \<le> s')" if "n' \<le> mx" and at: "ngram_at xs n' s'" for n' s'
  proof (cases "n' = 0")
    case False
    let ?j = "length xs - 1 - s'"
    have s: "s' < length xs" "length xs - 1 - ?j = s'" using at by (auto simp: ngram_at_def)
    have j: "?j < length xs" using s(1) by simp
    have "occ (rev xs) n' (Suc ?j)" unfolding occ_rev [OF j] s(2) by (rule at)
    then have "n' \<le> n \<and> (n' = n \<longrightarrow> ?j \<le> p)" using b j that(1) False unfolding best_ok_def by blast
    then show ?thesis using s(1) by auto
  qed (use n in simp)
  then show "best_ngram xs mx n (length xs - 1 - p)"
    using o b unfolding occ_rev [OF p] best_ngram_def best_ok_def by blast
qed

lemma best_none:
  assumes b: "best_ok (rev xs) mx (length xs) n p" and at: "ngram_at xs n' s'" and m: "n' \<le> mx" "0 < n'"
  shows "n' \<le> n"
proof -
  let ?j = "length xs - 1 - s'"
  have s: "s' < length xs" "length xs - 1 - ?j = s'" using at by (auto simp: ngram_at_def)
  have j: "?j < length xs" using s(1) by simp
  have "occ (rev xs) n' (Suc ?j)" unfolding occ_rev [OF j] s(2) by (rule at)
  then show ?thesis using b j m by (simp add: best_ok_def)
qed

lemma loop_start:
  assumes "0 < mx"
  shows "loop_inv t mx 1 0 \<lparr>lps = replicate mx 0, longest_ngram = 0, ngram_position = 0\<rparr>"
  using assms by (auto simp: loop_inv_def table_ok_def best_ok_def longest_occ_def dest: occ_less)

definition proposal :: "int list \<Rightarrow> nat \<Rightarrow> nat \<Rightarrow> int \<Rightarrow> int list \<Rightarrow> bool" where
  \<comment> \<open>what is proposed after the tokens \<open>xs\<close>: at most \<open>k\<close> of the tokens that follow the best n-gram\<close>
  "proposal xs mn mx k out \<longleftrightarrow>
     (if 0 < k \<and> (\<exists>n s. mn \<le> n \<and> n \<le> mx \<and> ngram_at xs n s)
      then \<exists>n s. mn \<le> n \<and> best_ngram xs mx n s \<and> out = take (nat k) (drop (s + n) xs) \<and> out \<noteq> []
      else out = [])"

lemma find_returns:
  assumes m: "0 < mn" "0 < mx"
  shows "\<exists>out. find_longest_matched_ngram xs mn mx max_len k = Some out \<and>
    proposal xs mn mx (min k (max_len - int (length xs))) out"
proof -
  let ?T = "length xs" and ?k = "min k (max_len - int (length xs))"
  show ?thesis
  proof (cases "?T < mn \<or> ?k \<le> 0")
    case True
    then have "\<not> (0 < ?k \<and> (\<exists>n s. mn \<le> n \<and> n \<le> mx \<and> ngram_at xs n s))" by (auto simp: ngram_at_def)
    then have "proposal xs mn mx ?k []" unfolding proposal_def by simp
    moreover have "find_longest_matched_ngram xs mn mx max_len k = Some []"
      using True by (auto simp: find_longest_matched_ngram_def Let_def)
    ultimately show ?thesis by blast
  next
    case False
    have "1 \<le> length (rev xs)" using False m(1) by (simp add: Suc_le_eq) (use False m in auto)
    from loop_returns [OF loop_start [OF m(2)] this] obtain st where
      l: "ngram_loop (rev xs) mx 1 0 \<lparr>lps = replicate mx 0, longest_ngram = 0, ngram_position = 0\<rparr> = Some st"
      and b: "best_ok (rev xs) mx ?T (longest_ngram st) (ngram_position st)" by auto
    let ?n = "longest_ngram st" and ?s = "?T - 1 - ngram_position st"
    have run: "find_longest_matched_ngram xs mn mx max_len k = (if ?n < mn then Some []
        else Some (take (nat (min ?k (int ?T - int (?s + ?n)))) (drop (?s + ?n) xs)))"
      using False l by (simp add: find_longest_matched_ngram_def Let_def)
    show ?thesis
    proof (cases "?n < mn")
      case True
      then have "\<not> (\<exists>n s. mn \<le> n \<and> n \<le> mx \<and> ngram_at xs n s)" using best_none [OF b] m(1) by fastforce
      then have "proposal xs mn mx ?k []" unfolding proposal_def by simp
      then show ?thesis using run True by simp
    next
      case n: False
      note B = best_rev [OF b]
      have bn: "best_ngram xs mx ?n ?s" using B(1) n m(1) by simp
      then have s: "?s + ?n < ?T" "mn \<le> ?n" "?n \<le> mx" "ngram_at xs ?n ?s" using n by (auto simp: best_ngram_def ngram_at_def)
      have "take (nat (min ?k (int ?T - int (?s + ?n)))) (drop (?s + ?n) xs) = take (nat ?k) (drop (?s + ?n) xs)"
        using s(1) by (cases "?k \<le> int ?T - int (?s + ?n)") (simp_all add: min_def)
      moreover have "take (nat ?k) (drop (?s + ?n) xs) \<noteq> []" using s(1) False by simp
      moreover have "0 < ?k \<and> (\<exists>n s. mn \<le> n \<and> n \<le> mx \<and> ngram_at xs n s)" using False s(2-4) by auto
      ultimately have "proposal xs mn mx ?k (take (nat (min ?k (int ?T - int (?s + ?n)))) (drop (?s + ?n) xs))"
        unfolding proposal_def using bn s(2) by metis
      then show ?thesis using run n by simp
    qed
  qed
qed

section \<open>The batch\<close>

definition shape_ok :: "ngram_proposer \<Rightarrow> bool" where
  \<comment> \<open>the buffers keep the shapes they are allocated with\<close>
  "shape_ok st \<longleftrightarrow> length (valid_ngram_num_drafts st) = length (valid_ngram_draft st) \<and>
     (\<forall>r\<in>set (valid_ngram_draft st). int (length r) = ngram_k st)"

definition same_limits :: "ngram_proposer \<Rightarrow> ngram_proposer \<Rightarrow> bool" where
  "same_limits st st' \<longleftrightarrow> min_n st' = min_n st \<and> max_n st' = max_n st \<and> ngram_k st' = ngram_k st \<and>
     ngram_max_model_len st' = ngram_max_model_len st \<and>
     length (valid_ngram_draft st') = length (valid_ngram_draft st)"

definition draft_of :: "ngram_proposer \<Rightarrow> nat \<Rightarrow> int list" where
  "draft_of st i = take (valid_ngram_num_drafts st ! i) (valid_ngram_draft st ! i)"

lemma proposal_length: "proposal xs mn mx k out \<Longrightarrow> length out \<le> nat k"
  by (auto simp: proposal_def split: if_split_asm)

lemma find_length:
  assumes "0 < mn" "0 < mx" "find_longest_matched_ngram xs mn mx l k = Some out"
  shows "length out \<le> nat k"
  using find_returns [OF assms(1,2), of xs l k] assms(3) by (auto dest!: proposal_length)

definition row_set :: "nat \<Rightarrow> int list \<Rightarrow> ngram_proposer \<Rightarrow> ngram_proposer" where
  "row_set idx out st = st\<lparr>valid_ngram_num_drafts := (valid_ngram_num_drafts st)[idx := length out],
      valid_ngram_draft := (if out \<noteq> []
        then (valid_ngram_draft st)[idx := out @ drop (length out) (valid_ngram_draft st ! idx)]
        else valid_ngram_draft st)\<rparr>"

lemma row_set_limits: "same_limits st (row_set idx out st)"
  by (simp add: same_limits_def row_set_def)

lemma row_set_shape:
  assumes "shape_ok st" "int (length out) \<le> ngram_k st" "idx < length (valid_ngram_draft st)"
  shows "shape_ok (row_set idx out st)"
proof -
  have "int (length (valid_ngram_draft st ! idx)) = ngram_k st"
    using assms(1,3) by (simp add: shape_ok_def)
  then have "int (length (out @ drop (length out) (valid_ngram_draft st ! idx))) = ngram_k st"
    using assms(2) by auto
  then show ?thesis using assms by (auto simp del: length_append length_drop simp: shape_ok_def row_set_def dest!: subsetD [OF set_update_subset_insert])
qed

lemma row_set_draft:
  assumes "shape_ok st" "idx < length (valid_ngram_draft st)"
  shows "draft_of (row_set idx out st) i = (if i = idx then out else draft_of st i)"
  using assms by (auto simp: draft_of_def row_set_def shape_ok_def)

definition context_of :: "nat list \<Rightarrow> int list list \<Rightarrow> nat \<Rightarrow> int list" where
  "context_of nums rows i = take (nums ! i) (rows ! i)"

lemma batch_rows:
  assumes "shape_ok st" "0 < min_n st" "0 < max_n st" "k \<le> ngram_k st" "0 \<le> ngram_k st"
    and "\<forall>i\<in>set idxs. i < length (valid_ngram_draft st)"
  shows "\<exists>st'. batch_propose_numba idxs nums rows k st = Some st' \<and> shape_ok st' \<and> same_limits st st' \<and>
    (\<forall>i. if i \<in> set idxs
         then find_longest_matched_ngram (context_of nums rows i) (min_n st) (max_n st)
                (ngram_max_model_len st) k = Some (draft_of st' i)
         else draft_of st' i = draft_of st i)"
  using assms
proof (induction idxs arbitrary: st)
  case Nil
  then show ?case by (simp add: same_limits_def)
next
  case (Cons idx idxs)
  obtain out where f: "find_longest_matched_ngram (context_of nums rows idx) (min_n st) (max_n st)
      (ngram_max_model_len st) k = Some out"
    using find_returns [OF Cons.prems(2,3)] by blast
  let ?st = "row_set idx out st"
  have idx: "idx < length (valid_ngram_draft st)" using Cons.prems(6) by simp
  have "int (length out) \<le> ngram_k st"
    using find_length [OF Cons.prems(2,3) f] Cons.prems(4,5) by linarith
  note sh = row_set_shape [OF Cons.prems(1) this idx] and lim = row_set_limits [of st idx out]
  have row: "min_n ?st = min_n st" "max_n ?st = max_n st" "ngram_k ?st = ngram_k st"
      "ngram_max_model_len ?st = ngram_max_model_len st"
      "length (valid_ngram_draft ?st) = length (valid_ngram_draft st)"
    using lim by (simp_all add: same_limits_def)
  have run: "batch_propose_numba (idx # idxs) nums rows k st = batch_propose_numba idxs nums rows k ?st"
    using f by (simp add: context_of_def row_set_def)
  obtain st' where st': "batch_propose_numba idxs nums rows k ?st = Some st'" "shape_ok st'" "same_limits ?st st'"
    and d: "\<forall>i. if i \<in> set idxs
         then find_longest_matched_ngram (context_of nums rows i) (min_n st) (max_n st)
                (ngram_max_model_len st) k = Some (draft_of st' i)
         else draft_of st' i = draft_of ?st i"
    using Cons.IH [OF sh, unfolded row] Cons.prems(2-6) by auto
  have "same_limits st st'" using lim st'(3) by (simp add: same_limits_def)
  moreover have "\<forall>i. if i \<in> set (idx # idxs)
         then find_longest_matched_ngram (context_of nums rows i) (min_n st) (max_n st)
                (ngram_max_model_len st) k = Some (draft_of st' i)
         else draft_of st' i = draft_of st i"
    using d f row_set_draft [OF Cons.prems(1) idx, of out] by (metis list.set_intros(1) set_ConsD list.set_intros(2))
  ultimately show ?case using run st' by auto
qed

definition batch_ok :: "int list list \<Rightarrow> nat list \<Rightarrow> int list list \<Rightarrow> ngram_proposer \<Rightarrow> bool" where
  \<comment> \<open>the arrays of a call have a row per request, within the buffers\<close>
  "batch_ok sampled nums rows st \<longleftrightarrow> length sampled \<le> length (valid_ngram_draft st) \<and>
     length sampled \<le> length nums \<and> length sampled \<le> length rows \<and>
     (\<forall>i<length sampled. nums ! i \<le> length (rows ! i))"

lemma draft_read: "(if 0 < valid_ngram_num_drafts st ! i then
    take (valid_ngram_num_drafts st ! i) (valid_ngram_draft st ! i) else []) = draft_of st i"
  by (simp add: draft_of_def)

lemma batch_propose_rows:
  assumes "shape_ok st" "0 < min_n st" "0 < max_n st" "k \<le> ngram_k st" "0 \<le> ngram_k st"
    and v: "\<forall>i\<in>set valid. i < length (valid_ngram_draft st)"
  shows "\<exists>drafts st'. batch_propose m valid nums rows k st = Some (drafts, st') \<and> shape_ok st' \<and>
    same_limits st st' \<and> length drafts = m \<and>
    (\<forall>i<m. if i \<in> set valid
         then find_longest_matched_ngram (context_of nums rows i) (min_n st) (max_n st)
                (ngram_max_model_len st) k = Some (drafts ! i)
         else drafts ! i = [])"
proof -
  obtain st' where st': "(if valid \<noteq> [] then batch_propose_numba valid nums rows k st else Some st) = Some st'"
      "shape_ok st'" "same_limits st st'"
    and d: "\<forall>i. i \<in> set valid \<longrightarrow> find_longest_matched_ngram (context_of nums rows i) (min_n st) (max_n st)
                (ngram_max_model_len st) k = Some (draft_of st' i)"
  proof (cases "valid = []")
    case True
    with that [of st] assms(1) show ?thesis by (simp add: same_limits_def)
  next
    case False
    obtain st' where "batch_propose_numba valid nums rows k st = Some st'" "shape_ok st'" "same_limits st st'"
      "\<forall>i. if i \<in> set valid then find_longest_matched_ngram (context_of nums rows i) (min_n st) (max_n st)
                (ngram_max_model_len st) k = Some (draft_of st' i) else draft_of st' i = draft_of st i"
      using batch_rows [OF assms] by blast
    with that [of st'] False show ?thesis by (metis (no_types, lifting))
  qed
  let ?drafts = "map (\<lambda>i. if i \<in> set valid \<and> valid_ngram_num_drafts st' ! i > 0
      then take (valid_ngram_num_drafts st' ! i) (valid_ngram_draft st' ! i) else []) [0..<m]"
  have "batch_propose m valid nums rows k st = Some (?drafts, st')"
    unfolding batch_propose_def st'(1) by simp
  moreover have "\<forall>i<m. ?drafts ! i = (if i \<in> set valid then draft_of st' i else [])"
    using draft_read [of st'] by (auto simp: draft_of_def)
  ultimately show ?thesis using st'(2,3) d by auto
qed

text \<open>
  C12: a call of propose returns a draft for every request and keeps the shape of the buffers. A request
  that got a token and is below the model length gets the tokens that follow the earliest occurrence of the
  longest n-gram, of a length between the bounds, which ends its tokens, as many as are asked for and fit
  in the model length, and none exactly when there is no such n-gram or no room; every other request gets
  none. So no draft of an earlier call, left in the buffers, comes back.
\<close>
theorem ngram_propose_exact:
  assumes shape: "shape_ok st" and n: "0 < min_n st" "0 < max_n st" and k: "k \<le> ngram_k st" "0 \<le> ngram_k st"
    and batch: "batch_ok sampled nums rows st"
  shows "\<exists>drafts st'. propose k sampled nums rows st = Inr (Some (drafts, st')) \<and> shape_ok st' \<and>
    length drafts = length sampled \<and>
    (\<forall>i<length sampled.
       if sampled ! i \<noteq> [] \<and> int (nums ! i) < ngram_max_model_len st
       then proposal (take (nums ! i) (rows ! i)) (min_n st) (max_n st)
              (min k (ngram_max_model_len st - int (nums ! i))) (drafts ! i)
       else drafts ! i = [])"
proof -
  let ?valid = "filter (\<lambda>i. sampled ! i \<noteq> [] \<and> int (nums ! i) < ngram_max_model_len st) [0..<length sampled]"
  have "\<forall>i\<in>set ?valid. i < length (valid_ngram_draft st)" using batch by (auto simp: batch_ok_def)
  from batch_propose_rows [OF shape n k this, of "length sampled" nums rows] obtain drafts st' where
    b: "batch_propose (length sampled) ?valid nums rows k st = Some (drafts, st')" "shape_ok st'"
       "length drafts = length sampled"
    and d: "\<forall>i<length sampled. if i \<in> set ?valid
         then find_longest_matched_ngram (context_of nums rows i) (min_n st) (max_n st)
                (ngram_max_model_len st) k = Some (drafts ! i)
         else drafts ! i = []" by blast
  have "propose k sampled nums rows st = Inr (Some (drafts, st'))"
    using b(1) k by (simp add: propose_def ensure_def)
  moreover have "if sampled ! i \<noteq> [] \<and> int (nums ! i) < ngram_max_model_len st
       then proposal (take (nums ! i) (rows ! i)) (min_n st) (max_n st)
              (min k (ngram_max_model_len st - int (nums ! i))) (drafts ! i)
       else drafts ! i = []" if i: "i < length sampled" for i
  proof -
    have "length (take (nums ! i) (rows ! i)) = nums ! i" using batch i by (simp add: batch_ok_def)
    then show ?thesis
      using d i find_returns [OF n, of "take (nums ! i) (rows ! i)" "ngram_max_model_len st" k]
      by (auto simp: context_of_def)
  qed
  ultimately show ?thesis using b(2,3) by blast
qed

theorem ngram_propose_exact_witness:
  "let st = \<lparr>min_n = 1, max_n = 2, ngram_k = 3, ngram_max_model_len = 7,
             valid_ngram_draft = [[9, 9, 9], [9, 9, 9]], valid_ngram_num_drafts = [3, 3]\<rparr> in
   \<exists>drafts st'. propose 3 [[2], []] [5, 2] [[1, 2, 3, 1, 2, 0, 0], [4, 4, 0, 0, 0, 0, 0]] st =
       Inr (Some (drafts, st')) \<and> length drafts = 2 \<and>
     proposal [1, 2, 3, 1, 2] 1 2 2 (drafts ! 0) \<and> drafts ! 1 = []"
proof -
  let ?st = "\<lparr>min_n = 1, max_n = 2, ngram_k = 3, ngram_max_model_len = 7,
             valid_ngram_draft = [[9, 9, 9], [9, 9, 9]], valid_ngram_num_drafts = [3, 3]\<rparr>"
  let ?rows = "[[1, 2, 3, 1, 2, 0, 0], [4, 4, 0, 0, 0, 0, 0]] :: int list list"
  have "shape_ok ?st" by (simp add: shape_ok_def)
  moreover have "batch_ok [[2], []] [5, 2] ?rows ?st" by (simp add: batch_ok_def All_less_Suc2 numeral_2_eq_2)
  ultimately show ?thesis
    using ngram_propose_exact [of ?st 3 "[[2], []]" "[5, 2]" ?rows]
    by (auto simp: Let_def numeral_2_eq_2 All_less_Suc2)
qed

lemma ngram_init_ok:
  "ngram_init (Some mn) (Some mx) k max_len seqs = Inr (Some \<lparr>min_n = mn, max_n = mx, ngram_k = int k,
     ngram_max_model_len = int max_len, valid_ngram_draft = replicate seqs (replicate k 0),
     valid_ngram_num_drafts = replicate seqs 0\<rparr>)"
proof -
  have "filter (\<lambda>i. replicate 1024 ([] :: int list) ! i \<noteq> [] \<and> int (replicate 1024 (0::nat) ! i) < int max_len)
      [0..<length (replicate 1024 ([] :: int list))] = []"
    by (auto simp: filter_empty_conv simp del: upt_rec_numeral)
  then show ?thesis
    by (simp add: ngram_init_def propose_def batch_propose_def ensure_def Let_def
        del: upt_rec_numeral)
qed

lemma ngram_init_shape:
  assumes "ngram_init (Some mn) (Some mx) k max_len seqs = Inr (Some st)"
  shows "shape_ok st" and "ngram_k st = int k"
  using assms unfolding ngram_init_ok by (auto simp: shape_ok_def)

end
