(* ===== verification/Scalar_Type.thy ===== *)
theory Scalar_Type
  imports Prelude
begin

text \<open>
  The scalar types of quantized kernels, in Python (\<^verbatim>\<open>vllm/scalar_type.py\<close>, unbounded integers) and in C++
  (\<^verbatim>\<open>csrc/core/scalar_type.hpp\<close>, machine words), which must be kept in step: the integer id through which a
  type is passed to a custom operation, the registry of ids, the limits of a type and its name. A double is
  its 64 bits; a bool of C++ is a field of one bit, an enum its underlying byte.
\<close>

unbundle bit_operations_syntax

section \<open>The Python class\<close>

datatype nan_kind = NAN_NONE | NAN_IEEE_754 | NAN_EXTD_RANGE_MAX_MIN

fun nan_value :: "nan_kind \<Rightarrow> int" where
  "nan_value NAN_NONE = 0"
| "nan_value NAN_IEEE_754 = 1"
| "nan_value NAN_EXTD_RANGE_MAX_MIN = 2"

record scalar_type =
  exponent :: int
  mantissa :: int
  st_signed :: bool
  bias :: int
  finite_values_only :: bool
  nan_repr :: nan_kind

definition or_and_advance :: "int \<times> nat \<Rightarrow> int \<times> nat \<Rightarrow> int \<times> nat" where
  "or_and_advance m s = (case m of (member, bit_width) \<Rightarrow> case s of (val, offset) \<Rightarrow>
     (val OR push_bit offset (member AND (push_bit bit_width 1 - 1)), offset + bit_width))"

definition scalar_id_fields :: "scalar_type \<Rightarrow> (int \<times> nat) list" where
  "scalar_id_fields st = [(exponent st, 8), (mantissa st, 8), (of_bool (st_signed st), 1), (bias st, 32),
     (of_bool (finite_values_only st), 1), (nan_value (nan_repr st), 8)]"

type_synonym id_map = "int \<rightharpoonup> scalar_type"

definition scalar_id :: "scalar_type \<Rightarrow> id_map \<Rightarrow> (int \<times> id_map) res" where
  \<comment> \<open>the first access of the cached property \<^verbatim>\<open>id\<close>, which registers the type\<close>
  "scalar_id st reg =
     (let (val, offset) = fold or_and_advance (scalar_id_fields st) (0, 0)
      in rbind (ensure (offset \<le> 64) AssertionError) (\<lambda>_. Inr (val, reg(val \<mapsto> st))))"

definition register :: "scalar_type \<Rightarrow> id_map \<Rightarrow> (scalar_type \<times> id_map) res" where
  "register ret reg = rbind (scalar_id ret reg) (\<lambda>(_, reg1). Inr (ret, reg1))"

definition size_bits :: "scalar_type \<Rightarrow> int" where
  "size_bits st = exponent st + mantissa st + of_bool (st_signed st)"

definition is_floating_point :: "scalar_type \<Rightarrow> bool" where
  "is_floating_point st \<longleftrightarrow> exponent st \<noteq> 0"

definition has_bias :: "scalar_type \<Rightarrow> bool" where
  "has_bias st \<longleftrightarrow> bias st \<noteq> 0"

datatype py_object = Member nan_kind | PyInt int

definition has_nans :: "scalar_type \<Rightarrow> bool" where
  \<comment> \<open>a member of an enum is compared with the integer of another one\<close>
  "has_nans st \<longleftrightarrow> Member (nan_repr st) \<noteq> PyInt (nan_value NAN_NONE)"

definition has_infs :: "scalar_type \<Rightarrow> bool" where
  "has_infs st \<longleftrightarrow> \<not> finite_values_only st"

definition is_ieee_754 :: "scalar_type \<Rightarrow> bool" where
  "is_ieee_754 st \<longleftrightarrow> Member (nan_repr st) = PyInt (nan_value NAN_IEEE_754) \<and> \<not> finite_values_only st"

definition scalar_int :: "int \<Rightarrow> int option \<Rightarrow> id_map \<Rightarrow> (scalar_type \<times> id_map) res" where
  "scalar_int sz b = register \<lparr>exponent = 0, mantissa = sz - 1, st_signed = True,
     bias = (case b of None \<Rightarrow> 0 | Some x \<Rightarrow> x), finite_values_only = False, nan_repr = NAN_IEEE_754\<rparr>"

definition scalar_uint :: "int \<Rightarrow> int option \<Rightarrow> id_map \<Rightarrow> (scalar_type \<times> id_map) res" where
  "scalar_uint sz b = register \<lparr>exponent = 0, mantissa = sz, st_signed = False,
     bias = (case b of None \<Rightarrow> 0 | Some x \<Rightarrow> x), finite_values_only = False, nan_repr = NAN_IEEE_754\<rparr>"

definition float_IEEE754 :: "int \<Rightarrow> int \<Rightarrow> id_map \<Rightarrow> (scalar_type \<times> id_map) res" where
  "float_IEEE754 e m reg = rbind (ensure (m > 0 \<and> e > 0) AssertionError) (\<lambda>_.
     register \<lparr>exponent = e, mantissa = m, st_signed = True, bias = 0, finite_values_only = False,
       nan_repr = NAN_IEEE_754\<rparr> reg)"

definition scalar_float :: "int \<Rightarrow> int \<Rightarrow> bool \<Rightarrow> nan_kind \<Rightarrow> id_map \<Rightarrow> (scalar_type \<times> id_map) res" where
  "scalar_float e m fin nan reg = rbind (ensure (m > 0 \<and> e > 0) AssertionError) (\<lambda>_.
     rbind (ensure (nan \<noteq> NAN_IEEE_754) AssertionError) (\<lambda>_.
     register \<lparr>exponent = e, mantissa = m, st_signed = True, bias = 0, finite_values_only = fin,
       nan_repr = nan\<rparr> reg))"

definition from_id :: "int \<Rightarrow> id_map \<Rightarrow> scalar_type res" where
  "from_id i reg = (case reg i of None \<Rightarrow> Inl ValueError | Some st \<Rightarrow> Inr st)"

fun dec_nat :: "nat \<Rightarrow> string" where
  "dec_nat n = (if n < 10 then [char_of (48 + n)] else dec_nat (n div 10) @ [char_of (48 + n mod 10)])"

definition str_int :: "int \<Rightarrow> string" where
  "str_int i = (if i < 0 then ''-'' @ dec_nat (nat (- i)) else dec_nat (nat i))"

definition scalar_str :: "scalar_type \<Rightarrow> string" where
  "scalar_str st =
     (if is_floating_point st
      then ''float'' @ str_int (size_bits st) @ ''_e'' @ str_int (exponent st) @ ''m'' @ str_int (mantissa st) @
        (if \<not> is_ieee_754 st
         then (if finite_values_only st then ''f'' else []) @ (if nan_repr st \<noteq> NAN_NONE then ''n'' else [])
         else [])
      else (if st_signed st then ''int'' else ''uint'') @ str_int (size_bits st) @
        (if has_bias st then ''b'' @ str_int (bias st) else []))"

definition py_shl :: "int \<Rightarrow> int \<Rightarrow> int res" where
  \<comment> \<open>the shift operator, which raises on a negative count\<close>
  "py_shl a n = (if n < 0 then Inl ValueError else Inr (push_bit (nat n) a))"

definition floating_point_max_int :: "scalar_type \<Rightarrow> int res" where
  "floating_point_max_int st =
     rbind (ensure (mantissa st \<le> 52 \<and> exponent st \<le> 11) AssertionError) (\<lambda>_.
     rbind (py_shl 1 (mantissa st)) (\<lambda>mm.
     let max_mantissa = (if nan_repr st = NAN_EXTD_RANGE_MAX_MIN then mm - 1 - 1 else mm - 1) in
     rbind (py_shl 1 (exponent st)) (\<lambda>me.
     rbind (if nan_repr st = NAN_EXTD_RANGE_MAX_MIN \<or> nan_repr st = NAN_NONE
            then rbind (ensure (exponent st < 11) AssertionError) (\<lambda>_. Inr (me - 2 + 1))
            else Inr (me - 2)) (\<lambda>max_exponent.
     rbind (py_shl 1 (exponent st - 1)) (\<lambda>eb.
     let exponent_bias = eb - 1;
         exponent_bias_double = push_bit 10 1 - 1;
         max_exponent_double = max_exponent - exponent_bias + exponent_bias_double
     in rbind (py_shl max_mantissa (52 - mantissa st)) (\<lambda>hi.
        Inr (hi OR push_bit 52 max_exponent_double)))))))"

definition pack_Q :: "int \<Rightarrow> 64 word res" where
  \<comment> \<open>\<^verbatim>\<open>struct.pack\<close> as an unsigned 64 bit integer, read back as the bits of a double\<close>
  "pack_Q raw = (if 0 \<le> raw \<and> raw < 2 ^ 64 then Inr (word_of_int raw) else Inl StructError)"

datatype py_number = IntVal int | FloatBits "64 word"

definition raw_max :: "scalar_type \<Rightarrow> py_number res" where
  "raw_max st =
     (if is_floating_point st
      then rbind (floating_point_max_int st) (\<lambda>raw. rbind (pack_Q raw) (\<lambda>w. Inr (FloatBits w)))
      else rbind (ensure (size_bits st < 64 \<or> size_bits st = 64 \<and> st_signed st) AssertionError) (\<lambda>_.
           rbind (py_shl 1 (mantissa st)) (\<lambda>x. Inr (IntVal (x - 1)))))"

definition raw_min :: "scalar_type \<Rightarrow> py_number res" where
  "raw_min st =
     (if is_floating_point st
      then rbind (ensure (st_signed st) AssertionError) (\<lambda>_.
           rbind (floating_point_max_int st) (\<lambda>raw.
           rbind (pack_Q (raw OR push_bit 63 1)) (\<lambda>w. Inr (FloatBits w))))
      else rbind (ensure (\<not> st_signed st \<or> size_bits st \<le> 64) AssertionError) (\<lambda>_.
           if st_signed st then rbind (py_shl 1 (size_bits st - 1)) (\<lambda>x. Inr (IntVal (- x)))
           else Inr (IntVal 0)))"

section \<open>The C++ class\<close>

record cpp_scalar_type =
  cpp_exponent :: "8 word"
  cpp_mantissa :: "8 word"
  cpp_signed :: bool
  cpp_bias :: "32 word"
  cpp_finite_values_only :: bool
  cpp_nan_repr :: "8 word"

definition cpp_or_and_advance :: "64 word \<times> nat \<Rightarrow> 64 word \<times> nat \<Rightarrow> 64 word \<times> nat" where
  "cpp_or_and_advance m s = (case m of (member, bits) \<Rightarrow> case s of (i, bit_offset) \<Rightarrow>
     (i OR push_bit bit_offset (member AND (push_bit bits 1 - 1)), bit_offset + bits))"

definition cpp_id :: "cpp_scalar_type \<Rightarrow> 64 word" where
  "cpp_id c = fst (fold cpp_or_and_advance
     [(ucast (cpp_exponent c), 8), (ucast (cpp_mantissa c), 8), (of_bool (cpp_signed c), 1),
      (scast (cpp_bias c), 32), (of_bool (cpp_finite_values_only c), 1), (ucast (cpp_nan_repr c), 8)] (0, 0))"

definition cpp_extract :: "64 word \<Rightarrow> nat \<Rightarrow> nat \<Rightarrow> 64 word" where
  "cpp_extract i bit_offset bits = signed_drop_bit bit_offset i AND (push_bit bits 1 - 1)"

definition cpp_from_id :: "64 word \<Rightarrow> cpp_scalar_type" where
  "cpp_from_id i = \<lparr>cpp_exponent = ucast (cpp_extract i 0 8), cpp_mantissa = ucast (cpp_extract i 8 8),
     cpp_signed = (cpp_extract i 16 1 \<noteq> 0), cpp_bias = ucast (cpp_extract i 17 32),
     cpp_finite_values_only = (cpp_extract i 49 1 \<noteq> 0), cpp_nan_repr = ucast (cpp_extract i 50 8)\<rparr>"

definition cpp_size_bits :: "cpp_scalar_type \<Rightarrow> int" where
  "cpp_size_bits c = uint (cpp_mantissa c) + uint (cpp_exponent c) + of_bool (cpp_signed c)"

definition cpp_is_floating_point :: "cpp_scalar_type \<Rightarrow> bool" where
  "cpp_is_floating_point c \<longleftrightarrow> cpp_exponent c > 0"

definition cpp_is_ieee_754 :: "cpp_scalar_type \<Rightarrow> bool" where
  "cpp_is_ieee_754 c \<longleftrightarrow> cpp_is_floating_point c \<and> cpp_finite_values_only c = False \<and> cpp_nan_repr c = 1"

definition cpp_has_nans :: "cpp_scalar_type \<Rightarrow> bool" where
  "cpp_has_nans c \<longleftrightarrow> cpp_is_floating_point c \<and> cpp_nan_repr c \<noteq> 0"

definition cpp_has_infs :: "cpp_scalar_type \<Rightarrow> bool" where
  "cpp_has_infs c \<longleftrightarrow> cpp_is_floating_point c \<and> cpp_finite_values_only c = False"

definition cpp_str :: "cpp_scalar_type \<Rightarrow> string" where
  "cpp_str c =
     (if cpp_is_floating_point c
      then ''float'' @ str_int (cpp_size_bits c) @ ''_e'' @ str_int (uint (cpp_exponent c)) @ ''m'' @
        str_int (uint (cpp_mantissa c)) @
        (if \<not> cpp_is_ieee_754 c
         then (if cpp_finite_values_only c then ''f'' else []) @ (if cpp_nan_repr c \<noteq> 0 then ''n'' else [])
         else [])
      else (if cpp_signed c then ''int'' else ''uint'') @ str_int (cpp_size_bits c) @
        (if cpp_bias c \<noteq> 0 then ''b'' @ str_int (sint (cpp_bias c)) else []))"

definition cpp_floating_point_max :: "cpp_scalar_type \<Rightarrow> 64 word option" where
  \<comment> \<open>\<open>None\<close> where a check throws\<close>
  "cpp_floating_point_max c =
     (if \<not> (cpp_mantissa c \<le> 52 \<and> cpp_exponent c \<le> 11) then None
      else let mm = push_bit (unat (cpp_mantissa c)) 1 - 1;
               max_mantissa = (if cpp_nan_repr c = 2 then mm - 1 else mm);
               max_exponent = push_bit (unat (cpp_exponent c)) 1 - 2
           in if (cpp_nan_repr c = 2 \<or> cpp_nan_repr c = 0) \<and> \<not> cpp_exponent c < 11 then None
              else let max_exponent1 = (if cpp_nan_repr c = 2 \<or> cpp_nan_repr c = 0
                                        then max_exponent + 1 else max_exponent);
                       exponent_bias = push_bit (unat (cpp_exponent c) - 1) 1 - 1;
                       exponent_bias_double = push_bit 10 1 - 1;
                       max_exponent_double = max_exponent1 - exponent_bias + exponent_bias_double
                   in Some (push_bit (52 - unat (cpp_mantissa c)) max_mantissa OR push_bit 52 max_exponent_double))"

datatype cpp_number = CppInt "64 word" | CppDouble "64 word"

definition cpp_raw_max :: "cpp_scalar_type \<Rightarrow> cpp_number option" where
  "cpp_raw_max c =
     (if cpp_is_floating_point c then map_option CppDouble (cpp_floating_point_max c)
      else if cpp_size_bits c < 64 \<or> cpp_size_bits c = 64 \<and> cpp_signed c
           then Some (CppInt (push_bit (unat (cpp_mantissa c)) 1 - 1)) else None)"

definition cpp_raw_min :: "cpp_scalar_type \<Rightarrow> cpp_number option" where
  "cpp_raw_min c =
     (if cpp_is_floating_point c
      then if \<not> cpp_signed c then None
           else map_option (\<lambda>w. CppDouble (w OR push_bit 63 1)) (cpp_floating_point_max c)
      else if \<not> (\<not> cpp_signed c \<or> cpp_size_bits c \<le> 64) then None
      else if cpp_signed c then Some (CppInt (signed_drop_bit (nat (64 - cpp_size_bits c)) (push_bit 63 1)))
      else Some (CppInt 0))"

section \<open>The id\<close>

definition to_cpp :: "scalar_type \<Rightarrow> cpp_scalar_type" where
  \<comment> \<open>the C++ value of a Python type: every field at its width\<close>
  "to_cpp st = \<lparr>cpp_exponent = word_of_int (exponent st), cpp_mantissa = word_of_int (mantissa st),
     cpp_signed = st_signed st, cpp_bias = word_of_int (bias st),
     cpp_finite_values_only = finite_values_only st, cpp_nan_repr = word_of_int (nan_value (nan_repr st))\<rparr>"

definition typed :: "scalar_type \<Rightarrow> bool" where
  "typed st \<longleftrightarrow> 0 \<le> exponent st \<and> exponent st < 2 ^ 8 \<and> 0 \<le> mantissa st \<and> mantissa st < 2 ^ 8 \<and>
     - (2 ^ 31) \<le> bias st \<and> bias st < 2 ^ 31"

definition id_val :: "scalar_type \<Rightarrow> int" where
  "id_val st = fst (fold or_and_advance (scalar_id_fields st) (0, 0))"

lemma scalar_id_eq: "scalar_id st reg = Inr (id_val st, reg(id_val st \<mapsto> st))"
  by (simp add: scalar_id_def id_val_def scalar_id_fields_def or_and_advance_def Let_def)

lemma shifted_mask: "push_bit w 1 - 1 = (mask w :: int)" "push_bit w 1 - 1 = (mask w :: 64 word)"
  by (simp_all add: mask_eq_exp_minus_1 push_bit_of_1)

lemma bit_advance:
  "bit (val OR push_bit off (member AND mask w)) n \<longleftrightarrow> bit val n \<or> off \<le> n \<and> n < off + w \<and> bit (member :: int) (n - off)"
  by (auto simp: bit_or_iff bit_push_bit_iff_int bit_and_iff bit_mask_iff)

lemma bit_cpp_advance:
  "bit (val OR push_bit off (member AND mask w)) n \<longleftrightarrow>
     bit val n \<or> n < 64 \<and> off \<le> n \<and> n < off + w \<and> bit (member :: 64 word) (n - off)"
  by (auto simp: bit_or_iff bit_push_bit_iff bit_and_iff bit_mask_iff possible_bit_word)

lemma bit_flag [simp]: "bit (of_bool b :: int) n \<longleftrightarrow> b \<and> n = 0" "bit (of_bool b :: 64 word) n \<longleftrightarrow> b \<and> n = 0"
  by (auto simp: bit_of_bool_iff)

lemma bit_id_val:
  "bit (id_val st) n \<longleftrightarrow> n < 8 \<and> bit (exponent st) n \<or> 8 \<le> n \<and> n < 16 \<and> bit (mantissa st) (n - 8) \<or>
     n = 16 \<and> st_signed st \<or> 17 \<le> n \<and> n < 49 \<and> bit (bias st) (n - 17) \<or> n = 49 \<and> finite_values_only st \<or>
     50 \<le> n \<and> n < 58 \<and> bit (nan_value (nan_repr st)) (n - 50)"
proof -
  have "16 \<le> n \<and> n < 17 \<and> st_signed st \<and> n - 16 = 0 \<longleftrightarrow> n = 16 \<and> st_signed st"
    "49 \<le> n \<and> n < 50 \<and> finite_values_only st \<and> n - 49 = 0 \<longleftrightarrow> n = 49 \<and> finite_values_only st" by auto
  then show ?thesis
    by (simp only: id_val_def scalar_id_fields_def or_and_advance_def shifted_mask fold.simps o_apply id_apply
        case_prod_conv fst_conv bit_advance bit_flag bit_0_eq bot_apply) (simp only: bit_simps arith_simps, simp)
qed

lemma bit_cpp_members:
  "bit (ucast (b :: 8 word) :: 64 word) n \<longleftrightarrow> n < 64 \<and> bit b n"
  "n < 32 \<Longrightarrow> bit (scast (w :: 32 word) :: 64 word) n \<longleftrightarrow> bit w n"
proof -
  show "bit (ucast (b :: 8 word) :: 64 word) n \<longleftrightarrow> n < 64 \<and> bit b n" by (simp add: bit_unsigned_iff)
  show "bit (scast (w :: 32 word) :: 64 word) n \<longleftrightarrow> bit w n" if "n < 32"
  proof -
    have "min 31 n = n" using that by simp
    then show ?thesis using that by (simp add: bit_signed_iff)
  qed
qed

lemma bit_cpp_id:
  "bit (cpp_id c) n \<longleftrightarrow> n < 8 \<and> bit (cpp_exponent c) n \<or> 8 \<le> n \<and> n < 16 \<and> bit (cpp_mantissa c) (n - 8) \<or>
     n = 16 \<and> cpp_signed c \<or> 17 \<le> n \<and> n < 49 \<and> bit (cpp_bias c) (n - 17) \<or>
     n = 49 \<and> cpp_finite_values_only c \<or> 50 \<le> n \<and> n < 58 \<and> bit (cpp_nan_repr c) (n - 50)"
proof -
  have e: "17 \<le> n \<and> n < 49 \<and> bit (scast (cpp_bias c) :: 64 word) (n - 17) \<longleftrightarrow>
      17 \<le> n \<and> n < 49 \<and> bit (cpp_bias c) (n - 17)"
    by (cases "17 \<le> n"; cases "n < 49") (auto simp: bit_cpp_members)
  have f: "n < 64 \<and> 16 \<le> n \<and> n < 17 \<and> cpp_signed c \<and> n - 16 = 0 \<longleftrightarrow> n = 16 \<and> cpp_signed c"
    "n < 64 \<and> 49 \<le> n \<and> n < 50 \<and> cpp_finite_values_only c \<and> n - 49 = 0 \<longleftrightarrow> n = 49 \<and> cpp_finite_values_only c"
    "\<And>P. n < 64 \<and> 0 \<le> n \<and> n < 8 \<and> n < 64 \<and> P \<longleftrightarrow> n < 8 \<and> P"
    "\<And>P. n < 64 \<and> 8 \<le> n \<and> n < 16 \<and> n - 8 < 64 \<and> P \<longleftrightarrow> 8 \<le> n \<and> n < 16 \<and> P"
    "\<And>P. n < 64 \<and> 50 \<le> n \<and> n < 58 \<and> n - 50 < 64 \<and> P \<longleftrightarrow> 50 \<le> n \<and> n < 58 \<and> P"
    "\<And>P. n < 64 \<and> 17 \<le> n \<and> n < 49 \<and> P \<longleftrightarrow> 17 \<le> n \<and> n < 49 \<and> P"
    by auto
  show ?thesis
    by (simp only: cpp_id_def cpp_or_and_advance_def shifted_mask fold.simps o_apply id_apply
        case_prod_conv fst_conv bit_cpp_advance bit_flag bit_cpp_members(1) bit_0_eq bot_apply)
      (simp only: add_0_left numeral_plus_one add_numeral_special numeral_plus_numeral num.inject add_num_simps
        f e bot_bool_def minus_nat.diff_0 simp_thms disj_assoc)
qed

lemma cpp_id_to_cpp: "cpp_id (to_cpp st) = word_of_int (id_val st)"
proof (rule bit_word_eqI)
  fix n assume "n < LENGTH(64)"
  have e: "n < 8 \<and> bit (word_of_int (exponent st) :: 8 word) n \<longleftrightarrow> n < 8 \<and> bit (exponent st) n"
    "8 \<le> n \<and> n < 16 \<and> bit (word_of_int (mantissa st) :: 8 word) (n - 8) \<longleftrightarrow> 8 \<le> n \<and> n < 16 \<and> bit (mantissa st) (n - 8)"
    "17 \<le> n \<and> n < 49 \<and> bit (word_of_int (bias st) :: 32 word) (n - 17) \<longleftrightarrow> 17 \<le> n \<and> n < 49 \<and> bit (bias st) (n - 17)"
    "50 \<le> n \<and> n < 58 \<and> bit (word_of_int (nan_value (nan_repr st)) :: 8 word) (n - 50) \<longleftrightarrow>
       50 \<le> n \<and> n < 58 \<and> bit (nan_value (nan_repr st)) (n - 50)"
    by (auto simp: bit_word_of_int_iff)
  show "bit (cpp_id (to_cpp st)) n = bit (word_of_int (id_val st) :: 64 word) n"
    using \<open>n < LENGTH(64)\<close>
    by (simp only: bit_cpp_id to_cpp_def cpp_scalar_type.simps e bit_id_val bit_word_of_int_iff [where 'a = 64] simp_thms)
qed

lemma bit_cpp_extract:
  assumes "off + w \<le> 64"
  shows "bit (cpp_extract i off w) n \<longleftrightarrow> n < w \<and> bit i (off + n)"
  using assms unfolding cpp_extract_def shifted_mask
  by (auto simp: bit_and_iff bit_signed_drop_bit_iff bit_mask_iff possible_bit_word)

lemma extract_flag:
  assumes "off < 64"
  shows "cpp_extract i off 1 \<noteq> 0 \<longleftrightarrow> bit i off"
proof -
  have "cpp_extract i off 1 = 0 \<longleftrightarrow> (\<forall>n. \<not> bit (cpp_extract i off 1) n)"
    by (auto intro: bit_word_eqI)
  then show ?thesis using bit_cpp_extract [of off 1 i] assms by auto
qed

lemma cpp_from_id_val: "cpp_from_id (word_of_int (id_val st)) = to_cpp st"
proof -
  let ?i = "word_of_int (id_val st) :: 64 word"
  have b: "bit ?i n \<longleftrightarrow> n < 64 \<and> bit (id_val st) n" for n by (simp add: bit_word_of_int_iff)
  have "ucast (cpp_extract ?i 0 8) = (word_of_int (exponent st) :: 8 word)"
    "ucast (cpp_extract ?i 8 8) = (word_of_int (mantissa st) :: 8 word)"
    "ucast (cpp_extract ?i 50 8) = (word_of_int (nan_value (nan_repr st)) :: 8 word)"
    by (rule bit_word_eqI, simp add: bit_unsigned_iff bit_cpp_extract b bit_id_val bit_word_of_int_iff)+
  moreover have "ucast (cpp_extract ?i 17 32) = (word_of_int (bias st) :: 32 word)"
    by (rule bit_word_eqI, simp add: bit_unsigned_iff bit_cpp_extract b bit_id_val bit_word_of_int_iff)
  moreover have "cpp_extract ?i 16 1 \<noteq> 0 \<longleftrightarrow> st_signed st" "cpp_extract ?i 49 1 \<noteq> 0 \<longleftrightarrow> finite_values_only st"
    by (simp_all only: extract_flag arith_simps rel_simps b bit_id_val) simp_all
  ultimately show ?thesis by (simp add: cpp_from_id_def to_cpp_def)
qed

lemma id_val_range: "0 \<le> id_val st" "id_val st < 2 ^ 58"
proof -
  have e: "take_bit 58 (id_val st) = id_val st"
    by (rule bit_eqI) (auto simp: bit_take_bit_iff bit_id_val)
  show "0 \<le> id_val st" "id_val st < 2 ^ 58"
    using take_bit_nonnegative [of 58 "id_val st"] take_bit_int_less_exp [of 58 "id_val st"] unfolding e by auto
qed

lemma nan_value_inj: "(word_of_int (nan_value a) :: 8 word) = word_of_int (nan_value b) \<Longrightarrow> a = b"
  by (cases a; cases b) simp_all

lemma byte_inj:
  assumes "(word_of_int a :: 8 word) = word_of_int b" "0 \<le> a" "a < 2 ^ 8" "0 \<le> b" "b < 2 ^ 8"
  shows "a = b"
proof -
  have "uint (word_of_int a :: 8 word) = a" "uint (word_of_int b :: 8 word) = b"
    using assms(2-5) unfolding uint_word_of_int by (simp_all add: mod_pos_pos_trivial)
  then show ?thesis using assms(1) by metis
qed

lemma int32_inj:
  assumes "(word_of_int a :: 32 word) = word_of_int b" "- (2 ^ 31) \<le> a" "a < 2 ^ 31" "- (2 ^ 31) \<le> b" "b < 2 ^ 31"
  shows "a = b"
proof -
  have "sint (word_of_int a :: 32 word) = a" "sint (word_of_int b :: 32 word) = b"
    using assms(2-5) unfolding sint_sbintrunc' by (simp_all add: signed_take_bit_int_eq_self)
  then show ?thesis using assms(1) by metis
qed

lemma to_cpp_inj:
  assumes "to_cpp s = to_cpp t" "typed s" "typed t"
  shows "s = t"
proof -
  note f = assms(1) [unfolded to_cpp_def cpp_scalar_type.iffs] and T = assms(2,3) [unfolded typed_def]
  have "exponent s = exponent t" "mantissa s = mantissa t"
    using f T by (blast intro: byte_inj)+
  moreover have "bias s = bias t" using f T by (blast intro: int32_inj)
  moreover have "nan_repr s = nan_repr t" using f by (blast intro: nan_value_inj)
  ultimately show ?thesis using f by simp
qed

lemma register_eq: "register st reg = Inr (st, reg(id_val st \<mapsto> st))"
  by (simp add: register_def scalar_id_eq)

lemma constructors_register:
  "scalar_int sz b reg = Inr (st, reg') \<or> scalar_uint sz b reg = Inr (st, reg') \<or>
   float_IEEE754 e m reg = Inr (st, reg') \<or> scalar_float e m fin nan reg = Inr (st, reg') \<Longrightarrow>
   from_id (id_val st) reg' = Inr st"
  by (auto simp: scalar_int_def scalar_uint_def float_IEEE754_def scalar_float_def register_eq from_id_def)

lemma float_constructors_raise:
  "float_IEEE754 e m reg = Inl err \<longleftrightarrow> err = AssertionError \<and> (m \<le> 0 \<or> e \<le> 0)"
  "scalar_float e m fin nan reg = Inl err \<longleftrightarrow> err = AssertionError \<and> (m \<le> 0 \<or> e \<le> 0 \<or> nan = NAN_IEEE_754)"
  by (auto simp: float_IEEE754_def scalar_float_def register_eq ensure_def)

text \<open>
  C13: the id of a scalar type passes it faithfully from Python to C++. For a type whose fields fit their
  C++ widths the Python property returns a number below 2^58, C++ computes the same id for the same type,
  C++ rebuilds the type from it and Python finds it in its registry; and no two types share an id.
\<close>
theorem scalar_id_roundtrip:
  assumes "typed st"
  shows "\<exists>i reg'. scalar_id st reg = Inr (i, reg') \<and> 0 \<le> i \<and> i < 2 ^ 58 \<and>
    cpp_id (to_cpp st) = word_of_int i \<and> cpp_from_id (word_of_int i) = to_cpp st \<and>
    from_id i reg' = Inr st \<and>
    (\<forall>st2 reg2. typed st2 \<longrightarrow> (\<exists>r. scalar_id st2 reg2 = Inr (i, r)) \<longrightarrow> st2 = st)"
proof -
  have "st2 = st" if "typed st2" "id_val st2 = id_val st" for st2
    using cpp_from_id_val [of st2] cpp_from_id_val [of st] that to_cpp_inj [OF _ that(1) assms] by simp
  then have "\<forall>st2 reg2. typed st2 \<longrightarrow> (\<exists>r. scalar_id st2 reg2 = Inr (id_val st, r)) \<longrightarrow> st2 = st"
    unfolding scalar_id_eq by blast
  moreover have "from_id (id_val st) (reg(id_val st \<mapsto> st)) = Inr st" by (simp add: from_id_def)
  ultimately show ?thesis
    using id_val_range [of st] cpp_id_to_cpp [of st] cpp_from_id_val [of st] scalar_id_eq [of st reg] by blast
qed

theorem scalar_id_roundtrip_witness:
  "let st = \<lparr>exponent = 0, mantissa = 8, st_signed = False, bias = 128, finite_values_only = False,
             nan_repr = NAN_IEEE_754\<rparr> in
   typed st \<and> (\<exists>i reg'. scalar_id st Map.empty = Inr (i, reg') \<and> cpp_from_id (word_of_int i) = to_cpp st \<and>
     from_id i reg' = Inr st)"
proof -
  let ?st = "\<lparr>exponent = 0, mantissa = 8, st_signed = False, bias = 128, finite_values_only = False,
    nan_repr = NAN_IEEE_754\<rparr>"
  have "typed ?st" by (simp add: typed_def)
  then show ?thesis using scalar_id_roundtrip [of ?st Map.empty] unfolding Let_def by blast
qed

section \<open>Predicates and names\<close>

lemma typed_uint:
  assumes "typed st"
  shows "uint (cpp_exponent (to_cpp st)) = exponent st" "uint (cpp_mantissa (to_cpp st)) = mantissa st"
    "sint (cpp_bias (to_cpp st)) = bias st"
  using assms unfolding typed_def to_cpp_def cpp_scalar_type.simps uint_word_of_int sint_sbintrunc'
  by (simp_all add: mod_pos_pos_trivial signed_take_bit_int_eq_self)

lemma to_cpp_flags [simp]:
  "cpp_signed (to_cpp st) = st_signed st" "cpp_finite_values_only (to_cpp st) = finite_values_only st"
  by (simp_all add: to_cpp_def)

lemma to_cpp_nan:
  "cpp_nan_repr (to_cpp st) = 0 \<longleftrightarrow> nan_repr st = NAN_NONE"
  "cpp_nan_repr (to_cpp st) = 1 \<longleftrightarrow> nan_repr st = NAN_IEEE_754"
  "cpp_nan_repr (to_cpp st) = 2 \<longleftrightarrow> nan_repr st = NAN_EXTD_RANGE_MAX_MIN"
  by (cases "nan_repr st"; simp add: to_cpp_def)+

lemma typed_nonneg: "typed st \<Longrightarrow> 0 \<le> exponent st \<and> 0 \<le> mantissa st"
  by (simp add: typed_def)

lemma to_cpp_floating:
  assumes "typed st"
  shows "cpp_is_floating_point (to_cpp st) \<longleftrightarrow> is_floating_point st"
  using typed_uint(1) [OF assms] typed_nonneg [OF assms]
  by (auto simp: cpp_is_floating_point_def is_floating_point_def word_less_def)

lemma to_cpp_size: "typed st \<Longrightarrow> cpp_size_bits (to_cpp st) = size_bits st"
  by (simp add: cpp_size_bits_def size_bits_def typed_uint)

lemma to_cpp_bias:
  assumes "typed st"
  shows "cpp_bias (to_cpp st) = 0 \<longleftrightarrow> bias st = 0"
  using typed_uint(3) [OF assms] by (metis signed_0 signed_eq_0_iff)

text \<open>
  C40: the test for an IEEE type compares a member of the enum with its number, so in Python no type is an
  IEEE type and every type has NaNs, while C++ decides both as intended. The names of the two sides agree
  but for this: a type that C++ takes for an IEEE type is named in Python with the suffix \<open>n\<close> of a
  non-standard encoding.
\<close>
theorem scalar_names_differ:
  assumes "typed st"
  shows "\<not> is_ieee_754 st \<and> has_nans st \<and>
    (cpp_is_ieee_754 (to_cpp st) \<longleftrightarrow> exponent st \<noteq> 0 \<and> \<not> finite_values_only st \<and> nan_repr st = NAN_IEEE_754) \<and>
    (cpp_has_nans (to_cpp st) \<longleftrightarrow> exponent st \<noteq> 0 \<and> nan_repr st \<noteq> NAN_NONE) \<and>
    (cpp_has_infs (to_cpp st) \<longleftrightarrow> exponent st \<noteq> 0 \<and> has_infs st) \<and>
    scalar_str st = cpp_str (to_cpp st) @ (if cpp_is_ieee_754 (to_cpp st) then ''n'' else [])"
  using typed_uint [OF assms] to_cpp_floating [OF assms] to_cpp_size [OF assms] to_cpp_bias [OF assms] to_cpp_nan [of st]
  by (simp add: is_ieee_754_def has_nans_def has_infs_def cpp_is_ieee_754_def cpp_has_nans_def cpp_has_infs_def
      scalar_str_def cpp_str_def has_bias_def is_floating_point_def)

theorem scalar_names_differ_witness:
  "let st = \<lparr>exponent = 5, mantissa = 10, st_signed = True, bias = 0, finite_values_only = False,
             nan_repr = NAN_IEEE_754\<rparr> in
   typed st \<and> cpp_is_ieee_754 (to_cpp st) \<and> scalar_str st = cpp_str (to_cpp st) @ ''n''"
proof -
  let ?st = "\<lparr>exponent = 5, mantissa = 10, st_signed = True, bias = 0, finite_values_only = False,
    nan_repr = NAN_IEEE_754\<rparr>"
  have "typed ?st" by (simp add: typed_def)
  then show ?thesis using scalar_names_differ [of ?st] by (simp add: Let_def)
qed

section \<open>Limits\<close>

fun agrees :: "py_number res \<Rightarrow> cpp_number option \<Rightarrow> bool" where
  \<comment> \<open>the same number, or an exception on both sides\<close>
  "agrees (Inr (IntVal x)) (Some (CppInt w)) \<longleftrightarrow> - (2 ^ 63) \<le> x \<and> x < 2 ^ 63 \<and> w = word_of_int x"
| "agrees (Inr (FloatBits v)) (Some (CppDouble w)) \<longleftrightarrow> v = w"
| "agrees (Inl _) None \<longleftrightarrow> True"
| "agrees _ _ \<longleftrightarrow> False"

definition fp_mant :: "scalar_type \<Rightarrow> int" where
  "fp_mant st = 2 ^ nat (mantissa st) - 1 - of_bool (nan_repr st = NAN_EXTD_RANGE_MAX_MIN)"

definition fp_exp :: "scalar_type \<Rightarrow> int" where
  "fp_exp st = 2 ^ (nat (exponent st) - 1) + 1022 + of_bool (nan_repr st \<noteq> NAN_IEEE_754)"

definition fp_raw :: "scalar_type \<Rightarrow> int" where
  "fp_raw st = push_bit (nat (52 - mantissa st)) (fp_mant st) OR push_bit 52 (fp_exp st)"

definition fp_fits :: "scalar_type \<Rightarrow> bool" where
  "fp_fits st \<longleftrightarrow> mantissa st \<le> 52 \<and> exponent st \<le> 11 \<and> (nan_repr st = NAN_IEEE_754 \<or> exponent st < 11)"

lemma half_exp: "0 < e \<Longrightarrow> (2 :: 'a :: comm_ring_1) ^ nat e = 2 ^ (nat e - 1) + 2 ^ (nat e - 1)"
  by (cases "nat e") auto

lemma nan_not_ieee: "nan = NAN_EXTD_RANGE_MAX_MIN \<or> nan = NAN_NONE \<longleftrightarrow> nan \<noteq> NAN_IEEE_754"
  by (cases nan) auto

lemma max_int_eq:
  assumes "typed st" "0 < exponent st"
  shows "floating_point_max_int st = (if fp_fits st then Inr (fp_raw st) else Inl AssertionError)"
proof (cases "mantissa st \<le> 52 \<and> exponent st \<le> 11")
  case True
  then show ?thesis
    using assms half_exp [OF assms(2), where 'a = int] nan_not_ieee [of "nan_repr st"]
    by (simp add: floating_point_max_int_def py_shl_def typed_def fp_fits_def fp_raw_def fp_mant_def fp_exp_def
        ensure_def Let_def push_bit_eq_mult nat_diff_distrib mult.commute add.commute)
next
  case False
  then show ?thesis unfolding fp_fits_def by (auto simp: floating_point_max_int_def ensure_def)
qed

lemma wi_push: "push_bit n (word_of_int x :: 64 word) = word_of_int (push_bit n x)"
  by (simp add: push_bit_eq_mult)

lemma wi_or: "(word_of_int x OR word_of_int y :: 64 word) = word_of_int (x OR y)"
  by (rule bit_word_eqI) (simp add: bit_or_iff bit_word_of_int_iff)

lemma wi_exp: "push_bit n (1 :: 64 word) = word_of_int (2 ^ n)"
  by (simp add: push_bit_eq_mult)

lemma to_cpp_unat:
  assumes "typed st"
  shows "unat (cpp_exponent (to_cpp st)) = nat (exponent st)" "unat (cpp_mantissa (to_cpp st)) = nat (mantissa st)"
  using typed_uint [OF assms] by (simp_all flip: nat_uint_eq)

lemma to_cpp_bounds:
  assumes "typed st"
  shows "cpp_mantissa (to_cpp st) \<le> 52 \<longleftrightarrow> mantissa st \<le> 52" "cpp_exponent (to_cpp st) \<le> 11 \<longleftrightarrow> exponent st \<le> 11"
    "cpp_exponent (to_cpp st) < 11 \<longleftrightarrow> exponent st < 11"
  using typed_uint [OF assms] by (simp_all add: word_le_def word_less_def)

lemma cpp_max_eq:
  assumes "typed st" "0 < exponent st"
  shows "cpp_floating_point_max (to_cpp st) = (if fp_fits st then Some (word_of_int (fp_raw st)) else None)"
proof -
  let ?m = "push_bit (nat (mantissa st)) 1 - 1 :: 64 word" and ?x = "push_bit (nat (exponent st)) 1 - 2 :: 64 word"
  have m: "(if nan_repr st = NAN_EXTD_RANGE_MAX_MIN then ?m - 1 else ?m) = word_of_int (fp_mant st)"
    by (simp add: wi_exp fp_mant_def)
  have x: "(if nan_repr st = NAN_EXTD_RANGE_MAX_MIN \<or> nan_repr st = NAN_NONE then ?x + 1 else ?x) -
      (push_bit (nat (exponent st) - 1) 1 - 1) + (push_bit 10 1 - 1) = word_of_int (fp_exp st)"
    using half_exp [OF assms(2), where 'a = "64 word"] nan_not_ieee [of "nan_repr st"]
    by (simp add: push_bit_eq_mult fp_exp_def)
  have s: "52 - nat (mantissa st) = nat (52 - mantissa st)" using assms(1) unfolding typed_def by linarith
  have f: "fp_fits st \<longleftrightarrow> (mantissa st \<le> 52 \<and> exponent st \<le> 11) \<and>
      \<not> ((nan_repr st = NAN_EXTD_RANGE_MAX_MIN \<or> nan_repr st = NAN_NONE) \<and> \<not> exponent st < 11)"
    unfolding fp_fits_def nan_not_ieee by blast
  show ?thesis
    unfolding cpp_floating_point_max_def Let_def to_cpp_unat [OF assms(1)] to_cpp_bounds [OF assms(1)] to_cpp_nan
      m x s wi_push wi_or fp_raw_def [symmetric] f
    by auto
qed

lemma fp_exp_range:
  assumes "fp_fits st" "0 < exponent st"
  shows "0 \<le> fp_exp st" "fp_exp st < 2 ^ 11"
proof -
  show "0 \<le> fp_exp st" by (simp add: fp_exp_def)
  have "(2 :: int) ^ (nat (exponent st) - 1) \<le> 2 ^ (if nan_repr st = NAN_IEEE_754 then 10 else 9)"
    using assms by (intro power_increasing) (auto simp: fp_fits_def)
  also have "\<dots> = (if nan_repr st = NAN_IEEE_754 then 1024 else 512)" by simp
  finally show "fp_exp st < 2 ^ 11"
    by (cases "nan_repr st = NAN_IEEE_754") (simp_all add: fp_exp_def del: power_increasing_iff)
qed

lemma fp_raw_range:
  assumes "fp_fits st" "0 < exponent st" "0 \<le> mantissa st"
    and "mantissa st \<noteq> 0 \<or> nan_repr st \<noteq> NAN_EXTD_RANGE_MAX_MIN"
  shows "0 \<le> fp_raw st" "fp_raw st < 2 ^ 63"
proof -
  let ?k = "nat (52 - mantissa st)"
  have "(2 :: int) ^ 1 \<le> 2 ^ nat (mantissa st) \<or> nan_repr st \<noteq> NAN_EXTD_RANGE_MAX_MIN"
    using assms(3,4) by (cases "mantissa st = 0") (auto intro!: power_increasing [of 1, simplified])
  then have m: "0 \<le> fp_mant st" "fp_mant st < 2 ^ nat (mantissa st)" by (auto simp: fp_mant_def)
  have "nat (mantissa st) + ?k = 52" using assms(1,3) unfolding fp_fits_def by linarith
  then have "(2 :: int) ^ nat (mantissa st) * 2 ^ ?k = 2 ^ 52" by (simp flip: power_add)
  moreover have "fp_mant st * 2 ^ ?k < 2 ^ nat (mantissa st) * 2 ^ ?k" using m(2) by simp
  ultimately have hi: "0 \<le> push_bit ?k (fp_mant st)" "push_bit ?k (fp_mant st) < 2 ^ 52"
    using m(1) by (simp_all add: push_bit_eq_mult)
  have lo: "0 \<le> push_bit 52 (fp_exp st)" "push_bit 52 (fp_exp st) < 2 ^ 63"
    using fp_exp_range [OF assms(1,2)] by (simp_all add: push_bit_eq_mult)
  show "0 \<le> fp_raw st" using hi(1) lo(1) by (simp add: fp_raw_def)
  show "fp_raw st < 2 ^ 63" unfolding fp_raw_def by (rule OR_upper) (use hi lo in auto)
qed

lemma fp_raw_no_mantissa:
  assumes "mantissa st = 0" "nan_repr st = NAN_EXTD_RANGE_MAX_MIN"
  shows "fp_raw st = - (2 ^ 52)"
proof -
  have "fp_mant st = - 1" "nat (52 - mantissa st) = 52" using assms by (simp_all add: fp_mant_def)
  then have "fp_raw st = push_bit 52 (- 1 OR fp_exp st)" unfolding fp_raw_def push_bit_or by simp
  then show ?thesis by (simp add: push_bit_eq_mult)
qed

lemma pack_fp_raw:
  assumes "0 \<le> r" "r < 2 ^ 63"
  shows "pack_Q r = Inr (word_of_int r)" "pack_Q (r OR push_bit 63 1) = Inr (word_of_int r OR push_bit 63 1)"
proof -
  show "pack_Q r = Inr (word_of_int r)" using assms by (simp add: pack_Q_def)
  have "r OR push_bit 63 1 < 2 ^ 64" by (rule OR_upper) (use assms in auto)
  moreover have "0 \<le> r OR push_bit 63 1" using assms by simp
  ultimately show "pack_Q (r OR push_bit 63 1) = Inr (word_of_int r OR push_bit 63 1)"
    unfolding pack_Q_def wi_exp wi_or by (simp add: push_bit_eq_mult)
qed

lemma int_max_agrees:
  assumes "typed st" "\<not> is_floating_point st"
  shows "agrees (raw_max st) (cpp_raw_max (to_cpp st))"
proof -
  have m: "0 \<le> mantissa st" "exponent st = 0" using assms by (simp_all add: typed_def is_floating_point_def)
  have p: "(2 :: int) ^ nat (mantissa st) \<le> 2 ^ 63" if "size_bits st < 64 \<or> size_bits st = 64 \<and> st_signed st"
    using that m by (intro power_increasing) (auto simp: size_bits_def of_bool_def split: if_split_asm)
  then have "size_bits st < 64 \<or> size_bits st = 64 \<and> st_signed st \<Longrightarrow> (2 :: int) ^ nat (mantissa st) - 1 < 2 ^ 63"
    by linarith
  moreover have "- (2 ^ 63) \<le> (2 :: int) ^ nat (mantissa st) - 1"
    by (rule order_trans [of _ 0]) simp_all
  ultimately show ?thesis
    using assms m to_cpp_floating [OF assms(1)] to_cpp_size [OF assms(1)] to_cpp_unat [OF assms(1)]
    by (simp add: raw_max_def cpp_raw_max_def py_shl_def ensure_def wi_exp push_bit_eq_mult del: power_numeral power_increasing_iff)
qed

lemma int_min_word:
  assumes "0 < s" "s \<le> 64"
  shows "signed_drop_bit (64 - s) (push_bit 63 1 :: 64 word) = word_of_int (- (2 ^ (s - 1)))"
proof -
  have i: "bit (- (2 ^ (s - 1)) :: int) n \<longleftrightarrow> s - 1 \<le> n" for n
    by (simp add: bit_minus_iff bit_mask_iff mask_eq_exp_minus_1 [symmetric] not_less)
  have w: "bit (push_bit 63 1 :: 64 word) k \<longleftrightarrow> k = 63" for k
    unfolding bit_push_bit_iff bit_1_iff possible_bit_word by auto
  show ?thesis
  proof (rule bit_word_eqI)
    fix n assume "n < LENGTH(64)"
    then show "bit (signed_drop_bit (64 - s) (push_bit 63 1 :: 64 word)) n = bit (word_of_int (- (2 ^ (s - 1))) :: 64 word) n"
      using assms unfolding bit_signed_drop_bit_iff bit_word_of_int_iff w i by auto
  qed
qed

lemma int_min_agrees:
  assumes "typed st" "\<not> is_floating_point st"
  shows "agrees (raw_min st) (cpp_raw_min (to_cpp st))"
proof (cases "st_signed st \<and> size_bits st \<le> 64")
  case True
  let ?s = "nat (size_bits st)"
  have "0 < size_bits st" using assms True by (simp add: typed_def size_bits_def)
  then have s: "0 < ?s" "?s \<le> 64" "nat (64 - size_bits st) = 64 - ?s" "nat (size_bits st - 1) = ?s - 1" "1 \<le> size_bits st"
    using True by linarith+
  have b: "(2 :: int) ^ (?s - 1) \<le> 2 ^ 63" using s(2) by (intro power_increasing) auto
  have "raw_min st = Inr (IntVal (- (2 ^ (?s - 1))))"
    using assms True s(5) by (simp add: raw_min_def py_shl_def push_bit_eq_mult s(4))
  moreover have "cpp_raw_min (to_cpp st) = Some (CppInt (word_of_int (- (2 ^ (?s - 1)))))"
    using assms True to_cpp_floating [OF assms(1)] to_cpp_size [OF assms(1)] int_min_word [OF s(1,2)]
    by (simp add: cpp_raw_min_def s(3))
  moreover have "- (2 ^ (?s - 1)) < (2 :: int) ^ 63"
    by (rule less_trans [of _ 0]) simp_all
  ultimately show ?thesis using b by (simp only: agrees.simps neg_le_iff_le simp_thms)
next
  case False
  then show ?thesis
    using assms to_cpp_floating [OF assms(1)] to_cpp_size [OF assms(1)]
    by (auto simp: raw_min_def cpp_raw_min_def ensure_def)
qed

lemma float_agrees:
  assumes "typed st" "is_floating_point st"
    and "\<not> (fp_fits st \<and> mantissa st = 0 \<and> nan_repr st = NAN_EXTD_RANGE_MAX_MIN)"
  shows "agrees (raw_max st) (cpp_raw_max (to_cpp st))" "agrees (raw_min st) (cpp_raw_min (to_cpp st))"
proof -
  have e: "0 < exponent st" "0 \<le> mantissa st" using assms(1,2) by (simp_all add: typed_def is_floating_point_def)
  note eqs = max_int_eq [OF assms(1) e(1)] cpp_max_eq [OF assms(1) e(1)] to_cpp_floating [OF assms(1)]
  have "fp_fits st \<Longrightarrow> 0 \<le> fp_raw st \<and> fp_raw st < 2 ^ 63" using fp_raw_range [OF _ e] assms(3) by blast
  then have p: "fp_fits st \<Longrightarrow> pack_Q (fp_raw st) = Inr (word_of_int (fp_raw st)) \<and>
      pack_Q (fp_raw st OR push_bit 63 1) = Inr (word_of_int (fp_raw st) OR push_bit 63 1)"
    using pack_fp_raw [of "fp_raw st"] by blast
  show "agrees (raw_max st) (cpp_raw_max (to_cpp st))"
    using p by (cases "fp_fits st") (simp_all add: raw_max_def cpp_raw_max_def eqs assms(2))
  show "agrees (raw_min st) (cpp_raw_min (to_cpp st))"
    using p by (cases "fp_fits st"; cases "st_signed st")
      (simp_all add: raw_min_def cpp_raw_min_def eqs assms(2) del: push_bit_of_1)
qed

text \<open>
  C39: Python and C++ compute the same limits, in a double or a 64 bit integer, and refuse the same types,
  with one exception: for a floating point type without mantissa bits whose NaN takes the largest mantissa,
  the mantissa of the maximum is -1, and Python raises while packing it where C++ wraps around and returns
  the bits of minus infinity.
\<close>
theorem scalar_limits_agree:
  assumes "typed st"
  shows "if 0 < exponent st \<and> exponent st < 11 \<and> mantissa st = 0 \<and> nan_repr st = NAN_EXTD_RANGE_MAX_MIN
    then raw_max st = Inl StructError \<and> cpp_raw_max (to_cpp st) = Some (CppDouble (- (2 ^ 52)))
    else agrees (raw_max st) (cpp_raw_max (to_cpp st)) \<and> agrees (raw_min st) (cpp_raw_min (to_cpp st))"
proof (cases "0 < exponent st \<and> exponent st < 11 \<and> mantissa st = 0 \<and> nan_repr st = NAN_EXTD_RANGE_MAX_MIN")
  case True
  then have f: "fp_fits st" "is_floating_point st" "fp_raw st = - (2 ^ 52)"
    using fp_raw_no_mantissa by (auto simp: fp_fits_def is_floating_point_def)
  then show ?thesis
    using True max_int_eq [OF assms] cpp_max_eq [OF assms] to_cpp_floating [OF assms]
    by (simp add: raw_max_def cpp_raw_max_def pack_Q_def)
next
  case False
  have "\<not> (fp_fits st \<and> mantissa st = 0 \<and> nan_repr st = NAN_EXTD_RANGE_MAX_MIN)" if "is_floating_point st"
    using False that assms by (auto simp: fp_fits_def is_floating_point_def typed_def)
  then show ?thesis
    using False float_agrees [OF assms] int_max_agrees [OF assms] int_min_agrees [OF assms] by auto
qed

theorem scalar_limits_agree_witness:
  "let st = \<lparr>exponent = 8, mantissa = 0, st_signed = False, bias = 0, finite_values_only = True,
             nan_repr = NAN_EXTD_RANGE_MAX_MIN\<rparr>;
       u4 = \<lparr>exponent = 0, mantissa = 4, st_signed = False, bias = 8, finite_values_only = False,
             nan_repr = NAN_IEEE_754\<rparr> in
   raw_max st = Inl StructError \<and> cpp_raw_max (to_cpp st) = Some (CppDouble (- (2 ^ 52))) \<and>
   agrees (raw_max u4) (cpp_raw_max (to_cpp u4)) \<and> raw_max u4 = Inr (IntVal 15)"
proof -
  let ?st = "\<lparr>exponent = 8, mantissa = 0, st_signed = False, bias = 0, finite_values_only = True,
    nan_repr = NAN_EXTD_RANGE_MAX_MIN\<rparr>"
  let ?u4 = "\<lparr>exponent = 0, mantissa = 4, st_signed = False, bias = 8, finite_values_only = False,
    nan_repr = NAN_IEEE_754\<rparr>"
  have "typed ?st" "typed ?u4" by (simp_all add: typed_def)
  moreover have "raw_max ?u4 = Inr (IntVal 15)"
    by (simp add: raw_max_def is_floating_point_def size_bits_def py_shl_def push_bit_eq_mult)
  ultimately show ?thesis using scalar_limits_agree [of ?st] scalar_limits_agree [of ?u4] by (simp add: Let_def)
qed

end
