(* ===== verification/Spec2Isabelle.thy ===== *)
theory Spec2Isabelle
  imports Prelude Free_Queue Request Sched_Utils Heapq Request_Queue Block_Hash Block_Map Block_Pool
    Pool_Invariant Pool_Machine Encoder_Cache Offload_Policy Offload_Manager Offload_Machine Prefix_Hit
    Group_Manager Coordinator KV_Cache_Manager KV_Machine KV_Lookup Ngram_Proposer Scalar_Type
begin

text \<open>
  This library verifies the memory and queue management of the inference engine under \<^verbatim>\<open>src/vllm/v1\<close>: the
  part that decides which request owns which block of the KV cache, what may be shared between requests,
  what is evicted, and which request is served next. The library is a shallow embedding: each Python
  function is a HOL function with the same branches, and mutable objects are records that are passed
  through.

  \<^bold>\<open>The program.\<close> The scheduler keeps waiting requests in a queue and asks the KV cache manager for memory.
  The manager delegates to a coordinator, which owns one manager per KV cache group (layers with the same kind
  of attention) and one block pool that all groups share. The pool keeps reference counts, a free queue
  in eviction order, and a map from block hashes to cached blocks, so that a new request can reuse the blocks
  of a common prefix. The hashes chain the tokens of a request with everything else that influences its KV
  values. Beside this, the encoder cache holds outputs of multimodal encoders, and the offloading manager
  keeps evicted blocks in CPU memory under an LRU or ARC policy. Two further parts stand alone: the n-gram
  proposer, which guesses tokens for speculative decoding, and the descriptions of scalar types that
  are passed to kernels.

  \<^bold>\<open>Conventions.\<close> A Python exception is the left value of the type \<open>res\<close> (\<open>Prelude\<close>); every assert,
  raise, failing index and division by zero of the modelled code is a branch. Dictionaries whose order
  matters are association lists, others are maps. Python integers are \<open>int\<close>, or \<open>nat\<close> where the
  code keeps them non-negative; hash digests are lists of 8 bit words; reference counts of offloaded chunks
  are 32 bit words as in the C structure behind them. Floats are rationals, or
  bit patterns where the code computes them. Objects with identity (blocks of
  the free queue) live in an explicit heap.

  \<^bold>\<open>Theories and sources.\<close>
  \<^item> \<open>Prelude\<close>: exceptions, byte strings, Python slices, \<^verbatim>\<open>cdiv\<close> of \<^verbatim>\<open>utils/math_utils.py\<close>, dictionaries.
  \<^item> \<open>Free_Queue\<close>: \<^verbatim>\<open>KVCacheBlock\<close> and \<^verbatim>\<open>FreeKVCacheBlockQueue\<close> of \<^verbatim>\<open>v1/core/kv_cache_utils.py\<close>, a doubly linked
    list in a heap. Every sequence of operations refines a list (locale \<open>free_block_queue\<close>), and the two
    traversals, which are partial functions, terminate on every well formed queue.
  \<^item> \<open>Request\<close>: \<^verbatim>\<open>v1/request.py\<close> with the placeholder ranges of \<^verbatim>\<open>multimodal/inputs.py\<close>; the status enum is an
    instance of \<open>linorder\<close> in the order of the code.
  \<^item> \<open>Sched_Utils\<close>: \<^verbatim>\<open>v1/core/sched/utils.py\<close>; repetition detection decides its specification and the stop check
    respects all limits.
  \<^item> \<open>Heapq\<close>, \<open>Request_Queue\<close>: the heap algorithms of Python's \<^verbatim>\<open>heapq\<close> and both queues of
    \<^verbatim>\<open>v1/core/sched/request_queue.py\<close>. The locale \<open>scheduling_queue\<close> is the interface \<^verbatim>\<open>RequestQueue\<close>; both queues
    implement it, popped requests are minimal and every added request is popped.
  \<^item> \<open>Block_Hash\<close>: the hashing functions of \<^verbatim>\<open>kv_cache_utils.py\<close> and \<^verbatim>\<open>BlockHashListWithBlockSize\<close>. Equal hashes
    imply equal prefixes, also for coarser views; incremental hashing equals hashing from scratch.
  \<^item> \<open>Block_Map\<close>, \<open>Block_Pool\<close>: \<^verbatim>\<open>BlockHashToBlockMap\<close> and \<^verbatim>\<open>BlockPool\<close> of \<^verbatim>\<open>v1/core/block_pool.py\<close>.
    \<open>Pool_Invariant\<close> has the invariant and the effect of each operation on it; \<open>Pool_Machine\<close> has
    all interleavings of the operations and the functional theorems on lookup, allocation and release.
  \<^item> \<open>Encoder_Cache\<close>: \<^verbatim>\<open>v1/core/encoder_cache_manager.py\<close>; slot accounting over all histories, exactness of
    the admission check.
  \<^item> \<open>Offload_Policy\<close>, \<open>Offload_Manager\<close>, \<open>Offload_Machine\<close>: \<^verbatim>\<open>v1/kv_offload/cpu\<close> and its policies. The
    locale \<open>cache_policy\<close> is the interface of a policy, proved for LRU and ARC; the manager is verified
    once over the locale and its histories are sound for both.
  \<^item> \<open>Prefix_Hit\<close>: the \<^verbatim>\<open>find_longest_cache_hit\<close> functions of \<^verbatim>\<open>v1/core/single_type_kv_cache_manager.py\<close> for full,
    sliding window and chunked local attention, with exactness theorems for the first two.
  \<^item> \<open>Group_Manager\<close>: \<^verbatim>\<open>SingleTypeKVCacheManager\<close> and its subclasses: block tables, counting and allocating
    blocks, copy on write of partially hit blocks, caching, release. The locale \<open>ref_pool\<close> states the laws of
    a pool with reference counts; each operation keeps the references of the tables exact.
  \<^item> \<open>Coordinator\<close>: \<^verbatim>\<open>v1/core/kv_cache_coordinator.py\<close>. The locale \<open>manager_op\<close> lifts an operation of one group to
    all groups; \<open>hit_search\<close> and \<open>dense_search\<close> are what the hybrid lookup needs of the groups. Its loop
    finds the greatest common hit.
  \<^item> \<open>KV_Cache_Manager\<close>: \<^verbatim>\<open>v1/core/kv_cache_manager.py\<close>; the number of blocks that \<^verbatim>\<open>allocate_slots\<close> checks is
    enough for all its stages.
  \<^item> \<open>KV_Machine\<close>: histories of the KV cache manager as a step relation with the references that clients hold.
    Reference counts are exact, nothing leaks, and the tables are well formed in every reachable state.
  \<^item> \<open>KV_Lookup\<close>: lookup followed by allocation on every reachable state.
  \<^item> \<open>Ngram_Proposer\<close>: \<^verbatim>\<open>v1/spec_decode/ngram_proposer.py\<close>; the search returns, and proposes what follows the
    earliest occurrence of the longest n-gram, independently of what the reused buffers hold.
  \<^item> \<open>Scalar_Type\<close>: \<^verbatim>\<open>scalar_type.py\<close> and its C++ counterpart \<^verbatim>\<open>csrc/core/scalar_type.hpp\<close>, the latter on machine
    words; ids, limits and names of both sides are compared.

  \<^bold>\<open>Parameters.\<close> The hash function and its seed are arguments of the hashing functions; the theorems on hashes
  assume \<open>good_hash\<close> (no collisions, digests that are neither empty nor the seed), which an injective encoding
  satisfies. Arrival times and identifiers of requests, the KV cache groups of a model, the number of blocks, the
  watermark in blocks and the report mode of a request are arguments too.

  \<^bold>\<open>Termination and bounds.\<close> No definition uses fuel. Loops over the linked list are partial functions in the
  option type, proved to return on well formed queues, and so is the n-gram search, proved to return on
  every input; the loop of the hybrid lookup terminates because its
  candidate length decreases; all other recursions are structural or have a measure. The theorems on
  offloading assume reference counts below the range of 32 bits where they increment them. Group ids are below 2 to
  the power of 32, the width into which the code packs them.

  \<^bold>\<open>What the hypotheses mean.\<close> \<open>slot_ok\<close> is what the scheduler guarantees when it calls \<^verbatim>\<open>allocate_slots\<close>; the last
  theory shows that the result of a lookup satisfies it. \<open>kind_ok\<close> excludes empty windows and chunks.
  \<open>plain_groups\<close> and \<open>lookup_kinds\<close> describe groups of full attention and sliding windows without EAGLE
  and context parallelism, the setting of the exactness theorem for hybrid models.

  \<^bold>\<open>Not modelled.\<close> The step of the scheduler itself (\<^verbatim>\<open>v1/core/sched/scheduler.py\<close>) composes the parts above with
  speculative decoding, structured output, connectors and limits whose state lives in other processes or
  libraries. The Mamba manager checkpoints recurrent states whose contents the forward pass of the worker
  moves, so its block bookkeeping is only meaningful together with device code; the fine grained hits that it
  enables occur as a flag that is off in the constructors. The attention sink manager, lookups for KV
  connectors and the metrics collectors are left out. The limits of scalar types are modelled before the bias
  is subtracted. Start-up sizing of the pool depends on profiled memory
  and tensor layouts; its results are arguments. Workers, kernels, attention backends, models, samplers,
  tokenizers, servers, configuration and all network transfers are I/O or tensor computations in other
  libraries, of which the modelled code only receives numbers.
\<close>

end
